(* ===== verification/Prelude.thy ===== *)
theory Prelude
  imports Main "HOL-Library.Word" "HOL-Library.List_Lexorder" "HOL-Library.Char_ord"
begin

text \<open>
  What the component theories share: the machine types of the program, the associative containers
  of the C++ standard library that the program uses (an ordered map and an ordered multimap, both
  as lists of key/value pairs in iteration order), and the lemmas about them.

  A container iterator is modelled by the key (map) or by the position (list, vector) it points
  at. Iterators of the ordered containers stay valid while other elements are inserted and erased,
  and so do keys.
\<close>

section \<open>Machine types\<close>

type_synonym ulong = "64 word"

abbreviation ULONG_MAX :: ulong where
  "ULONG_MAX \<equiv> - 1"

named_theorems smap_simps \<open>sets of entries and sortedness after the operations of an ordered map\<close>

section \<open>Neighbours of a machine word\<close>

lemma word_le_minus_one_iff: "0 < (l :: 'a::len word) \<Longrightarrow> x \<le> l - 1 \<longleftrightarrow> x < l"
  by uint_arith

lemma word_plus_one_le_iff: "(h :: 'a::len word) \<noteq> - 1 \<Longrightarrow> h + 1 \<le> x \<longleftrightarrow> h < x"
  by (metis inc_less_eq_iff)

lemma word_minus_one_less: "0 < (l :: 'a::len word) \<Longrightarrow> l - 1 < l"
  by uint_arith

lemma word_less_plus_one: "(h :: 'a::len word) \<noteq> - 1 \<Longrightarrow> h < h + 1"
  by (metis word_plus_one_le_iff order_refl)

lemma word_less_imp_not_max: "(a :: 'a::len word) < b \<Longrightarrow> a \<noteq> - 1"
  by auto

section \<open>An ordered map: entries sorted by key\<close>

text \<open>The standard containers, as far as the program uses them. A well-formed map has strictly
  increasing keys.\<close>

definition smap_ok :: "('k::linorder \<times> 'v) list \<Rightarrow> bool" where
  "smap_ok m \<longleftrightarrow> sorted_wrt (<) (map fst m)"

text \<open>\<open>m[k] = v\<close>: overwrite the entry or add one.\<close>

fun smap_put :: "('k::linorder \<times> 'v) list \<Rightarrow> 'k \<Rightarrow> 'v \<Rightarrow> ('k \<times> 'v) list" where
  "smap_put [] k v = [(k, v)]"
| "smap_put ((k', v') # m) k v =
     (if k < k' then (k, v) # (k', v') # m
      else if k = k' then (k, v) # m
      else (k', v') # smap_put m k v)"

text \<open>\<open>m.insert(value_type(k, v))\<close>: keep an entry that is there.\<close>

definition smap_insert :: "('k::linorder \<times> 'v) list \<Rightarrow> 'k \<Rightarrow> 'v \<Rightarrow> ('k \<times> 'v) list" where
  "smap_insert m k v = (if map_of m k = None then smap_put m k v else m)"

definition smap_erase :: "('k::linorder \<times> 'v) list \<Rightarrow> 'k \<Rightarrow> ('k \<times> 'v) list" where
  "smap_erase m k = filter (\<lambda>p. fst p \<noteq> k) m"

text \<open>\<open>m.lower_bound(k)\<close>: the first entry whose key is at least \<open>k\<close>, or \<open>m.end()\<close>.\<close>

definition smap_lb :: "('k::linorder \<times> 'v) list \<Rightarrow> 'k \<Rightarrow> ('k \<times> 'v) option" where
  "smap_lb m k = find (\<lambda>p. k \<le> fst p) m"

lemma smap_ok_Nil [simp]: "smap_ok []"
  by (simp add: smap_ok_def)

lemma smap_ok_Cons: "smap_ok (p # m) \<longleftrightarrow> (\<forall>q \<in> set m. fst p < fst q) \<and> smap_ok m"
  by (auto simp: smap_ok_def)

lemma smap_ok_append:
  "smap_ok (m @ m') \<longleftrightarrow> smap_ok m \<and> smap_ok m' \<and> (\<forall>p \<in> set m. \<forall>q \<in> set m'. fst p < fst q)"
  by (auto simp: smap_ok_def sorted_wrt_append)

lemma smap_ok_unique:
  "smap_ok m \<Longrightarrow> (k, v) \<in> set m \<Longrightarrow> (k, w) \<in> set m \<Longrightarrow> v = w"
  by (induction m) (auto simp: smap_ok_Cons)

lemma smap_ok_distinct: "smap_ok m \<Longrightarrow> distinct (map fst m)"
  by (auto simp: smap_ok_def strict_sorted_iff)

lemma smap_of_mem: "smap_ok m \<Longrightarrow> map_of m k = Some v \<longleftrightarrow> (k, v) \<in> set m"
  by (simp add: smap_ok_distinct)

lemma smap_of_None: "map_of m k = None \<longleftrightarrow> (\<forall>p \<in> set m. fst p \<noteq> k)"
  by (auto simp: map_of_eq_None_iff)

lemma set_smap_put [smap_simps]:
  "smap_ok m \<Longrightarrow> set (smap_put m k v) = insert (k, v) {p \<in> set m. fst p \<noteq> k}"
  by (induction m k v rule: smap_put.induct) (auto simp: smap_ok_Cons)

lemma smap_ok_put [smap_simps, intro]: "smap_ok m \<Longrightarrow> smap_ok (smap_put m k v)"
  by (induction m k v rule: smap_put.induct) (auto simp: smap_ok_Cons set_smap_put)

lemma map_of_smap_put: "smap_ok m \<Longrightarrow> map_of (smap_put m k v) = (map_of m)(k \<mapsto> v)"
  by (induction m k v rule: smap_put.induct) (auto simp: smap_ok_Cons fun_eq_iff map_of_eq_None_iff)

lemma set_smap_erase [smap_simps]: "set (smap_erase m k) = {p \<in> set m. fst p \<noteq> k}"
  by (auto simp: smap_erase_def)

lemma smap_ok_erase [smap_simps, intro]: "smap_ok m \<Longrightarrow> smap_ok (smap_erase m k)"
  by (induction m) (auto simp: smap_erase_def smap_ok_Cons)

lemma map_of_smap_erase: "map_of (smap_erase m k) = (map_of m)(k := None)"
  by (induction m) (auto simp: smap_erase_def fun_eq_iff)

lemma map_of_smap_insert:
  "smap_ok m \<Longrightarrow> map_of (smap_insert m k v) =
     (case map_of m k of None \<Rightarrow> (map_of m)(k \<mapsto> v) | Some _ \<Rightarrow> map_of m)"
  by (auto simp: smap_insert_def map_of_smap_put split: option.splits)

lemma smap_ok_insert [smap_simps, intro]: "smap_ok m \<Longrightarrow> smap_ok (smap_insert m k v)"
  by (auto simp: smap_insert_def)

lemma smap_lb_Nil [simp]: "smap_lb [] k = None"
  by (simp add: smap_lb_def)

lemma smap_lb_None: "smap_lb m k = None \<longleftrightarrow> (\<forall>p \<in> set m. fst p < k)"
  by (auto simp: smap_lb_def find_None_iff not_le)

lemma smap_lb_Some:
  "smap_ok m \<Longrightarrow> smap_lb m k = Some p \<longleftrightarrow>
     p \<in> set m \<and> k \<le> fst p \<and> (\<forall>q \<in> set m. k \<le> fst q \<longrightarrow> fst p \<le> fst q)"
proof (induction m)
  case Nil
  then show ?case by (simp add: smap_lb_def)
next
  case (Cons a m)
  then show ?case
    by (cases "k \<le> fst a") (auto simp: smap_lb_def smap_ok_Cons)
qed

section \<open>An ordered multimap: insertion after the last equal key\<close>

fun mmap_insert :: "('k::linorder \<times> 'v) list \<Rightarrow> 'k \<Rightarrow> 'v \<Rightarrow> ('k \<times> 'v) list" where
  "mmap_insert [] k v = [(k, v)]"
| "mmap_insert ((k', v') # m) k v =
     (if k < k' then (k, v) # (k', v') # m else (k', v') # mmap_insert m k v)"

definition mmap_ok :: "('k::linorder \<times> 'v) list \<Rightarrow> bool" where
  "mmap_ok m \<longleftrightarrow> sorted (map fst m)"

text \<open>\<open>m.equal_range(k)\<close>, in iteration order.\<close>

definition mmap_equal_range :: "('k::linorder \<times> 'v) list \<Rightarrow> 'k \<Rightarrow> 'v list" where
  "mmap_equal_range m k = map snd (filter (\<lambda>p. fst p = k) m)"

lemma set_mmap_insert [simp]: "set (mmap_insert m k v) = insert (k, v) (set m)"
  by (induction m k v rule: mmap_insert.induct) auto

lemma length_mmap_insert [simp]: "length (mmap_insert m k v) = Suc (length m)"
  by (induction m k v rule: mmap_insert.induct) auto

lemma mmap_ok_insert [intro]: "mmap_ok m \<Longrightarrow> mmap_ok (mmap_insert m k v)"
  by (induction m k v rule: mmap_insert.induct) (auto simp: mmap_ok_def)

lemma mmap_ok_Nil [simp]: "mmap_ok []"
  by (simp add: mmap_ok_def)

lemma filter_key_above:
  "\<forall>x \<in> set m. (a :: 'k::linorder) \<le> fst x \<Longrightarrow> b < a \<Longrightarrow> filter (\<lambda>p. fst p = b) m = []"
  by (auto simp: filter_empty_conv)

lemma mmap_equal_range_insert:
  "mmap_ok m \<Longrightarrow> mmap_equal_range (mmap_insert m k v) k' =
     mmap_equal_range m k' @ (if k' = k then [v] else [])"
  by (induction m k v rule: mmap_insert.induct)
    (auto simp: mmap_equal_range_def mmap_ok_def filter_key_above)

end
