(* ===== verification/Nrange.thy ===== *)
theory Nrange
  imports Prelude
begin

text \<open>
  Component: \<open>c_nrange\<close> of nrange.h and nrange.cc, a set of article numbers stored as disjoint
  ranges in a \<open>map<ulong, ulong>\<close> with the high end of a range as the key and the low end as the
  value. The operations are translated with their 64-bit arithmetic and their guards against
  wrap-around; iterators are keys. The second half gives the set a range map stands for, the
  well-formedness invariant (ranges disjoint and never adjacent), and the effect of every operation
  on both.
\<close>

section \<open>State and operations\<close>

text \<open>\<open>t_rlist\<close>: entries \<open>(high, low)\<close>, sorted by \<open>high\<close>.\<close>

type_synonym rlist = "(ulong \<times> ulong) list"

abbreviation varmin :: ulong where
  "varmin \<equiv> 0"

abbreviation varmax :: ulong where
  "varmax \<equiv> ULONG_MAX"

definition nr_get_total :: "rlist \<Rightarrow> ulong" where
  "nr_get_total r = foldl (\<lambda>tot (h, l). tot + (h - l + 1)) 0 r"

text \<open>\<open>low()\<close> and \<open>high()\<close> throw on an empty range.\<close>

definition nr_low :: "rlist \<Rightarrow> ulong option" where
  "nr_low r = (case r of [] \<Rightarrow> None | (h, l) # _ \<Rightarrow> Some l)"

definition nr_high :: "rlist \<Rightarrow> ulong option" where
  "nr_high r = (if r = [] then None else Some (fst (last r)))"

definition nr_num_ranges :: "rlist \<Rightarrow> nat" where
  "nr_num_ranges r = length r"

definition nr_empty :: "rlist \<Rightarrow> bool" where
  "nr_empty r \<longleftrightarrow> r = []"

definition nr_check :: "rlist \<Rightarrow> ulong \<Rightarrow> bool" where
  "nr_check r n = (case smap_lb r n of Some (h, l) \<Rightarrow> l \<le> n | None \<Rightarrow> False)"

text \<open>The tail of \<open>insert(n)\<close>, reached when \<open>n\<close> is in no range yet; \<open>i\<close> is the key of the range
  that has just been extended down to \<open>n\<close>, if any.\<close>

definition nr_insert1_tail :: "rlist \<Rightarrow> ulong \<Rightarrow> ulong option \<Rightarrow> rlist" where
  "nr_insert1_tail r n i =
     (let new_range = (if i = None then smap_put r n n else r)
      in if varmin < n then
           (case map_of r (n - 1) of
              Some jl \<Rightarrow>
                smap_erase (case i of Some hi \<Rightarrow> smap_put r hi jl | None \<Rightarrow> smap_put r n jl) (n - 1)
            | None \<Rightarrow> new_range)
         else new_range)"

definition nr_insert1 :: "rlist \<Rightarrow> ulong \<Rightarrow> rlist" where
  "nr_insert1 r n =
     (case smap_lb r n of
        Some (h, l) \<Rightarrow>
          if l \<le> n then r
          else if l = n + 1 then nr_insert1_tail (smap_put r h n) n (Some h)
          else nr_insert1_tail r n None
      | None \<Rightarrow> nr_insert1_tail r n None)"

text \<open>\<open>rlist.erase(j, i)\<close>: the entries from key \<open>j\<close> up to, not including, key \<open>i\<close>.\<close>

definition nr_erase_span :: "rlist \<Rightarrow> ulong \<Rightarrow> ulong option \<Rightarrow> rlist" where
  "nr_erase_span r j i =
     filter (\<lambda>p. fst p < j \<or> (case i of Some k \<Rightarrow> k \<le> fst p | None \<Rightarrow> False)) r"

definition nr_insert2 :: "rlist \<Rightarrow> ulong \<Rightarrow> ulong \<Rightarrow> rlist" where
  "nr_insert2 r l h =
     (if r = [] then smap_put r h l
      else
        let l1 = (if varmin < l then l - 1 else l);
            h1 = (if h < varmax then h + 1 else h)
        in case smap_lb r l1 of
             None \<Rightarrow> smap_put r h l
           | Some (jh, jl) \<Rightarrow>
               let i = smap_lb r h in
               if i = Some (jh, jl) then
                 (if l < jl then (if h1 < jl then smap_put r h l else smap_put r jh l) else r)
               else
                 let l' = (if jl < l then jl else l);
                     r' = nr_erase_span r jh (map_option fst i)
                 in case i of
                      None \<Rightarrow> smap_put r' h l'
                    | Some (ih, il) \<Rightarrow> if h1 < il then smap_put r' h l' else smap_put r' ih l')"

text \<open>The loop of \<open>remove(l, h)\<close> walks down from its first range; the list holds the range \<open>j\<close> and
  the ranges below it, highest first. A range is read before anything below it is changed.\<close>

fun nr_remove_loop :: "rlist \<Rightarrow> ulong \<Rightarrow> ulong \<Rightarrow> (ulong \<times> ulong) list \<Rightarrow> rlist" where
  "nr_remove_loop r l h [] = r"
| "nr_remove_loop r l h ((jh, jl) # js) =
     (if jh \<le> h then
        (if l \<le> jh then
           nr_remove_loop (smap_erase (if jl < l then smap_put r (l - 1) jl else r) jh) l h js
         else r)
      else if jl \<le> h then
        (if jl < l then smap_put (smap_put r (l - 1) jl) jh (h + 1)
         else nr_remove_loop (smap_put r jh (h + 1)) l h js)
      else nr_remove_loop r l h js)"

definition nr_remove :: "rlist \<Rightarrow> ulong \<Rightarrow> ulong \<Rightarrow> rlist" where
  "nr_remove r l h =
     (if r = [] then r
      else
        case (case smap_lb r h of None \<Rightarrow> smap_lb r l | Some p \<Rightarrow> Some p) of
          None \<Rightarrow> r
        | Some (ih, il) \<Rightarrow> nr_remove_loop r l h (rev (filter (\<lambda>p. fst p \<le> ih) r)))"

definition nr_remove1 :: "rlist \<Rightarrow> ulong \<Rightarrow> rlist" where
  "nr_remove1 r n = nr_remove r n n"

text \<open>\<open>clip_to_max_total\<close> walks the ranges from the top; the list holds the ones still to visit.\<close>

fun nr_clip_loop :: "rlist \<Rightarrow> ulong \<Rightarrow> ulong \<Rightarrow> (ulong \<times> ulong) list \<Rightarrow> rlist" where
  "nr_clip_loop r num tot [] = r"
| "nr_clip_loop r num tot ((h, l) # is) =
     (let c = h - l + 1;
          tot' = tot + c
      in if num \<le> tot' then
           (let ofs = tot' - num;
                newlow = l + ofs
            in case nr_low r of
                 None \<Rightarrow> r
               | Some lw \<Rightarrow> if lw \<noteq> newlow then nr_remove r lw (newlow - 1) else r)
         else nr_clip_loop r num tot' is)"

definition nr_clip_to_max_total :: "rlist \<Rightarrow> ulong \<Rightarrow> rlist" where
  "nr_clip_to_max_total r num = nr_clip_loop r num 0 (rev r)"

fun nr_invert_loop :: "rlist \<Rightarrow> ulong \<Rightarrow> (ulong \<times> ulong) list \<Rightarrow> rlist \<times> ulong" where
  "nr_invert_loop a n [] = (a, n)"
| "nr_invert_loop a n ((h, l) # is) =
     nr_invert_loop (if n \<noteq> l then nr_insert2 a n (l - 1) else a) (h + 1) is"

text \<open>\<open>a.invert(r)\<close> adds the complement of \<open>r\<close> to \<open>a\<close>.\<close>

definition nr_invert :: "rlist \<Rightarrow> rlist \<Rightarrow> rlist" where
  "nr_invert a r =
     (if r = [] then nr_insert2 a varmin varmax
      else let (a', n) = nr_invert_loop a varmin r
           in if n \<noteq> varmin then nr_insert2 a' n varmax else a')"

definition nr_clear :: "rlist \<Rightarrow> rlist" where
  "nr_clear r = []"

section \<open>The set of numbers and the invariant\<close>

text \<open>\<open>nr_set r\<close> are the numbers in \<open>r\<close>. \<open>nr_ok r\<close>: keys increase, each range has its low end below
  its high end, and there is at least one number between two ranges (adjacent ranges are merged).\<close>

definition nr_set :: "rlist \<Rightarrow> ulong set" where
  "nr_set r = (\<Union>p \<in> set r. {snd p..fst p})"

definition nr_gap :: "ulong \<Rightarrow> ulong \<Rightarrow> bool" where
  "nr_gap h l \<longleftrightarrow> h < l \<and> h + 1 \<noteq> l"

definition nr_ok :: "rlist \<Rightarrow> bool" where
  "nr_ok r \<longleftrightarrow> smap_ok r \<and> (\<forall>p \<in> set r. snd p \<le> fst p) \<and>
     (\<forall>p \<in> set r. \<forall>q \<in> set r. fst p < fst q \<longrightarrow> nr_gap (fst p) (snd q))"

lemma nr_gap_nat: "nr_gap h l \<longleftrightarrow> unat h + 1 < unat l"
  unfolding nr_gap_def by unat_arith

lemma nr_set_Nil [simp]: "nr_set [] = {}" "nr_ok []"
  by (auto simp: nr_set_def nr_ok_def)

lemma mem_nr_set: "x \<in> nr_set r \<longleftrightarrow> (\<exists>p \<in> set r. snd p \<le> x \<and> x \<le> fst p)"
  by (auto simp: nr_set_def)

lemma nr_okI:
  assumes "smap_ok r" "\<And>p. p \<in> set r \<Longrightarrow> snd p \<le> fst p"
    "\<And>p q. p \<in> set r \<Longrightarrow> q \<in> set r \<Longrightarrow> fst p < fst q \<Longrightarrow> nr_gap (fst p) (snd q)"
  shows "nr_ok r"
  using assms by (auto simp: nr_ok_def)

lemma nr_ok_smap: "nr_ok r \<Longrightarrow> smap_ok r"
  by (simp add: nr_ok_def)

lemma nr_ok_le: "nr_ok r \<Longrightarrow> p \<in> set r \<Longrightarrow> snd p \<le> fst p"
  by (simp add: nr_ok_def)

lemma nr_ok_gap:
  "nr_ok r \<Longrightarrow> p \<in> set r \<Longrightarrow> q \<in> set r \<Longrightarrow> fst p < fst q \<Longrightarrow> nr_gap (fst p) (snd q)"
  unfolding nr_ok_def by blast

lemma nr_ok_unique: "nr_ok r \<Longrightarrow> p \<in> set r \<Longrightarrow> q \<in> set r \<Longrightarrow> fst p = fst q \<Longrightarrow> p = q"
  by (metis nr_ok_smap prod.collapse smap_ok_unique)

lemma nr_ok_join:
  assumes ok: "nr_ok r" and s: "smap_ok r'" and r': "set r' = insert (b, a) K" and K: "K \<subseteq> set r"
    and ab: "a \<le> b" and gap: "\<And>p. p \<in> K \<Longrightarrow> nr_gap (fst p) a \<or> nr_gap b (snd p)"
  shows "nr_ok r'"
proof (rule nr_okI [OF s])
  show le: "snd p \<le> fst p" if "p \<in> set r'" for p
    using that ab K nr_ok_le [OF ok] unfolding r' by auto
  fix p q assume p: "p \<in> set r'" and q: "q \<in> set r'" and lt: "fst p < fst q"
  consider "p = (b, a)" "q \<in> K" | "p \<in> K" "q = (b, a)" | "p \<in> K" "q \<in> K"
    using p q lt unfolding r' by auto
  then show "nr_gap (fst p) (snd q)"
  proof cases
    case 1
    then show ?thesis using gap [OF 1(2)] lt ab by (auto simp: nr_gap_def)
  next
    case 2
    then show ?thesis using gap [OF 2(1)] le [OF p] lt by (auto simp: nr_gap_def)
  next
    case 3
    then show ?thesis using K nr_ok_gap [OF ok _ _ lt] by blast
  qed
qed

lemma nr_set_join: "set r' = insert (b, a) K \<Longrightarrow> nr_set r' = {a..b} \<union> (\<Union>p \<in> K. {snd p..fst p})"
  by (auto simp: nr_set_def)

lemma nr_lb_Some:
  assumes ok: "nr_ok r" and lb: "smap_lb r n = Some (h, l)"
  shows "(h, l) \<in> set r" "n \<le> h" "l \<le> h"
    "p \<in> set r \<Longrightarrow> p = (h, l) \<or> nr_gap h (snd p) \<or> fst p < n \<and> nr_gap (fst p) l"
proof -
  note lb' = lb [unfolded smap_lb_Some [OF nr_ok_smap [OF ok]]]
  show hl: "(h, l) \<in> set r" and "n \<le> h" using lb' by auto
  then show "l \<le> h" using nr_ok_le [OF ok hl] by simp
  show "p = (h, l) \<or> nr_gap h (snd p) \<or> fst p < n \<and> nr_gap (fst p) l" if p: "p \<in> set r"
  proof (cases "fst p" h rule: linorder_cases)
    case less
    then have "fst p < n" using lb' p by (auto simp: not_le [symmetric])
    with less show ?thesis using nr_ok_gap [OF ok p hl] by simp
  next
    case equal
    then show ?thesis using nr_ok_unique [OF ok p hl] by simp
  next
    case greater
    then show ?thesis using nr_ok_gap [OF ok hl p] by simp
  qed
qed

lemma nr_check_iff: assumes ok: "nr_ok r" shows "nr_check r n \<longleftrightarrow> n \<in> nr_set r"
proof (cases "smap_lb r n")
  case None
  then have "\<not> nr_check r n" and "\<forall>p \<in> set r. fst p < n"
    by (simp_all add: nr_check_def flip: smap_lb_None)
  then show ?thesis by (auto simp: mem_nr_set not_le [symmetric])
next
  case (Some p)
  obtain h l where hl: "p = (h, l)" by (cases p)
  note lb = nr_lb_Some [OF ok Some [unfolded hl]]
  have "l \<le> n" if "q \<in> set r" "snd q \<le> n" "n \<le> fst q" for q
    using lb(4) [OF that(1)] that(2,3) lb(2) by (auto simp: nr_gap_def)
  then have "l \<le> n \<longleftrightarrow> n \<in> nr_set r" using lb(1,2) by (force simp: mem_nr_set)
  then show ?thesis using Some hl by (simp add: nr_check_def)
qed


lemma nr_gap_pred: "nr_gap h n \<or> h = n - 1" if "h < n"
  using that unfolding nr_gap_def by uint_arith

lemma nr_gap_trans: "nr_gap h l \<Longrightarrow> l \<le> k \<Longrightarrow> nr_gap h k"
  unfolding nr_gap_nat by unat_arith

lemma nr_gap_le: "nr_gap h l \<Longrightarrow> k \<le> h \<Longrightarrow> nr_gap k l"
  unfolding nr_gap_nat by unat_arith

section \<open>insert(n)\<close>

lemma smap_set_absorb:
  "smap_ok m \<Longrightarrow> (k, v) \<in> set m \<Longrightarrow> insert (k, v) {p \<in> set m. fst p \<noteq> k} = set m"
  by (auto dest: smap_ok_unique)

definition nr_below :: "rlist \<Rightarrow> ulong \<Rightarrow> ulong option" where
  "nr_below r n = (if varmin < n then map_of r (n - 1) else None)"

lemma nr_insert1_tail_shape:
  assumes s: "smap_ok r" and i: "i = None \<and> b = n \<or> i = Some b \<and> (b, n) \<in> set r" and nb: "n \<le> b"
  shows "smap_ok (nr_insert1_tail r n i)"
    and "set (nr_insert1_tail r n i) =
      (case nr_below r n of
         None \<Rightarrow> insert (b, n) {p \<in> set r. fst p \<noteq> b}
       | Some a \<Rightarrow> insert (b, a) {p \<in> set r. fst p \<noteq> b \<and> fst p \<noteq> n - 1})"
proof -
  have nb1: "n - 1 \<noteq> b" if "0 < n" using word_minus_one_less [OF that] nb by auto
  show "smap_ok (nr_insert1_tail r n i)"
    using s by (auto simp: nr_insert1_tail_def Let_def smap_simps split: option.splits)
  show "set (nr_insert1_tail r n i) =
      (case nr_below r n of
         None \<Rightarrow> insert (b, n) {p \<in> set r. fst p \<noteq> b}
       | Some a \<Rightarrow> insert (b, a) {p \<in> set r. fst p \<noteq> b \<and> fst p \<noteq> n - 1})"
  proof (cases "nr_below r n")
    case None
    then have "nr_insert1_tail r n i = (if i = None then smap_put r n n else r)"
      by (auto simp: nr_insert1_tail_def nr_below_def split: if_splits)
    with None i show ?thesis by (auto simp: set_smap_put [OF s] dest: smap_ok_unique [OF s])
  next
    case (Some a)
    then have "nr_insert1_tail r n i = smap_erase (smap_put r b a) (n - 1)" and "0 < n"
      using i by (auto simp: nr_insert1_tail_def nr_below_def split: if_splits option.splits)
    with Some nb1 show ?thesis by (auto simp: smap_simps set_smap_put [OF s])
  qed
qed

lemma nr_below_Some: "smap_ok r \<Longrightarrow> nr_below r n = Some a \<longleftrightarrow> 0 < n \<and> (n - 1, a) \<in> set r"
  by (auto simp: nr_below_def smap_of_mem)

text \<open>A range not containing \<open>n\<close> lies above it or below it.\<close>

lemma nr_side:
  "nr_ok r \<Longrightarrow> n \<notin> nr_set r \<Longrightarrow> p \<in> set r \<Longrightarrow> n < snd p \<or> fst p < n"
  by (auto simp: mem_nr_set not_le [symmetric])

lemma nr_insert1_shape:
  assumes ok: "nr_ok r" and out: "n \<notin> nr_set r"
  obtains b where "n \<le> b" "smap_ok (nr_insert1 r n)"
    "b = n \<and> (\<forall>p \<in> set r. snd p \<noteq> n + 1 \<or> fst p < n) \<or> (b, n + 1) \<in> set r \<and> n < b"
    "set (nr_insert1 r n) =
      (case nr_below r n of
         None \<Rightarrow> insert (b, n) {p \<in> set r. fst p \<noteq> b}
       | Some a \<Rightarrow> insert (b, a) {p \<in> set r. fst p \<noteq> b \<and> fst p \<noteq> n - 1})"
proof -
  note s = nr_ok_smap [OF ok]
  show ?thesis
  proof (cases "\<exists>h. smap_lb r n = Some (h, n + 1)")
    case True
    then obtain h where h: "smap_lb r n = Some (h, n + 1)" by blast
    note lb = nr_lb_Some [OF ok h]
    have nh: "n < h" using lb(1,2) nr_side [OF ok out lb(1)] lb(3) by auto
    then have "n < n + 1" using nh by (metis word_less_plus_one word_less_imp_not_max) 
    then have eq: "nr_insert1 r n = nr_insert1_tail (smap_put r h n) n (Some h)"
      using h by (simp add: nr_insert1_def not_le [symmetric])
    have bl: "nr_below (smap_put r h n) n = nr_below r n"
      using nh s word_minus_one_less [of n] by (auto simp: nr_below_def map_of_smap_put)
    note sh = nr_insert1_tail_shape [of "smap_put r h n" "Some h" h n, OF smap_ok_put [OF s] _ lb(2)]
    show ?thesis
      by (rule that [of h]) (use sh nh lb(1) in \<open>auto simp: eq bl set_smap_put [OF s] split: option.splits\<close>)
  next
    case False
    then have eq: "nr_insert1 r n = nr_insert1_tail r n None"
      using nr_lb_Some [OF ok] out
      by (auto simp: nr_insert1_def mem_nr_set split: option.splits) (metis fst_conv snd_conv)
    have "\<forall>p \<in> set r. snd p \<noteq> n + 1 \<or> fst p < n"
    proof (intro ballI)
      fix p assume p: "p \<in> set r"
      show "snd p \<noteq> n + 1 \<or> fst p < n"
      proof (cases "smap_lb r n")
        case None
        then show ?thesis using p by (simp add: smap_lb_None)
      next
        case (Some q)
        then obtain h l where q: "smap_lb r n = Some (h, l)" by (cases q) auto
        note lb = nr_lb_Some [OF ok q]
        have "n < l" using nr_side [OF ok out lb(1)] lb(2) by auto
        then show ?thesis using lb(4) [OF p] lb(2,3) False q 
          by (auto simp: nr_gap_def) (metis inc_less_eq_iff linorder_not_less order_less_le_trans order_less_imp_le word_less_imp_not_max)
      qed
    qed
    then show ?thesis
      by (intro that [of n]) (use nr_insert1_tail_shape [OF s, of None n n] in \<open>auto simp: eq\<close>)
  qed
qed

lemma nr_set_take:
  assumes ok: "nr_ok r" and p: "(b, l) \<in> set r"
  shows "nr_set r = {l..b} \<union> (\<Union>p \<in> {p \<in> set r. fst p \<noteq> b}. {snd p..fst p})"
proof -
  have "set r = insert (b, l) {p \<in> set r. fst p \<noteq> b}"
    by (rule smap_set_absorb [OF nr_ok_smap [OF ok] p, symmetric])
  then have "nr_set r = (\<Union>p \<in> insert (b, l) {p \<in> set r. fst p \<noteq> b}. {snd p..fst p})"
    unfolding nr_set_def by (rule arg_cong)
  then show ?thesis by simp
qed

lemma word_interval_Suc: "(n :: 'a::len word) < b \<Longrightarrow> {n..b} = insert n {n + 1..b}"
proof (rule set_eqI)
  fix x assume "n < b"
  then have "n + 1 \<le> x \<longleftrightarrow> n < x" by (intro word_plus_one_le_iff word_less_imp_not_max)
  with \<open>n < b\<close> show "x \<in> {n..b} \<longleftrightarrow> x \<in> insert n {n + 1..b}" by auto
qed

lemma word_interval_split:
  "(0 :: 'a::len word) < n \<Longrightarrow> a \<le> n - 1 \<Longrightarrow> n \<le> b \<Longrightarrow> {a..b} = {a..n - 1} \<union> {n..b}"
  by (auto simp: word_le_minus_one_iff)

text \<open>The range that holds \<open>n\<close> after the insertion is \<open>[a, b]\<close>; \<open>K\<close> are the untouched ranges.\<close>

lemma nr_insert1_cover:
  assumes ok: "nr_ok r" and out: "n \<notin> nr_set r"
  obtains a b K where "smap_ok (nr_insert1 r n)" "set (nr_insert1 r n) = insert (b, a) K"
    "K \<subseteq> set r" "a \<le> b" "\<And>p. p \<in> K \<Longrightarrow> nr_gap (fst p) a \<or> nr_gap b (snd p)"
    "{a..b} \<union> (\<Union>p \<in> K. {snd p..fst p}) = insert n (nr_set r)"
proof -
  note s = nr_ok_smap [OF ok]
  obtain b where nb: "n \<le> b" and sm: "smap_ok (nr_insert1 r n)"
    and b: "b = n \<and> (\<forall>p \<in> set r. snd p \<noteq> n + 1 \<or> fst p < n) \<or> (b, n + 1) \<in> set r \<and> n < b"
    and st: "set (nr_insert1 r n) =
      (case nr_below r n of
         None \<Rightarrow> insert (b, n) {p \<in> set r. fst p \<noteq> b}
       | Some a \<Rightarrow> insert (b, a) {p \<in> set r. fst p \<noteq> b \<and> fst p \<noteq> n - 1})"
    by (rule nr_insert1_shape [OF ok out])
  have up: "nr_gap b (snd p)" if p: "p \<in> set r" "fst p \<noteq> b" "n < snd p" for p
    using b
  proof
    assume "b = n \<and> (\<forall>p \<in> set r. snd p \<noteq> n + 1 \<or> fst p < n)"
    then show ?thesis using p nr_ok_le [OF ok p(1)] by (auto simp: nr_gap_def)
  next
    assume bn: "(b, n + 1) \<in> set r \<and> n < b"
    have "n + 1 \<le> fst p"
      using word_plus_one_le_iff [of n "fst p"] word_less_imp_not_max [of n b] bn p(3)
        nr_ok_le [OF ok p(1)] by auto
    then have "\<not> fst p < b"
      using nr_ok_gap [OF ok p(1), of "(b, n + 1)"] bn by (auto simp: nr_gap_def)
    then show ?thesis using p bn nr_ok_gap [OF ok _ p(1), of "(b, n + 1)"] by auto
  qed
  have cover: "{n..b} \<union> (\<Union>p \<in> {p \<in> set r. fst p \<noteq> b}. {snd p..fst p}) = insert n (nr_set r)"
    using b
  proof
    assume "b = n \<and> (\<forall>p \<in> set r. snd p \<noteq> n + 1 \<or> fst p < n)"
    moreover have "fst p \<noteq> n" if "p \<in> set r" for p
      using out that nr_ok_le [OF ok that] by (auto simp: mem_nr_set)
    ultimately show ?thesis by (auto simp: nr_set_def)
  next
    assume "(b, n + 1) \<in> set r \<and> n < b"
    then show ?thesis using nr_set_take [OF ok, of b "n + 1"] word_interval_Suc [of n b] by auto
  qed
  show ?thesis
  proof (cases "nr_below r n")
    case None
    have "nr_gap (fst p) n \<or> nr_gap b (snd p)" if "p \<in> set r" "fst p \<noteq> b" for p
    proof -
      have "fst p \<noteq> n - 1" if lt: "fst p < n"
      proof -
        have "0 < n" using lt by (rule order_le_less_trans [OF word_zero_le])
        then show ?thesis using None \<open>p \<in> set r\<close> by (force simp: nr_below_def map_of_eq_None_iff)
      qed
      then show ?thesis
        using nr_side [OF ok out that(1)] up [OF that] nr_gap_pred [of "fst p" n] by blast
    qed
    moreover have "{n..b} \<union> (\<Union>p \<in> {p \<in> set r. fst p \<noteq> b}. {snd p..fst p}) = insert n (nr_set r)"
      by (rule cover)
    ultimately show ?thesis
      by (intro that [of b n "{p \<in> set r. fst p \<noteq> b}"]) (use None st sm nb in auto)
  next
    case (Some a)
    then have a: "0 < n" "(n - 1, a) \<in> set r" using s by (auto simp: nr_below_Some)
    then have "a \<le> n - 1" using nr_ok_le [OF ok] by fastforce
    then have "a \<le> b" using nb a(1) by (simp add: word_le_minus_one_iff)
    have "nr_gap (fst p) a \<or> nr_gap b (snd p)" if "p \<in> set r" "fst p \<noteq> b" "fst p \<noteq> n - 1" for p
      using nr_side [OF ok out that(1)] up [OF that(1,2)] nr_ok_gap [OF ok that(1) a(2)] that(3) a(1)
      by (auto simp: word_le_minus_one_iff order_less_le)
    moreover have "{a..b} \<union> (\<Union>p \<in> {p \<in> set r. fst p \<noteq> b \<and> fst p \<noteq> n - 1}. {snd p..fst p})
        = insert n (nr_set r)"
    proof -
      have "n - 1 \<noteq> b" using word_minus_one_less [OF a(1)] nb by auto
      then have "{p \<in> set r. fst p \<noteq> b} = insert (n - 1, a) {p \<in> set r. fst p \<noteq> b \<and> fst p \<noteq> n - 1}"
        using a(2) by (auto dest: smap_ok_unique [OF s a(2)])
      then have e1: "(\<Union>p \<in> {p \<in> set r. fst p \<noteq> b}. {snd p..fst p}) =
          {a..n - 1} \<union> (\<Union>p \<in> {p \<in> set r. fst p \<noteq> b \<and> fst p \<noteq> n - 1}. {snd p..fst p})"
        by simp
      have e2: "{a..b} = {a..n - 1} \<union> {n..b}"
        by (rule word_interval_split [OF a(1) \<open>a \<le> n - 1\<close> nb])
      show ?thesis using cover unfolding e1 e2 by (simp only: Un_ac)
    qed
    ultimately show ?thesis
      by (intro that [of b a "{p \<in> set r. fst p \<noteq> b \<and> fst p \<noteq> n - 1}"])
        (use Some st sm \<open>a \<le> b\<close> in auto)
  qed
qed


lemma nr_insert1_in: "nr_ok r \<Longrightarrow> n \<in> nr_set r \<Longrightarrow> nr_insert1 r n = r"
proof -
  assume ok: "nr_ok r" and n: "n \<in> nr_set r"
  then have "nr_check r n" by (simp add: nr_check_iff)
  then show ?thesis by (auto simp: nr_check_def nr_insert1_def split: option.splits)
qed

lemma nr_insert1_ok: "nr_ok (nr_insert1 r n)" if ok: "nr_ok r"
proof (cases "n \<in> nr_set r")
  case False
  show ?thesis by (rule nr_insert1_cover [OF ok False]) (rule nr_ok_join [OF ok])
qed (simp add: nr_insert1_in ok)

lemma nr_insert1_set: "nr_set (nr_insert1 r n) = insert n (nr_set r)" if ok: "nr_ok r"
proof (cases "n \<in> nr_set r")
  case False
  show ?thesis by (rule nr_insert1_cover [OF ok False]) (simp add: nr_set_join)
qed (auto simp: nr_insert1_in ok)

section \<open>insert(l, h)\<close>

lemma smap_ok_span: "smap_ok r \<Longrightarrow> smap_ok (nr_erase_span r j i)"
  by (induction r) (auto simp: nr_erase_span_def smap_ok_Cons)


text \<open>Where the ranges of \<open>r\<close> lie with respect to the merged range \<open>[a, b]\<close>: every range but those
  it swallows keeps a gap, and it swallows nothing that is outside both.\<close>

lemma nr_span_shape:
  "smap_ok r \<Longrightarrow> set (smap_put (nr_erase_span r j i) b a) =
    insert (b, a) {p \<in> set r. fst p \<noteq> b \<and> (fst p < j \<or> (case i of Some k \<Rightarrow> k \<le> fst p | None \<Rightarrow> False))}"
  by (subst set_smap_put [OF smap_ok_span]) (auto simp: nr_erase_span_def)

lemma nr_set_swallow:
  assumes ok: "nr_ok r" and K: "K \<subseteq> set r" and ab: "l \<le> h" "a \<le> l" "h \<le> b"
    and out: "\<And>p. p \<in> set r - K \<Longrightarrow> a \<le> snd p \<and> fst p \<le> b"
    and a: "a = l \<or> (\<exists>p \<in> set r. snd p = a \<and> l - 1 \<le> fst p)"
    and b: "b = h \<or> (\<exists>p \<in> set r. fst p = b \<and> (snd p \<le> h \<or> snd p = h + 1))"
    and l0: "a \<noteq> l \<Longrightarrow> 0 < l" and hm: "b \<noteq> h \<Longrightarrow> h \<noteq> ULONG_MAX"
  shows "{a..b} \<union> (\<Union>p \<in> K. {snd p..fst p}) = {l..h} \<union> nr_set r"
proof -
  have "x \<in> {l..h} \<union> nr_set r" if x: "x \<in> {a..b}" for x
  proof (cases "x < l")
    case True
    then obtain p where p: "p \<in> set r" "snd p = a" "l - 1 \<le> fst p" using a x by auto
    then have "x \<le> fst p" using l0 True a x word_le_minus_one_iff [of l x] by fastforce
    with p x show ?thesis by (auto simp: mem_nr_set)
  next
    case ge: False
    show ?thesis
    proof (cases "h < x")
      case True
      then obtain p where p: "p \<in> set r" "fst p = b" "snd p \<le> h \<or> snd p = h + 1" using b x by auto
      then have "snd p \<le> x" using True hm b x word_plus_one_le_iff [of h x] by fastforce
      with p x show ?thesis by (auto simp: mem_nr_set)
    qed (use ge in auto)
  qed
  moreover have "x \<in> {a..b} \<union> (\<Union>p \<in> K. {snd p..fst p})" if "x \<in> nr_set r" for x
    using that out by (force simp: mem_nr_set)
  moreover have "{l..h} \<subseteq> {a..b}" using ab by auto
  moreover have "(\<Union>p \<in> K. {snd p..fst p}) \<subseteq> nr_set r" using K by (auto simp: nr_set_def)
  ultimately show ?thesis by blast
qed


lemma nr_gap_low: "x < (if varmin < l then l - 1 else l) \<Longrightarrow> nr_gap x l"
  unfolding nr_gap_def by (auto split: if_splits) (uint_arith+)

lemma nr_gap_high: "(if h < varmax then h + 1 else h) < x \<Longrightarrow> nr_gap h x"
  using word_less_plus_one [of h] by (cases "h = varmax") (auto simp: nr_gap_def less_le)

lemma nr_lb_other:
  assumes ok: "nr_ok r" and lb: "smap_lb r n = Some (h, l)" and p: "p \<in> set r"
  shows "fst p < n \<and> fst p < h \<and> nr_gap (fst p) l \<or> p = (h, l) \<or> h < fst p \<and> nr_gap h (snd p)"
proof -
  have "nr_gap h (snd p) \<Longrightarrow> h < fst p"
    using nr_ok_le [OF ok p] by (auto simp: nr_gap_def)
  moreover have "nr_gap (fst p) l \<Longrightarrow> fst p < h"
    using nr_lb_Some(3) [OF ok lb] by (auto simp: nr_gap_def)
  ultimately show ?thesis using nr_lb_Some(4) [OF ok lb p] by blast
qed

lemma nr_insert2_same:
  assumes ok: "nr_ok r" and lh: "l \<le> h"
    and j: "smap_lb r (if varmin < l then l - 1 else l) = Some (jh, jl)" and i: "smap_lb r h = Some (jh, jl)"
    and ljl: "l < jl"
  obtains a b K where "smap_ok (nr_insert2 r l h)" "set (nr_insert2 r l h) = insert (b, a) K"
    "K \<subseteq> set r" "a \<le> b" "\<And>p. p \<in> K \<Longrightarrow> nr_gap (fst p) a \<or> nr_gap b (snd p)"
    "{a..b} \<union> (\<Union>p \<in> K. {snd p..fst p}) = {l..h} \<union> nr_set r"
proof -
  note s = nr_ok_smap [OF ok] and jj = nr_lb_Some(1-3) [OF ok j] and hj = nr_lb_Some(2) [OF ok i]
  have ne: "r \<noteq> []" using jj(1) by auto
  show ?thesis
  proof (cases "(if h < varmax then h + 1 else h) < jl")
    case True
    then have g: "nr_gap h jl" by (rule nr_gap_high)
    have nh: "p \<in> set r \<Longrightarrow> fst p \<noteq> h \<and> (nr_gap (fst p) l \<or> nr_gap h (snd p))" for p
      using nr_lb_other [OF ok j, of p] nr_gap_low [of "fst p" l] nr_gap_le [of jh "snd p" h] g hj lh
        nr_ok_le [OF ok, of p]
      by (auto simp: nr_gap_def split: if_splits)
    have eq: "nr_insert2 r l h = smap_put r h l"
      using ne j i ljl True by (simp add: nr_insert2_def)
    show ?thesis
      by (rule that [of h l "set r"], unfold eq)
        (use s lh nh in \<open>auto simp: set_smap_put nr_set_def\<close>)
  next
    case False
    then have f: "jl \<le> (if h < varmax then h + 1 else h)" by simp
    have gp: "p \<in> set r \<Longrightarrow> fst p \<noteq> jh \<Longrightarrow> nr_gap (fst p) l \<or> nr_gap jh (snd p)" for p
      using nr_lb_other [OF ok j, of p] nr_gap_low [of "fst p" l] by auto
    have eq: "nr_insert2 r l h = smap_put r jh l"
      using ne j i ljl False by (simp add: nr_insert2_def)
    have "{l..jh} \<union> (\<Union>p \<in> {p \<in> set r. fst p \<noteq> jh}. {snd p..fst p}) = {l..h} \<union> nr_set r"
    proof (rule nr_set_swallow [OF ok])
      show "l \<le> snd p \<and> fst p \<le> jh" if "p \<in> set r - {p \<in> set r. fst p \<noteq> jh}" for p
        using that nr_ok_unique [OF ok _ jj(1), of p] ljl by auto
      show "jh = h \<or> (\<exists>p \<in> set r. fst p = jh \<and> (snd p \<le> h \<or> snd p = h + 1))"
        using jj(1) f word_plus_one_le_iff [of h jl]
        by (intro disjI2 bexI [of _ "(jh, jl)"]) (auto simp: not_less [symmetric] split: if_splits)
      show "h \<noteq> varmax" if "jh \<noteq> h" by (metis hj max_word_max order_antisym that)
    qed (use lh hj in auto)
    then show ?thesis
      by (intro that [of jh l "{p \<in> set r. fst p \<noteq> jh}"], unfold eq)
        (use s gp ljl jj(3) in \<open>auto simp: set_smap_put\<close>)
  qed
qed


lemma nr_insert2_diff:
  assumes ok: "nr_ok r" and lh: "l \<le> h"
    and j: "smap_lb r (if varmin < l then l - 1 else l) = Some (jh, jl)" and i: "smap_lb r h \<noteq> Some (jh, jl)"
  obtains a b K where "smap_ok (nr_insert2 r l h)" "set (nr_insert2 r l h) = insert (b, a) K"
    "K \<subseteq> set r" "a \<le> b" "\<And>p. p \<in> K \<Longrightarrow> nr_gap (fst p) a \<or> nr_gap b (snd p)"
    "{a..b} \<union> (\<Union>p \<in> K. {snd p..fst p}) = {l..h} \<union> nr_set r"
proof -
  note s = nr_ok_smap [OF ok] and jj = nr_lb_Some(1-3) [OF ok j]
  have ne: "r \<noteq> []" using jj(1) by auto
  have l1: "(if varmin < l then l - 1 else l) \<le> l" using word_minus_one_less [of l] by auto
  have jh: "jh < h"
    using i [unfolded smap_lb_Some [OF s]] j [unfolded smap_lb_Some [OF s]] l1 lh by fastforce
  define a where "a = (if jl < l then jl else l)"
  have al: "a \<le> l" "a \<le> jl" "a = l \<or> a = jl" by (auto simp: a_def split: if_splits)
  have below: "nr_gap (fst p) a" if "p \<in> set r" "fst p < jh" for p
    using nr_lb_other [OF ok j that(1)] nr_gap_low [of "fst p" l] that(2) al(3) by auto
  have la: "a = l \<or> (\<exists>p \<in> set r. snd p = a \<and> l - 1 \<le> fst p)" "a \<noteq> l \<Longrightarrow> 0 < l"
    using jj(1,2) order_le_less_trans [OF word_zero_le, of jl l]
    by (auto intro!: bexI [of _ "(jh, jl)"] simp: a_def split: if_splits)
  have above: "a \<le> snd p" if "p \<in> set r" "\<not> fst p < jh" for p
    using nr_lb_other [OF ok j that(1)] that(2) al(2) jj(3) by (auto simp: nr_gap_def)
  show ?thesis
  proof (cases "smap_lb r h")
    case None
    then have top: "p \<in> set r \<Longrightarrow> fst p < h" for p by (simp add: smap_lb_None)
    have eq: "nr_insert2 r l h = smap_put (nr_erase_span r jh None) h a"
      using ne j None by (simp add: nr_insert2_def a_def Let_def)
    have "{a..h} \<union> (\<Union>p \<in> {p \<in> set r. fst p < jh}. {snd p..fst p}) = {l..h} \<union> nr_set r"
    proof (rule nr_set_swallow [OF ok])
      show "a \<le> snd p \<and> fst p \<le> h" if "p \<in> set r - {p \<in> set r. fst p < jh}" for p
        using that above [of p] less_imp_le [OF top [of p]] by auto
    qed (use lh al la in auto)
    then show ?thesis
      by (intro that [of h a "{p \<in> set r. fst p < jh}"], unfold eq)
        (use s below al lh jh in \<open>auto simp: nr_span_shape smap_ok_span\<close>)
  next
    case (Some q)
    obtain ih il where q: "q = (ih, il)" by (cases q)
    note ii = nr_lb_Some(1-3) [OF ok Some [unfolded q]]
    have side: "fst p < h \<or> p = q \<or> ih < fst p \<and> nr_gap ih (snd p)" if "p \<in> set r" for p
      using nr_lb_other [OF ok Some [unfolded q] that] q by auto
    show ?thesis
    proof (cases "(if h < varmax then h + 1 else h) < il")
      case True
      then have g: "nr_gap h il" by (rule nr_gap_high)
      have eq: "nr_insert2 r l h = smap_put (nr_erase_span r jh (Some ih)) h a"
        using ne j Some i q True by (auto simp: nr_insert2_def a_def Let_def)
      have up: "nr_gap h (snd p)" if "p \<in> set r" "ih \<le> fst p" for p
        using side [OF that(1)] that(2) g q ii(2) nr_gap_le [of ih "snd p" h] by auto
      have "{a..h} \<union> (\<Union>p \<in> {p \<in> set r. fst p < jh \<or> ih \<le> fst p}. {snd p..fst p}) = {l..h} \<union> nr_set r"
      proof (rule nr_set_swallow [OF ok])
        show "a \<le> snd p \<and> fst p \<le> h" if "p \<in> set r - {p \<in> set r. fst p < jh \<or> ih \<le> fst p}" for p
          using that above [of p] side [of p] q by (auto dest: less_imp_le)
      qed (use lh al la in auto)
      moreover have "fst p \<noteq> h" if "p \<in> set r" "fst p < jh \<or> ih \<le> fst p" for p
        using that jh ii(2) up [OF that(1)] nr_ok_le [OF ok that(1)] by (auto simp: nr_gap_def)
      ultimately show ?thesis
        by (intro that [of h a "{p \<in> set r. fst p < jh \<or> ih \<le> fst p}"], unfold eq)
          (use s below up al lh in \<open>auto simp: nr_span_shape smap_ok_span\<close>)
    next
      case False
      have eq: "nr_insert2 r l h = smap_put (nr_erase_span r jh (Some ih)) ih a"
        using ne j Some i q False by (auto simp: nr_insert2_def a_def Let_def)
      have up: "nr_gap ih (snd p)" if "p \<in> set r" "ih < fst p" for p
        using side [OF that(1)] that(2) q ii(2) by auto
      have "{a..ih} \<union> (\<Union>p \<in> {p \<in> set r. fst p < jh \<or> ih < fst p}. {snd p..fst p}) = {l..h} \<union> nr_set r"
      proof (rule nr_set_swallow [OF ok])
        show "a \<le> snd p \<and> fst p \<le> ih" if "p \<in> set r - {p \<in> set r. fst p < jh \<or> ih < fst p}" for p
          using that above [of p] by auto
        show "ih = h \<or> (\<exists>p \<in> set r. fst p = ih \<and> (snd p \<le> h \<or> snd p = h + 1))"
          using ii(1) False word_plus_one_le_iff [of h il]
          by (intro disjI2 bexI [of _ "(ih, il)"]) (auto simp: not_less [symmetric] split: if_splits)
        show "h \<noteq> varmax" if "ih \<noteq> h" by (metis ii(2) max_word_max order_antisym that)
      qed (use lh al la ii(2) in auto)
      moreover have "{p \<in> set r. fst p \<noteq> ih \<and> (fst p < jh \<or> ih \<le> fst p)} = {p \<in> set r. fst p < jh \<or> ih < fst p}"
        using jh ii(2) by auto
      ultimately show ?thesis
        by (intro that [of ih a "{p \<in> set r. fst p < jh \<or> ih < fst p}"], unfold eq)
          (use s below up al lh ii(2) in \<open>auto simp: nr_span_shape smap_ok_span\<close>)
    qed
  qed
qed


lemma nr_insert2_other:
  assumes ok: "nr_ok r" and lh: "l \<le> h" and lb: "smap_lb r (if varmin < l then l - 1 else l) = None"
  obtains a b K where "smap_ok (nr_insert2 r l h)" "set (nr_insert2 r l h) = insert (b, a) K"
    "K \<subseteq> set r" "a \<le> b" "\<And>p. p \<in> K \<Longrightarrow> nr_gap (fst p) a \<or> nr_gap b (snd p)"
    "{a..b} \<union> (\<Union>p \<in> K. {snd p..fst p}) = {l..h} \<union> nr_set r"
proof -
  have gap: "nr_gap (fst p) l" if "p \<in> set r" for p
    using lb that by (intro nr_gap_low) (simp only: smap_lb_None)
  have ne: "fst p \<noteq> h" if "p \<in> set r" for p using gap [OF that] lh by (auto simp: nr_gap_def)
  have eq: "nr_insert2 r l h = smap_put r h l"
    using lb by (simp add: nr_insert2_def Let_def)
  show ?thesis
    by (rule that [of h l "set r"], unfold eq)
      (use nr_ok_smap [OF ok] lh gap ne in \<open>auto simp: set_smap_put nr_set_def\<close>)
qed

lemma nr_insert2_inside:
  assumes ok: "nr_ok r" and j: "smap_lb r (if varmin < l then l - 1 else l) = Some (jh, jl)"
    and i: "smap_lb r h = Some (jh, jl)" and ljl: "\<not> l < jl"
  shows "nr_insert2 r l h = r" "{l..h} \<subseteq> nr_set r"
proof -
  show "nr_insert2 r l h = r" using j i ljl by (auto simp: nr_insert2_def Let_def)
  show "{l..h} \<subseteq> nr_set r"
    using nr_lb_Some(1,2) [OF ok i] ljl by (auto simp: mem_nr_set intro!: bexI [of _ "(jh, jl)"])
qed

lemma nr_insert2_correct:
  assumes ok: "nr_ok r" and lh: "l \<le> h"
  shows "nr_ok (nr_insert2 r l h) \<and> nr_set (nr_insert2 r l h) = {l..h} \<union> nr_set r"
proof -
  have join: "nr_ok (nr_insert2 r l h) \<and> nr_set (nr_insert2 r l h) = {l..h} \<union> nr_set r"
    if "smap_ok (nr_insert2 r l h)" "set (nr_insert2 r l h) = insert (b, a) K"
    "K \<subseteq> set r" "a \<le> b" "\<And>p. p \<in> K \<Longrightarrow> nr_gap (fst p) a \<or> nr_gap b (snd p)"
    "{a..b} \<union> (\<Union>p \<in> K. {snd p..fst p}) = {l..h} \<union> nr_set r" for a b K
    using nr_ok_join [OF ok that(1-5)] nr_set_join [OF that(2)] that(6) by simp
  show ?thesis
  proof (cases "smap_lb r (if varmin < l then l - 1 else l)")
    case None
    show ?thesis by (rule nr_insert2_other [OF ok lh None]) (rule join)
  next
    case (Some j)
    obtain jh jl where j: "j = (jh, jl)" by (cases j)
    note lb = Some [unfolded j]
    consider "smap_lb r h \<noteq> Some (jh, jl)" | "smap_lb r h = Some (jh, jl)" "l < jl"
      | "smap_lb r h = Some (jh, jl)" "\<not> l < jl" by blast
    then show ?thesis
    proof cases
      case 1
      show ?thesis by (rule nr_insert2_diff [OF ok lh lb 1]) (rule join)
    next
      case 2
      show ?thesis by (rule nr_insert2_same [OF ok lh lb 2]) (rule join)
    next
      case 3
      show ?thesis using nr_insert2_inside [OF ok lb 3] ok by auto
    qed
  qed
qed


section \<open>remove(l, h)\<close>

text \<open>Cutting the range with key \<open>jh\<close> down to the pieces \<open>P\<close>.\<close>

lemma nr_ok_replace:
  assumes ok: "nr_ok r" and j: "(jh, jl) \<in> set r" and s: "smap_ok r1"
    and r1: "set r1 = P \<union> {p \<in> set r. fst p \<noteq> jh}"
    and P: "\<And>p. p \<in> P \<Longrightarrow> jl \<le> snd p \<and> snd p \<le> fst p \<and> fst p \<le> jh"
    and gap: "\<And>p q. p \<in> P \<Longrightarrow> q \<in> P \<Longrightarrow> fst p < fst q \<Longrightarrow> nr_gap (fst p) (snd q)"
  shows "nr_ok r1"
proof (rule nr_okI [OF s])
  show "snd p \<le> fst p" if "p \<in> set r1" for p
    using that P nr_ok_le [OF ok] unfolding r1 by auto
  have mix: "nr_gap (fst q) (snd p)" if "p \<in> P" "q \<in> set r" "fst q < jh" for p q
    using nr_ok_gap [OF ok that(2) j] that(3) P [OF that(1)] by (auto intro: nr_gap_trans)
  have mix': "nr_gap (fst p) (snd q)" if "p \<in> P" "q \<in> set r" "jh < fst q" for p q
    using nr_ok_gap [OF ok j that(2)] that(3) P [OF that(1)] by (auto intro: nr_gap_le)
  fix p q assume p: "p \<in> set r1" and q: "q \<in> set r1" and lt: "fst p < fst q"
  consider "p \<in> P" "q \<in> P" | "p \<in> P" "q \<in> set r" "fst q \<noteq> jh" | "p \<in> set r" "fst p \<noteq> jh" "q \<in> P"
    | "p \<in> set r" "q \<in> set r"
    using p q unfolding r1 by auto
  then show "nr_gap (fst p) (snd q)"
  proof cases
    case 1
    then show ?thesis using gap lt by blast
  next
    case 2
    have "\<not> fst q < jh"
      using mix [OF 2(1,2)] P [OF 2(1)] lt by (auto simp: nr_gap_def)
    then show ?thesis using mix' [OF 2(1,2)] 2(3) by auto
  next
    case 3
    have "\<not> jh < fst p"
      using mix' [OF 3(3,1)] P [OF 3(3)] lt nr_ok_le [OF ok 3(1)] by (auto simp: nr_gap_def)
    then show ?thesis using mix [OF 3(3,1)] 3(2) by auto
  next
    case 4
    then show ?thesis using nr_ok_gap [OF ok _ _ lt] by blast
  qed
qed

lemma nr_no_key_inside:
  "nr_ok r \<Longrightarrow> (jh, jl) \<in> set r \<Longrightarrow> p \<in> set r \<Longrightarrow> fst p \<noteq> jh \<Longrightarrow> \<not> (jl \<le> fst p \<and> fst p < jh)"
  using nr_ok_gap [of r p "(jh, jl)"] by (auto simp: nr_gap_def)

lemma word_pred_ge: "(jl :: 'a::len word) < l \<Longrightarrow> jl \<le> l - 1 \<and> l - 1 < l"
  by uint_arith

lemma word_le_pred: "(jl :: 'a::len word) < l \<Longrightarrow> x \<le> l - 1 \<longleftrightarrow> x < l"
  by (rule word_le_minus_one_iff) (rule order_le_less_trans [OF word_zero_le])

text \<open>One step of the loop on the range \<open>(jh, jl)\<close>: \<open>r1\<close> is the map after it.\<close>

lemma nr_cut_top:
  assumes ok: "nr_ok r" and j: "(jh, jl) \<in> set r" and h: "jh \<le> h" and l: "l \<le> jh"
    and r1: "r1 = smap_erase (if jl < l then smap_put r (l - 1) jl else r) jh"
  shows "set r1 = (if jl < l then {(l - 1, jl)} else {}) \<union> {p \<in> set r. fst p \<noteq> jh}"
    and "nr_ok r1" and "nr_set r1 - {l..h} = nr_set r - {l..h}"
proof -
  note s = nr_ok_smap [OF ok]
  have "fst p \<noteq> l - 1" if "p \<in> set r" "jl < l" "fst p \<noteq> jh" for p
    using nr_no_key_inside [OF ok j that(1,3)] word_pred_ge [OF that(2)] l by auto
  then show r1': "set r1 = (if jl < l then {(l - 1, jl)} else {}) \<union> {p \<in> set r. fst p \<noteq> jh}"
    using word_pred_ge [of jl l] l s by (auto simp: r1 smap_simps set_smap_put)
  show "nr_ok r1"
    by (rule nr_ok_replace [OF ok j _ r1'])
      (use s word_pred_ge [of jl l] l in \<open>auto simp: r1 smap_simps split: if_splits\<close>)
  have "nr_set r1 = (if jl < l then {jl..l - 1} else {}) \<union> (\<Union>p \<in> {p \<in> set r. fst p \<noteq> jh}. {snd p..fst p})"
    by (simp add: nr_set_def r1')
  moreover have "{jl..jh} - {l..h} = (if jl < l then {jl..l - 1} else {}) - {l..h}"
    using h l by (auto simp: word_le_pred not_le; order)
  ultimately show "nr_set r1 - {l..h} = nr_set r - {l..h}"
    unfolding nr_set_take [OF ok j] by (simp only: Un_Diff)
qed

lemma nr_cut_low:
  assumes ok: "nr_ok r" and j: "(jh, jl) \<in> set r" and h: "h < jh" "jl \<le> h" and l: "l \<le> h"
    and r1: "r1 = smap_put (if jl < l then smap_put r (l - 1) jl else r) jh (h + 1)"
  shows "set r1 = insert (jh, h + 1) ((if jl < l then {(l - 1, jl)} else {}) \<union> {p \<in> set r. fst p \<noteq> jh})"
    and "nr_ok r1" and "nr_set r1 - {l..h} = nr_set r - {l..h}"
proof -
  note s = nr_ok_smap [OF ok]
  have h1: "h < h + 1" "h + 1 \<le> jh" "jl \<le> h + 1" "h + 1 \<le> x \<longleftrightarrow> h < x" for x
    using word_less_plus_one [OF word_less_imp_not_max [OF h(1)]] h
      word_plus_one_le_iff [OF word_less_imp_not_max [OF h(1)]] by auto
  have "fst p \<noteq> l - 1" if "p \<in> set r" "jl < l" "fst p \<noteq> jh" for p
    using nr_no_key_inside [OF ok j that(1,3)] word_pred_ge [OF that(2)] l h by auto
  moreover have lj: "l - 1 \<noteq> jh" if "jl < l" using word_pred_ge [OF that] l h by auto
  ultimately show r1': "set r1 = insert (jh, h + 1) ((if jl < l then {(l - 1, jl)} else {}) \<union> {p \<in> set r. fst p \<noteq> jh})"
    using s by (auto simp: r1 smap_simps set_smap_put)
  have g: "nr_gap (l - 1) (h + 1)" "\<not> jh < l - 1" if "jl < l"
    using word_pred_ge [OF that] l h h1(1,2) unfolding nr_gap_def by auto
  show "nr_ok r1"
  proof (rule nr_ok_replace [OF ok j, of _ "insert (jh, h + 1) (if jl < l then {(l - 1, jl)} else {})"])
    show "nr_gap (fst p) (snd q)"
      if "p \<in> insert (jh, h + 1) (if jl < l then {(l - 1, jl)} else {})"
        "q \<in> insert (jh, h + 1) (if jl < l then {(l - 1, jl)} else {})" "fst p < fst q" for p q
      using that g by (cases "jl < l") auto
  qed (use s r1' word_pred_ge [of jl l] l h h1 in \<open>auto simp: r1 smap_simps split: if_splits\<close>)
  have "nr_set r1 = {h + 1..jh} \<union> (if jl < l then {jl..l - 1} else {}) \<union> (\<Union>p \<in> {p \<in> set r. fst p \<noteq> jh}. {snd p..fst p})"
    by (auto simp: nr_set_def r1')
  moreover have "{jl..jh} - {l..h} = {h + 1..jh} \<union> (if jl < l then {jl..l - 1} else {}) - {l..h}"
  proof (rule set_eqI)
    fix x
    have "jl < l \<Longrightarrow> x \<le> l - 1 \<longleftrightarrow> x < l" by (rule word_le_pred)
    moreover have "h < x \<Longrightarrow> jl \<le> x" "x < l \<Longrightarrow> x \<le> jh" "h < x \<or> x \<le> h" "l \<le> x \<or> x < l"
      "x < l \<Longrightarrow> jl \<le> x \<Longrightarrow> jl < l"
      using h l by (order | force simp: not_less)+
    ultimately show "x \<in> {jl..jh} - {l..h} \<longleftrightarrow>
        x \<in> {h + 1..jh} \<union> (if jl < l then {jl..l - 1} else {}) - {l..h}"
      by (cases "jl < l") (simp_all add: h1(4), blast+)
  qed
  ultimately show "nr_set r1 - {l..h} = nr_set r - {l..h}"
    unfolding nr_set_take [OF ok j] by (simp only: Un_Diff)
qed


lemma nr_remove_loop_correct:
  assumes "nr_ok r" and lh: "l \<le> h" and "set js \<subseteq> set r" and "sorted_wrt (\<lambda>p q. fst q < fst p) js"
    and "\<And>p. p \<in> set r \<Longrightarrow> p \<notin> set js \<Longrightarrow> fst p < l \<or> h < snd p"
  shows "nr_ok (nr_remove_loop r l h js) \<and> nr_set (nr_remove_loop r l h js) = nr_set r - {l..h}"
  using assms(1,3-5)
proof (induction js arbitrary: r)
  case Nil
  then have "nr_set r \<inter> {l..h} = {}" by (fastforce simp: mem_nr_set)
  with Nil(1) show ?case by auto
next
  case (Cons j js)
  obtain jh jl where j: "j = (jh, jl)" by (cases j)
  note ok = Cons.prems(1) and jr = Cons.prems(2) [unfolded j, simplified]
  note s = nr_ok_smap [OF ok]
  have lej: "jl \<le> jh" using nr_ok_le [OF ok, of "(jh, jl)"] jr by simp
  have below: "fst p < jh \<and> fst p < jl \<and> p \<in> set r" if "p \<in> set js" for p
    using that Cons.prems(2,3) nr_ok_gap [OF ok, of p "(jh, jl)"] jr by (auto simp: j nr_gap_def)
  have out: "fst p < l \<or> h < snd p" if "p \<in> set r" "fst p \<noteq> jh" "p \<notin> set js" for p
    using Cons.prems(4) [OF that(1)] that(2,3) by (cases p) (auto simp: j)
  have stop: "nr_ok r' \<and> nr_set r' = nr_set r - {l..h}"
    if "nr_ok r'" "nr_set r' - {l..h} = nr_set r - {l..h}" "\<And>p. p \<in> set r' \<Longrightarrow> fst p < l \<or> h < snd p" for r'
    using that by (fastforce simp: mem_nr_set)
  consider (cut) "jh \<le> h" "l \<le> jh" | (above) "jh \<le> h" "jh < l" | (mid) "h < jh" "jl \<le> h" "jl < l"
    | (low) "h < jh" "jl \<le> h" "l \<le> jl" | (skip) "h < jl"
    using lej by (meson not_less)
  then show ?case
  proof cases
    case cut
    let ?r = "smap_erase (if jl < l then smap_put r (l - 1) jl else r) jh"
    note c = nr_cut_top [OF ok conjunct1 [OF jr] cut refl]
    have "nr_remove_loop r l h (j # js) = nr_remove_loop ?r l h js" using cut by (simp add: j)
    moreover have "nr_ok (nr_remove_loop ?r l h js) \<and> nr_set (nr_remove_loop ?r l h js) = nr_set ?r - {l..h}"
    proof (rule Cons.IH [OF c(2)])
      show "set js \<subseteq> set ?r" using below unfolding c(1) by fastforce
      show "fst p < l \<or> h < snd p" if "p \<in> set ?r" "p \<notin> set js" for p
        using that out [of p] word_pred_ge [of jl l] unfolding c(1) by (auto split: if_splits)
    qed (use Cons.prems(3) in simp)
    ultimately show ?thesis using c(3) by simp
  next
    case above
    have "fst p < l \<or> h < snd p" if "p \<in> set r" for p
      using out [OF that] below [of p] above nr_ok_unique [OF ok that conjunct1 [OF jr]] by fastforce
    then show ?thesis using stop [OF ok refl] above leD [of jh l] by (auto simp: j)
  next
    case mid
    let ?r = "smap_put (if jl < l then smap_put r (l - 1) jl else r) jh (h + 1)"
    note c = nr_cut_low [OF ok conjunct1 [OF jr] mid(1,2) lh refl]
    have "fst p < l \<or> h < snd p" if "p \<in> set ?r" for p
      using that out [of p] below [of p] mid word_pred_ge [of jl l]
        word_less_plus_one [OF word_less_imp_not_max [OF mid(1)]] unfolding c(1)
      by (cases "p \<in> set js") (auto dest: less_trans)
    then show ?thesis using stop [OF c(2,3)] mid leD [of h jh] by (auto simp: j)
  next
    case low
    let ?r = "smap_put (if jl < l then smap_put r (l - 1) jl else r) jh (h + 1)"
    note c = nr_cut_low [OF ok conjunct1 [OF jr] low(1,2) lh refl]
    have "nr_remove_loop r l h (j # js) = nr_remove_loop ?r l h js" using low by (auto simp: j)
    moreover have "nr_ok (nr_remove_loop ?r l h js) \<and> nr_set (nr_remove_loop ?r l h js) = nr_set ?r - {l..h}"
    proof (rule Cons.IH [OF c(2)])
      show "set js \<subseteq> set ?r" using below unfolding c(1) by fastforce
      show "fst p < l \<or> h < snd p" if "p \<in> set ?r" "p \<notin> set js" for p
        using that out [of p] low word_less_plus_one [OF word_less_imp_not_max [OF low(1)]]
        unfolding c(1) by (auto split: if_splits)
    qed (use Cons.prems(3) in simp)
    ultimately show ?thesis using c(3) by simp
  next
    case skip
    then have "nr_remove_loop r l h (j # js) = nr_remove_loop r l h js" using lej by (auto simp: j)
    moreover have "nr_ok (nr_remove_loop r l h js) \<and> nr_set (nr_remove_loop r l h js) = nr_set r - {l..h}"
    proof (rule Cons.IH [OF ok])
      show "fst p < l \<or> h < snd p" if "p \<in> set r" "p \<notin> set js" for p
        using Cons.prems(4) [OF that(1)] that(2) skip by (cases "p = j") (auto simp: j)
    qed (use Cons.prems(2,3) in auto)
    ultimately show ?thesis by simp
  qed
qed


text \<open>The top of the stretch that \<open>remove(l, h)\<close> really clears. When no range reaches \<open>h\<close> the loop
  starts at the lowest range that reaches \<open>l\<close>, and the ranges above that one are not visited.\<close>

definition nr_remove_top :: "rlist \<Rightarrow> ulong \<Rightarrow> ulong \<Rightarrow> ulong" where
  "nr_remove_top r l h =
     (case smap_lb r h of Some _ \<Rightarrow> h
      | None \<Rightarrow> (case smap_lb r l of Some (ih, il) \<Rightarrow> ih | None \<Rightarrow> h))"

lemma nr_remove_loop_above:
  "\<forall>p \<in> set js. fst p \<le> k \<Longrightarrow> k \<le> h \<Longrightarrow> nr_remove_loop r l h js = nr_remove_loop r l k js"
  by (induction r l h js rule: nr_remove_loop.induct) auto

lemma nr_sorted_below:
  "smap_ok r \<Longrightarrow> sorted_wrt (\<lambda>p q. fst q < fst p) (rev (filter (\<lambda>p. fst p \<le> k) r))"
  by (induction r) (auto simp: smap_ok_Cons sorted_wrt_append)

lemma nr_remove_from:
  assumes ok: "nr_ok r" and lh: "l \<le> h" and top: "\<And>p. p \<in> set r \<Longrightarrow> k < fst p \<Longrightarrow> h < snd p"
  shows "nr_ok (nr_remove_loop r l h (rev (filter (\<lambda>p. fst p \<le> k) r))) \<and>
    nr_set (nr_remove_loop r l h (rev (filter (\<lambda>p. fst p \<le> k) r))) = nr_set r - {l..h}"
  by (rule nr_remove_loop_correct [OF ok lh])
    (use top nr_sorted_below [OF nr_ok_smap [OF ok]] in \<open>auto simp: not_le\<close>)

lemma nr_remove_correct:
  assumes ok: "nr_ok r" and lh: "l \<le> h"
  shows "nr_ok (nr_remove r l h) \<and> nr_set (nr_remove r l h) = nr_set r - {l..nr_remove_top r l h}"
proof (cases "smap_lb r h")
  case (Some p)
  obtain ih il where p: "p = (ih, il)" by (cases p)
  have "h < snd q" if "q \<in> set r" "ih < fst q" for q
    using nr_ok_gap [OF ok _ that(1)] nr_lb_Some(1,2) [OF ok Some [unfolded p]] that(2)
    by (fastforce simp: nr_gap_def)
  then have "nr_ok (nr_remove_loop r l h (rev (filter (\<lambda>p. fst p \<le> ih) r))) \<and>
      nr_set (nr_remove_loop r l h (rev (filter (\<lambda>p. fst p \<le> ih) r))) = nr_set r - {l..h}"
    by (rule nr_remove_from [OF ok lh])
  moreover have "r \<noteq> []" using Some by auto
  ultimately show ?thesis using Some by (simp add: nr_remove_def nr_remove_top_def p)
next
  case None
  then have top: "fst p < h" if "p \<in> set r" for p using that by (simp add: smap_lb_None)
  show ?thesis
  proof (cases "smap_lb r l")
    case None': None
    then have "fst p < l" if "p \<in> set r" for p using that by (simp add: smap_lb_None)
    then have "nr_set r \<inter> {l..h} = {}" by (fastforce simp: mem_nr_set)
    then have "nr_set r - {l..h} = nr_set r" by blast
    then show ?thesis using None None' ok by (simp add: nr_remove_def nr_remove_top_def)
  next
    case (Some p)
    obtain ih il where p: "p = (ih, il)" by (cases p)
    note lb = nr_lb_Some(1,2) [OF ok Some [unfolded p]]
    let ?js = "rev (filter (\<lambda>p. fst p \<le> ih) r)"
    have "nr_remove_loop r l h ?js = nr_remove_loop r l ih ?js"
      by (rule nr_remove_loop_above) (use top [OF lb(1)] in auto)
    moreover have "nr_ok (nr_remove_loop r l ih ?js) \<and> nr_set (nr_remove_loop r l ih ?js) = nr_set r - {l..ih}"
      by (rule nr_remove_from [OF ok lb(2)])
        (use nr_ok_gap [OF ok lb(1)] in \<open>auto simp: nr_gap_def\<close>)
    moreover have "r \<noteq> []" using Some by auto
    ultimately show ?thesis using Some None by (simp add: nr_remove_def nr_remove_top_def p)
  qed
qed

section \<open>Totals\<close>

lemma word_card_interval: "(l :: 'a::len word) \<le> h \<Longrightarrow> card {l..h} = unat h - unat l + 1"
proof -
  assume lh: "l \<le> h"
  have "unat ` {l..h} = {unat l..unat h}"
  proof (intro equalityI subsetI)
    fix n assume n: "n \<in> {unat l..unat h}"
    moreover have "unat h < 2 ^ LENGTH('a)" by (rule unsigned_less)
    ultimately have "n < 2 ^ LENGTH('a)" by (meson atLeastAtMost_iff le_less_trans)
    then have "unat (of_nat n :: 'a word) = n" by (intro of_nat_inverse [OF refl])
    then show "n \<in> unat ` {l..h}" using n
      by (intro image_eqI [of _ _ "of_nat n"]) (auto simp: word_le_nat_alt)
  qed (auto simp: word_le_nat_alt)
  then have "card (unat ` {l..h}) = unat h - unat l + 1" using lh by (simp add: word_le_nat_alt)
  moreover have "inj_on unat {l..h}" by (auto simp: inj_on_def word_unat_eq_iff)
  ultimately show ?thesis by (simp add: card_image)
qed

lemma nr_ok_Cons:
  "nr_ok (p # r) \<longleftrightarrow> nr_ok r \<and> snd p \<le> fst p \<and> (\<forall>q \<in> set r. nr_gap (fst p) (snd q) \<and> snd q \<le> fst q)"
  by (auto simp: nr_ok_def smap_ok_Cons nr_gap_def)

lemma nr_set_Cons: "nr_set (p # r) = {snd p..fst p} \<union> nr_set r"
  by (auto simp: nr_set_def)

lemma nr_set_Cons_disjoint: "nr_ok (p # r) \<Longrightarrow> {snd p..fst p} \<inter> nr_set r = {}"
  by (fastforce simp: nr_ok_Cons mem_nr_set nr_gap_def)

lemma card_nr_set_Cons:
  "nr_ok (p # r) \<Longrightarrow> card (nr_set (p # r)) = (unat (fst p) - unat (snd p) + 1) + card (nr_set r)"
  using nr_set_Cons_disjoint [of p r]
  by (simp add: nr_set_Cons card_Un_disjoint word_card_interval nr_ok_Cons)

lemma nr_get_total_sum: "nr_get_total r = sum_list (map (\<lambda>(h, l). h - l + 1) r)"
proof -
  have "foldl (\<lambda>tot (h, l). tot + (h - l + 1)) t r = t + sum_list (map (\<lambda>(h, l). h - l + 1) r)" for t
    by (induction r arbitrary: t) (auto simp: add.assoc)
  then show ?thesis by (simp add: nr_get_total_def)
qed

lemma nr_get_total_card: "nr_ok r \<Longrightarrow> nr_get_total r = of_nat (card (nr_set r))"
proof (induction r)
  case (Cons p r)
  have "of_nat (unat (fst p) - unat (snd p) + 1) = fst p - snd p + 1"
    using Cons.prems by (simp add: nr_ok_Cons word_le_nat_alt of_nat_diff)
  with Cons show ?case by (cases p) (simp add: nr_get_total_sum card_nr_set_Cons nr_ok_Cons)
qed (simp add: nr_get_total_sum)


section \<open>invert and clip_to_max_total\<close>

lemma nr_invert_loop_correct:
  assumes "nr_ok a" and "nr_ok is" and "is \<noteq> []" and "n \<le> snd (hd is)"
  shows "snd (nr_invert_loop a n is) = fst (last is) + 1 \<and>
    nr_ok (fst (nr_invert_loop a n is)) \<and>
    nr_set (fst (nr_invert_loop a n is)) = nr_set a \<union> ({n..fst (last is)} - nr_set is)"
  using assms
proof (induction a n "is" rule: nr_invert_loop.induct)
  case (2 a n h l "is")
  define a' where "a' = (if n \<noteq> l then nr_insert2 a n (l - 1) else a)"
  note ok = "2.prems"(2) [unfolded nr_ok_Cons, simplified]
  have nl: "n \<le> l" using "2.prems"(4) by simp
  have a': "nr_ok a' \<and> nr_set a' = nr_set a \<union> ({n..l} - {l})"
  proof (cases "n = l")
    case False
    then have lt: "n < l" using nl by simp
    have "{n..l - 1} = {n..l} - {l}" by (simp add: set_eq_iff word_le_pred [OF lt] less_le)
    then show ?thesis
      using nr_insert2_correct [OF "2.prems"(1), of n "l - 1"] word_pred_ge [OF lt] False
      by (simp add: a'_def Un_commute)
  qed (use "2.prems"(1) in \<open>simp add: a'_def\<close>)
  have eq: "nr_invert_loop a n ((h, l) # is) = nr_invert_loop a' (h + 1) is" by (simp add: a'_def)
  show ?case
  proof (cases "is")
    case Nil
    have "{n..l} - {l} = {n..h} - {l..h}"
      using nl ok by (simp add: set_eq_iff not_le) (meson leD le_less less_le_trans order_trans)
    then show ?thesis unfolding eq using a' by (simp add: Nil nr_set_Cons)
  next
    case (Cons q qs)
    then have g: "nr_gap h (snd q)" "snd q \<le> fst q" using ok by auto
    then have h1: "h + 1 \<le> snd q" "h + 1 \<le> x \<longleftrightarrow> h < x" for x
      using word_plus_one_le_iff [of h] word_less_imp_not_max [of h "snd q"] by (auto simp: nr_gap_def)
    have "last is \<in> set is" using Cons by simp
    then have last: "h < fst (last is)" using ok by (fastforce simp: nr_gap_def)
    note IH = "2.IH" [folded a'_def, OF conjunct1 [OF a'] conjunct1 [OF ok]]
    have I: "snd (nr_invert_loop a' (h + 1) is) = fst (last is) + 1"
      "nr_ok (fst (nr_invert_loop a' (h + 1) is))"
      "nr_set (fst (nr_invert_loop a' (h + 1) is)) = nr_set a' \<union> ({h + 1..fst (last is)} - nr_set is)"
      using IH h1(1) by (auto simp: Cons)
    have up: "x \<in> nr_set is \<Longrightarrow> h < x" for x using ok by (fastforce simp: mem_nr_set nr_gap_def)
    have "{n..l} - {l} \<union> ({h + 1..fst (last is)} - nr_set is) =
        {n..fst (last is)} - ({l..h} \<union> nr_set is)"
    proof (rule set_eqI)
      fix x
      have lh: "l \<le> h" using ok by simp
      consider "x < l" | "l \<le> x" "x \<le> h" | "h < x" by (meson not_less)
      then show "x \<in> {n..l} - {l} \<union> ({h + 1..fst (last is)} - nr_set is) \<longleftrightarrow>
        x \<in> {n..fst (last is)} - ({l..h} \<union> nr_set is)"
      proof cases
        case 1
        then have "x \<le> l" "x \<noteq> l" "\<not> h < x" "x \<notin> nr_set is" "x \<le> fst (last is)" "\<not> l \<le> x"
          using up [of x] lh last by (auto; order)+
        then show ?thesis by (simp add: h1(2))
      next
        case 2
        then have "x \<le> l \<longrightarrow> x = l" "\<not> h < x" by auto
        with 2 show ?thesis by (auto simp: h1(2))
      next
        case 3
        then have "\<not> x \<le> l" "n \<le> x" "\<not> x \<le> h" using nl lh by order+
        with 3 show ?thesis by (auto simp: h1(2))
      qed
    qed
    then show ?thesis unfolding eq using I conjunct2 [OF a'] Cons
      by (simp add: nr_set_Cons Un_assoc)
  qed
qed auto


lemma nr_set_last: "nr_ok r \<Longrightarrow> r \<noteq> [] \<Longrightarrow> x \<in> nr_set r \<Longrightarrow> x \<le> fst (last r)"
proof (induction r)
  case (Cons p r)
  then have le: "snd q \<le> fst q" if "q \<in> set r" for q using that by (simp add: nr_ok_Cons)
  show ?case
  proof (cases "r = []")
    case False
    then have "last r \<in> set r" by simp
    then have "fst p < fst (last r)" using Cons.prems(1) le by (fastforce simp: nr_ok_Cons nr_gap_def)
    then show ?thesis using Cons False by (auto simp: nr_set_Cons nr_ok_Cons)
  qed (use Cons.prems in \<open>auto simp: nr_set_Cons\<close>)
qed simp

lemma nr_last_in: "nr_ok r \<Longrightarrow> r \<noteq> [] \<Longrightarrow> fst (last r) \<in> nr_set r"
  using nr_ok_le [of r "last r"] by (auto simp: mem_nr_set)

lemma nr_invert_correct:
  assumes a: "nr_ok a" and r: "nr_ok r"
  shows "nr_ok (nr_invert a r) \<and> nr_set (nr_invert a r) = nr_set a \<union> (- nr_set r)"
proof (cases "r = []")
  case True
  then show ?thesis using nr_insert2_correct [OF a, of varmin varmax]
    by (auto simp: nr_invert_def)
next
  case False
  obtain a' n where an: "nr_invert_loop a varmin r = (a', n)" by (cases "nr_invert_loop a varmin r")
  have L: "n = fst (last r) + 1" "nr_ok a'" "nr_set a' = nr_set a \<union> ({varmin..fst (last r)} - nr_set r)"
    using nr_invert_loop_correct [OF a r False, of varmin] by (simp_all add: an)
  have eq: "nr_invert a r = (if n \<noteq> varmin then nr_insert2 a' n varmax else a')"
    by (simp add: nr_invert_def False an)
  have low: "x \<in> nr_set r \<Longrightarrow> x \<le> fst (last r)" for x by (rule nr_set_last [OF r False])
  show ?thesis
  proof (cases "fst (last r) = varmax")
    case True
    moreover have "{varmin..varmax} = UNIV" by (simp add: set_eq_iff)
    ultimately show ?thesis using L(2,3) unfolding eq L(1) by (simp add: Compl_eq_Diff_UNIV)
  next
    case F: False
    have iff: "n \<le> x \<longleftrightarrow> fst (last r) < x" for x
      unfolding L(1) by (rule word_plus_one_le_iff [OF F])
    then have "n \<noteq> varmin" using word_zero_le by (metis leD order_refl)
    then have "nr_ok (nr_invert a r) \<and> nr_set (nr_invert a r) = {n..varmax} \<union> nr_set a'"
      unfolding eq using nr_insert2_correct [OF L(2), of n varmax] by simp
    moreover have "{n..varmax} \<union> ({varmin..fst (last r)} - nr_set r) = - nr_set r"
      using low by (fastforce simp: iff not_less)
    ultimately show ?thesis unfolding L(3) by (simp add: Un_left_commute)
  qed
qed

lemma nr_low_in:
  assumes ok: "nr_ok r" and low: "nr_low r = Some l"
  shows "l \<in> nr_set r" and "x \<in> nr_set r \<Longrightarrow> l \<le> x"
proof -
  obtain h r' where r: "r = (h, l) # r'" using low by (auto simp: nr_low_def split: list.splits)
  show "l \<in> nr_set r" using ok by (simp add: r nr_set_Cons nr_ok_Cons)
  show "l \<le> x" if "x \<in> nr_set r"
    using that ok by (fastforce simp: r nr_set_Cons nr_ok_Cons mem_nr_set nr_gap_def)
qed

lemma nr_high_in:
  assumes ok: "nr_ok r" and high: "nr_high r = Some h"
  shows "h \<in> nr_set r" and "x \<in> nr_set r \<Longrightarrow> x \<le> h"
  using assms nr_set_last nr_last_in by (auto simp: nr_high_def split: if_splits)


text \<open>Cutting a range map at \<open>c\<close> from below is the step \<open>clip_to_max_total\<close> ends with.\<close>

lemma nr_clip_step:
  assumes ok: "nr_ok r" and r: "r = up @ (h, l) # vis" and c: "l \<le> c" "c \<le> h"
    and lw: "nr_low r = Some lw"
  defines "r' \<equiv> (if lw \<noteq> c then nr_remove r lw (c - 1) else r)"
  shows "nr_ok r'" and "nr_set r' = {x \<in> nr_set r. c \<le> x}"
proof -
  have hl: "(h, l) \<in> set r" by (simp add: r)
  have lc: "lw \<le> c"
    using nr_low_in(2) [OF ok lw, of l] nr_ok_le [OF ok hl] hl c(1) by (force simp: mem_nr_set)
  have "nr_ok r' \<and> nr_set r' = {x \<in> nr_set r. c \<le> x}"
  proof (cases "lw = c")
    case True
    then show ?thesis using ok nr_low_in(2) [OF ok lw] by (auto simp: r'_def)
  next
    case False
    then have lt: "lw < c" using lc by simp
    have "c - 1 \<le> h" using word_pred_ge [OF lt] c(2) by auto
    then have "smap_lb r (c - 1) \<noteq> None" using hl by (metis fst_conv leD smap_lb_None)
    then have "nr_remove_top r lw (c - 1) = c - 1" by (auto simp: nr_remove_top_def)
    then have "nr_ok r' \<and> nr_set r' = nr_set r - {lw..c - 1}"
      using nr_remove_correct [OF ok, of lw "c - 1"] word_pred_ge [OF lt] False by (simp add: r'_def)
    moreover have "x \<in> nr_set r \<Longrightarrow> x \<in> {lw..c - 1} \<longleftrightarrow> \<not> c \<le> x" for x
      using nr_low_in(2) [OF ok lw] by (auto simp: word_le_pred [OF lt] not_le)
    ultimately show ?thesis by blast
  qed
  then show "nr_ok r'" "nr_set r' = {x \<in> nr_set r. c \<le> x}" by simp_all
qed

lemma nr_ok_suffix: "nr_ok (xs @ ys) \<Longrightarrow> nr_ok ys"
  by (induction xs) (simp_all add: nr_ok_Cons)

lemma nr_set_append: "nr_set (xs @ ys) = nr_set xs \<union> nr_set ys"
  by (auto simp: nr_set_def)

lemma nr_ok_append_less:
  "nr_ok (xs @ ys) \<Longrightarrow> p \<in> set xs \<Longrightarrow> q \<in> set ys \<Longrightarrow> fst p < snd q"
  by (induction xs) (auto simp: nr_ok_Cons nr_gap_def)

text \<open>The members of \<open>r\<close> from \<open>c\<close> on, for a \<open>c\<close> inside the range \<open>(h, l)\<close>.\<close>

lemma nr_set_from:
  assumes ok: "nr_ok (up @ (h, l) # vis)" and c: "l \<le> c" "c \<le> h"
  shows "{x \<in> nr_set (up @ (h, l) # vis). c \<le> x} = {c..h} \<union> nr_set vis"
    and "{c..h} \<inter> nr_set vis = {}"
proof -
  have up: "x \<in> nr_set up \<Longrightarrow> x < c" for x
    using nr_ok_append_less [OF ok, of _ "(h, l)"] c(1) by (fastforce simp: mem_nr_set)
  have vis: "x \<in> nr_set vis \<Longrightarrow> h < x" for x
    using nr_ok_suffix [OF ok] by (fastforce simp: nr_ok_Cons mem_nr_set nr_gap_def)
  show "{c..h} \<inter> nr_set vis = {}" using vis by fastforce
  have "x \<in> {x \<in> nr_set (up @ (h, l) # vis). c \<le> x} \<longleftrightarrow> x \<in> {c..h} \<union> nr_set vis" for x
    using up [of x] vis [of x] c by (auto simp: nr_set_append nr_set_Cons)
  then show "{x \<in> nr_set (up @ (h, l) # vis). c \<le> x} = {c..h} \<union> nr_set vis" by blast
qed

lemma nr_clip_loop_correct:
  assumes ok: "nr_ok r" and full: "card (nr_set r) < 2 ^ 64"
    and "r = rev is @ vis" and "unat tot = card (nr_set vis)" and "tot < num"
  shows "nr_ok (nr_clip_loop r num tot is) \<and>
    (\<exists>c. nr_set (nr_clip_loop r num tot is) = {x \<in> nr_set r. c \<le> x}) \<and>
    card (nr_set (nr_clip_loop r num tot is)) = min (card (nr_set r)) (unat num)"
  using assms(3-5)
proof (induction "is" arbitrary: vis tot)
  case Nil
  then have "card (nr_set r) < unat num" by (simp add: word_less_nat_alt)
  then show ?case using ok by (auto intro!: exI [of _ varmin])
next
  case (Cons p "is")
  obtain h l where p: "p = (h, l)" by (cases p)
  have r: "r = rev is @ (h, l) # vis" using Cons.prems(1) by (simp add: p)
  have okv: "nr_ok ((h, l) # vis)" using ok nr_ok_suffix unfolding r by blast
  then have lh: "l \<le> h" by (simp add: nr_ok_Cons)
  define c where "c = h - l + 1"
  have cardv: "card (nr_set ((h, l) # vis)) = (unat h - unat l + 1) + card (nr_set vis)"
    using card_nr_set_Cons [OF okv] by simp
  moreover have "card (nr_set ((h, l) # vis)) \<le> card (nr_set r)"
    by (rule card_mono) (auto simp: r nr_set_append)
  ultimately have small: "(unat h - unat l + 1) + card (nr_set vis) < 2 ^ 64" using full by simp
  have "unat (h - l) = unat h - unat l" using lh by (simp add: unat_sub)
  then have uc: "unat c = unat h - unat l + 1"
    using small by (simp add: c_def unat_word_ariths)
  define tot' where "tot' = tot + c"
  have ut: "unat tot' = unat c + card (nr_set vis)"
    using small uc Cons.prems(2) by (simp add: tot'_def unat_word_ariths)
  obtain lw where lw: "nr_low r = Some lw" by (cases r) (auto simp: r nr_low_def split: list.splits)
  show ?case
  proof (cases "num \<le> tot'")
    case True
    define cut where "cut = l + (tot' - num)"
    have uo: "unat (tot' - num) = unat tot' - unat num" using True by (simp add: unat_sub)
    have "unat num \<le> unat tot'" "unat tot < unat num"
      using True Cons.prems(3) by (simp_all add: word_le_nat_alt word_less_nat_alt)
    then have lt: "unat (tot' - num) < unat c" using ut uo Cons.prems(2) by simp
    then have "unat l + unat (tot' - num) < 2 ^ 64"
      using uc lh unsigned_less [of h, where ?'a = nat] by (simp add: word_le_nat_alt)
    then have ucut: "unat cut = unat l + unat (tot' - num)" by (simp add: cut_def unat_word_ariths)
    then have cut: "l \<le> cut" "cut \<le> h" using lt uc lh by (simp_all add: word_le_nat_alt)
    have eq: "nr_clip_loop r num tot (p # is) = (if lw \<noteq> cut then nr_remove r lw (cut - 1) else r)"
      using True lw by (simp add: p c_def [symmetric] tot'_def [symmetric] cut_def [symmetric] Let_def)
    note st = nr_clip_step [OF ok r cut lw, folded eq]
    have "{x \<in> nr_set r. cut \<le> x} = {cut..h} \<union> nr_set vis" "{cut..h} \<inter> nr_set vis = {}"
      using nr_set_from [of "rev is" h l vis cut] ok cut by (simp_all add: r)
    then have "card {x \<in> nr_set r. cut \<le> x} = (unat h - unat cut + 1) + card (nr_set vis)"
      using cut by (simp add: card_Un_disjoint word_card_interval)
    also have "\<dots> = unat num"
      using ucut uo ut uc Cons.prems(2) lt \<open>unat num \<le> unat tot'\<close> \<open>unat tot < unat num\<close> lh
      by (simp add: word_le_nat_alt)
    finally have "card {x \<in> nr_set r. cut \<le> x} = unat num" .
    moreover have "card {x \<in> nr_set r. cut \<le> x} \<le> card (nr_set r)" by (rule card_mono) auto
    ultimately show ?thesis using st by auto
  next
    case False
    then have eq: "nr_clip_loop r num tot (p # is) = nr_clip_loop r num tot' is"
      by (simp add: p c_def tot'_def Let_def)
    show ?thesis unfolding eq
      by (rule Cons.IH [OF r]) (use False ut uc cardv in auto)
  qed
qed


section \<open>The interface the other components use\<close>

text \<open>A set of article numbers as the cache and the protocol code use it.\<close>

locale number_set =
  fixes check :: "'s \<Rightarrow> ulong \<Rightarrow> bool"
    and ins :: "'s \<Rightarrow> ulong \<Rightarrow> 's"
    and del :: "'s \<Rightarrow> ulong \<Rightarrow> 's"
    and view :: "'s \<Rightarrow> ulong set"
    and invar :: "'s \<Rightarrow> bool"
  assumes check_view: "invar s \<Longrightarrow> check s n \<longleftrightarrow> n \<in> view s"
    and view_ins: "invar s \<Longrightarrow> view (ins s n) = insert n (view s)"
    and invar_ins: "invar s \<Longrightarrow> invar (ins s n)"
    and view_del: "invar s \<Longrightarrow> view (del s n) = view s - {n}"
    and invar_del: "invar s \<Longrightarrow> invar (del s n)"
begin

lemma ins_many: "invar s \<Longrightarrow> invar (fold (\<lambda>n s. ins s n) ns s) \<and> view (fold (\<lambda>n s. ins s n) ns s) = view s \<union> set ns"
  by (induction ns arbitrary: s) (auto simp: view_ins invar_ins)

lemma del_many: "invar s \<Longrightarrow> invar (fold (\<lambda>n s. del s n) ns s) \<and> view (fold (\<lambda>n s. del s n) ns s) = view s - set ns"
  by (induction ns arbitrary: s) (auto simp: view_del invar_del)

lemma check_ins: "invar s \<Longrightarrow> check (ins s n) m \<longleftrightarrow> m = n \<or> check s m"
  by (simp add: check_view invar_ins view_ins)

lemma check_del: "invar s \<Longrightarrow> check (del s n) m \<longleftrightarrow> m \<noteq> n \<and> check s m"
  by (auto simp: check_view invar_del view_del)

end

lemma nr_remove1_correct:
  assumes ok: "nr_ok r"
  shows "nr_ok (nr_remove1 r n) \<and> nr_set (nr_remove1 r n) = nr_set r - {n}"
proof -
  have "nr_remove_top r n n = n" by (auto simp: nr_remove_top_def split: option.splits)
  then show ?thesis using nr_remove_correct [OF ok order_refl, of n] by (simp add: nr_remove1_def)
qed

interpretation nrs: number_set nr_check nr_insert1 nr_remove1 nr_set nr_ok
  by unfold_locales
    (simp_all add: nr_check_iff nr_insert1_set nr_insert1_ok nr_remove1_correct)

section \<open>Properties\<close>

text \<open>Property C1. Both forms of \<open>insert\<close> keep the ranges disjoint, sorted and merged, and add exactly
  the numbers they are given: \<open>insert(n)\<close> adds \<open>n\<close>, \<open>insert(l, h)\<close> adds the interval.\<close>

theorem nrange_insert_correct:
  assumes "nr_ok r" and "l \<le> h"
  shows "nr_ok (nr_insert1 r n) \<and> nr_set (nr_insert1 r n) = insert n (nr_set r) \<and>
    nr_ok (nr_insert2 r l h) \<and> nr_set (nr_insert2 r l h) = {l..h} \<union> nr_set r"
  by (intro conjI nr_insert1_ok nr_insert1_set nr_insert2_correct [THEN conjunct1]
      nr_insert2_correct [THEN conjunct2] assms)

theorem nrange_insert_correct_witness:
  "nr_set (nr_insert2 [(2, 1), (6, 5)] 3 4) = {3..4} \<union> nr_set [(2, 1), (6, 5)]"
  by (rule nrange_insert_correct [THEN conjunct2, THEN conjunct2, THEN conjunct2])
    (simp_all add: nr_ok_Cons nr_gap_def)

text \<open>Property C2. \<open>remove(l, h)\<close> keeps the invariant and takes out exactly the interval from \<open>l\<close> to
  \<open>nr_remove_top r l h\<close>, which is \<open>h\<close> whenever some stored range reaches \<open>h\<close>. So inside the stored
  range of numbers the operation is set difference.\<close>

theorem nrange_remove_correct:
  assumes "nr_ok r" and "l \<le> h"
  shows "nr_ok (nr_remove r l h) \<and> nr_set (nr_remove r l h) = nr_set r - {l..nr_remove_top r l h} \<and>
    ((\<exists>x \<in> nr_set r. h \<le> x) \<longrightarrow> nr_set (nr_remove r l h) = nr_set r - {l..h})"
proof -
  have "nr_remove_top r l h = h" if "x \<in> nr_set r" "h \<le> x" for x
  proof -
    obtain p where p: "p \<in> set r" "x \<le> fst p" using \<open>x \<in> nr_set r\<close> by (auto simp: mem_nr_set)
    have "smap_lb r h \<noteq> None"
    proof
      assume "smap_lb r h = None"
      then have "fst p < h" using p(1) by (simp add: smap_lb_None)
      with p(2) \<open>h \<le> x\<close> show False by order
    qed
    then show ?thesis by (auto simp: nr_remove_top_def)
  qed
  then show ?thesis using nr_remove_correct [OF assms] by metis
qed

theorem nrange_remove_correct_witness:
  "nr_set (nr_remove [(2, 1), (10, 5)] 2 6) = nr_set [(2, 1), (10, 5)] - {2..nr_remove_top [(2, 1), (10, 5)] 2 6}"
  by (rule nrange_remove_correct [THEN conjunct2, THEN conjunct1]) (simp_all add: nr_ok_Cons nr_gap_def)

text \<open>\<open>remove(l, h)\<close> with \<open>h\<close> above every stored number leaves ranges inside the interval
  in place: after inserting 1-2, 5-6 and 9-10, removing 4-20 takes out 5-6 only. \<open>lower_bound(h)\<close> is
  the end there, and the code starts its downward walk at \<open>lower_bound(l)\<close>, the lowest range of
  the interval instead of the highest.\<close>

theorem nrange_remove_above_incomplete:
  "let r = nr_insert2 (nr_insert2 (nr_insert2 [] 1 2) 5 6) 9 10
   in nr_ok r \<and> nr_remove r 4 20 = [(2, 1), (10, 9)] \<and> nr_check (nr_remove r 4 20) 9"
proof -
  have "nr_insert2 (nr_insert2 (nr_insert2 [] 1 2) 5 6) 9 10 = [(2, 1), (6, 5), (10, 9)]" by code_simp
  moreover have "nr_ok [(2, 1), (6, 5), (10, 9)]" by (simp add: nr_ok_Cons nr_gap_def)
  moreover have "nr_remove [(2, 1), (6, 5), (10, 9)] 4 20 = [(2, 1), (10, 9)]" by code_simp
  moreover have "nr_check [(2, 1), (10, 9)] 9" by code_simp
  ultimately show ?thesis by simp
qed

text \<open>\<open>invert\<close> adds the complement of its argument, with the wrap-around of the running
  low end at the largest number handled: the result is again well formed.\<close>

theorem nrange_invert_correct:
  assumes "nr_ok a" and "nr_ok r"
  shows "nr_ok (nr_invert a r) \<and> nr_set (nr_invert a r) = nr_set a \<union> - nr_set r"
  by (rule nr_invert_correct [OF assms])

theorem nrange_invert_correct_witness:
  "nr_set (nr_invert [] [(ULONG_MAX, 7)]) = nr_set [] \<union> - nr_set [(ULONG_MAX, 7)]"
  by (rule nrange_invert_correct [THEN conjunct2]) (simp_all add: nr_ok_Cons)

text \<open>\<open>clip_to_max_total(num)\<close> with a positive \<open>num\<close> keeps the \<open>num\<close> largest numbers: the
  result is the part of the set from some number on, and it has \<open>num\<close> members, or all of them when
  there are fewer. (The set must not be all \<open>2^64\<close> numbers, whose count does not fit a ulong.)\<close>

theorem nrange_clip_keeps_largest:
  assumes "nr_ok r" and "0 < num" and "card (nr_set r) < 2 ^ 64"
  shows "nr_ok (nr_clip_to_max_total r num) \<and>
    (\<exists>c. nr_set (nr_clip_to_max_total r num) = {x \<in> nr_set r. c \<le> x}) \<and>
    card (nr_set (nr_clip_to_max_total r num)) = min (card (nr_set r)) (unat num)"
  using nr_clip_loop_correct [OF assms(1,3), of "rev r" "[]" 0 num] assms(2)
  by (simp_all add: nr_clip_to_max_total_def)

theorem nrange_clip_keeps_largest_witness:
  "card (nr_set (nr_clip_to_max_total [(2, 1), (10, 5)] 3)) = min (card (nr_set [(2, 1), (10, 5)])) (unat (3 :: ulong))"
  by (rule nrange_clip_keeps_largest [THEN conjunct2, THEN conjunct2])
    (simp_all add: nr_ok_Cons nr_gap_def card_nr_set_Cons)

text \<open>Membership, extremes and totals read the set: \<open>check\<close> is membership, \<open>low()\<close> and
  \<open>high()\<close> fail exactly on the empty set and otherwise are its least and greatest members, and
  \<open>get_total()\<close> is the number of members modulo \<open>2^64\<close>.\<close>

theorem nrange_queries_correct:
  assumes "nr_ok r"
  shows "(nr_check r n \<longleftrightarrow> n \<in> nr_set r) \<and>
    nr_low r = (if nr_set r = {} then None else Some (Min (nr_set r))) \<and>
    nr_high r = (if nr_set r = {} then None else Some (Max (nr_set r))) \<and>
    nr_get_total r = of_nat (card (nr_set r))"
proof -
  have emp: "nr_set r = {} \<longleftrightarrow> r = []"
    using nr_last_in [OF assms] by (cases "r = []") auto
  have "nr_low r = (if nr_set r = {} then None else Some (Min (nr_set r)))"
  proof (cases "nr_low r")
    case None
    then have "r = []" by (auto simp: nr_low_def split: list.splits prod.splits)
    then show ?thesis using None by simp
  next
    case (Some l)
    then show ?thesis using nr_low_in [OF assms Some] by (auto intro!: Min_eqI [symmetric])
  qed
  moreover have "nr_high r = (if nr_set r = {} then None else Some (Max (nr_set r)))"
  proof (cases "nr_high r")
    case None
    then show ?thesis by (simp add: emp) (simp add: nr_high_def split: if_splits)
  next
    case (Some h)
    then show ?thesis using nr_high_in [OF assms Some] by (auto intro!: Max_eqI [symmetric])
  qed
  ultimately show ?thesis using nr_check_iff [OF assms] nr_get_total_card [OF assms] by blast
qed

theorem nrange_queries_correct_witness:
  "nr_check [(6, 5)] 5 \<longleftrightarrow> 5 \<in> nr_set [(6, 5)]"
  by (rule nrange_queries_correct [THEN conjunct1]) (simp add: nr_ok_Cons)

end
