(* ===== verification/CString.thy ===== *)
theory CString
  imports Prelude
begin

text \<open>
  The parts of the C library the program's parsers and printers are built on: character classes in
  the C locale, \<open>strtoul\<close>, \<open>strtol\<close>, \<open>atoi\<close>, \<open>atol\<close> in base 10 with their saturation, and the decimal
  conversions of \<open>printf\<close>. A C string is the list of its bytes before the terminating NUL; a pointer
  into it is the rest of the string from there. The lemmas are the conversions' round trips.
\<close>

section \<open>Characters\<close>

definition is_space :: "char \<Rightarrow> bool" where
  "is_space c \<longleftrightarrow> c = CHR '' '' \<or> (9 \<le> (of_char c :: nat) \<and> (of_char c :: nat) \<le> 13)"

definition is_digit :: "char \<Rightarrow> bool" where
  "is_digit c \<longleftrightarrow> 48 \<le> (of_char c :: nat) \<and> (of_char c :: nat) \<le> 57"

definition is_upper :: "char \<Rightarrow> bool" where
  "is_upper c \<longleftrightarrow> 65 \<le> (of_char c :: nat) \<and> (of_char c :: nat) \<le> 90"

definition is_lower :: "char \<Rightarrow> bool" where
  "is_lower c \<longleftrightarrow> 97 \<le> (of_char c :: nat) \<and> (of_char c :: nat) \<le> 122"

definition is_alpha :: "char \<Rightarrow> bool" where
  "is_alpha c \<longleftrightarrow> is_upper c \<or> is_lower c"

definition is_alnum :: "char \<Rightarrow> bool" where
  "is_alnum c \<longleftrightarrow> is_alpha c \<or> is_digit c"

definition to_lower :: "char \<Rightarrow> char" where
  "to_lower c = (if is_upper c then char_of ((of_char c :: nat) + 32) else c)"

definition to_upper :: "char \<Rightarrow> char" where
  "to_upper c = (if is_lower c then char_of ((of_char c :: nat) - 32) else c)"

section \<open>Decimal numbers\<close>

definition digit_val :: "char \<Rightarrow> nat" where
  "digit_val c = of_char c - 48"

definition digit_chr :: "nat \<Rightarrow> char" where
  "digit_chr d = char_of (48 + d)"

definition dec_val :: "string \<Rightarrow> nat" where
  "dec_val ds = foldl (\<lambda>n c. 10 * n + digit_val c) 0 ds"

fun show_nat :: "nat \<Rightarrow> string" where
  "show_nat n = (if n < 10 then [digit_chr n] else show_nat (n div 10) @ [digit_chr (n mod 10)])"

declare show_nat.simps [simp del]

definition show_int :: "int \<Rightarrow> string" where
  "show_int i = (if i < 0 then CHR ''-'' # show_nat (nat (- i)) else show_nat (nat i))"

definition show_ulong :: "ulong \<Rightarrow> string" where
  "show_ulong w = show_nat (unat w)"

text \<open>Optional white space, an optional sign, then digits: the sign, the digits and the rest. No
  digits is no conversion, and then the end pointer is the start of the string.\<close>

definition scan_num :: "string \<Rightarrow> (bool \<times> string \<times> string) option" where
  "scan_num s =
     (let s1 = dropWhile is_space s;
          neg = (case s1 of c # _ \<Rightarrow> c = CHR ''-'' | [] \<Rightarrow> False);
          s2 = (case s1 of c # cs \<Rightarrow> if c = CHR ''-'' \<or> c = CHR ''+'' then cs else s1 | [] \<Rightarrow> s1);
          ds = takeWhile is_digit s2
      in if ds = [] then None else Some (neg, ds, dropWhile is_digit s2))"

definition strtoul10 :: "string \<Rightarrow> ulong \<times> string" where
  "strtoul10 s =
     (case scan_num s of
        None \<Rightarrow> (0, s)
      | Some (neg, ds, rest) \<Rightarrow>
          (if 2 ^ 64 \<le> dec_val ds then ULONG_MAX
           else if neg then - of_nat (dec_val ds) else of_nat (dec_val ds), rest))"

definition strtol10 :: "string \<Rightarrow> int \<times> string" where
  "strtol10 s =
     (case scan_num s of
        None \<Rightarrow> (0, s)
      | Some (neg, ds, rest) \<Rightarrow>
          (if neg then max (- (2 ^ 63)) (- int (dec_val ds)) else min (2 ^ 63 - 1) (int (dec_val ds)), rest))"

definition atoul :: "string \<Rightarrow> ulong" where
  "atoul s = fst (strtoul10 s)"

definition atol :: "string \<Rightarrow> int" where
  "atol s = fst (strtol10 s)"

text \<open>A long stored into an int keeps its low 32 bits.\<close>

definition int32 :: "int \<Rightarrow> int" where
  "int32 i = sint (word_of_int i :: 32 word)"

definition atoi :: "string \<Rightarrow> int" where
  "atoi s = int32 (atol s)"

definition is_int32 :: "int \<Rightarrow> bool" where
  "is_int32 i \<longleftrightarrow> - (2 ^ 31) \<le> i \<and> i < 2 ^ 31"

section \<open>Round trips\<close>

lemma digit_chr_digit: "d < 10 \<Longrightarrow> is_digit (digit_chr d)"
  by (simp add: is_digit_def digit_chr_def of_char_of)

lemma digit_val_chr [simp]: "d < 10 \<Longrightarrow> digit_val (digit_chr d) = d"
  by (simp add: digit_val_def digit_chr_def of_char_of)

lemma dec_val_append: "dec_val (xs @ [c]) = 10 * dec_val xs + digit_val c"
  by (simp add: dec_val_def)

lemma show_nat_digits: "c \<in> set (show_nat n) \<Longrightarrow> is_digit c"
proof (induction n rule: show_nat.induct)
  case (1 n)
  then show ?case
    by (subst (asm) show_nat.simps) (auto simp: digit_chr_digit split: if_splits)
qed

lemma show_nat_nonempty [simp]: "show_nat n \<noteq> []"
  by (subst show_nat.simps) simp

lemma dec_val_show_nat [simp]: "dec_val (show_nat n) = n"
proof (induction n rule: show_nat.induct)
  case (1 n)
  show ?case
  proof (cases "n < 10")
    case True
    then show ?thesis by (subst show_nat.simps) (simp add: dec_val_def)
  next
    case False
    then have "dec_val (show_nat n) = 10 * dec_val (show_nat (n div 10)) + n mod 10"
      by (subst show_nat.simps) (simp add: dec_val_append)
    then show ?thesis using 1 False by simp
  qed
qed

definition stops_digits :: "string \<Rightarrow> bool" where
  "stops_digits s \<longleftrightarrow> (case s of [] \<Rightarrow> True | c # _ \<Rightarrow> \<not> is_digit c)"

lemma takeWhile_digits:
  "(\<And>c. c \<in> set ds \<Longrightarrow> is_digit c) \<Longrightarrow> stops_digits s \<Longrightarrow>
     takeWhile is_digit (ds @ s) = ds \<and> dropWhile is_digit (ds @ s) = s"
  by (induction ds) (auto simp: stops_digits_def split: list.splits)

lemma digit_not_special: "is_digit c \<Longrightarrow> \<not> is_space c \<and> c \<noteq> CHR ''-'' \<and> c \<noteq> CHR ''+''"
  by (auto simp: is_digit_def is_space_def)

lemma scan_num_show_nat: "stops_digits s \<Longrightarrow> scan_num (show_nat n @ s) = Some (False, show_nat n, s)"
proof -
  assume s: "stops_digits s"
  obtain c cs where c: "show_nat n = c # cs" by (cases "show_nat n") auto
  have "is_digit c" using show_nat_digits [of c n] c by simp
  then have "\<not> is_space c" "c \<noteq> CHR ''-''" "c \<noteq> CHR ''+''" using digit_not_special by auto
  then have "dropWhile is_space (show_nat n @ s) = show_nat n @ s" by (simp add: c)
  moreover have "takeWhile is_digit (show_nat n @ s) = show_nat n \<and> dropWhile is_digit (show_nat n @ s) = s"
    by (rule takeWhile_digits) (auto intro: show_nat_digits s)
  ultimately show ?thesis
    using \<open>c \<noteq> CHR ''-''\<close> \<open>c \<noteq> CHR ''+''\<close>
    by (auto simp: scan_num_def Let_def c)
qed

lemma scan_num_minus: "stops_digits s \<Longrightarrow> scan_num (CHR ''-'' # show_nat n @ s) = Some (True, show_nat n, s)"
  using takeWhile_digits [of "show_nat n", OF show_nat_digits]
  by (simp add: scan_num_def Let_def is_space_def)

lemma strtoul10_show: "stops_digits s \<Longrightarrow> strtoul10 (show_ulong w @ s) = (w, s)"
proof -
  assume "stops_digits s"
  moreover have "unat w < 2 ^ 64" using unsigned_less [of w, where ?'a = nat] by simp
  ultimately show ?thesis by (simp add: strtoul10_def show_ulong_def scan_num_show_nat not_le)
qed

lemma atoul_show [simp]: "atoul (show_ulong w) = w"
  using strtoul10_show [of "[]" w] by (simp add: atoul_def stops_digits_def)

lemma strtol10_show:
  "- (2 ^ 63) \<le> i \<Longrightarrow> i < 2 ^ 63 \<Longrightarrow> stops_digits s \<Longrightarrow> strtol10 (show_int i @ s) = (i, s)"
  by (auto simp: strtol10_def show_int_def scan_num_show_nat scan_num_minus)

lemma atol_show: "- (2 ^ 63) \<le> i \<Longrightarrow> i < 2 ^ 63 \<Longrightarrow> atol (show_int i) = i"
  using strtol10_show [of i "[]"] by (simp add: atol_def stops_digits_def)

lemma int32_id: "is_int32 i \<Longrightarrow> int32 i = i"
  by (simp add: int32_def is_int32_def sint_sbintrunc' signed_take_bit_int_eq_self)

lemma is_int32_int32: "is_int32 (int32 i)"
  using sint_greater_eq [of "word_of_int i :: 32 word"] sint_less [of "word_of_int i :: 32 word"]
  by (simp add: int32_def is_int32_def)

lemma atoi_show: "is_int32 i \<Longrightarrow> atoi (show_int i) = i"
  by (simp add: atoi_def atol_show int32_id is_int32_def)

lemma show_int_chars: "c \<in> set (show_int i) \<Longrightarrow> is_digit c \<or> c = CHR ''-''"
  by (auto simp: show_int_def show_nat_digits split: if_splits)

lemma show_ulong_chars: "c \<in> set (show_ulong w) \<Longrightarrow> is_digit c"
  by (simp add: show_ulong_def show_nat_digits)

lemma show_int_nonempty [simp]: "show_int i \<noteq> []"
  by (simp add: show_int_def)

lemma show_ulong_nonempty [simp]: "show_ulong w \<noteq> []"
  by (simp add: show_ulong_def)

end
