(* ===== verification/Strings.thy ===== *)
theory Strings
  imports CString
begin

text \<open>
  String utilities: the tokenizer of \<open>strtoker.cc\<close>, the path functions of \<open>path.cc\<close>, the command line
  splitter of \<open>argparser.cc\<close> and the string functions of \<open>misc.cc\<close>, the conversion of a regular
  expression to a wildmat pattern among them. The path functions are those of a POSIX build
  (separator \<open>/\<close>). The lemmas: splitting a joined line gives its fields back, a path split undoes a
  path join, quoted arguments are parsed back, and the wildmat pattern of a regular expression
  matches what the expression matches.
\<close>

section \<open>The tokenizer\<close>

text \<open>A char pointer is NULL or the rest of the string from it. The terminating NUL written at the
  separator ends the token that is returned.\<close>

definition goodstrtok :: "string option \<Rightarrow> char \<Rightarrow> string option \<times> string option" where
  "goodstrtok cur sep =
     (case cur of
        None \<Rightarrow> (None, None)
      | Some s \<Rightarrow>
          (case dropWhile (\<lambda>c. c \<noteq> sep) s of
             [] \<Rightarrow> (Some s, None)
           | _ # rest \<Rightarrow> (Some (takeWhile (\<lambda>c. c \<noteq> sep) s), Some rest)))"

record strtoker =
  toks :: "string option list"
  maxtoks :: nat
  numtoks :: nat
  tokchar :: char

definition strtoker_new :: "nat \<Rightarrow> char \<Rightarrow> strtoker" where
  "strtoker_new num tok =
     \<lparr>toks = replicate num None, maxtoks = num, numtoks = 0, tokchar = tok\<rparr>"

text \<open>The loop of \<open>tok\<close>: the fuel is the number of tokens that may still be stored.\<close>

fun strtoker_loop :: "nat \<Rightarrow> strtoker \<Rightarrow> string option \<Rightarrow> int \<times> strtoker" where
  "strtoker_loop 0 t str = (case str of Some _ \<Rightarrow> (- 1, t) | None \<Rightarrow> (0, t))"
| "strtoker_loop (Suc k) t str =
     (let (x, str') = goodstrtok str (tokchar t);
          t' = t\<lparr>toks := (toks t)[numtoks t := x]\<rparr>
      in case x of
           None \<Rightarrow> (0, t')
         | Some _ \<Rightarrow> strtoker_loop k (t'\<lparr>numtoks := Suc (numtoks t')\<rparr>) str')"

definition strtoker_tok :: "strtoker \<Rightarrow> string \<Rightarrow> int \<times> strtoker" where
  "strtoker_tok t str = strtoker_loop (maxtoks t) (t\<lparr>numtoks := 0\<rparr>) (Some str)"

section \<open>Paths\<close>

definition PATHSEP :: char where
  "PATHSEP = CHR ''/''"

definition is_pathsep :: "char \<Rightarrow> bool" where
  "is_pathsep c \<longleftrightarrow> c = CHR ''/''"

definition is_abspath :: "string \<Rightarrow> bool" where
  "is_abspath p \<longleftrightarrow> (case p of [] \<Rightarrow> False | c # _ \<Rightarrow> c = CHR ''/'')"

definition path_append :: "string \<Rightarrow> string \<Rightarrow> string" where
  "path_append a b =
     (if a = [] then b
      else (if \<not> is_pathsep (last a) then a @ [PATHSEP] else a) @ b)"

definition path_join :: "string \<Rightarrow> string \<Rightarrow> string" where
  "path_join a b = path_append a b"

definition path_join3 :: "string \<Rightarrow> string \<Rightarrow> string \<Rightarrow> string" where
  "path_join3 a b c = path_append (path_append a b) c"

text \<open>The loop takes characters from the end of \<open>head\<close>; the reversed head makes it structural.\<close>

fun path_split_loop :: "string \<Rightarrow> string \<Rightarrow> string \<times> string" where
  "path_split_loop [] tail = ([], tail)"
| "path_split_loop (c # rhead) tail =
     (if is_pathsep c then
        (let tail' = (if rhead = [] then c # tail else tail)
         in if tail' \<noteq> [] then (rev rhead, tail') else path_split_loop rhead tail')
      else path_split_loop rhead (c # tail))"

definition path_split :: "string \<Rightarrow> string \<times> string" where
  "path_split head = path_split_loop (rev head) []"

definition fcheckpath :: "(string \<Rightarrow> bool) \<Rightarrow> string \<Rightarrow> string \<Rightarrow> string" where
  "fcheckpath fexists fn path =
     (if \<not> is_abspath fn \<and> fexists (path_join path fn) then path_join path fn else fn)"

section \<open>Splitting a command line\<close>

datatype parse_error = Unterminated_quote char | Ended_with_escape

text \<open>The state of the loop: the arguments pushed, the part being read, the open quote, the escape
  flag. The arguments pushed before an exception stay in the list.\<close>

record parse_state =
  argl :: "string list"
  curpart :: string
  quote :: "char option"
  esc :: bool

definition pa_step :: "char \<Rightarrow> parse_state \<Rightarrow> parse_state" where
  "pa_step c st =
     (if esc st then
        st\<lparr>esc := False,
           curpart := curpart st @ (if c = CHR 0x22 \<or> c = CHR 0x27 then [c] else [CHR 0x5C, c])\<rparr>
      else if is_space c \<and> quote st = None then
        (if curpart st \<noteq> [] then st\<lparr>argl := argl st @ [curpart st], curpart := []\<rparr> else st)
      else if c = CHR 0x5C then st\<lparr>esc := True\<rparr>
      else if (c = CHR 0x22 \<or> c = CHR 0x27) \<and> quote st = Some c then st\<lparr>quote := None\<rparr>
      else if (c = CHR 0x22 \<or> c = CHR 0x27) \<and> quote st = None then st\<lparr>quote := Some c\<rparr>
      else st\<lparr>curpart := curpart st @ [c]\<rparr>)"

definition pa_comment :: "bool \<Rightarrow> char \<Rightarrow> parse_state \<Rightarrow> bool" where
  "pa_comment ignorecomments c st \<longleftrightarrow>
     \<not> esc st \<and> ignorecomments \<and> quote st = None \<and> c = CHR ''#'' \<and> curpart st = []"

definition pa_end :: "parse_state \<Rightarrow> string list \<times> parse_error option" where
  "pa_end st =
     (case quote st of
        Some q \<Rightarrow> (argl st, Some (Unterminated_quote q))
      | None \<Rightarrow>
          if esc st then (argl st, Some Ended_with_escape)
          else (if curpart st \<noteq> [] then argl st @ [curpart st] else argl st, None))"

fun pa_loop :: "bool \<Rightarrow> string \<Rightarrow> parse_state \<Rightarrow> string list \<times> parse_error option" where
  "pa_loop ic [] st = pa_end st"
| "pa_loop ic (c # cs) st =
     (if pa_comment ic c st then (argl st, None) else pa_loop ic cs (pa_step c st))"

definition parseargs :: "string list \<Rightarrow> string \<Rightarrow> bool \<Rightarrow> string list \<times> parse_error option" where
  "parseargs args optarg ignorecomments =
     pa_loop ignorecomments optarg \<lparr>argl = args, curpart = [], quote = None, esc = False\<rparr>"

section \<open>String functions of misc.cc\<close>

definition hexchar :: string where
  "hexchar = ''0123456789abcdef''"

fun hexstr :: "string \<Rightarrow> string" where
  "hexstr [] = []"
| "hexstr (c # s) = hexchar ! (of_char c div 16) # hexchar ! (of_char c mod 16) # hexstr s"

definition lowerstr :: "string \<Rightarrow> string" where
  "lowerstr s = List.map to_lower s"

definition strtolower :: "string \<Rightarrow> string" where
  "strtolower s = lowerstr s"

definition strstartswith :: "string \<Rightarrow> string \<Rightarrow> bool" where
  "strstartswith s t \<longleftrightarrow> take (length t) s = t"

datatype parsestr_error = Empty_val | Invalid_unsigned | Invalid_value | Trailing_junk | Not_in_range

definition parsestr_valcheck :: "string \<Rightarrow> bool \<Rightarrow> parsestr_error option" where
  "parsestr_valcheck val is_signed =
     (if val = [] then Some Empty_val
      else if \<not> is_signed \<and> CHR ''-'' \<in> set val then Some Invalid_unsigned
      else None)"

text \<open>\<open>iss >> v\<close> of an \<open>int\<close> and of an \<open>unsigned long\<close> in the C locale: skip white space, read a sign and
  digits. No digits and a value out of the type's range set the fail bit. What is left must be
  empty.\<close>

definition parsestr_int :: "string \<Rightarrow> parsestr_error + int" where
  "parsestr_int val =
     (case parsestr_valcheck val True of
        Some e \<Rightarrow> Inl e
      | None \<Rightarrow>
          (case scan_num val of
             None \<Rightarrow> Inl Invalid_value
           | Some (neg, ds, rest) \<Rightarrow>
               (let v = (if neg then - int (dec_val ds) else int (dec_val ds))
                in if \<not> is_int32 v then Inl Invalid_value
                   else if rest \<noteq> [] then Inl Trailing_junk
                   else Inr v)))"

definition parsestr_ulong :: "string \<Rightarrow> parsestr_error + ulong" where
  "parsestr_ulong val =
     (case parsestr_valcheck val False of
        Some e \<Rightarrow> Inl e
      | None \<Rightarrow>
          (case scan_num val of
             None \<Rightarrow> Inl Invalid_value
           | Some (neg, ds, rest) \<Rightarrow>
               (if 2 ^ 64 \<le> dec_val ds then Inl Invalid_value
                else if rest \<noteq> [] then Inl Trailing_junk
                else Inr (of_nat (dec_val ds)))))"

definition parsestr_int_range :: "string \<Rightarrow> int \<Rightarrow> int \<Rightarrow> parsestr_error + int" where
  "parsestr_int_range val lo hi =
     (case parsestr_int val of
        Inl e \<Rightarrow> Inl e
      | Inr v \<Rightarrow> if v < lo \<or> hi < v then Inl Not_in_range else Inr v)"

definition parsestr_ulong_range :: "string \<Rightarrow> ulong \<Rightarrow> ulong \<Rightarrow> parsestr_error + ulong" where
  "parsestr_ulong_range val lo hi =
     (case parsestr_ulong val of
        Inl e \<Rightarrow> Inl e
      | Inr v \<Rightarrow> if v < lo \<or> hi < v then Inl Not_in_range else Inr v)"

text \<open>\<open>durationstr\<close> on a count that is not negative (division and remainder truncate).\<close>

definition durationstr :: "nat \<Rightarrow> string" where
  "durationstr d =
     (let s = d mod 60; m = d div 60 mod 60; h = d div 60 div 60
      in (if h \<noteq> 0 then show_nat h @ ''h'' else []) @
         (if h \<noteq> 0 \<or> m \<noteq> 0 then show_nat m @ ''m'' else []) @ show_nat s @ ''s'')"

section \<open>From a regular expression to a wildmat pattern\<close>

text \<open>The value of the exception is the character at which the conversion gave up.\<close>

datatype wildmat_error = Unconvertible char

text \<open>The bracket loop: \<open>first\<close> is the test \<open>opos+1 == pos\<close>, \<open>nc\<close> the last character read.\<close>

fun rw_class :: "bool \<Rightarrow> bool \<Rightarrow> string \<Rightarrow> char option \<Rightarrow> string \<Rightarrow> string \<times> char option \<times> string" where
  "rw_class ic first acc nc [] = (acc, nc, [])"
| "rw_class ic first acc nc (c # cs) =
     (if c = CHR '']'' \<and> \<not> first then (acc @ [CHR '']''], Some c, cs)
      else rw_class ic False (acc @ (if ic \<and> is_alpha c then [to_lower c, to_upper c] else [c])) (Some c) cs)"

text \<open>One turn of the main loop on the character \<open>c\<close>, with \<open>cs\<close> still unread: what is appended and
  the rest, or \<open>None\<close> for the \<open>break\<close>.\<close>

definition rw_step :: "bool \<Rightarrow> char \<Rightarrow> string \<Rightarrow> wildmat_error + (string \<times> string) option" where
  "rw_step ic c cs =
     (if c = CHR ''.'' then
        (case cs of
           d # cs' \<Rightarrow> if d = CHR ''*'' then Inr (Some (''*'', cs')) else Inr (Some (''?'', cs))
         | [] \<Rightarrow> Inr (Some (''?'', cs)))
      else if c = CHR 0x5C then
        (case cs of
           [] \<Rightarrow> Inl (Unconvertible c)
         | nc # cs' \<Rightarrow>
             if nc \<in> set ''*?[]'' then Inr (Some ([c, nc], cs'))
             else if nc \<in> set ''(){}|.'' then Inr (Some ([nc], cs'))
             else if nc = CHR ''<'' \<or> nc = CHR ''>'' \<or> is_alnum nc then Inl (Unconvertible c)
             else Inr (Some ([nc], cs')))
      else if c \<in> set ''?*+(){}|'' then Inl (Unconvertible c)
      else if cs = [] \<and> c = CHR ''$'' then Inr None
      else if ic \<and> is_alpha c then Inr (Some ([CHR ''['', to_lower c, to_upper c, CHR '']''], cs))
      else if c = CHR ''['' then
        (case rw_class ic True ''['' None cs of
           (out, nc, rest) \<Rightarrow>
             if nc \<noteq> Some (CHR '']'') then Inl (Unconvertible (case nc of Some d \<Rightarrow> d | None \<Rightarrow> CHR 0xFF))
             else Inr (Some (out, rest)))
      else Inr (Some ([c], cs)))"

lemma rw_class_shorter: "rw_class ic first acc nc cs = (out, nc', rest) \<Longrightarrow> length rest \<le> length cs"
  by (induction ic first acc nc cs rule: rw_class.induct) (fastforce split: if_splits)+

lemma rw_step_shorter: "rw_step ic c cs = Inr (Some (out, rest)) \<Longrightarrow> length rest \<le> length cs"
  by (auto simp: rw_step_def split: if_splits list.splits prod.splits dest: rw_class_shorter)

function rw_loop :: "bool \<Rightarrow> string \<Rightarrow> string \<Rightarrow> wildmat_error + string" where
  "rw_loop ic acc [] = Inr acc"
| "rw_loop ic acc (c # cs) =
     (case rw_step ic c cs of
        Inl e \<Rightarrow> Inl e
      | Inr None \<Rightarrow> Inr acc
      | Inr (Some (out, rest)) \<Rightarrow>
          if rest = [] then Inr (acc @ out @ ''*'') else rw_loop ic (acc @ out) rest)"
  by pat_completeness auto
termination
  by (relation "measure (\<lambda>(ic, acc, cs). length cs)") (auto dest: rw_step_shorter)

definition regex2wildmat :: "string \<Rightarrow> bool \<Rightarrow> wildmat_error + string" where
  "regex2wildmat repat ignorecase =
     (case repat of
        [] \<Rightarrow> Inr ''*''
      | c # cs \<Rightarrow>
          if c = CHR ''^'' then rw_loop ignorecase [] cs else rw_loop ignorecase ''*'' repat)"

section \<open>Tokens of a joined line\<close>

definition join_fields :: "char \<Rightarrow> string list \<Rightarrow> string" where
  "join_fields sep fs = concat (List.map (\<lambda>f. sep # f) fs)"

lemma join_fields_simps [simp]:
  "join_fields sep [] = []"
  "join_fields sep (f # fs) = sep # f @ join_fields sep fs"
  by (simp_all add: join_fields_def)

lemma span_field:
  "sep \<notin> set f \<Longrightarrow> dropWhile (\<lambda>c. c \<noteq> sep) (f @ join_fields sep fs) = join_fields sep fs \<and>
     takeWhile (\<lambda>c. c \<noteq> sep) (f @ join_fields sep fs) = f"
proof (induction f)
  case Nil
  then show ?case by (cases fs) auto
qed auto

lemma goodstrtok_field:
  "sep \<notin> set f \<Longrightarrow> goodstrtok (Some (f @ join_fields sep fs)) sep =
     (Some f, (case fs of [] \<Rightarrow> None | g # gs \<Rightarrow> Some (g @ join_fields sep gs)))"
  using span_field [of sep f fs]
  by (cases fs) (simp_all add: goodstrtok_def del: dropWhile_eq_Nil_conv)

lemma strtoker_loop_fields:
  assumes "sep = tokchar t" "sep \<notin> set f" "\<forall>g \<in> set fs. sep \<notin> set g" "length fs < n"
    "n + numtoks t \<le> length (toks t)"
  shows "\<exists>t'. strtoker_loop n t (Some (f @ join_fields sep fs)) = (0, t') \<and>
     numtoks t' = numtoks t + Suc (length fs) \<and>
     take (numtoks t + Suc (length fs)) (toks t') = take (numtoks t) (toks t) @ Some f # List.map Some fs"
  using assms
proof (induction fs arbitrary: f n t)
  case Nil
  then obtain k where n: "n = Suc k" by (cases n) auto
  show ?case
  proof (cases k)
    case 0
    then show ?thesis using Nil n goodstrtok_field [of sep f "[]"]
      by (simp add: take_Suc_conv_app_nth)
  next
    case (Suc j)
    then show ?thesis using Nil n goodstrtok_field [of sep f "[]"]
      by (simp add: take_Suc_conv_app_nth goodstrtok_def [of None])
  qed
next
  case (Cons g gs)
  then obtain k where n: "n = Suc k" by (cases n) auto
  define t1 where "t1 = t\<lparr>toks := (toks t)[numtoks t := Some f], numtoks := Suc (numtoks t)\<rparr>"
  have step: "strtoker_loop n t (Some (f @ join_fields sep (g # gs))) =
      strtoker_loop k t1 (Some (g @ join_fields sep gs))"
    using goodstrtok_field [of sep f "g # gs"] Cons.prems by (simp add: n t1_def)
  have "\<exists>t'. strtoker_loop k t1 (Some (g @ join_fields sep gs)) = (0, t') \<and>
     numtoks t' = numtoks t1 + Suc (length gs) \<and>
     take (numtoks t1 + Suc (length gs)) (toks t') = take (numtoks t1) (toks t1) @ Some g # List.map Some gs"
    by (rule Cons.IH) (use Cons.prems n in \<open>auto simp: t1_def\<close>)
  moreover have "take (numtoks t1) (toks t1) = take (numtoks t) (toks t) @ [Some f]"
    using Cons.prems n by (simp add: t1_def take_Suc_conv_app_nth)
  ultimately show ?case unfolding step by (auto simp: t1_def)
qed

lemma strtoker_loop_overflow:
  assumes "sep = tokchar t" "sep \<notin> set f" "\<forall>g \<in> set fs. sep \<notin> set g" "n \<le> length fs"
    "n + numtoks t \<le> length (toks t)"
  shows "\<exists>t'. strtoker_loop n t (Some (f @ join_fields sep fs)) = (- 1, t') \<and>
     numtoks t' = numtoks t + n"
  using assms
proof (induction fs arbitrary: f n t)
  case (Cons g gs)
  show ?case
  proof (cases n)
    case (Suc k)
    define t1 where "t1 = t\<lparr>toks := (toks t)[numtoks t := Some f], numtoks := Suc (numtoks t)\<rparr>"
    have "strtoker_loop n t (Some (f @ join_fields sep (g # gs))) =
        strtoker_loop k t1 (Some (g @ join_fields sep gs))"
      using goodstrtok_field [of sep f "g # gs"] Cons.prems by (simp add: Suc t1_def)
    moreover have "\<exists>t'. strtoker_loop k t1 (Some (g @ join_fields sep gs)) = (- 1, t') \<and>
       numtoks t' = numtoks t1 + k"
      by (rule Cons.IH) (use Cons.prems Suc in \<open>auto simp: t1_def\<close>)
    ultimately show ?thesis by (auto simp: t1_def Suc)
  qed simp
qed simp

section \<open>Path splitting\<close>

lemma path_split_loop_tail:
  "t \<noteq> [] \<or> tail \<noteq> [] \<Longrightarrow> CHR ''/'' \<notin> set t \<Longrightarrow>
     path_split_loop (t @ CHR ''/'' # rhead) tail =
       (if rhead = [] then ([], CHR ''/'' # rev t @ tail) else (rev rhead, rev t @ tail))"
  by (induction t arbitrary: tail) (auto simp: is_pathsep_def Let_def)

section \<open>Parsing quoted arguments\<close>

definition quote_char :: "char \<Rightarrow> string" where
  "quote_char c = (if c = CHR 0x22 then [CHR 0x5C, CHR 0x22] else [c])"

definition quote_arg :: "string \<Rightarrow> string" where
  "quote_arg a = CHR 0x22 # concat (List.map quote_char a) @ [CHR 0x22]"

lemma pa_loop_quoted:
  "CHR 0x5C \<notin> set a \<Longrightarrow>
     pa_loop ic (concat (List.map quote_char a) @ CHR 0x22 # rest)
       \<lparr>argl = xs, curpart = p, quote = Some (CHR 0x22), esc = False\<rparr> =
     pa_loop ic rest \<lparr>argl = xs, curpart = p @ a, quote = None, esc = False\<rparr>"
  by (induction a arbitrary: p) (auto simp: quote_char_def pa_step_def pa_comment_def is_space_def)

lemma pa_loop_quote_arg:
  "CHR 0x5C \<notin> set a \<Longrightarrow>
     pa_loop ic (quote_arg a @ rest) \<lparr>argl = xs, curpart = [], quote = None, esc = False\<rparr> =
     pa_loop ic rest \<lparr>argl = xs, curpart = a, quote = None, esc = False\<rparr>"
  using pa_loop_quoted [of a ic rest xs "[]"]
  by (simp add: quote_arg_def pa_step_def pa_comment_def is_space_def)

lemma pa_loop_quoted_args:
  "\<forall>a \<in> set args. a \<noteq> [] \<and> CHR 0x5C \<notin> set a \<Longrightarrow>
     pa_loop ic (concat (List.map (\<lambda>a. quote_arg a @ '' '') args) @ rest)
       \<lparr>argl = xs, curpart = [], quote = None, esc = False\<rparr> =
     pa_loop ic rest \<lparr>argl = xs @ args, curpart = [], quote = None, esc = False\<rparr>"
proof (induction args arbitrary: xs)
  case (Cons a args)
  let ?rest = "concat (List.map (\<lambda>a. quote_arg a @ '' '') args) @ rest"
  have "pa_loop ic ('' '' @ ?rest) \<lparr>argl = xs, curpart = a, quote = None, esc = False\<rparr> =
      pa_loop ic rest \<lparr>argl = xs @ a # args, curpart = [], quote = None, esc = False\<rparr>"
    using Cons by (simp add: pa_step_def pa_comment_def is_space_def)
  then show ?case using pa_loop_quote_arg [of a ic "'' '' @ ?rest" xs] Cons.prems by simp
qed simp

section \<open>What a wildmat pattern matches\<close>

text \<open>The wildmat language of the news servers (RFC 2980): \<open>*\<close> any string, \<open>?\<close> any character, a
  backslash quotes the next character, brackets hold single characters and ranges, with a leading
  \<open>^\<close> for the complement, and the whole string has to match.\<close>

function wm_class :: "bool \<Rightarrow> string \<Rightarrow> ((char \<times> char) list \<times> string) option" where
  "wm_class first [] = None"
| "wm_class first [c] = (if c = CHR '']'' \<and> \<not> first then Some ([], []) else None)"
| "wm_class first [c, d] =
     (if c = CHR '']'' \<and> \<not> first then Some ([], [d])
      else map_option (\<lambda>(rs, p). ((c, c) # rs, p)) (wm_class False [d]))"
| "wm_class first (c # d # e # p) =
     (if c = CHR '']'' \<and> \<not> first then Some ([], d # e # p)
      else if d = CHR ''-'' \<and> e \<noteq> CHR '']'' then map_option (\<lambda>(rs, q). ((c, e) # rs, q)) (wm_class False p)
      else map_option (\<lambda>(rs, q). ((c, c) # rs, q)) (wm_class False (d # e # p)))"
  by pat_completeness auto
termination by (relation "measure (\<lambda>(f, p). length p)") auto

definition wm_bracket :: "string \<Rightarrow> ((char \<Rightarrow> bool) \<times> string) option" where
  "wm_bracket p =
     (let neg = (case p of c # _ \<Rightarrow> c = CHR ''^'' | [] \<Rightarrow> False)
      in map_option (\<lambda>(rs, q). (\<lambda>c. (\<exists>(a, b) \<in> set rs. a \<le> c \<and> c \<le> b) \<noteq> neg, q))
           (wm_class True (if neg then tl p else p)))"

lemma wm_class_shorter: "wm_class first p = Some (rs, q) \<Longrightarrow> length q \<le> length p"
  by (induction first p arbitrary: rs q rule: wm_class.induct) (fastforce split: if_splits)+

lemma wm_bracket_shorter: "wm_bracket p = Some (cl, q) \<Longrightarrow> length q \<le> length p"
  by (auto simp: wm_bracket_def Let_def dest!: wm_class_shorter split: list.splits if_splits)

function wm_match :: "string \<Rightarrow> string \<Rightarrow> bool" where
  "wm_match [] s \<longleftrightarrow> s = []"
| "wm_match (c # p) s \<longleftrightarrow>
     (if c = CHR ''*'' then wm_match p s \<or> (case s of [] \<Rightarrow> False | _ # s' \<Rightarrow> wm_match (c # p) s')
      else
        (case s of
           [] \<Rightarrow> False
         | x # s' \<Rightarrow>
             if c = CHR ''?'' then wm_match p s'
             else if c = CHR 0x5C then (case p of [] \<Rightarrow> False | q # p' \<Rightarrow> x = q \<and> wm_match p' s')
             else if c = CHR ''['' then
               (case wm_bracket p of None \<Rightarrow> False | Some (cl, p') \<Rightarrow> cl x \<and> wm_match p' s')
             else x = c \<and> wm_match p s'))"
  by pat_completeness auto
termination
  by (relation "measures [\<lambda>(p, s). length s, \<lambda>(p, s). length p]") (auto dest: wm_bracket_shorter)

section \<open>Regular expressions of literals, dots and dot-stars\<close>

datatype rtok = RLit char | RDot | RDotStar

definition rx_specials :: string where
  "rx_specials = ''.*?+(){}|[]^$''"

fun rx_show1 :: "rtok \<Rightarrow> string" where
  "rx_show1 (RLit c) = (if c \<in> set rx_specials then [CHR 0x5C, c] else [c])"
| "rx_show1 RDot = ''.''"
| "rx_show1 RDotStar = ''.*''"

definition rx_show :: "bool \<Rightarrow> rtok list \<Rightarrow> bool \<Rightarrow> string" where
  "rx_show al ts ar =
     (if al then ''^'' else []) @ concat (List.map rx_show1 ts) @ (if ar then ''$'' else [])"

text \<open>Two characters are the same for a matcher that may ignore case.\<close>

definition eq_char :: "bool \<Rightarrow> char \<Rightarrow> char \<Rightarrow> bool" where
  "eq_char ic c x \<longleftrightarrow> (if ic then to_lower x = to_lower c else x = c)"

fun rx_exact :: "bool \<Rightarrow> rtok list \<Rightarrow> string \<Rightarrow> bool" where
  "rx_exact ic [] s \<longleftrightarrow> s = []"
| "rx_exact ic (RLit c # ts) s \<longleftrightarrow> (case s of [] \<Rightarrow> False | x # s' \<Rightarrow> eq_char ic c x \<and> rx_exact ic ts s')"
| "rx_exact ic (RDot # ts) s \<longleftrightarrow> (case s of [] \<Rightarrow> False | x # s' \<Rightarrow> rx_exact ic ts s')"
| "rx_exact ic (RDotStar # ts) s \<longleftrightarrow>
     rx_exact ic ts s \<or> (case s of [] \<Rightarrow> False | x # s' \<Rightarrow> rx_exact ic (RDotStar # ts) s')"

text \<open>The search of \<open>regexec\<close>: some part of the string matches, at its ends when anchored.\<close>

definition rx_search :: "bool \<Rightarrow> bool \<Rightarrow> rtok list \<Rightarrow> bool \<Rightarrow> string \<Rightarrow> bool" where
  "rx_search ic al ts ar s \<longleftrightarrow>
     (\<exists>pre mid post. s = pre @ mid @ post \<and> rx_exact ic ts mid \<and>
        (al \<longrightarrow> pre = []) \<and> (ar \<longrightarrow> post = []))"

text \<open>The wildmat pattern the conversion makes of one token.\<close>

fun wm_tok :: "bool \<Rightarrow> rtok \<Rightarrow> string" where
  "wm_tok ic (RLit c) =
     (if c \<in> set ''*?[]'' then [CHR 0x5C, c]
      else if ic \<and> is_alpha c then [CHR ''['', to_lower c, to_upper c, CHR '']'']
      else [c])"
| "wm_tok ic RDot = ''?''"
| "wm_tok ic RDotStar = ''*''"

lemma set_specials: "set rx_specials = {CHR ''.'', CHR ''*'', CHR ''?'', CHR ''+'', CHR ''('', CHR '')'',
    CHR ''{'', CHR ''}'', CHR ''|'', CHR ''['', CHR '']'', CHR ''^'', CHR ''$''}"
  by (auto simp: rx_specials_def)

lemma special_not_alnum: "c \<in> set rx_specials \<Longrightarrow> \<not> is_alnum c \<and> c \<noteq> CHR ''<'' \<and> c \<noteq> CHR ''>''"
  by (auto simp: set_specials is_alnum_def is_alpha_def is_upper_def is_lower_def is_digit_def)

definition rtok_ok :: "rtok \<Rightarrow> bool" where
  "rtok_ok t \<longleftrightarrow> (case t of RLit c \<Rightarrow> c \<noteq> CHR 0x5C | _ \<Rightarrow> True)"

lemma rw_step_tok:
  assumes "rtok_ok t" "t = RDot \<Longrightarrow> (case rest of [] \<Rightarrow> True | d # _ \<Rightarrow> d \<noteq> CHR ''*'')"
  shows "\<exists>c cs. rx_show1 t @ rest = c # cs \<and> rw_step ic c cs = Inr (Some (wm_tok ic t, rest))"
proof (cases t)
  case (RLit c)
  show ?thesis
  proof (cases "c \<in> set rx_specials")
    case True
    then show ?thesis using special_not_alnum [OF True] RLit
      by (auto simp: rw_step_def is_alnum_def set_specials)
  next
    case False
    then show ?thesis using assms(1) RLit
      by (auto simp: rw_step_def set_specials rtok_ok_def)
  qed
next
  case RDot
  then show ?thesis using assms(2) by (auto simp: rw_step_def split: list.splits)
next
  case RDotStar
  then show ?thesis by (simp add: rw_step_def)
qed

lemma rw_loop_toks:
  assumes "\<forall>t \<in> set ts. rtok_ok t"
  shows "ts \<noteq> [] \<or> ar \<Longrightarrow>
    rw_loop ic acc (concat (List.map rx_show1 ts) @ (if ar then ''$'' else [])) =
    Inr (acc @ concat (List.map (wm_tok ic) ts) @ (if ar then [] else ''*''))"
  using assms
proof (induction ts arbitrary: acc)
  case Nil
  then show ?case by (simp add: rw_step_def)
next
  case (Cons t ts)
  let ?rest = "concat (List.map rx_show1 ts) @ (if ar then ''$'' else [])"
  have "case ?rest of [] \<Rightarrow> True | d # _ \<Rightarrow> d \<noteq> CHR ''*''"
    by (cases ts; cases "hd ts") (auto simp: rx_specials_def)
  then obtain c cs where c: "rx_show1 t @ ?rest = c # cs" "rw_step ic c cs = Inr (Some (wm_tok ic t, ?rest))"
    using rw_step_tok [of t ?rest ic] Cons.prems by auto
  have step: "rw_loop ic acc (concat (List.map rx_show1 (t # ts)) @ (if ar then ''$'' else [])) =
      (if ?rest = [] then Inr (acc @ wm_tok ic t @ ''*'') else rw_loop ic (acc @ wm_tok ic t) ?rest)"
    using c by simp
  have rest: "?rest = [] \<longleftrightarrow> ts = [] \<and> \<not> ar"
    by (cases ts; cases "hd ts") auto
  show ?case
  proof (cases "ts = [] \<and> \<not> ar")
    case True
    then show ?thesis unfolding step using rest by simp
  next
    case False
    then have "rw_loop ic (acc @ wm_tok ic t) ?rest =
        Inr ((acc @ wm_tok ic t) @ concat (List.map (wm_tok ic) ts) @ (if ar then [] else ''*''))"
      by (intro Cons.IH) (use Cons.prems in auto)
    moreover have "?rest \<noteq> []" using rest False by simp
    ultimately show ?thesis unfolding step by (simp del: append_is_Nil_conv)
  qed
qed


lemma char_neq_of_char: "(of_char x :: nat) \<noteq> of_char y \<Longrightarrow> (x :: char) \<noteq> y"
  by blast

lemma of_to_lower: "(of_char (to_lower c) :: nat) = (if is_upper c then of_char c + 32 else of_char c)"
  by (simp add: to_lower_def is_upper_def of_char_of)

lemma of_to_upper: "(of_char (to_upper c) :: nat) = (if is_lower c then of_char c - 32 else of_char c)"
proof -
  have "(of_char c :: nat) - 32 < 256" using nat_of_char_less_256 [of c] by linarith
  then have "((of_char c :: nat) - 32) mod 256 = of_char c - 32" by (rule mod_less)
  then show ?thesis by (simp add: to_upper_def is_lower_def of_char_of)
qed

lemma eq_char_alpha:
  assumes "is_alpha c"
  shows "eq_char True c x \<longleftrightarrow> x = to_lower c \<or> x = to_upper c"
proof -
  have "(of_char (to_lower x) :: nat) = of_char (to_lower c) \<longleftrightarrow>
      (of_char x :: nat) = of_char (to_lower c) \<or> (of_char x :: nat) = of_char (to_upper c)"
    unfolding of_to_lower of_to_upper using assms
    unfolding is_alpha_def is_upper_def is_lower_def by presburger
  then show ?thesis unfolding eq_char_def by simp
qed

lemma eq_char_not_alpha:
  assumes "\<not> is_alpha c"
  shows "eq_char ic c x \<longleftrightarrow> x = c"
proof -
  have "(of_char (to_lower x) :: nat) = of_char (to_lower c) \<longleftrightarrow> (of_char x :: nat) = of_char c"
    unfolding of_to_lower using assms unfolding is_alpha_def is_upper_def is_lower_def by presburger
  then show ?thesis unfolding eq_char_def by simp
qed

lemma wm_bracket_pair:
  assumes "is_alpha c"
  shows "\<exists>cl. wm_bracket (to_lower c # to_upper c # CHR '']'' # p) = Some (cl, p) \<and>
    (\<forall>x. cl x \<longleftrightarrow> x = to_lower c \<or> x = to_upper c)"
proof -
  have nl: "to_lower c \<noteq> CHR ''^''" "to_lower c \<noteq> CHR '']''" "to_upper c \<noteq> CHR ''-''" "to_upper c \<noteq> CHR '']''"
    using assms
    by (auto intro!: char_neq_of_char simp: of_to_lower of_to_upper is_alpha_def is_upper_def is_lower_def
        split: if_splits)
  have "wm_class False (CHR '']'' # p) = Some ([], p)"
    by (cases p; cases "tl p") auto
  then have "wm_class False (to_upper c # CHR '']'' # p) = Some ([(to_upper c, to_upper c)], p)"
    using nl by (cases p) auto
  then have "wm_class True (to_lower c # to_upper c # CHR '']'' # p) =
      Some ([(to_lower c, to_lower c), (to_upper c, to_upper c)], p)"
    using nl by simp
  then show ?thesis using nl by (auto simp: wm_bracket_def)
qed

lemma wm_match_star_append:
  "wm_match (CHR ''*'' # p) s \<longleftrightarrow> (\<exists>pre post. s = pre @ post \<and> wm_match p post)"
proof (induction s)
  case (Cons x s)
  have "wm_match (CHR ''*'' # p) (x # s) \<longleftrightarrow>
      wm_match p (x # s) \<or> (\<exists>pre post. s = pre @ post \<and> wm_match p post)"
    using Cons by simp
  also have "\<dots> \<longleftrightarrow> (\<exists>pre post. x # s = pre @ post \<and> wm_match p post)"
    by (simp add: Cons_eq_append_conv) (metis append_Cons)
  finally show ?case .
qed simp

declare wm_match.simps(2) [simp del]

lemma rx_exact_star_append:
  "rx_exact ic (RDotStar # ts) s \<longleftrightarrow> (\<exists>pre post. s = pre @ post \<and> rx_exact ic ts post)"
  by (induction s) (auto simp: Cons_eq_append_conv)

lemma wm_match_lit:
  assumes "c \<noteq> CHR 0x5C"
  shows "wm_match (wm_tok ic (RLit c) @ p) s \<longleftrightarrow> (\<exists>x s'. s = x # s' \<and> eq_char ic c x \<and> wm_match p s')"
proof (cases "ic \<and> is_alpha c")
  case True
  then have "c \<notin> set ''*?[]''" by (auto simp: is_alpha_def is_upper_def is_lower_def)
  moreover obtain cl where "wm_bracket (to_lower c # to_upper c # CHR '']'' # p) = Some (cl, p)"
      "\<forall>x. cl x \<longleftrightarrow> x = to_lower c \<or> x = to_upper c"
    using wm_bracket_pair True by blast
  ultimately show ?thesis using True
    by (cases s) (simp_all add: wm_match.simps eq_char_alpha)
next
  case False
  then have "eq_char ic c x \<longleftrightarrow> x = c" for x
    using False eq_char_not_alpha [of c ic x] by (cases ic) (simp_all add: eq_char_def [of False])
  then show ?thesis using assms False
    by (cases s) (auto simp: wm_match.simps)
qed

lemma ex_Cons_append_iff:
  "(\<exists>x s'. s = x # s' \<and> P x \<and> (\<exists>mid post. s' = mid @ post \<and> A mid \<and> B post)) \<longleftrightarrow>
   (\<exists>mid post. s = mid @ post \<and> (case mid of [] \<Rightarrow> False | x # m \<Rightarrow> P x \<and> A m) \<and> B post)" (is "?l \<longleftrightarrow> ?r")
proof
  assume ?l
  then obtain x mid post where "s = x # mid @ post" "P x" "A mid" "B post" by blast
  then show ?r by (intro exI [of _ "x # mid"] exI [of _ post]) simp
next
  assume ?r
  then obtain mid post where r: "s = mid @ post" "case mid of [] \<Rightarrow> False | x # m \<Rightarrow> P x \<and> A m" "B post" by blast
  then show ?l by (cases mid) auto
qed

lemma wm_match_toks:
  "\<forall>t \<in> set ts. rtok_ok t \<Longrightarrow>
     wm_match (concat (List.map (wm_tok ic) ts) @ p) s \<longleftrightarrow>
     (\<exists>mid post. s = mid @ post \<and> rx_exact ic ts mid \<and> wm_match p post)"
proof (induction ts arbitrary: s)
  case (Cons t ts)
  let ?q = "concat (List.map (wm_tok ic) ts) @ p"
  have IH: "wm_match ?q s' \<longleftrightarrow> (\<exists>mid post. s' = mid @ post \<and> rx_exact ic ts mid \<and> wm_match p post)" for s'
    using Cons by simp
  show ?case
  proof (cases t)
    case (RLit c)
    have "wm_match (wm_tok ic t @ ?q) s \<longleftrightarrow> (\<exists>x s'. s = x # s' \<and> eq_char ic c x \<and> wm_match ?q s')"
      unfolding RLit by (rule wm_match_lit) (use Cons.prems RLit in \<open>simp add: rtok_ok_def\<close>)
    also have "\<dots> \<longleftrightarrow> (\<exists>mid post. s = mid @ post \<and> rx_exact ic (t # ts) mid \<and> wm_match p post)"
      unfolding IH RLit rx_exact.simps by (rule ex_Cons_append_iff)
    finally show ?thesis by simp
  next
    case RDot
    have "wm_match (wm_tok ic t @ ?q) s \<longleftrightarrow> (\<exists>x s'. s = x # s' \<and> wm_match ?q s')"
      by (cases s) (simp_all add: RDot wm_match.simps)
    also have "\<dots> \<longleftrightarrow> (\<exists>mid post. s = mid @ post \<and> rx_exact ic (t # ts) mid \<and> wm_match p post)"
      unfolding IH RDot rx_exact.simps
      using ex_Cons_append_iff [where P = "\<lambda>_. True" and s = s and A = "rx_exact ic ts" and B = "wm_match p"]
      by (simp cong: list.case_cong)
    finally show ?thesis by simp
  next
    case RDotStar
    have "wm_match (wm_tok ic t @ ?q) s \<longleftrightarrow> (\<exists>pre s'. s = pre @ s' \<and> wm_match ?q s')"
      by (simp add: RDotStar wm_match_star_append)
    also have "\<dots> \<longleftrightarrow> (\<exists>mid post. s = mid @ post \<and> rx_exact ic (t # ts) mid \<and> wm_match p post)"
      unfolding IH RDotStar rx_exact_star_append by (metis append.assoc)
    finally show ?thesis by simp
  qed
qed simp

section \<open>The properties\<close>

text \<open>Tokenizing a line made of separator-free fields stores the fields in order: with room
  for all of them the result is 0 and the first \<open>numtoks\<close> slots are the fields; with fewer slots than
  fields the result is -1 and every slot is used.\<close>

theorem strtoker_fields:
  assumes "sep \<notin> set f" "\<forall>g \<in> set fs. sep \<notin> set g"
  shows "(length fs < n \<longrightarrow>
      (\<exists>t. strtoker_tok (strtoker_new n sep) (f @ join_fields sep fs) = (0, t) \<and>
         numtoks t = Suc (length fs) \<and> take (numtoks t) (toks t) = List.map Some (f # fs))) \<and>
    (n \<le> length fs \<longrightarrow>
      (\<exists>t. strtoker_tok (strtoker_new n sep) (f @ join_fields sep fs) = (- 1, t) \<and> numtoks t = n))"
  using strtoker_loop_fields [of sep "strtoker_new n sep" f fs n]
    strtoker_loop_overflow [of sep "strtoker_new n sep" f fs n] assms
  by (auto simp: strtoker_tok_def strtoker_new_def)

theorem strtoker_fields_witness:
  "\<exists>t. strtoker_tok (strtoker_new 3 (CHR 9)) [CHR ''a'', CHR 9, CHR ''b''] = (0, t) \<and>
     numtoks t = 2 \<and> take 2 (toks t) = [Some ''a'', Some ''b'']"
  using strtoker_fields [of "CHR 9" "''a''" "[''b'']" 3] by (auto simp: numeral_2_eq_2)

text \<open>Splitting undoes joining: for a head that neither is empty nor ends in a separator
  and a tail that is one nonempty path component, \<open>path_split\<close> of \<open>path_join(head, tail)\<close> gives them
  back; a path with a leading separator only keeps it in the tail.\<close>

theorem path_split_join:
  assumes "tail \<noteq> []" "CHR ''/'' \<notin> set tail"
  shows "(head \<noteq> [] \<and> last head \<noteq> CHR ''/'' \<longrightarrow> path_split (path_join head tail) = (head, tail)) \<and>
    path_split tail = ([], tail) \<and>
    path_split (CHR ''/'' # tail) = ([], CHR ''/'' # tail)"
proof -
  have rel: "path_split_loop (rev tail) [] = ([], tail)"
  proof -
    have "path_split_loop t acc = ([], rev t @ acc)" if "CHR ''/'' \<notin> set t" for t acc
      using that by (induction t arbitrary: acc) (auto simp: is_pathsep_def)
    then show ?thesis using assms by simp
  qed
  show ?thesis
    using rel assms path_split_loop_tail [of "rev tail" "[]" "rev head"]
      path_split_loop_tail [of "rev tail" "[]" "[]"]
    by (auto simp: path_split_def path_join_def path_append_def is_pathsep_def PATHSEP_def)
qed

theorem path_split_join_witness:
  "path_split (path_join ''/home/u'' ''f.par2'') = (''/home/u'', ''f.par2'')"
  using path_split_join [of "''f.par2''" "''/home/u''"] by simp

text \<open>Arguments written between double quotes, with a backslash before each double quote in
  them, are parsed back unchanged (nonempty arguments without a backslash), with or without comments;
  a quote left open and an escape left open at the end are reported.\<close>

theorem parseargs_quoted:
  assumes "\<forall>a \<in> set args. a \<noteq> [] \<and> CHR 0x5C \<notin> set a"
  shows "parseargs xs (concat (List.map (\<lambda>a. quote_arg a @ '' '') args)) ic = (xs @ args, None) \<and>
    parseargs xs (concat (List.map (\<lambda>a. quote_arg a @ '' '') args) @ [CHR 0x22]) ic =
      (xs @ args, Some (Unterminated_quote (CHR 0x22))) \<and>
    parseargs xs (concat (List.map (\<lambda>a. quote_arg a @ '' '') args) @ [CHR 0x5C]) ic =
      (xs @ args, Some Ended_with_escape)"
  using pa_loop_quoted_args [OF assms, of ic "''''" xs] pa_loop_quoted_args [OF assms, of ic "[CHR 0x22]" xs]
    pa_loop_quoted_args [OF assms, of ic "[CHR 0x5C]" xs]
  by (simp add: parseargs_def pa_end_def pa_step_def pa_comment_def is_space_def)

theorem parseargs_quoted_witness:
  "parseargs [] (concat (List.map (\<lambda>a. quote_arg a @ '' '') [''-g'', ''alt.test group''])) True =
     ([''-g'', ''alt.test group''], None)"
  using parseargs_quoted [of "[''-g'', ''alt.test group'']" "[]" True] by simp

text \<open>For a regular expression made of literal characters other than the backslash, dots and
  dot-stars, anchored or not at either end, the conversion succeeds and the wildmat pattern matches
  exactly the strings in which the expression is found, with and without \<open>ignorecase\<close>; the one
  expression left out is the lone start anchor.\<close>

theorem regex2wildmat_correct:
  assumes "\<forall>t \<in> set ts. rtok_ok t" "\<not> (al \<and> ts = [] \<and> \<not> ar)"
  shows "\<exists>w. regex2wildmat (rx_show al ts ar) ic = Inr w \<and> (\<forall>s. wm_match w s \<longleftrightarrow> rx_search ic al ts ar s)"
proof -
  let ?w = "(if al then [] else ''*'') @ concat (List.map (wm_tok ic) ts) @ (if ar then [] else ''*'')"
  have first: "hd (rx_show False ts ar) \<noteq> CHR ''^''" if "ts \<noteq> [] \<or> ar"
    using that by (cases ts; cases "hd ts") (auto simp: rx_show_def rx_specials_def)
  have nonempty: "rx_show False ts ar \<noteq> []" if "ts \<noteq> [] \<or> ar"
    using that by (cases ts; cases "hd ts") (auto simp: rx_show_def)
  define w where "w = (if ts = [] \<and> \<not> ar then ''*'' else ?w)"
  have conv: "regex2wildmat (rx_show al ts ar) ic = Inr w"
  proof (cases "ts = [] \<and> \<not> ar")
    case True
    then show ?thesis using assms by (simp add: w_def rx_show_def regex2wildmat_def)
  next
    case False
    then have l: "rw_loop ic acc (rx_show False ts ar) =
        Inr (acc @ concat (List.map (wm_tok ic) ts) @ (if ar then [] else ''*''))" for acc
      using rw_loop_toks [of ts ar ic acc] assms(1) by (auto simp: rx_show_def)
    have al: "rx_show True ts ar = CHR ''^'' # rx_show False ts ar" by (simp add: rx_show_def)
    have na: "rx_show False ts ar \<noteq> [] \<and> hd (rx_show False ts ar) \<noteq> CHR ''^''" using False first nonempty by blast
    show ?thesis
    proof (cases al)
      case True
      then show ?thesis using False by (auto simp: w_def regex2wildmat_def al l)
    next
      case al: False
      then have "regex2wildmat (rx_show al ts ar) ic = rw_loop ic ''*'' (rx_show False ts ar)"
        using na by (cases "rx_show False ts ar") (auto simp: regex2wildmat_def)
      then show ?thesis using False al by (auto simp: w_def l)
    qed
  qed
  have tail: "wm_match (concat (List.map (wm_tok ic) ts) @ (if ar then [] else ''*'')) s \<longleftrightarrow>
      (\<exists>mid post. s = mid @ post \<and> rx_exact ic ts mid \<and> (ar \<longrightarrow> post = []))" for s
    unfolding wm_match_toks [OF assms(1)] by (auto simp: wm_match_star_append)
  have "wm_match ?w s \<longleftrightarrow> rx_search ic al ts ar s" for s
    unfolding rx_search_def using tail by (cases al) (simp_all add: wm_match_star_append, blast)
  moreover have "wm_match ''*'' s \<longleftrightarrow> rx_search ic al ts ar s" if "ts = [] \<and> \<not> ar" for s
    using that assms(2) by (auto simp: wm_match_star_append rx_search_def)
  ultimately show ?thesis using conv by (auto simp: w_def)
qed

theorem regex2wildmat_correct_witness:
  "\<exists>w. regex2wildmat ''^ab.*c'' True = Inr w \<and>
     (\<forall>s. wm_match w s \<longleftrightarrow> rx_search True True [RLit (CHR ''a''), RLit (CHR ''b''), RDotStar, RLit (CHR ''c'')] False s)"
  using regex2wildmat_correct [of "[RLit (CHR ''a''), RLit (CHR ''b''), RDotStar, RLit (CHR ''c'')]" True False True]
  by (simp add: rx_show_def rx_specials_def rtok_ok_def)

text \<open>Where the conversion departs from the expression: the lone start anchor, which is
  found in every string, becomes the pattern of the empty string, and an escaped backslash becomes a
  bare one, which quotes the next character of the pattern instead of standing for itself.\<close>

theorem regex2wildmat_gaps:
  "regex2wildmat ''^'' ic = Inr '''' \<and> (\<forall>s. wm_match '''' s \<longleftrightarrow> s = '''') \<and> (\<forall>s. rx_search ic True [] False s) \<and>
   regex2wildmat [CHR ''^'', CHR 0x5C, CHR 0x5C, CHR ''.'', CHR ''$''] False = Inr [CHR 0x5C, CHR ''?''] \<and>
   \<not> wm_match [CHR 0x5C, CHR ''?''] [CHR 0x5C, CHR ''x''] \<and> wm_match [CHR 0x5C, CHR ''?''] ''?''"
  by (auto simp: regex2wildmat_def rw_step_def rx_search_def wm_match.simps is_alnum_def is_alpha_def
      is_upper_def is_lower_def is_digit_def)

end
