(* ===== verification/Buffy.thy ===== *)
theory Buffy
  imports CString
begin

text \<open>
  Buffered input of \<open>buffy.h\<close> and the reading and writing loops of \<open>file.cc\<close>. The ring buffer has
  2048 bytes, a head and a tail, and is refilled by one \<open>read\<close> of the file behind it when it is
  empty. A file is a state with a read operation that returns the bytes read (none at the end of the
  file) and the new state, or \<open>None\<close> for the exception of a failed read. The locale \<open>byte_source\<close>
  states what the buffer needs from it; its lemmas show that whatever the sizes of the reads, the
  buffered operations act on the plain sequence of bytes: \<open>s_gets\<close> and \<open>s_toks\<close> are the functions of
  that sequence which the file formats of the program are read with.
\<close>

section \<open>The file behind the buffer\<close>

text \<open>A file that is read: the bytes to come and the outcomes of the next \<open>read\<close> calls, \<open>Some k\<close> for
  at most \<open>k + 1\<close> bytes and \<open>None\<close> for an error; when the list is used up a read is complete.\<close>

record infile =
  fdata :: string
  sched :: "nat option list"

definition file_doread :: "infile \<Rightarrow> nat \<Rightarrow> (string \<times> infile) option" where
  "file_doread f l =
     (case sched f of
        [] \<Rightarrow> Some (take l (fdata f), f\<lparr>fdata := drop l (fdata f)\<rparr>)
      | None # ks \<Rightarrow> None
      | Some k # ks \<Rightarrow>
          Some (take (min l (Suc k)) (fdata f), \<lparr>fdata = drop (min l (Suc k)) (fdata f), sched = ks\<rparr>))"

text \<open>\<open>c_file::read\<close> throws on a negative result, \<open>c_file::readfull\<close> also at an early end.\<close>

datatype file_error = Read_failed | Unexpected_EOF | Write_failed

definition file_read :: "infile \<Rightarrow> nat \<Rightarrow> file_error + string \<times> infile" where
  "file_read f l = (case file_doread f l of None \<Rightarrow> Inl Read_failed | Some r \<Rightarrow> Inr r)"

function file_readfull :: "infile \<Rightarrow> nat \<Rightarrow> file_error + string \<times> infile" where
  "file_readfull f len =
     (if len = 0 then Inr ([], f)
      else
        (case file_doread f len of
           None \<Rightarrow> Inl Read_failed
         | Some (bs, f') \<Rightarrow>
             if bs = [] then Inl Unexpected_EOF
             else
               (case file_readfull f' (len - length bs) of
                  Inl e \<Rightarrow> Inl e
                | Inr (rest, f'') \<Rightarrow> Inr (bs @ rest, f''))))"
  by pat_completeness auto
termination by (relation "measure snd") auto

declare file_readfull.simps [simp del]

text \<open>A file that is written: the bytes it has taken and the outcomes of the next \<open>write\<close> calls, as
  above. The loop of \<open>c_file::write\<close> repeats short writes.\<close>

record outfile =
  written :: string
  wsched :: "nat option list"

definition file_dowrite :: "outfile \<Rightarrow> string \<Rightarrow> (nat \<times> outfile) option" where
  "file_dowrite f bs =
     (case wsched f of
        [] \<Rightarrow> Some (length bs, f\<lparr>written := written f @ bs\<rparr>)
      | None # ks \<Rightarrow> None
      | Some k # ks \<Rightarrow>
          Some (min (length bs) (Suc k), \<lparr>written = written f @ take (Suc k) bs, wsched = ks\<rparr>))"

function file_write :: "outfile \<Rightarrow> string \<Rightarrow> file_error option \<times> outfile" where
  "file_write f data =
     (if data = [] then (None, f)
      else
        (case file_dowrite f data of
           None \<Rightarrow> (Some Write_failed, f)
         | Some (i, f') \<Rightarrow> if i = 0 then (Some Write_failed, f') else file_write f' (drop i data)))"
  by pat_completeness auto
termination by (relation "measure (length \<circ> snd)") auto

declare file_write.simps [simp del]

section \<open>The ring buffer\<close>

record 's buffy =
  bhead :: nat
  btail :: nat
  buf :: "char list"
  src :: 's

definition buffy_new :: "'s \<Rightarrow> 's buffy" where
  "buffy_new s = \<lparr>bhead = 0, btail = 0, buf = replicate 2048 (CHR 0x00), src = s\<rparr>"

definition buftailfree :: "'s buffy \<Rightarrow> nat" where
  "buftailfree b =
     (if bhead b \<le> btail b then 2048 - btail b - (if bhead b = 0 then 1 else 0)
      else bhead b - btail b - 1)"

definition inchead :: "nat \<Rightarrow> 's buffy \<Rightarrow> 's buffy" where
  "inchead i b = b\<lparr>bhead := (bhead b + i) mod 2048\<rparr>"

definition inctail :: "nat \<Rightarrow> 's buffy \<Rightarrow> 's buffy" where
  "inctail i b = b\<lparr>btail := (btail b + i) mod 2048\<rparr>"

text \<open>The bytes read are stored from the tail on; the result is their number.\<close>

definition dofill :: "('s \<Rightarrow> nat \<Rightarrow> (string \<times> 's) option) \<Rightarrow> 's buffy \<Rightarrow> (nat \<times> 's buffy) option" where
  "dofill rd b =
     (case rd (src b) (buftailfree b) of
        None \<Rightarrow> None
      | Some (bs, s') \<Rightarrow>
          if bs = [] then Some (0, b\<lparr>src := s'\<rparr>)
          else Some (length bs,
            inctail (length bs)
              (b\<lparr>src := s', buf := take (btail b) (buf b) @ bs @ drop (btail b + length bs) (buf b)\<rparr>)))"

definition beof :: "('s \<Rightarrow> nat \<Rightarrow> (string \<times> 's) option) \<Rightarrow> 's buffy \<Rightarrow> (bool \<times> 's buffy) option" where
  "beof rd b =
     (if btail b \<noteq> bhead b then Some (False, b)
      else map_option (\<lambda>(i, b'). (i = 0, b')) (dofill rd b))"

definition clearbuf :: "'s buffy \<Rightarrow> 's buffy" where
  "clearbuf b = b\<lparr>bhead := 0, btail := 0\<rparr>"

text \<open>The result \<open>-1\<close> is \<open>None\<close> inside the value.\<close>

definition bpeek :: "('s \<Rightarrow> nat \<Rightarrow> (string \<times> 's) option) \<Rightarrow> 's buffy \<Rightarrow> (char option \<times> 's buffy) option" where
  "bpeek rd b =
     (if bhead b = btail b then
        map_option (\<lambda>(i, b'). (if i = 0 then None else Some (buf b' ! bhead b'), b')) (dofill rd b)
      else Some (Some (buf b ! bhead b), b))"

definition bget :: "('s \<Rightarrow> nat \<Rightarrow> (string \<times> 's) option) \<Rightarrow> 's buffy \<Rightarrow> (char option \<times> 's buffy) option" where
  "bget rd b =
     (if bhead b = btail b then
        map_option (\<lambda>(i, b'). if i = 0 then (None, b') else (Some (buf b' ! bhead b'), inchead 1 b'))
          (dofill rd b)
      else Some (Some (buf b ! bhead b), inchead 1 b))"

text \<open>The loops of \<open>bgets\<close> and \<open>btoks\<close> may not end on a source that never ends; not returning and an
  exception of the source are \<open>None\<close>. The character buffer is a string.\<close>

partial_function (option) bgets_loop ::
  "('s \<Rightarrow> nat \<Rightarrow> (string \<times> 's) option) \<Rightarrow> nat \<Rightarrow> string \<Rightarrow> 's buffy \<Rightarrow> (nat \<times> string \<times> 's buffy) option"
where
  "bgets_loop rd rcount cb b =
     Option.bind (bget rd b) (\<lambda>(i, b').
       (case i of
          None \<Rightarrow> Some (rcount, cb, b')
        | Some c \<Rightarrow>
            if c = CHR 0x0D then bgets_loop rd (Suc rcount) cb b'
            else if c = CHR 0x0A then Some (Suc rcount, cb, b')
            else bgets_loop rd (Suc rcount) (cb @ [c]) b'))"

definition bgets :: "('s \<Rightarrow> nat \<Rightarrow> (string \<times> 's) option) \<Rightarrow> 's buffy \<Rightarrow> (nat \<times> string \<times> 's buffy) option" where
  "bgets rd b = bgets_loop rd 0 [] b"

text \<open>What \<open>btoks\<close> does with one character: the number of tokens, the character buffer and the offsets
  of the tokens in it, \<open>toks[0]\<close> first.\<close>

type_synonym tok_state = "nat \<times> string \<times> nat list"

definition tok_step :: "char \<Rightarrow> nat \<Rightarrow> bool \<Rightarrow> char \<Rightarrow> tok_state \<Rightarrow> tok_state" where
  "tok_step tok max_toks tokfinal c st =
     (case st of (num, cb, offs) \<Rightarrow>
        if c = tok \<and> num < max_toks then (Suc num, cb @ [CHR 0x00], offs @ [Suc (length cb)])
        else if c = tok \<and> tokfinal then (Suc num, cb, offs)
        else if c \<noteq> tok \<and> c = CHR 0x0D then st
        else if num \<le> max_toks then (num, cb @ [c], offs) else st)"

definition tok_ends :: "char \<Rightarrow> char \<Rightarrow> bool" where
  "tok_ends tok c \<longleftrightarrow> c \<noteq> tok \<and> c = CHR 0x0A"

text \<open>The pointers are set once the buffer no longer moves; a token ends at the next NUL.\<close>

definition tok_result :: "nat \<Rightarrow> tok_state \<Rightarrow> nat \<times> string list" where
  "tok_result max_toks st =
     (case st of (num, cb, offs) \<Rightarrow>
        (num, List.map (\<lambda>off. takeWhile (\<lambda>c. c \<noteq> CHR 0x00) (drop off cb)) (take (min num max_toks) offs)))"

partial_function (option) btoks_loop ::
  "('s \<Rightarrow> nat \<Rightarrow> (string \<times> 's) option) \<Rightarrow> char \<Rightarrow> nat \<Rightarrow> bool \<Rightarrow> tok_state \<Rightarrow> 's buffy \<Rightarrow>
     (tok_state \<times> 's buffy) option"
where
  "btoks_loop rd tok max_toks tokfinal st b =
     Option.bind (bget rd b) (\<lambda>(i, b').
       (case i of
          None \<Rightarrow> Some (st, b')
        | Some c \<Rightarrow>
            if tok_ends tok c then Some (st, b')
            else btoks_loop rd tok max_toks tokfinal (tok_step tok max_toks tokfinal c st) b'))"

definition btoks ::
  "('s \<Rightarrow> nat \<Rightarrow> (string \<times> 's) option) \<Rightarrow> char \<Rightarrow> nat \<Rightarrow> bool \<Rightarrow> 's buffy \<Rightarrow>
     ((nat \<times> string list) \<times> 's buffy) option" where
  "btoks rd tok max_toks tokfinal b =
     map_option (\<lambda>(st, b'). (tok_result max_toks st, b'))
       (btoks_loop rd tok max_toks tokfinal (1, [], [0]) b)"

section \<open>The bytes in the ring\<close>

definition ring :: "'s buffy \<Rightarrow> string" where
  "ring b =
     (if bhead b \<le> btail b then take (btail b - bhead b) (drop (bhead b) (buf b))
      else drop (bhead b) (buf b) @ take (btail b) (buf b))"

definition buffy_ok :: "'s buffy \<Rightarrow> bool" where
  "buffy_ok b \<longleftrightarrow> bhead b < 2048 \<and> btail b < 2048 \<and> length (buf b) = 2048"

lemma ring_empty_iff: "buffy_ok b \<Longrightarrow> ring b = [] \<longleftrightarrow> bhead b = btail b"
  by (auto simp: ring_def buffy_ok_def)

lemma buffy_new_ok: "buffy_ok (buffy_new s) \<and> ring (buffy_new s) = [] \<and> src (buffy_new s) = s"
  by (simp add: buffy_ok_def buffy_new_def ring_def)

lemma clearbuf_ok: "buffy_ok b \<Longrightarrow> buffy_ok (clearbuf b) \<and> ring (clearbuf b) = []"
  by (simp add: buffy_ok_def clearbuf_def ring_def)

lemma buftailfree_room:
  "buffy_ok b \<Longrightarrow> bhead b = btail b \<Longrightarrow>
     0 < buftailfree b \<and> buftailfree b \<le> 2048 - bhead b \<and> (bhead b = 0 \<longrightarrow> buftailfree b \<le> 2047)"
  by (auto simp: buftailfree_def buffy_ok_def)

lemma ring_inctail:
  assumes "buffy_ok b" "bhead b = btail b" "bs \<noteq> []" "length bs \<le> buftailfree b"
    "b' = inctail (length bs)
      (b\<lparr>src := s', buf := take (btail b) (buf b) @ bs @ drop (btail b + length bs) (buf b)\<rparr>)"
  shows "buffy_ok b' \<and> ring b' = bs \<and> src b' = s'"
proof -
  let ?h = "bhead b" and ?n = "length bs"
  have h: "?h < 2048" "length (buf b) = 2048" "btail b = ?h" using assms by (auto simp: buffy_ok_def)
  have n: "?h + ?n \<le> 2048" "?h = 0 \<longrightarrow> ?n \<le> 2047" "0 < ?n"
    using buftailfree_room [OF assms(1,2)] assms(3,4) by auto
  have ok: "buffy_ok b'" using h n by (cases bs) (simp_all add: assms(5) buffy_ok_def inctail_def)
  have r: "ring b' = bs"
  proof (cases "?h + ?n = 2048")
    case True
    then have "?h \<noteq> 0" using n by auto
    then show ?thesis using True h by (simp add: assms(5) ring_def inctail_def)
  next
    case False
    then show ?thesis using n h by (simp add: assms(5) ring_def inctail_def)
  qed
  show ?thesis using ok r by (simp add: assms(5) inctail_def)
qed

lemma ring_inchead:
  assumes "buffy_ok b" "bhead b \<noteq> btail b"
  shows "ring b = buf b ! bhead b # ring (inchead 1 b) \<and> buffy_ok (inchead 1 b) \<and> src (inchead 1 b) = src b"
proof -
  let ?h = "bhead b" and ?t = "btail b"
  have h: "?h < 2048" "?t < 2048" "length (buf b) = 2048" using assms by (auto simp: buffy_ok_def)
  have d: "drop ?h (buf b) = buf b ! ?h # drop (Suc ?h) (buf b)" using h by (simp add: Cons_nth_drop_Suc)
  have "ring b = buf b ! ?h # ring (inchead 1 b)"
  proof (cases "?h < ?t")
    case True
    then obtain k where "?t = Suc (?h + k)" using less_iff_Suc_add by blast
    then show ?thesis using True h d by (simp add: ring_def inchead_def)
  next
    case False
    then have "?t < ?h" using assms(2) by simp
    then show ?thesis using h d by (cases "Suc ?h = 2048") (auto simp: ring_def inchead_def)
  qed
  then show ?thesis using h by (simp add: buffy_ok_def inchead_def)
qed

section \<open>Reading a sequence of bytes\<close>

text \<open>The functions of a byte sequence that \<open>bgets\<close> and \<open>btoks\<close> compute.\<close>

fun s_gets :: "string \<Rightarrow> nat \<times> string \<times> string" where
  "s_gets [] = (0, [], [])"
| "s_gets (c # s) =
     (if c = CHR 0x0A then (1, [], s)
      else (case s_gets s of (n, l, r) \<Rightarrow> (Suc n, if c = CHR 0x0D then l else c # l, r)))"

fun s_toks_loop :: "char \<Rightarrow> nat \<Rightarrow> bool \<Rightarrow> tok_state \<Rightarrow> string \<Rightarrow> tok_state \<times> string" where
  "s_toks_loop tok m fin st [] = (st, [])"
| "s_toks_loop tok m fin st (c # s) =
     (if tok_ends tok c then (st, s) else s_toks_loop tok m fin (tok_step tok m fin c st) s)"

definition s_toks :: "char \<Rightarrow> nat \<Rightarrow> bool \<Rightarrow> string \<Rightarrow> (nat \<times> string list) \<times> string" where
  "s_toks tok m fin s =
     (case s_toks_loop tok m fin (1, [], [0]) s of (st, rest) \<Rightarrow> (tok_result m st, rest))"

section \<open>What the buffer needs from a file\<close>

locale byte_source =
  fixes rd :: "'s \<Rightarrow> nat \<Rightarrow> (string \<times> 's) option"
    and view :: "'s \<Rightarrow> string"
    and sound :: "'s \<Rightarrow> bool"
  assumes rd_sound: "sound s \<Longrightarrow> 0 < l \<Longrightarrow>
    \<exists>bs s'. rd s l = Some (bs, s') \<and> length bs \<le> l \<and> view s = bs @ view s' \<and> sound s' \<and>
      (bs = [] \<longrightarrow> view s = [])"
begin

definition stream :: "'s buffy \<Rightarrow> string" where
  "stream b = ring b @ view (src b)"

definition usable :: "'s buffy \<Rightarrow> bool" where
  "usable b \<longleftrightarrow> buffy_ok b \<and> sound (src b)"

lemma usable_new: "sound s \<Longrightarrow> usable (buffy_new s) \<and> stream (buffy_new s) = view s"
  using buffy_new_ok [of s] by (simp add: usable_def stream_def)

lemma dofill_stream:
  assumes "usable b" "bhead b = btail b"
  shows "\<exists>i b'. dofill rd b = Some (i, b') \<and> usable b' \<and> stream b' = stream b \<and>
    (i = 0 \<longleftrightarrow> stream b = []) \<and> (i = 0 \<longrightarrow> bhead b' = btail b') \<and> (0 < i \<longrightarrow> bhead b' \<noteq> btail b')"
proof -
  have ok: "buffy_ok b" "sound (src b)" using assms by (auto simp: usable_def)
  have room: "0 < buftailfree b" using buftailfree_room [OF ok(1) assms(2)] by simp
  obtain bs s' where rd: "rd (src b) (buftailfree b) = Some (bs, s')" "length bs \<le> buftailfree b"
      "view (src b) = bs @ view s'" "sound s'" "bs = [] \<longrightarrow> view (src b) = []"
    using rd_sound [OF ok(2) room] by blast
  have e: "ring b = []" using ring_empty_iff [OF ok(1)] assms(2) by simp
  show ?thesis
  proof (cases "bs = []")
    case True
    then show ?thesis using rd e ok assms(2)
      by (simp add: dofill_def usable_def stream_def buffy_ok_def ring_def)
  next
    case False
    let ?b = "inctail (length bs)
      (b\<lparr>src := s', buf := take (btail b) (buf b) @ bs @ drop (btail b + length bs) (buf b)\<rparr>)"
    have b: "buffy_ok ?b" "ring ?b = bs" "src ?b = s'"
      using ring_inctail [OF ok(1) assms(2) False rd(2) refl, of s'] by simp_all
    moreover have "dofill rd b = Some (length bs, ?b)" using rd(1) False by (simp add: dofill_def)
    ultimately show ?thesis using rd e False ring_empty_iff [OF b(1)]
      by (simp add: usable_def stream_def)
  qed
qed

lemma bget_stream:
  assumes "usable b"
  shows "\<exists>b'. usable b' \<and>
    (case stream b of
       [] \<Rightarrow> bget rd b = Some (None, b') \<and> stream b' = []
     | c # cs \<Rightarrow> bget rd b = Some (Some c, b') \<and> stream b' = cs)"
proof (cases "bhead b = btail b")
  case False
  then have "ring b = buf b ! bhead b # ring (inchead 1 b)" "buffy_ok (inchead 1 b)" "src (inchead 1 b) = src b"
    using ring_inchead [of b] assms by (auto simp: usable_def)
  then show ?thesis using False assms
    by (intro exI [of _ "inchead 1 b"]) (simp add: bget_def usable_def stream_def)
next
  case True
  obtain i b' where f: "dofill rd b = Some (i, b')" "usable b'" "stream b' = stream b"
      "i = 0 \<longleftrightarrow> stream b = []" "0 < i \<longrightarrow> bhead b' \<noteq> btail b'"
    using dofill_stream [OF assms True] by blast
  show ?thesis
  proof (cases "i = 0")
    case True
    then show ?thesis using f \<open>bhead b = btail b\<close> by (intro exI [of _ b']) (simp add: bget_def)
  next
    case False
    then have "ring b' = buf b' ! bhead b' # ring (inchead 1 b')" "buffy_ok (inchead 1 b')"
        "src (inchead 1 b') = src b'"
      using ring_inchead [of b'] f by (auto simp: usable_def)
    moreover from this have "stream b = buf b' ! bhead b' # stream (inchead 1 b')"
      using f(3) by (simp add: stream_def)
    ultimately show ?thesis using f(1,2) False \<open>bhead b = btail b\<close>
      by (intro exI [of _ "inchead 1 b'"]) (simp add: bget_def usable_def)
  qed
qed

lemma bpeek_stream:
  assumes "usable b"
  shows "\<exists>b'. usable b' \<and> stream b' = stream b \<and>
    bpeek rd b = Some (case stream b of [] \<Rightarrow> None | c # _ \<Rightarrow> Some c, b')"
proof (cases "bhead b = btail b")
  case False
  then show ?thesis using ring_inchead [of b] assms
    by (intro exI [of _ b]) (auto simp: bpeek_def usable_def stream_def)
next
  case True
  obtain i b' where f: "dofill rd b = Some (i, b')" "usable b'" "stream b' = stream b"
      "i = 0 \<longleftrightarrow> stream b = []" "0 < i \<longrightarrow> bhead b' \<noteq> btail b'"
    using dofill_stream [OF assms True] by blast
  then show ?thesis using True ring_inchead [of b']
    by (intro exI [of _ b']) (auto simp: bpeek_def usable_def stream_def split: list.splits)
qed

lemma beof_stream:
  assumes "usable b"
  shows "\<exists>b'. usable b' \<and> stream b' = stream b \<and> beof rd b = Some (stream b = [], b')"
proof (cases "bhead b = btail b")
  case False
  then show ?thesis using ring_empty_iff [of b] assms
    by (intro exI [of _ b]) (auto simp: beof_def usable_def stream_def)
next
  case True
  obtain i b' where "dofill rd b = Some (i, b')" "usable b'" "stream b' = stream b"
      "i = 0 \<longleftrightarrow> stream b = []"
    using dofill_stream [OF assms True] by blast
  then show ?thesis using True by (intro exI [of _ b']) (simp add: beof_def)
qed

lemma bgets_loop_stream:
  "usable b \<Longrightarrow> stream b = s \<Longrightarrow>
     (case s_gets s of (n, l, rest) \<Rightarrow>
        \<exists>b'. bgets_loop rd k cb b = Some (k + n, cb @ l, b') \<and> usable b' \<and> stream b' = rest)"
proof (induction s arbitrary: b k cb)
  case Nil
  obtain b' where "bget rd b = Some (None, b')" "usable b'" "stream b' = []"
    using bget_stream [OF Nil.prems(1)] Nil.prems by auto
  then show ?case by (subst bgets_loop.simps) simp
next
  case (Cons c s)
  obtain b' where b': "bget rd b = Some (Some c, b')" "usable b'" "stream b' = s"
    using bget_stream [OF Cons.prems(1)] Cons.prems by auto
  obtain n l rest where r: "s_gets s = (n, l, rest)" by (cases "s_gets s") auto
  have more: "\<exists>b''. bgets_loop rd (Suc k) cb' b' = Some (Suc k + n, cb' @ l, b'') \<and> usable b'' \<and> stream b'' = rest" for cb'
    using Cons.IH [OF b'(2,3), of "Suc k" cb'] r by simp
  show ?case using more [of cb] more [of "cb @ [c]"] b' r by (subst bgets_loop.simps) auto
qed

lemma btoks_loop_stream:
  "usable b \<Longrightarrow> stream b = s \<Longrightarrow>
     (case s_toks_loop tok m fin st s of (st', rest) \<Rightarrow>
        \<exists>b'. btoks_loop rd tok m fin st b = Some (st', b') \<and> usable b' \<and> stream b' = rest)"
proof (induction s arbitrary: b st)
  case Nil
  obtain b' where "bget rd b = Some (None, b')" "usable b'" "stream b' = []"
    using bget_stream [OF Nil.prems(1)] Nil.prems by auto
  then show ?case by (subst btoks_loop.simps) simp
next
  case (Cons c s)
  obtain b' where b': "bget rd b = Some (Some c, b')" "usable b'" "stream b' = s"
    using bget_stream [OF Cons.prems(1)] Cons.prems by auto
  show ?case
    using Cons.IH [OF b'(2,3), of "tok_step tok m fin c st"] b'
    by (subst btoks_loop.simps) (auto split: prod.splits)
qed

lemma bgets_stream:
  assumes "usable b"
  shows "\<exists>n l rest b'. s_gets (stream b) = (n, l, rest) \<and> bgets rd b = Some (n, l, b') \<and>
    usable b' \<and> stream b' = rest"
  using bgets_loop_stream [OF assms refl, of 0 "[]"] by (auto simp: bgets_def split: prod.splits)

lemma btoks_stream:
  assumes "usable b"
  shows "\<exists>r rest b'. s_toks tok m fin (stream b) = (r, rest) \<and> btoks rd tok m fin b = Some (r, b') \<and>
    usable b' \<and> stream b' = rest"
  using btoks_loop_stream [OF assms refl, of tok m fin "(1, [], [0])"]
  by (auto simp: btoks_def s_toks_def split: prod.splits)

end

definition infile_sound :: "infile \<Rightarrow> bool" where
  "infile_sound f \<longleftrightarrow> None \<notin> set (sched f)"

interpretation infile: byte_source file_doread fdata infile_sound
proof
  fix s :: infile and l :: nat
  assume "infile_sound s" "0 < l"
  then show "\<exists>bs s'. file_doread s l = Some (bs, s') \<and> length bs \<le> l \<and> fdata s = bs @ fdata s' \<and>
      infile_sound s' \<and> (bs = [] \<longrightarrow> fdata s = [])"
    by (cases "sched s"; cases "hd (sched s)") (auto simp: file_doread_def infile_sound_def)
qed

section \<open>Lines and fields of a byte sequence\<close>

lemma s_gets_line:
  "CHR 0x0A \<notin> set l \<Longrightarrow> CHR 0x0D \<notin> set l \<Longrightarrow>
     s_gets (l @ CHR 0x0A # rest) = (Suc (length l), l, rest)"
  by (induction l) auto

lemma s_gets_last: "CHR 0x0A \<notin> set l \<Longrightarrow> CHR 0x0D \<notin> set l \<Longrightarrow> s_gets l = (length l, l, [])"
  by (induction l) auto

lemma s_gets_rest_length: "s_gets s = (n, l, rest) \<Longrightarrow> length rest + n = length s"
  by (induction s arbitrary: n l rest) (auto split: prod.splits if_splits)

lemma s_gets_nonempty: "s_gets s = (n, l, rest) \<Longrightarrow> n = 0 \<longleftrightarrow> s = []"
  by (cases s) (auto split: prod.splits if_splits)

lemma s_toks_loop_rest_length: "length (snd (s_toks_loop tok m fin st s)) \<le> length s"
  by (induction tok m fin st s rule: s_toks_loop.induct) auto

lemma s_toks_rest_length: "s_toks tok m fin s = (r, rest) \<Longrightarrow> length rest \<le> length s"
  using s_toks_loop_rest_length [of tok m fin "(1, [], [0])" s] by (auto simp: s_toks_def split: prod.splits)

lemma s_toks_rest_shorter: "s_toks tok m fin (c # s) = (r, rest) \<Longrightarrow> length rest \<le> length s"
  using s_toks_loop_rest_length [of tok m fin "tok_step tok m fin c (1, [], [0])" s]
  by (auto simp: s_toks_def split: prod.splits if_splits)

lemma s_toks_shorter: "s_toks tok m fin s = (r, rest) \<Longrightarrow> s \<noteq> [] \<Longrightarrow> length rest < length s"
  using s_toks_rest_shorter [of tok m fin "hd s" "tl s" r rest] by (cases s) simp_all

lemma s_gets_shorter: "s_gets s = (n, l, rest) \<Longrightarrow> s \<noteq> [] \<Longrightarrow> length rest < length s"
  using s_gets_rest_length [of s n l rest] s_gets_nonempty [of s n l rest] by simp

text \<open>The characters a field may hold.\<close>

definition field_ok :: "char \<Rightarrow> string \<Rightarrow> bool" where
  "field_ok tok f \<longleftrightarrow> (\<forall>c \<in> set f. c \<noteq> tok \<and> c \<noteq> CHR 0x00 \<and> c \<noteq> CHR 0x0A \<and> c \<noteq> CHR 0x0D)"

lemma field_ok_simps [simp]:
  "field_ok tok []"
  "field_ok tok (c # f) \<longleftrightarrow>
     c \<noteq> tok \<and> c \<noteq> CHR 0x00 \<and> c \<noteq> CHR 0x0A \<and> c \<noteq> CHR 0x0D \<and> field_ok tok f"
  by (auto simp: field_ok_def)

text \<open>Fields in the buffer, each ended by a NUL, and their offsets.\<close>

fun toks_at :: "string \<Rightarrow> nat list \<Rightarrow> string list \<Rightarrow> bool" where
  "toks_at cb offs fs \<longleftrightarrow>
     length offs = length fs \<and>
     (\<forall>i < length fs. takeWhile (\<lambda>c. c \<noteq> CHR 0x00) (drop (offs ! i) cb) = fs ! i)"

lemma s_toks_loop_field:
  "field_ok tok f \<Longrightarrow> num \<le> m \<Longrightarrow> tok \<noteq> CHR 0x0A \<Longrightarrow>
     s_toks_loop tok m fin (num, cb, offs) (f @ rest) = s_toks_loop tok m fin (num, cb @ f, offs) rest"
  by (induction f arbitrary: cb) (auto simp: tok_ends_def tok_step_def)

lemma s_toks_loop_join:
  assumes "\<forall>f \<in> set fs. field_ok tok f" "num + length fs \<le> m" "tok \<noteq> CHR 0x0A"
  shows "s_toks_loop tok m fin (num, cb, offs) (concat (List.map (\<lambda>f. tok # f) fs) @ CHR 0x0A # rest) =
    ((num + length fs, cb @ concat (List.map (\<lambda>f. CHR 0x00 # f) fs),
      offs @ List.map (\<lambda>i. Suc (length cb + length (concat (List.map (\<lambda>f. CHR 0x00 # f) (take i fs)))))
        [0 ..< length fs]), rest)"
  using assms
proof (induction fs arbitrary: num cb offs)
  case Nil
  then show ?case by (simp add: tok_ends_def)
next
  case (Cons f fs)
  have "s_toks_loop tok m fin (num, cb, offs) (concat (List.map (\<lambda>f. tok # f) (f # fs)) @ CHR 0x0A # rest) =
      s_toks_loop tok m fin (Suc num, cb @ [CHR 0x00], offs @ [Suc (length cb)])
        (f @ concat (List.map (\<lambda>f. tok # f) fs) @ CHR 0x0A # rest)"
    using Cons.prems by (simp add: tok_ends_def tok_step_def)
  also have "\<dots> = s_toks_loop tok m fin (Suc num, cb @ CHR 0x00 # f, offs @ [Suc (length cb)])
        (concat (List.map (\<lambda>f. tok # f) fs) @ CHR 0x0A # rest)"
    using Cons.prems by (subst s_toks_loop_field) auto
  also have "\<dots> = ((Suc num + length fs, (cb @ CHR 0x00 # f) @ concat (List.map (\<lambda>f. CHR 0x00 # f) fs),
      (offs @ [Suc (length cb)]) @
      List.map (\<lambda>i. Suc (length (cb @ CHR 0x00 # f) + length (concat (List.map (\<lambda>f. CHR 0x00 # f) (take i fs)))))
        [0 ..< length fs]), rest)"
    by (rule Cons.IH) (use Cons.prems in auto)
  finally show ?case
    by (simp add: upt_conv_Cons map_Suc_upt [symmetric] o_def del: upt_Suc)
qed

lemma takeWhile_NUL: "field_ok tok f \<Longrightarrow> takeWhile (\<lambda>c. c \<noteq> CHR 0x00) (f @ CHR 0x00 # r) = f"
  "field_ok tok f \<Longrightarrow> takeWhile (\<lambda>c. c \<noteq> CHR 0x00) f = f"
  by (induction f) auto

lemma drop_field:
  assumes "i < length fs" "\<forall>f \<in> set fs. field_ok tok f"
  shows "takeWhile (\<lambda>c. c \<noteq> CHR 0x00)
     (drop (Suc (length cb + length (concat (List.map (\<lambda>f. CHR 0x00 # f) (take i fs)))))
       (cb @ concat (List.map (\<lambda>f. CHR 0x00 # f) fs))) = fs ! i"
proof -
  have "fs = take i fs @ fs ! i # drop (Suc i) fs" using assms(1) by (simp add: id_take_nth_drop)
  then have eq: "concat (List.map (\<lambda>f. CHR 0x00 # f) fs) =
      concat (List.map (\<lambda>f. CHR 0x00 # f) (take i fs)) @ CHR 0x00 # fs ! i @
      concat (List.map (\<lambda>f. CHR 0x00 # f) (drop (Suc i) fs))"
    by (metis concat.simps(2) concat_append list.simps(9) map_append append_Cons)
  have d: "drop (Suc (length cb + length (concat (List.map (\<lambda>f. CHR 0x00 # f) (take i fs)))))
       (cb @ concat (List.map (\<lambda>f. CHR 0x00 # f) fs)) =
      fs ! i @ concat (List.map (\<lambda>f. CHR 0x00 # f) (drop (Suc i) fs))"
    unfolding eq by simp
  have "field_ok tok (fs ! i)" using assms by simp
  then show ?thesis unfolding d
    by (cases "drop (Suc i) fs") (simp_all add: takeWhile_NUL)
qed

text \<open>A line of fields between separators is split into its fields.\<close>

definition fields_line :: "char \<Rightarrow> string \<Rightarrow> string list \<Rightarrow> string" where
  "fields_line tok f fs = f @ concat (List.map (\<lambda>f. tok # f) fs) @ [CHR 0x0A]"

lemma s_toks_fields:
  assumes "field_ok tok f" "\<forall>g \<in> set fs. field_ok tok g" "Suc (length fs) \<le> m" "tok \<noteq> CHR 0x0A"
  shows "s_toks tok m fin (fields_line tok f fs @ rest) = ((Suc (length fs), f # fs), rest)"
proof -
  let ?cb = "f @ concat (List.map (\<lambda>f. CHR 0x00 # f) fs)"
  let ?offs = "0 # List.map (\<lambda>i. Suc (length f + length (concat (List.map (\<lambda>f. CHR 0x00 # f) (take i fs)))))
        [0 ..< length fs]"
  have "s_toks_loop tok m fin (1, [], [0]) (fields_line tok f fs @ rest) = ((Suc (length fs), ?cb, ?offs), rest)"
    using s_toks_loop_field [OF assms(1), of 1 m fin "[]" "[0]"] s_toks_loop_join [OF assms(2), of 1 m fin f "[0]" rest] assms
    by (simp add: fields_line_def)
  moreover have "tok_result m (Suc (length fs), ?cb, ?offs) = (Suc (length fs), f # fs)"
  proof -
    have "takeWhile (\<lambda>c. c \<noteq> CHR 0x00) ?cb = f"
      using takeWhile_NUL [OF assms(1)] by (cases fs) simp_all
    moreover have "List.map (\<lambda>i. takeWhile (\<lambda>c. c \<noteq> CHR 0x00)
        (drop (Suc (length f + length (concat (List.map (\<lambda>f. CHR 0x00 # f) (take i fs))))) ?cb)) [0 ..< length fs] = fs"
      by (rule nth_equalityI) (use drop_field [OF _ assms(2)] in auto)
    ultimately show ?thesis using assms(3) by (simp add: tok_result_def o_def del: drop_append)
  qed
  ultimately show ?thesis by (simp add: s_toks_def)
qed

section \<open>The properties\<close>

text \<open>Property C4. Buffered reading does not depend on how the operating system splits the reads: on a
  file whose reads do not fail, with any schedule of short reads, and from any reachable state of the
  ring, \<open>bget\<close>, \<open>bpeek\<close>, \<open>beof\<close>, \<open>bgets\<close> and \<open>btoks\<close> return what the plain sequence of bytes gives and
  leave the rest of it to be read.\<close>

theorem buffered_reading:
  fixes b :: "infile buffy"
  assumes "buffy_ok b" "infile_sound (src b)" "ring b @ fdata (src b) = s"
  shows "(\<exists>b'. bpeek file_doread b = Some (case s of [] \<Rightarrow> None | c # _ \<Rightarrow> Some c, b') \<and>
      buffy_ok b' \<and> infile_sound (src b') \<and> ring b' @ fdata (src b') = s) \<and>
    (\<exists>b'. beof file_doread b = Some (s = [], b') \<and>
      buffy_ok b' \<and> infile_sound (src b') \<and> ring b' @ fdata (src b') = s) \<and>
    (\<exists>b'. bget file_doread b = Some (case s of [] \<Rightarrow> None | c # _ \<Rightarrow> Some c, b') \<and>
      buffy_ok b' \<and> infile_sound (src b') \<and> ring b' @ fdata (src b') = tl s) \<and>
    (\<exists>n l b'. bgets file_doread b = Some (n, l, b') \<and> buffy_ok b' \<and> infile_sound (src b') \<and>
      s_gets s = (n, l, ring b' @ fdata (src b'))) \<and>
    (\<exists>r b'. btoks file_doread tok m fin b = Some (r, b') \<and> buffy_ok b' \<and> infile_sound (src b') \<and>
      s_toks tok m fin s = (r, ring b' @ fdata (src b')))"
proof -
  have u: "infile.usable b" "infile.stream b = s"
    using assms by (auto simp: infile.usable_def infile.stream_def)
  note r = infile.usable_def infile.stream_def
  have 1: "\<exists>b'. bpeek file_doread b = Some (case s of [] \<Rightarrow> None | c # _ \<Rightarrow> Some c, b') \<and>
      buffy_ok b' \<and> infile_sound (src b') \<and> ring b' @ fdata (src b') = s"
    using infile.bpeek_stream [OF u(1)] unfolding u(2) unfolding r by blast
  have 2: "\<exists>b'. beof file_doread b = Some (s = [], b') \<and>
      buffy_ok b' \<and> infile_sound (src b') \<and> ring b' @ fdata (src b') = s"
    using infile.beof_stream [OF u(1)] unfolding u(2) unfolding r by blast
  have 3: "\<exists>b'. bget file_doread b = Some (case s of [] \<Rightarrow> None | c # _ \<Rightarrow> Some c, b') \<and>
      buffy_ok b' \<and> infile_sound (src b') \<and> ring b' @ fdata (src b') = tl s"
    using infile.bget_stream [OF u(1)] unfolding u(2) unfolding r by (cases s) auto
  have 4: "\<exists>n l b'. bgets file_doread b = Some (n, l, b') \<and> buffy_ok b' \<and> infile_sound (src b') \<and>
      s_gets s = (n, l, ring b' @ fdata (src b'))"
    using infile.bgets_stream [OF u(1)] unfolding u(2) unfolding r by blast
  have 5: "\<exists>r b'. btoks file_doread tok m fin b = Some (r, b') \<and> buffy_ok b' \<and> infile_sound (src b') \<and>
      s_toks tok m fin s = (r, ring b' @ fdata (src b'))"
    using infile.btoks_stream [OF u(1), of tok m fin] unfolding u(2) unfolding r by blast
  show ?thesis by (intro conjI 1 2 3 4 5)
qed

theorem buffered_reading_witness:
  "\<exists>b'. bgets file_doread (buffy_new \<lparr>fdata = [CHR ''a'', CHR 0x0D, CHR 0x0A, CHR ''b''], sched = [Some 0, Some 1]\<rparr>) =
     Some (3, ''a'', b') \<and> ring b' @ fdata (src b') = ''b''"
  using buffered_reading [of "buffy_new \<lparr>fdata = [CHR ''a'', CHR 0x0D, CHR 0x0A, CHR ''b''], sched = [Some 0, Some 1]\<rparr>"
      "[CHR ''a'', CHR 0x0D, CHR 0x0A, CHR ''b'']", THEN conjunct2, THEN conjunct2, THEN conjunct2, THEN conjunct1]
  by (auto simp: buffy_new_ok infile_sound_def numeral_3_eq_3)

text \<open>A line written as fields between separators is tokenized back into its fields, with the
  rest of the file left to be read, as long as the caller allows that many tokens.\<close>

theorem btoks_fields:
  assumes "field_ok tok f" "\<forall>g \<in> set fs. field_ok tok g" "Suc (length fs) \<le> m" "tok \<noteq> CHR 0x0A"
    "buffy_ok (b :: infile buffy)" "infile_sound (src b)" "ring b @ fdata (src b) = fields_line tok f fs @ rest"
  shows "\<exists>b'. btoks file_doread tok m fin b = Some ((Suc (length fs), f # fs), b') \<and>
    buffy_ok b' \<and> infile_sound (src b') \<and> ring b' @ fdata (src b') = rest"
proof -
  have u: "infile.usable b" "infile.stream b = fields_line tok f fs @ rest"
    using assms by (auto simp: infile.usable_def infile.stream_def)
  show ?thesis
    using infile.btoks_stream [OF u(1), of tok m fin] unfolding u(2) s_toks_fields [OF assms(1-4)]
    by (auto simp: infile.usable_def infile.stream_def)
qed

theorem btoks_fields_witness:
  "\<exists>b'. btoks file_doread (CHR '':'') 3 True (buffy_new \<lparr>fdata = ''12:ab:x'' @ [CHR 0x0A], sched = []\<rparr>) =
     Some ((3, [''12'', ''ab'', ''x'']), b')"
  using btoks_fields [of "CHR '':''" "''12''" "[''ab'', ''x'']" 3
      "buffy_new \<lparr>fdata = ''12:ab:x'' @ [CHR 0x0A], sched = []\<rparr>" "[]" True]
  by (auto simp: buffy_new_ok infile_sound_def fields_line_def)

lemma take_min_length: "take (min (length xs) n) xs = take n xs"
  by (simp add: min_def)

lemma file_readfull_result:
  "case file_readfull f len of
      Inr (bs, f') \<Rightarrow> length bs = len \<and> fdata f = bs @ fdata f'
    | Inl e \<Rightarrow> (e = Unexpected_EOF \<and> length (fdata f) < len) \<or> (e = Read_failed \<and> None \<in> set (sched f))"
proof (induction f len rule: file_readfull.induct)
  case (1 f len)
  show ?case
  proof (cases "len = 0")
    case True
    then show ?thesis by (simp add: file_readfull.simps)
  next
    case len: False
    show ?thesis
    proof (cases "file_doread f len")
      case None
      then show ?thesis using len
        by (subst file_readfull.simps) (auto simp: file_doread_def split: list.splits option.splits)
    next
      case (Some r)
      obtain bs f' where r: "r = (bs, f')" by (cases r)
      have d: "fdata f = bs @ fdata f'" "length bs \<le> len" "bs = [] \<Longrightarrow> fdata f = []" "set (sched f') \<subseteq> set (sched f)"
        using Some r len by (auto simp: file_doread_def split: list.splits option.splits)
      show ?thesis
      proof (cases "bs = []")
        case True
        then show ?thesis using len Some r d by (subst file_readfull.simps) simp
      next
        case False
        then show ?thesis
          using 1 [OF len Some r [symmetric] False] len Some r d
          by (subst file_readfull.simps) (auto split: sum.splits)
      qed
    qed
  qed
qed

lemma file_write_result:
  "case file_write g data of
      (None, g') \<Rightarrow> written g' = written g @ data
    | (Some e, g') \<Rightarrow> e = Write_failed \<and> None \<in> set (wsched g) \<and>
        (\<exists>k < length data. written g' = written g @ take k data)"
proof (induction g data rule: file_write.induct)
  case (1 g data)
  show ?case
  proof (cases "data = []")
    case True
    then show ?thesis by (simp add: file_write.simps)
  next
    case ne: False
    show ?thesis
    proof (cases "file_dowrite g data")
      case None
      then have "None \<in> set (wsched g)" by (auto simp: file_dowrite_def split: list.splits option.splits)
      then show ?thesis using ne None by (subst file_write.simps) (auto intro!: exI [of _ 0])
    next
      case (Some r)
      obtain i g' where r: "r = (i, g')" by (cases r)
      have d: "written g' = written g @ take i data" "i \<le> length data" "0 < i" "set (wsched g') \<subseteq> set (wsched g)"
        using Some r ne by (auto simp: file_dowrite_def take_min_length split: list.splits option.splits)
      have IH: "case file_write g' (drop i data) of
          (None, g'') \<Rightarrow> written g'' = written g' @ drop i data
        | (Some e, g'') \<Rightarrow> e = Write_failed \<and> None \<in> set (wsched g') \<and>
            (\<exists>k < length (drop i data). written g'' = written g' @ take k (drop i data))"
        using 1 [OF ne Some r [symmetric]] d(3) by simp
      obtain res g'' where w: "file_write g' (drop i data) = (res, g'')" by fastforce
      have step: "file_write g data = (res, g'')" using ne Some r d w by (subst file_write.simps) simp
      show ?thesis
      proof (cases res)
        case None
        then show ?thesis using IH step w d by simp
      next
        case (Some e)
        then obtain k where k: "k < length data - i" "written g'' = written g' @ take k (drop i data)"
          using IH w by auto
        have "written g'' = written g @ take (i + k) data" "i + k < length data"
          using k d(1) by (simp_all add: take_add)
        then show ?thesis using IH step w d Some by auto
      qed
    qed
  qed
qed

text \<open>\<open>readfull\<close> returns exactly the next \<open>len\<close> bytes or fails: it reports an early end
  only when fewer bytes are left and a failed read only when a read fails. \<open>write\<close> writes all of its
  data across short writes, and on a failure what it has written is a proper prefix of the data.\<close>

theorem full_transfers:
  "(case file_readfull f len of
      Inr (bs, f') \<Rightarrow> length bs = len \<and> fdata f = bs @ fdata f'
    | Inl e \<Rightarrow> (e = Unexpected_EOF \<and> length (fdata f) < len) \<or> (e = Read_failed \<and> None \<in> set (sched f))) \<and>
   (case file_write g data of
      (None, g') \<Rightarrow> written g' = written g @ data
    | (Some e, g') \<Rightarrow> e = Write_failed \<and> None \<in> set (wsched g) \<and>
        (\<exists>k < length data. written g' = written g @ take k data))"
  using file_readfull_result file_write_result by (rule conjI)

end
