(* ===== verification/Knapsack.thy ===== *)
theory Knapsack
  imports Prelude
begin

text \<open>
  The 0/1 knapsack solver of \<open>knapsack.cc\<close>, with which \<open>par.cc\<close> chooses the recovery volumes to fetch:
  the table over the target sizes, updated in place from the top, the lists of items that improved
  each size, and the walk back through those lists. A vector is a list, the result set a list in
  insertion order. The ints are mathematical: the sums of the callers stay within an \<open>int\<close>. The
  lemmas show that the table holds the optimum, that the walk collects a set that reaches it, and
  that the inverted problem of \<open>knapsack_minsize\<close> gives the cheapest set with enough value.
\<close>

section \<open>The solver\<close>

definition INT_MAX :: nat where
  "INT_MAX = 2147483647"

type_synonym ks_table = "int list \<times> nat list list"

definition ks_update :: "int list \<Rightarrow> nat list \<Rightarrow> nat \<Rightarrow> nat \<Rightarrow> ks_table \<Rightarrow> ks_table" where
  "ks_update values sizes i j tab =
     (case tab of (V, best) \<Rightarrow>
        (let othersol = V ! (j - sizes ! i) + values ! i
         in if othersol > V ! j then (V[j := othersol], best[j := best ! j @ [i]]) else (V, best)))"

definition ks_inner :: "int list \<Rightarrow> nat list \<Rightarrow> nat \<Rightarrow> nat \<Rightarrow> ks_table \<Rightarrow> ks_table" where
  "ks_inner values sizes target_sz i tab =
     fold (ks_update values sizes i) (rev [sizes ! i ..< Suc target_sz]) tab"

definition ks_outer :: "int list \<Rightarrow> nat list \<Rightarrow> nat \<Rightarrow> nat \<Rightarrow> ks_table" where
  "ks_outer values sizes target_sz n =
     fold (ks_inner values sizes target_sz) [0 ..< n]
       (replicate (Suc target_sz) 0, replicate (Suc target_sz) [])"

text \<open>The walk back: the last item of \<open>best[j]\<close> that comes before \<open>last\<close>.\<close>

function ks_walk :: "nat list \<Rightarrow> nat list list \<Rightarrow> nat \<Rightarrow> nat \<Rightarrow> nat list \<Rightarrow> nat list" where
  "ks_walk sizes best j lst result =
     (if j = 0 then result
      else
        (case find (\<lambda>b. b < lst) (rev (best ! j)) of
           None \<Rightarrow> result
         | Some b \<Rightarrow> ks_walk sizes best (j - sizes ! b) b (result @ [b])))"
  by pat_completeness auto
termination
  by (relation "measure (\<lambda>(sizes, best, j, lst, result). lst)") (auto simp: find_Some_iff)

declare ks_walk.simps [simp del]

definition knapsack :: "int list \<Rightarrow> nat list \<Rightarrow> nat \<Rightarrow> int \<times> nat list" where
  "knapsack values sizes target_sz =
     (case ks_outer values sizes target_sz (length values) of
        (V, best) \<Rightarrow> (V ! target_sz, ks_walk sizes best target_sz INT_MAX []))"

definition knapsack_minsize :: "nat list \<Rightarrow> nat list \<Rightarrow> nat \<Rightarrow> int \<times> nat list" where
  "knapsack_minsize values sizes target_value =
     (let sum_values = sum_list values;
          sum_sizes = sum_list sizes;
          (result_sizeprime, resultprime) =
            (if target_value \<le> sum_values
             then knapsack (List.map int sizes) values (sum_values - target_value)
             else (0, []))
      in (int sum_sizes - result_sizeprime,
          filter (\<lambda>i. i \<notin> set resultprime) [0 ..< length values]))"

section \<open>The table over the first items\<close>

text \<open>The table after the first \<open>k\<close> items, and the items that improved size \<open>j\<close>.\<close>

fun ks_best :: "int list \<Rightarrow> nat list \<Rightarrow> nat \<Rightarrow> nat \<Rightarrow> int" where
  "ks_best v s 0 j = 0"
| "ks_best v s (Suc k) j =
     (if s ! k \<le> j \<and> ks_best v s k j < ks_best v s k (j - s ! k) + v ! k
      then ks_best v s k (j - s ! k) + v ! k else ks_best v s k j)"

definition ks_improved :: "int list \<Rightarrow> nat list \<Rightarrow> nat \<Rightarrow> nat \<Rightarrow> nat list" where
  "ks_improved v s k j = filter (\<lambda>i. ks_best v s (Suc i) j \<noteq> ks_best v s i j) [0 ..< k]"

definition ks_tab :: "int list \<Rightarrow> nat list \<Rightarrow> nat \<Rightarrow> nat \<Rightarrow> ks_table" where
  "ks_tab v s t k = (List.map (ks_best v s k) [0 ..< Suc t], List.map (ks_improved v s k) [0 ..< Suc t])"

lemma ks_improved_Suc:
  "ks_improved v s (Suc k) j =
     ks_improved v s k j @ (if ks_best v s (Suc k) j \<noteq> ks_best v s k j then [k] else [])"
  by (simp add: ks_improved_def)

lemma rev_upt_step: "a < b \<Longrightarrow> rev [a ..< b] = rev [Suc a ..< b] @ [a]"
  by (simp add: upt_conv_Cons)

text \<open>Partway down the inner loop the sizes from \<open>a\<close> up hold the new values, those below the old.\<close>

lemma ks_inner_partial:
  assumes "s ! k \<le> a" "a \<le> Suc t"
  shows "fold (ks_update v s k) (rev [a ..< Suc t]) (ks_tab v s t k) =
    (List.map (\<lambda>j. ks_best v s (if a \<le> j then Suc k else k) j) [0 ..< Suc t],
     List.map (\<lambda>j. ks_improved v s (if a \<le> j then Suc k else k) j) [0 ..< Suc t])"
  using assms(2,1)
proof (induction a rule: inc_induct)
  case base
  have "\<not> Suc t \<le> j" if "j \<in> set [0 ..< Suc t]" for j using that by auto
  then show ?case by (simp add: ks_tab_def)
next
  case (step a)
  have a: "a \<le> t" "s ! k \<le> a" using step by auto
  let ?V = "List.map (\<lambda>j. ks_best v s (if Suc a \<le> j then Suc k else k) j) [0 ..< Suc t]"
  let ?B = "List.map (\<lambda>j. ks_improved v s (if Suc a \<le> j then Suc k else k) j) [0 ..< Suc t]"
  have "fold (ks_update v s k) (rev [a ..< Suc t]) (ks_tab v s t k) = ks_update v s k a (?V, ?B)"
    using step a by (subst rev_upt_step) auto
  moreover have "?V ! (a - s ! k) = ks_best v s k (a - s ! k)" "?V ! a = ks_best v s k a"
      "?B ! a = ks_improved v s k a"
    using a by (simp_all add: nth_append del: upt_Suc)
  ultimately have "fold (ks_update v s k) (rev [a ..< Suc t]) (ks_tab v s t k) =
      (if ks_best v s k (a - s ! k) + v ! k > ks_best v s k a
       then (?V[a := ks_best v s k (a - s ! k) + v ! k], ?B[a := ks_improved v s k a @ [k]]) else (?V, ?B))"
    by (simp add: ks_update_def Let_def del: upt_Suc)
  also have "\<dots> = (List.map (\<lambda>j. ks_best v s (if a \<le> j then Suc k else k) j) [0 ..< Suc t],
     List.map (\<lambda>j. ks_improved v s (if a \<le> j then Suc k else k) j) [0 ..< Suc t])"
  proof -
    have "a \<le> x \<longleftrightarrow> Suc a \<le> x \<or> x = a" for x by auto
    then show ?thesis
      using a by (auto intro!: nth_equalityI simp: nth_list_update ks_improved_Suc simp del: upt_Suc)
  qed
  finally show ?case .
qed

lemma ks_inner_tab:
  "ks_inner v s t k (ks_tab v s t k) = ks_tab v s t (Suc k)"
proof (cases "s ! k \<le> Suc t")
  case True
  show ?thesis unfolding ks_inner_def ks_inner_partial [OF order_refl True]
    by (auto simp: ks_tab_def ks_improved_Suc simp del: upt_Suc)
next
  case False
  then show ?thesis
    by (auto simp: ks_inner_def ks_tab_def ks_improved_Suc not_le simp del: upt_Suc)
qed

lemma ks_outer_tab: "ks_outer v s t n = ks_tab v s t n"
proof (induction n)
  case 0
  show ?case by (auto intro!: nth_equalityI simp: ks_outer_def ks_tab_def ks_improved_def
        simp del: upt_Suc replicate_Suc)
next
  case (Suc n)
  then show ?case by (simp add: ks_outer_def ks_inner_tab)
qed

section \<open>The table is optimal\<close>

definition picked :: "'a::comm_monoid_add list \<Rightarrow> nat set \<Rightarrow> 'a" where
  "picked xs S = (\<Sum>i\<in>S. xs ! i)"

lemma picked_insert: "finite S \<Longrightarrow> k \<notin> S \<Longrightarrow> picked xs (insert k S) = xs ! k + picked xs S"
  by (simp add: picked_def)

lemma subset_Suc_cases:
  assumes "S \<subseteq> {..< Suc k}"
  obtains "S \<subseteq> {..< k}" | S' where "S' \<subseteq> {..< k}" "S = insert k S'"
proof (cases "k \<in> S")
  case True
  then have "S - {k} \<subseteq> {..< k}" "S = insert k (S - {k})" using assms by auto
  then show ?thesis by (rule that(2))
next
  case False
  then have "S \<subseteq> {..< k}" using assms by (auto simp: less_Suc_eq)
  then show ?thesis by (rule that(1))
qed

lemma ks_best_upper:
  "S \<subseteq> {..< k} \<Longrightarrow> picked s S \<le> j \<Longrightarrow> picked v S \<le> ks_best v s k j"
proof (induction k arbitrary: S j)
  case 0
  then show ?case by (simp add: picked_def)
next
  case (Suc k)
  from Suc.prems(1) show ?case
  proof (cases rule: subset_Suc_cases)
    case 1
    then have "picked v S \<le> ks_best v s k j" by (rule Suc.IH) (rule Suc.prems)
    then show ?thesis by auto
  next
    case (2 S')
    then have f: "finite S'" "k \<notin> S'" by (auto intro: finite_subset)
    then have "s ! k + picked s S' \<le> j" using Suc.prems 2 by (simp add: picked_insert)
    then have "picked v S' \<le> ks_best v s k (j - s ! k)" "s ! k \<le> j"
      using 2 by (auto intro: Suc.IH)
    then show ?thesis using f by (auto simp: 2 picked_insert)
  qed
qed

section \<open>The walk collects an optimal set\<close>

lemma find_rev_filter_None:
  "find (\<lambda>b. b < m) (rev (filter P [0 ..< n])) = None \<Longrightarrow> m \<le> n \<Longrightarrow> i < m \<Longrightarrow> \<not> P i"
  by (auto simp: find_None_iff)

lemma find_rev_filter_Some:
  assumes "find (\<lambda>b. b < m) (rev (filter P [0 ..< n])) = Some b" "m \<le> n"
  shows "b < m \<and> P b \<and> (\<forall>i. b < i \<and> i < m \<longrightarrow> \<not> P i)"
  using assms
proof (induction n arbitrary: m)
  case (Suc n)
  show ?case
  proof (cases "m \<le> n")
    case True
    then have "find (\<lambda>b. b < m) (rev (filter P [0 ..< n])) = Some b"
      using Suc.prems by (auto split: if_splits)
    then show ?thesis using Suc.IH True by blast
  next
    case False
    then have m: "m = Suc n" using Suc.prems by simp
    show ?thesis
    proof (cases "P n")
      case True
      then show ?thesis using Suc.prems m by auto
    next
      case P: False
      have eq: "find (\<lambda>b. b < Suc n) (rev (filter P [0 ..< n])) = find (\<lambda>b. b < n) (rev (filter P [0 ..< n]))"
        by (rule find_cong) auto
      then have "find (\<lambda>b. b < n) (rev (filter P [0 ..< n])) = Some b"
        using Suc.prems m P by simp
      then have "b < n \<and> P b \<and> (\<forall>i. b < i \<and> i < n \<longrightarrow> \<not> P i)" using Suc.IH by blast
      then show ?thesis using m P by (metis less_Suc_eq)
    qed
  qed
qed simp

lemma ks_best_unchanged:
  "a \<le> b \<Longrightarrow> (\<And>i. a \<le> i \<Longrightarrow> i < b \<Longrightarrow> ks_best v s (Suc i) j = ks_best v s i j) \<Longrightarrow>
     ks_best v s b j = ks_best v s a j"
proof (induction b rule: dec_induct)
  case (step b)
  then show ?case by (metis less_Suc_eq order.strict_implies_order less_imp_le_nat)
qed simp

lemma ks_best_zero: "\<forall>i < k. 0 < s ! i \<Longrightarrow> ks_best v s k 0 = 0"
  by (induction k) auto

lemma ks_walk_sound:
  assumes "m \<le> n" "j \<le> t" "\<forall>i < n. 0 < s ! i" "\<forall>i \<in> set res. m \<le> i \<and> i < n" "distinct res"
  shows "\<exists>new. ks_walk s (snd (ks_tab v s t n)) j m res = res @ new \<and> distinct (res @ new) \<and>
    set new \<subseteq> {..< m} \<and> picked s (set new) \<le> j \<and> picked v (set new) = ks_best v s m j"
  using assms
proof (induction m arbitrary: j res rule: less_induct)
  case (less m)
  show ?case
  proof (cases "j = 0")
    case True
    then show ?thesis using less.prems ks_best_zero [of m s v]
      by (intro exI [of _ "[]"]) (simp add: ks_walk.simps picked_def)
  next
    case j: False
    have row: "snd (ks_tab v s t n) ! j = filter (\<lambda>i. ks_best v s (Suc i) j \<noteq> ks_best v s i j) [0 ..< n]"
      using less.prems by (simp add: ks_tab_def ks_improved_def nth_append del: upt_Suc)
    show ?thesis
    proof (cases "find (\<lambda>b. b < m) (rev (snd (ks_tab v s t n) ! j))")
      case None
      have "ks_best v s m j = ks_best v s 0 j"
        by (rule ks_best_unchanged) (use find_rev_filter_None [OF None [unfolded row]] less.prems in auto)
      then show ?thesis using j None less.prems
        by (intro exI [of _ "[]"]) (simp add: ks_walk.simps picked_def)
    next
      case (Some b)
      have b: "b < m" "ks_best v s (Suc b) j \<noteq> ks_best v s b j"
          "\<And>i. b < i \<Longrightarrow> i < m \<Longrightarrow> ks_best v s (Suc i) j = ks_best v s i j"
        using find_rev_filter_Some [OF Some [unfolded row]] less.prems by auto
      have val: "ks_best v s m j = ks_best v s b (j - s ! b) + v ! b" and sb: "s ! b \<le> j"
        using ks_best_unchanged [of "Suc b" m v s j] b by (auto split: if_splits)
      have "\<exists>new. ks_walk s (snd (ks_tab v s t n)) (j - s ! b) b (res @ [b]) = (res @ [b]) @ new \<and>
          distinct ((res @ [b]) @ new) \<and> set new \<subseteq> {..< b} \<and>
          picked s (set new) \<le> j - s ! b \<and> picked v (set new) = ks_best v s b (j - s ! b)"
        by (rule less.IH) (use less.prems b in auto)
      then obtain new where new: "ks_walk s (snd (ks_tab v s t n)) (j - s ! b) b (res @ [b]) = (res @ [b]) @ new"
          "distinct ((res @ [b]) @ new)" "set new \<subseteq> {..< b}"
          "picked s (set new) \<le> j - s ! b" "picked v (set new) = ks_best v s b (j - s ! b)" by blast
      have "b \<notin> set new" using new(3) by auto
      then have "picked s (set (b # new)) \<le> j" "picked v (set (b # new)) = ks_best v s m j"
        using new val sb by (simp_all add: picked_insert)
      then show ?thesis using j Some new b
        by (intro exI [of _ "b # new"]) (auto simp: ks_walk.simps [of s _ j])
    qed
  qed
qed

section \<open>The properties\<close>

text \<open>No index reaches \<open>INT_MAX\<close>, so the walk may start at the number of items.\<close>

lemma knapsack_walk:
  assumes "length v \<le> INT_MAX"
  shows "knapsack v s t =
    (case ks_outer v s t (length v) of (V, best) \<Rightarrow> (V ! t, ks_walk s best t (length v) []))"
proof -
  let ?n = "length v"
  have row: "snd (ks_tab v s t ?n) ! t = filter (\<lambda>i. ks_best v s (Suc i) t \<noteq> ks_best v s i t) [0 ..< ?n]"
    by (simp add: ks_tab_def ks_improved_def nth_append)
  have "find (\<lambda>b. b < INT_MAX) (rev (snd (ks_tab v s t ?n) ! t)) =
      find (\<lambda>b. b < ?n) (rev (snd (ks_tab v s t ?n) ! t))"
    unfolding row by (rule find_cong) (use assms in auto)
  then have "ks_walk s (snd (ks_tab v s t ?n)) t INT_MAX [] = ks_walk s (snd (ks_tab v s t ?n)) t ?n []"
    by (simp add: ks_walk.simps [of s _ t])
  then show ?thesis by (auto simp: knapsack_def ks_outer_tab split: prod.split)
qed

lemma knapsack_solution:
  assumes "\<forall>i < length v. 0 < s ! i" "length v \<le> INT_MAX"
  shows "fst (knapsack v s t) = ks_best v s (length v) t \<and> distinct (snd (knapsack v s t)) \<and>
    set (snd (knapsack v s t)) \<subseteq> {..< length v} \<and> picked s (set (snd (knapsack v s t))) \<le> t \<and>
    picked v (set (snd (knapsack v s t))) = ks_best v s (length v) t"
proof -
  let ?n = "length v"
  obtain new where new: "ks_walk s (snd (ks_tab v s t ?n)) t ?n [] = [] @ new \<and> distinct ([] @ new) \<and>
    set new \<subseteq> {..< ?n} \<and> picked s (set new) \<le> t \<and> picked v (set new) = ks_best v s ?n t"
    using ks_walk_sound [of ?n ?n t t s "[]" v] assms by auto
  have "knapsack v s t = (fst (ks_tab v s t ?n) ! t, ks_walk s (snd (ks_tab v s t ?n)) t ?n [])"
    by (simp add: knapsack_walk [OF assms(2)] ks_outer_tab split: prod.split)
  moreover have "fst (ks_tab v s t ?n) ! t = ks_best v s ?n t"
    by (simp add: ks_tab_def nth_append)
  ultimately show ?thesis using new by simp
qed

lemma knapsack_best:
  assumes "\<forall>i < length v. 0 < s ! i" "length v \<le> INT_MAX" "knapsack v s t = (value_max, result)"
  shows "distinct result \<and> set result \<subseteq> {..< length v} \<and> picked s (set result) \<le> t \<and>
    picked v (set result) = value_max \<and>
    (\<forall>S \<subseteq> {..< length v}. picked s S \<le> t \<longrightarrow> picked v S \<le> value_max)"
  using knapsack_solution [OF assms(1,2), of t] assms(3) ks_best_upper [of _ "length v" s t v] by auto

text \<open>Property C3. For items of positive size, \<open>knapsack\<close> returns the value of the set it collects, the
  set fits into the target, and no set of items that fits has a larger value.\<close>

theorem knapsack_optimal:
  assumes "\<forall>i < length v. 0 < s ! i" "length v \<le> INT_MAX" "knapsack v s t = (value_max, result)"
  shows "distinct result \<and> set result \<subseteq> {..< length v} \<and> picked s (set result) \<le> t \<and>
    picked v (set result) = value_max \<and>
    (\<forall>S \<subseteq> {..< length v}. picked s S \<le> t \<longrightarrow> picked v S \<le> value_max)"
  using knapsack_best [OF assms] by blast

theorem knapsack_optimal_witness:
  "picked [10, 40, 30] {1, 2} = (70 :: int) \<and> picked [10, 40, 30] {0, 2} \<le> (70 :: int)"
proof -
  have "knapsack [10, 40, 30] [3, 4, 2] 6 = (70, [2, 1])"
    by (subst knapsack_walk) (simp add: INT_MAX_def, code_simp)
  then have "picked [10, 40, 30] (set [2, 1]) = (70 :: int) \<and>
      (\<forall>S \<subseteq> {..< length [10 :: int, 40, 30]}. picked [3, 4, 2] S \<le> (6 :: nat) \<longrightarrow> picked [10, 40, 30] S \<le> (70 :: int))"
    using knapsack_optimal [of "[10, 40, 30]" "[3, 4, 2]" 6 70 "[2, 1]"]
    by (auto simp: INT_MAX_def less_Suc_eq numeral_3_eq_3)
  then show ?thesis
    by (auto simp: picked_def insert_commute dest!: spec [of _ "{0, 2}"])
qed

lemma sum_list_picked: "sum_list xs = picked xs {..< length xs}"
  by (simp add: picked_def sum_list_sum_nth atLeast0LessThan)

lemma picked_complement:
  fixes xs :: "nat list"
  assumes "S \<subseteq> {..< length xs}"
  shows "picked xs ({..< length xs} - S) + picked xs S = sum_list xs"
  using sum.subset_diff [OF assms, of "(!) xs"] by (simp add: picked_def sum_list_picked)

lemma picked_int: "S \<subseteq> {..< length xs} \<Longrightarrow> picked (List.map int xs) S = int (picked xs S)"
  by (simp add: picked_def subset_iff)

lemma knapsack_minsize_best:
  assumes "\<forall>i < length v. 0 < v ! i" "length s = length v" "length v \<le> INT_MAX"
    "knapsack_minsize v s target = (size_min, result)"
  shows "set result \<subseteq> {..< length v} \<and> int (picked s (set result)) = size_min \<and>
    (target \<le> sum_list v \<longrightarrow> target \<le> picked v (set result) \<and>
       (\<forall>S \<subseteq> {..< length v}. target \<le> picked v S \<longrightarrow> size_min \<le> int (picked s S))) \<and>
    (sum_list v < target \<longrightarrow> set result = {..< length v})"
proof (cases "target \<le> sum_list v")
  case True
  obtain val res where k: "knapsack (List.map int s) v (sum_list v - target) = (val, res)" by fastforce
  have opt: "set res \<subseteq> {..< length v}" "picked v (set res) \<le> sum_list v - target"
      "picked (List.map int s) (set res) = val"
      "\<And>S. S \<subseteq> {..< length v} \<Longrightarrow> picked v S \<le> sum_list v - target \<Longrightarrow> picked (List.map int s) S \<le> val"
    using knapsack_best [of "List.map int s" v, OF _ _ k] assms(1-3) by auto
  have r: "size_min = int (sum_list s) - val" "set result = {..< length v} - set res"
    using assms(4) True k by (auto simp: knapsack_minsize_def Let_def)
  have val: "val = int (picked s (set res))" using opt(1,3) assms(2) by (simp add: picked_int)
  have comp: "picked s ({..< length v} - S) + picked s S = sum_list s"
      "picked v ({..< length v} - S) + picked v S = sum_list v" if "S \<subseteq> {..< length v}" for S
    using picked_complement [of S s] picked_complement [of S v] that assms(2) by auto
  have size: "int (picked s (set result)) = size_min"
    using comp(1) [OF opt(1)] r val by simp
  have reach: "target \<le> picked v (set result)"
    using comp(2) [OF opt(1)] opt(2) r True by simp
  have best: "size_min \<le> int (picked s S)" if S: "S \<subseteq> {..< length v}" "target \<le> picked v S" for S
  proof -
    let ?C = "{..< length v} - S"
    have "picked v ?C \<le> sum_list v - target" using comp(2) [OF S(1)] S(2) by simp
    then have "int (picked s ?C) \<le> val"
      using opt(4) [of ?C] assms(2) by (simp add: picked_int Diff_subset)
    then show ?thesis using comp(1) [OF S(1)] r by linarith
  qed
  show ?thesis using size reach best r True by auto
next
  case False
  then have "size_min = int (sum_list s)" "set result = {..< length v}"
    using assms(4) by (auto simp: knapsack_minsize_def)
  then show ?thesis using False assms(2) by (simp add: sum_list_picked)
qed

text \<open>For items of positive value whose values together reach the target,
  \<open>knapsack_minsize\<close> returns the size of the set it collects, the set's value reaches the target,
  and no set that reaches it is smaller. When the target is out of reach it collects everything.\<close>

theorem knapsack_minsize_optimal:
  assumes "\<forall>i < length v. 0 < v ! i" "length s = length v" "length v \<le> INT_MAX"
    "knapsack_minsize v s target = (size_min, result)"
  shows "set result \<subseteq> {..< length v} \<and> int (picked s (set result)) = size_min \<and>
    (target \<le> sum_list v \<longrightarrow> target \<le> picked v (set result) \<and>
       (\<forall>S \<subseteq> {..< length v}. target \<le> picked v S \<longrightarrow> size_min \<le> int (picked s S))) \<and>
    (sum_list v < target \<longrightarrow> set result = {..< length v})"
  using knapsack_minsize_best [OF assms] by blast

theorem knapsack_minsize_optimal_witness:
  "(50 :: int) \<le> int (picked [10, 20, 40] {1, 2})"
proof -
  have "knapsack [10, 20, 40] [1, 2, 4] 2 = (20, [1])"
    by (subst knapsack_walk) (simp add: INT_MAX_def, code_simp)
  then have "knapsack_minsize [1, 2, 4] [10, 20, 40] 5 = (50, [0, 2])"
    by (simp add: knapsack_minsize_def numeral_3_eq_3)
  then have "\<forall>S \<subseteq> {..< length [1 :: nat, 2, 4]}. (5 :: nat) \<le> picked [1, 2, 4] S \<longrightarrow>
      (50 :: int) \<le> int (picked [10, 20, 40] S)"
    using knapsack_minsize_optimal [of "[1, 2, 4]" "[10, 20, 40]" 5 50 "[0, 2]"]
    by (auto simp: INT_MAX_def less_Suc_eq numeral_3_eq_3)
  then show ?thesis by (auto simp: picked_def dest!: spec [of _ "{1, 2}"])
qed

text \<open>An item of size zero is left out of the collected set although its value is counted,
  so that the value returned is not the value of the set.\<close>

theorem knapsack_zero_size:
  "knapsack [5] [0] 0 = (5, []) \<and> knapsack [5, 3] [0, 1] 1 = (8, [1])"
  by (subst knapsack_walk, simp add: INT_MAX_def, subst knapsack_walk, simp add: INT_MAX_def, code_simp)

end
