(* ===== verification/Server.thy ===== *)
theory Server
  imports Complex_Main CString Strings
begin

text \<open>
  The configuration of servers and groups (\<open>server.h\<close>, \<open>server.cc\<close>): servers with their penalties,
  priority groupings, groups and metagroups. Pointers to servers and to groups are indices into the
  lists \<open>servers\<close> and \<open>ginfos\<close> of the configuration, whose elements are never freed; a pointer to a
  priority grouping is the grouping's name. Floats are rationals, the clock is an argument. The
  lemmas: when a penalized server is refused and for how long, what a list of group names expands
  to, and the ranges that \<open>parse_int_pair\<close> reads.
\<close>

section \<open>The data\<close>

type_synonym server_ptr = nat
type_synonym group_ptr = nat

record server =
  sv_serverid :: ulong
  sv_alias :: string
  sv_shortname :: string
  sv_addr :: string
  sv_user :: string
  sv_pass :: string
  sv_bindaddr :: string
  sv_fullxover :: int
  sv_maxstreaming :: int
  lineleniencelow :: int
  lineleniencehigh :: int
  sv_idletimeout :: int
  last_penalty :: int
  penalty_time :: int
  penalty_count :: int

definition get_bindaddr :: "server \<Rightarrow> string \<Rightarrow> string" where
  "get_bindaddr s force_bindaddr = (if force_bindaddr = [] then sv_bindaddr s else force_bindaddr)"

record prio_grouping =
  pg_alias :: string
  defglevel :: rat
  deflevel :: rat
  priorities :: "(server_ptr \<times> rat) list"

definition prio_grouping_new :: "string \<Rightarrow> prio_grouping" where
  "prio_grouping_new alia = \<lparr>pg_alias = alia, defglevel = 1, deflevel = 1, priorities = []\<rparr>"

definition getserverpriority :: "prio_grouping \<Rightarrow> server_ptr \<Rightarrow> rat" where
  "getserverpriority pg s = (case map_of (priorities pg) s of Some baseprio \<Rightarrow> baseprio | None \<Rightarrow> deflevel pg)"

record group_info =
  gi_alias :: string
  gi_group :: string
  gi_prio :: string
  gi_usegz :: int

record nget_config =
  serv :: "(ulong \<times> server_ptr) list"
  servers :: "server list"
  prioritygroupings :: "(string \<times> prio_grouping) list"
  trustsizes :: "prio_grouping option"
  groups :: "(string \<times> group_ptr) list"
  ginfos :: "group_info list"
  metagroups :: "(string \<times> string) list"
  curservmult :: rat
  usegz :: int
  unequal_line_error :: int
  cf_fullxover :: int
  cf_maxstreaming :: int
  cf_idletimeout :: int
  maxconnections :: int
  penaltystrikes :: int
  initialpenalty :: int
  penaltymultiplier :: rat
  fatal_user_errors :: bool
  autopar_optimistic :: bool
  maxheaders :: int
  cf_bindaddr :: string

definition nget_config_new :: nget_config where
  "nget_config_new =
     \<lparr>serv = [], servers = [], prioritygroupings = [], trustsizes = None, groups = [], ginfos = [],
      metagroups = [], curservmult = 2, usegz = - 1, unequal_line_error = 0, cf_fullxover = 0,
      cf_maxstreaming = 64, cf_idletimeout = 5 * 60, maxconnections = - 1, penaltystrikes = 3,
      initialpenalty = 180, penaltymultiplier = 2, fatal_user_errors = False,
      autopar_optimistic = False, maxheaders = - 1, cf_bindaddr = []\<rparr>"

section \<open>Penalties\<close>

text \<open>The exception of \<open>check_penalized\<close> carries the seconds left.\<close>

definition check_penalized :: "nget_config \<Rightarrow> int \<Rightarrow> server \<Rightarrow> int option" where
  "check_penalized nconfig now s =
     (if penaltystrikes nconfig > 0 \<and> penalty_count s \<ge> penaltystrikes nconfig then
        (let timeleft = last_penalty s + penalty_time s - now
         in if timeleft > 0 then Some timeleft else None)
      else None)"

definition unpenalize :: "server \<Rightarrow> server" where
  "unpenalize s = s\<lparr>penalty_count := 0\<rparr>"

definition penalize :: "nget_config \<Rightarrow> int \<Rightarrow> server \<Rightarrow> bool \<times> server" where
  "penalize nconfig now s =
     (if penaltystrikes nconfig \<le> 0 then (False, s)
      else
        (let s1 = s\<lparr>penalty_count := penalty_count s + 1\<rparr>;
             s2 = (if penalty_count s1 = penaltystrikes nconfig then s1\<lparr>penalty_time := initialpenalty nconfig\<rparr>
                   else if penalty_count s1 > penaltystrikes nconfig
                   then s1\<lparr>penalty_time := \<lfloor>of_int (penalty_time s1) * penaltymultiplier nconfig\<rfloor>\<rparr>
                   else s1);
             s3 = s2\<lparr>last_penalty := now\<rparr>
         in (penalty_count s3 \<ge> penaltystrikes nconfig, s3)))"

section \<open>Finding servers and groups\<close>

definition hasserver :: "nget_config \<Rightarrow> ulong \<Rightarrow> bool" where
  "hasserver nconfig sid \<longleftrightarrow> mmap_equal_range (serv nconfig) sid \<noteq> []"

definition getservers :: "nget_config \<Rightarrow> ulong \<Rightarrow> server_ptr list" where
  "getservers nconfig sid = mmap_equal_range (serv nconfig) sid"

definition getserver :: "nget_config \<Rightarrow> string \<Rightarrow> server_ptr option" where
  "getserver nconfig name =
     map_option snd (find (\<lambda>(sid, p). sv_alias (servers nconfig ! p) = name \<or> sv_addr (servers nconfig ! p) = name)
       (serv nconfig))"

definition getpriogrouping :: "nget_config \<Rightarrow> string \<Rightarrow> prio_grouping option" where
  "getpriogrouping nconfig groupname = map_of (prioritygroupings nconfig) groupname"

text \<open>A new group is entered under its alias, when it has one, and under its name; an entry that is
  there is kept. \<open>None\<close> is the null pointer after a user error.\<close>

definition addgroup :: "nget_config \<Rightarrow> string \<Rightarrow> string \<Rightarrow> string \<Rightarrow> int \<Rightarrow> group_ptr option \<times> nget_config" where
  "addgroup nconfig alias name prio gz =
     (let prio' = (if prio = [] then ''default'' else prio)
      in case getpriogrouping nconfig prio' of
           None \<Rightarrow> (None, nconfig)
         | Some priog \<Rightarrow>
             (let g = length (ginfos nconfig);
                  gs = (if alias \<noteq> [] then smap_insert (groups nconfig) alias g else groups nconfig)
              in (Some g,
                  nconfig\<lparr>ginfos := ginfos nconfig @ [\<lparr>gi_alias = alias, gi_group = name, gi_prio = prio', gi_usegz = gz\<rparr>],
                          groups := smap_insert gs name g\<rparr>)))"

definition addmetagroup :: "nget_config \<Rightarrow> string \<Rightarrow> string \<Rightarrow> nget_config" where
  "addmetagroup nconfig alias name = nconfig\<lparr>metagroups := smap_insert (metagroups nconfig) alias name\<rparr>"

definition addgroup_or_metagroup :: "nget_config \<Rightarrow> string \<Rightarrow> string \<Rightarrow> nget_config" where
  "addgroup_or_metagroup nconfig alias name =
     (if CHR '','' \<in> set name then addmetagroup nconfig alias name
      else snd (addgroup nconfig alias name [] (- 2)))"

definition getgroup :: "nget_config \<Rightarrow> string \<Rightarrow> group_ptr option \<times> nget_config" where
  "getgroup nconfig groupname =
     (case map_of (groups nconfig) groupname of
        Some g \<Rightarrow> (Some g, nconfig)
      | None \<Rightarrow> addgroup nconfig [] groupname [] (- 2))"

text \<open>\<open>strstr(name, ",cache")\<close>: the part of a file name before the first occurrence.\<close>

fun before_cache :: "string \<Rightarrow> string option" where
  "before_cache [] = None"
| "before_cache (c # s) =
     (if strstartswith (c # s) '',cache'' then Some [] else map_option (\<lambda>r. c # r) (before_cache s))"

text \<open>The directory is the list of its entries.\<close>

fun dogetallcachedgroups :: "string list \<Rightarrow> nget_config \<Rightarrow> group_ptr option list \<times> nget_config" where
  "dogetallcachedgroups [] nconfig = ([], nconfig)"
| "dogetallcachedgroups (d # ds) nconfig =
     (case before_cache d of
        None \<Rightarrow> dogetallcachedgroups ds nconfig
      | Some groupname \<Rightarrow>
          (case getgroup nconfig groupname of (g, nconfig') \<Rightarrow>
             (case dogetallcachedgroups ds nconfig' of (gs, nconfig'') \<Rightarrow> (g # gs, nconfig''))))"

text \<open>The names between the commas, the loop over \<open>goodstrtok\<close>.\<close>

definition cur_size :: "string option \<Rightarrow> nat" where
  "cur_size cur = (case cur of None \<Rightarrow> 0 | Some s \<Rightarrow> Suc (length s))"

lemma goodstrtok_shorter: "goodstrtok cur sep = (Some name, cur') \<Longrightarrow> cur_size cur' < cur_size cur"
proof (cases cur)
  case (Some s)
  assume g: "goodstrtok cur sep = (Some name, cur')"
  have "length (dropWhile (\<lambda>c. c \<noteq> sep) s) \<le> length s" by (rule length_dropWhile_le)
  then show ?thesis using g Some by (auto simp: goodstrtok_def cur_size_def split: list.splits)
qed (simp add: goodstrtok_def)

function strtok_all :: "char \<Rightarrow> string option \<Rightarrow> string list" where
  "strtok_all sep cur =
     (case goodstrtok cur sep of (None, _) \<Rightarrow> [] | (Some name, cur') \<Rightarrow> name # strtok_all sep cur')"
  by pat_completeness auto
termination
  by (relation "measure (cur_size \<circ> snd)") (auto dest: goodstrtok_shorter [OF sym])

declare strtok_all.simps [simp del]

text \<open>A metagroup may name itself; not returning is \<open>None\<close>.\<close>

partial_function (option) dogetgroups_loop ::
  "string list \<Rightarrow> string list \<Rightarrow> nget_config \<Rightarrow> (group_ptr option list \<times> nget_config) option"
where
  "dogetgroups_loop dir names nconfig =
     (case names of
        [] \<Rightarrow> Some ([], nconfig)
      | name # rest \<Rightarrow>
          Option.bind
            (if name = ''*'' then Some (dogetallcachedgroups dir nconfig)
             else
               (case map_of (metagroups nconfig) name of
                  Some ns \<Rightarrow> dogetgroups_loop dir (strtok_all (CHR '','') (Some ns)) nconfig
                | None \<Rightarrow> (case getgroup nconfig name of (g, nconfig') \<Rightarrow> Some ([g], nconfig'))))
            (\<lambda>(gs, nconfig').
               Option.bind (dogetgroups_loop dir rest nconfig')
                 (\<lambda>(gs', nconfig''). Some (gs @ gs', nconfig''))))"

definition dogetgroups :: "string list \<Rightarrow> string \<Rightarrow> nget_config \<Rightarrow> (group_ptr option list \<times> nget_config) option" where
  "dogetgroups dir names nconfig = dogetgroups_loop dir (strtok_all (CHR '','') (Some names)) nconfig"

fun unique_groups :: "group_ptr option list \<Rightarrow> group_ptr option list \<Rightarrow> group_ptr option list" where
  "unique_groups acc [] = acc"
| "unique_groups acc (g # gs) = unique_groups (if g \<in> set acc then acc else acc @ [g]) gs"

definition getgroups :: "string list \<Rightarrow> string \<Rightarrow> nget_config \<Rightarrow> (group_ptr option list \<times> nget_config) option" where
  "getgroups dir names nconfig =
     map_option (\<lambda>(tmpgroups, nconfig'). (unique_groups [] tmpgroups, nconfig')) (dogetgroups dir names nconfig)"

section \<open>Reading a pair of ints\<close>

definition is_xdigit :: "char \<Rightarrow> bool" where
  "is_xdigit c \<longleftrightarrow> is_digit c \<or> c \<in> set ''abcdefABCDEF''"

definition xdigit_val :: "char \<Rightarrow> nat" where
  "xdigit_val c = (if is_digit c then digit_val c else of_char (to_lower c) - 87)"

definition base_val :: "nat \<Rightarrow> string \<Rightarrow> nat" where
  "base_val b ds = foldl (\<lambda>n c. b * n + xdigit_val c) 0 ds"

text \<open>\<open>strtol(s, &erp, 0)\<close>: the base is taken from the prefix.\<close>

definition strtol0 :: "string \<Rightarrow> int \<times> string" where
  "strtol0 s =
     (let s1 = dropWhile is_space s;
          neg = (case s1 of c # _ \<Rightarrow> c = CHR ''-'' | [] \<Rightarrow> False);
          s2 = (case s1 of c # cs \<Rightarrow> if c = CHR ''-'' \<or> c = CHR ''+'' then cs else s1 | [] \<Rightarrow> s1);
          hex = (case s2 of z # x # d # _ \<Rightarrow> z = CHR ''0'' \<and> (x = CHR ''x'' \<or> x = CHR ''X'') \<and> is_xdigit d | _ \<Rightarrow> False);
          oct = (case s2 of z # _ \<Rightarrow> z = CHR ''0'' \<and> \<not> hex | [] \<Rightarrow> False);
          body = (if hex then drop 2 s2 else s2);
          ok = (if hex then is_xdigit else if oct then (\<lambda>c. is_digit c \<and> c \<noteq> CHR ''8'' \<and> c \<noteq> CHR ''9'') else is_digit);
          ds = takeWhile ok body;
          v = base_val (if hex then 16 else if oct then 8 else 10) ds
      in if ds = [] then (0, s)
         else (if neg then max (- (2 ^ 63)) (- int v) else min (2 ^ 63 - 1) (int v), dropWhile ok body))"

text \<open>The result is the pair, or \<open>None\<close> for the return value \<open>-1\<close>.\<close>

definition parse_int_pair :: "string \<Rightarrow> (int \<times> int) option" where
  "parse_int_pair s =
     (if s = [] then None
      else
        (case dropWhile (\<lambda>c. c \<noteq> CHR '','') s of
           _ # p \<Rightarrow>
             if p = [] then None
             else
               (case strtol0 s of (i, erp) \<Rightarrow>
                  if erp = [] \<or> hd erp \<noteq> CHR '','' then None
                  else
                    (case strtol0 p of (i2, erp2) \<Rightarrow>
                       if erp2 \<noteq> [] then None
                       else if int32 i \<le> int32 i2 then Some (int32 i, int32 i2) else Some (int32 i2, int32 i)))
         | [] \<Rightarrow>
             (case strtol0 s of (i, erp) \<Rightarrow>
                if erp \<noteq> [] then None
                else
                  (let a = (if int32 i < 0 then int32 (- int32 i) else int32 i)
                   in Some (int32 (- a), a)))))"

section \<open>A run of penalties\<close>

text \<open>The server after a sequence of failures at the given times.\<close>

fun penalize_all :: "nget_config \<Rightarrow> int list \<Rightarrow> server \<Rightarrow> server" where
  "penalize_all nconfig [] s = s"
| "penalize_all nconfig (t # ts) s = penalize_all nconfig ts (snd (penalize nconfig t s))"

lemma penalize_all_append:
  "penalize_all nconfig (ts @ ts') s = penalize_all nconfig ts' (penalize_all nconfig ts s)"
  by (induction nconfig ts s rule: penalize_all.induct) auto

definition penalty_after :: "nget_config \<Rightarrow> nat \<Rightarrow> int" where
  "penalty_after nconfig j = ((\<lambda>t. \<lfloor>of_int t * penaltymultiplier nconfig\<rfloor>) ^^ j) (initialpenalty nconfig)"

lemma penalize_all_state:
  assumes "0 < penaltystrikes nconfig" "penalty_count s = 0"
  shows "penalty_count (penalize_all nconfig ts s) = int (length ts) \<and>
    (ts \<noteq> [] \<longrightarrow> last_penalty (penalize_all nconfig ts s) = last ts) \<and>
    (penaltystrikes nconfig \<le> int (length ts) \<longrightarrow>
       penalty_time (penalize_all nconfig ts s) =
         penalty_after nconfig (length ts - nat (penaltystrikes nconfig)))"
proof (induction ts rule: rev_induct)
  case Nil
  then show ?case using assms by simp
next
  case (snoc t ts)
  let ?s = "penalize_all nconfig ts s"
  have step: "penalize_all nconfig (ts @ [t]) s = snd (penalize nconfig t ?s)"
    by (simp add: penalize_all_append)
  have cnt: "penalty_count ?s = int (length ts)" using snoc by simp
  consider "int (length ts) + 1 < penaltystrikes nconfig" | "int (length ts) + 1 = penaltystrikes nconfig"
    | "penaltystrikes nconfig \<le> int (length ts)" by linarith
  then show ?case
  proof cases
    case 1
    then show ?thesis using assms cnt by (simp add: step penalize_def Let_def)
  next
    case 2
    then have "Suc (length ts) - nat (penaltystrikes nconfig) = 0" by linarith
    then show ?thesis using 2 assms cnt by (simp add: step penalize_def Let_def penalty_after_def)
  next
    case 3
    then have "Suc (length ts) - nat (penaltystrikes nconfig) = Suc (length ts - nat (penaltystrikes nconfig))"
      by linarith
    then show ?thesis using 3 assms cnt snoc by (simp add: step penalize_def Let_def penalty_after_def)
  qed
qed

section \<open>Groups named by a list\<close>

lemma unique_groups_set: "set (unique_groups acc gs) = set acc \<union> set gs"
  by (induction acc gs rule: unique_groups.induct) auto

lemma unique_groups_distinct: "distinct acc \<Longrightarrow> distinct (unique_groups acc gs)"
  by (induction acc gs rule: unique_groups.induct) auto

lemma addgroup_metagroups [simp]: "metagroups (snd (addgroup nconfig alias name prio gz)) = metagroups nconfig"
  by (simp add: addgroup_def Let_def split: option.splits)

lemma getgroup_metagroups [simp]: "metagroups (snd (getgroup nconfig name)) = metagroups nconfig"
  by (simp add: getgroup_def split: option.splits)

lemma dogetallcachedgroups_metagroups [simp]:
  "metagroups (snd (dogetallcachedgroups ds nconfig)) = metagroups nconfig"
proof (induction ds nconfig rule: dogetallcachedgroups.induct)
  case (2 d ds nconfig)
  show ?case
  proof (cases "before_cache d")
    case None
    then show ?thesis using 2 by simp
  next
    case (Some name)
    then have "metagroups (snd (dogetallcachedgroups ds (snd (getgroup nconfig name)))) = metagroups nconfig"
      using 2(2) [OF Some] getgroup_metagroups [of nconfig name] by (metis prod.collapse)
    then show ?thesis using Some
      by (cases "getgroup nconfig name"; cases "dogetallcachedgroups ds (snd (getgroup nconfig name))") simp
  qed
qed simp

text \<open>Metagroups that are ranked expand in finitely many steps.\<close>

definition ranked :: "(string \<times> string) list \<Rightarrow> (string \<Rightarrow> nat) \<Rightarrow> bool" where
  "ranked ms r \<longleftrightarrow>
     (\<forall>(a, ns) \<in> set ms. \<forall>n \<in> set (strtok_all (CHR '','') (Some ns)). r n < r a)"

lemma dogetgroups_loop_returns_aux:
  assumes "ranked ms r"
  shows "metagroups nconfig = ms \<Longrightarrow> \<forall>n \<in> set names. r n < k \<Longrightarrow>
    \<exists>gs nconfig'. dogetgroups_loop dir names nconfig = Some (gs, nconfig') \<and> metagroups nconfig' = ms"
proof (induction k arbitrary: names nconfig rule: less_induct)
  case (less k)
  from less.prems show ?case
  proof (induction names arbitrary: nconfig)
    case Nil
    then show ?case by (subst dogetgroups_loop.simps) simp
  next
    case (Cons name rest)
    have head: "\<exists>gs nconfig'. (if name = ''*'' then Some (dogetallcachedgroups dir nconfig)
             else
               (case map_of (metagroups nconfig) name of
                  Some ns \<Rightarrow> dogetgroups_loop dir (strtok_all (CHR '','') (Some ns)) nconfig
                | None \<Rightarrow> (case getgroup nconfig name of (g, nconfig') \<Rightarrow> Some ([g], nconfig')))) =
          Some (gs, nconfig') \<and> metagroups nconfig' = ms"
    proof (cases "name = ''*''")
      case True
      then show ?thesis using Cons.prems dogetallcachedgroups_metagroups [of dir nconfig]
        by (cases "dogetallcachedgroups dir nconfig") auto
    next
      case ns: False
      show ?thesis
      proof (cases "map_of (metagroups nconfig) name")
        case None
        then show ?thesis using Cons.prems ns getgroup_metagroups [of nconfig name]
          by (cases "getgroup nconfig name") auto
      next
        case (Some ns')
        then have "(name, ns') \<in> set ms" using Cons.prems by (auto dest: map_of_SomeD)
        then have "\<forall>n \<in> set (strtok_all (CHR '','') (Some ns')). r n < r name"
          using assms unfolding ranked_def by blast
        moreover have "r name < k" using Cons.prems by simp
        ultimately show ?thesis using less.IH [of "r name" nconfig "strtok_all (CHR '','') (Some ns')"] ns Some Cons.prems
          by simp
      qed
    qed
    then obtain gs nconfig' where h: "(if name = ''*'' then Some (dogetallcachedgroups dir nconfig)
             else
               (case map_of (metagroups nconfig) name of
                  Some ns \<Rightarrow> dogetgroups_loop dir (strtok_all (CHR '','') (Some ns)) nconfig
                | None \<Rightarrow> (case getgroup nconfig name of (g, nconfig') \<Rightarrow> Some ([g], nconfig')))) =
          Some (gs, nconfig')" "metagroups nconfig' = ms" by blast
    obtain gs' nconfig'' where t: "dogetgroups_loop dir rest nconfig' = Some (gs', nconfig'')" "metagroups nconfig'' = ms"
      using Cons.IH [OF h(2)] Cons.prems by auto
    show ?case by (subst dogetgroups_loop.simps) (simp only: list.case h t bind.simps prod.case, simp add: t)
  qed
qed

lemma dogetgroups_loop_returns:
  assumes "ranked (metagroups nconfig) r"
  shows "\<exists>gs nconfig'. dogetgroups_loop dir names nconfig = Some (gs, nconfig')"
proof -
  have "\<exists>gs nconfig'. dogetgroups_loop dir names nconfig = Some (gs, nconfig') \<and>
      metagroups nconfig' = metagroups nconfig"
    by (rule dogetgroups_loop_returns_aux [OF assms refl, of names "Suc (Max (r ` set names))"])
      (auto simp: less_Suc_eq_le)
  then show ?thesis by blast
qed

lemma dogetgroups_loop_cycle:
  fixes nconfig :: nget_config
  assumes "map_of (metagroups nconfig) a = Some ns" "strtok_all (CHR '','') (Some ns) = [a]" "a \<noteq> ''*''"
  shows "dogetgroups_loop dir [a] nconfig = None"
proof -
  define P where "P = (\<lambda>(d :: string list) (names :: string list) (nconfig :: nget_config)
    (y :: group_ptr option list \<times> nget_config). \<not> (names = [a] \<and> map_of (metagroups nconfig) a = Some ns))"
  have "P d names nconfig y" if "dogetgroups_loop d names nconfig = Some y" for d names nconfig y
  proof (rule dogetgroups_loop.raw_induct [of P, OF _ that], goal_cases)
    case (1 f d names nconfig y)
    show ?case unfolding P_def
    proof
      assume c: "names = [a] \<and> map_of (metagroups nconfig) a = Some ns"
      then obtain z where "f d [a] nconfig = Some z"
        using 1(2) assms(2,3) by (auto simp: Option.bind_eq_Some_conv)
      then show False using 1(1) c unfolding P_def by blast
    qed
  qed
  then show ?thesis using assms(1) unfolding P_def by (metis not_None_eq)
qed

section \<open>Numbers with a base prefix\<close>

lemma of_digit_chr: "n < 10 \<Longrightarrow> (of_char (digit_chr n) :: nat) = 48 + n"
  by (simp add: digit_chr_def of_char_of)

lemma digit_chr_0: "n < 10 \<Longrightarrow> digit_chr n = CHR ''0'' \<Longrightarrow> n = 0"
  using of_digit_chr [of n] by simp

lemma show_nat_first: "0 < n \<Longrightarrow> hd (show_nat n) \<noteq> CHR ''0''"
proof (induction n rule: show_nat.induct)
  case (1 n)
  show ?case
  proof (cases "n < 10")
    case True
    then show ?thesis using 1(2) digit_chr_0 [OF True] by (subst show_nat.simps) auto
  next
    case False
    then have "hd (show_nat (n div 10)) \<noteq> CHR ''0''" using 1 by simp
    then show ?thesis using False by (subst show_nat.simps) (simp add: hd_append)
  qed
qed

lemma base_val_dec: "(\<And>c. c \<in> set ds \<Longrightarrow> is_digit c) \<Longrightarrow> base_val 10 ds = dec_val ds"
  unfolding base_val_def dec_val_def by (rule foldl_cong) (simp_all add: xdigit_val_def)

lemma show_nat_0: "show_nat 0 = ''0''"
  by (subst show_nat.simps) (simp add: digit_chr_def, simp add: char_of_def bit_iff_odd)

text \<open>The digits of a number in decimal are read back in base 10, and \<open>0\<close> in base 8.\<close>

lemma strtol0_digits:
  assumes "stops_digits s" "s1 = show_nat n @ s"
    "dropWhile is_space str = (if neg then CHR ''-'' # s1 else s1)" "n < 2 ^ 63"
    "\<not> (n = 0 \<and> s \<noteq> [] \<and> (hd s = CHR ''x'' \<or> hd s = CHR ''X''))"
  shows "strtol0 str = (if neg then - int n else int n, s)"
proof -
  obtain c cs where c: "show_nat n = c # cs" by (cases "show_nat n") auto
  have dc: "is_digit c" using show_nat_digits [of c n] c by simp
  then have sp: "c \<noteq> CHR ''-''" "c \<noteq> CHR ''+''" using digit_not_special by auto
  have s2: "(case dropWhile is_space str of c # cs \<Rightarrow> if c = CHR ''-'' \<or> c = CHR ''+'' then cs else dropWhile is_space str
      | [] \<Rightarrow> dropWhile is_space str) = s1"
    using assms(2,3) c sp by (cases neg) auto
  have neg: "(case dropWhile is_space str of c # _ \<Rightarrow> c = CHR ''-'' | [] \<Rightarrow> False) = neg"
    using assms(2,3) c sp by (cases neg) auto
  have tw: "takeWhile is_digit s1 = show_nat n" "dropWhile is_digit s1 = s"
    using takeWhile_digits [of "show_nat n" s, OF show_nat_digits assms(1)] assms(2) by auto
  show ?thesis
  proof (cases "n = 0")
    case False
    then have "c \<noteq> CHR ''0''" using show_nat_first [of n] c by simp
    then have nz: "(case s1 of z # x # d # _ \<Rightarrow> z = CHR ''0'' \<and> (x = CHR ''x'' \<or> x = CHR ''X'') \<and> is_xdigit d | _ \<Rightarrow> False) = False"
      "(case s1 of z # _ \<Rightarrow> z = CHR ''0'' \<and> \<not> False | [] \<Rightarrow> False) = False"
      using assms(2) c by (auto split: list.splits)
    have v: "base_val 10 (show_nat n) = n" using base_val_dec [of "show_nat n"] show_nat_digits by simp
    show ?thesis unfolding strtol0_def Let_def s2 neg nz using tw v assms(4) by simp
  next
    case True
    then have s1: "s1 = CHR ''0'' # s" using assms(2) by (simp add: show_nat_0)
    have nz: "(case s1 of z # x # d # _ \<Rightarrow> z = CHR ''0'' \<and> (x = CHR ''x'' \<or> x = CHR ''X'') \<and> is_xdigit d | _ \<Rightarrow> False) = False"
      "(case s1 of z # _ \<Rightarrow> z = CHR ''0'' \<and> \<not> False | [] \<Rightarrow> False) = True"
      using s1 assms(5) True by (auto split: list.splits)
    have "is_digit (CHR ''0'')" by (simp add: is_digit_def)
    then show ?thesis unfolding strtol0_def Let_def s2 neg nz using s1 True assms(1)
      by (cases s) (auto simp: base_val_def xdigit_val_def digit_val_def stops_digits_def)
  qed
qed

lemma strtol0_show:
  assumes "stops_digits s" "\<bar>i\<bar> < 2 ^ 63" "s = [] \<or> hd s = CHR '',''"
  shows "strtol0 (show_int i @ s) = (i, s)"
proof -
  have nsp: "dropWhile is_space (show_nat n @ s) = show_nat n @ s" for n
  proof -
    obtain c cs where c: "show_nat n = c # cs" by (cases "show_nat n") auto
    then show ?thesis using show_nat_digits [of c n] digit_not_special by simp
  qed
  show ?thesis
  proof (cases "i < 0")
    case True
    then show ?thesis
      using strtol0_digits [OF assms(1) refl, of "show_int i @ s" True "nat (- i)"] assms nsp
      by (auto simp: show_int_def is_space_def)
  next
    case False
    then show ?thesis
      using strtol0_digits [OF assms(1) refl, of "show_int i @ s" False "nat i"] assms nsp
      by (auto simp: show_int_def)
  qed
qed

lemma show_int_no_comma: "CHR '','' \<notin> set (show_int i)"
  using show_int_chars [of "CHR '',''" i] by (auto simp: is_digit_def)

lemma dropWhile_comma: "dropWhile (\<lambda>c. c \<noteq> CHR '','') (show_int i) = []"
  "dropWhile (\<lambda>c. c \<noteq> CHR '','') (show_int i @ CHR '','' # s) = CHR '','' # s"
proof -
  have "\<forall>c \<in> set (show_int i). c \<noteq> CHR '',''" using show_int_no_comma by metis
  then show "dropWhile (\<lambda>c. c \<noteq> CHR '','') (show_int i) = []"
    "dropWhile (\<lambda>c. c \<noteq> CHR '','') (show_int i @ CHR '','' # s) = CHR '','' # s"
    by (simp_all add: dropWhile_append2)
qed

section \<open>The properties\<close>

text \<open>Property C5. Penalties: with penalties enabled, after a server that was last cleared fails at the
  times \<open>ts\<close> it is refused exactly when the number of failures has reached the strikes and the
  penalty time since the last failure is not over, with the seconds left; the penalty time starts at
  the initial penalty and is multiplied for every failure beyond the strikes. Clearing the server
  lifts the penalty; with the strikes at zero or below nothing is ever refused.\<close>

theorem penalties:
  assumes "0 < penaltystrikes nconfig" "penalty_count s = 0" "ts \<noteq> []"
  shows "(let n = nat (penaltystrikes nconfig);
        left = last ts + penalty_after nconfig (length ts - n) - now
     in check_penalized nconfig now (penalize_all nconfig ts s) =
        (if n \<le> length ts \<and> 0 < left then Some left else None)) \<and>
    check_penalized nconfig now (unpenalize (penalize_all nconfig ts s)) = None \<and>
    check_penalized (nconfig\<lparr>penaltystrikes := 0\<rparr>) now s' = None"
  using penalize_all_state [OF assms(1,2), of ts] assms
  by (auto simp: check_penalized_def unpenalize_def Let_def nat_le_iff)

definition example_server :: server where
  "example_server =
     \<lparr>sv_serverid = 1, sv_alias = ''a'', sv_shortname = ''a'', sv_addr = ''news.example'', sv_user = [],
      sv_pass = [], sv_bindaddr = [], sv_fullxover = 0, sv_maxstreaming = 64, lineleniencelow = 0,
      lineleniencehigh = 0, sv_idletimeout = 300, last_penalty = 0, penalty_time = 0, penalty_count = 0\<rparr>"

theorem penalties_witness:
  "check_penalized nget_config_new 1000 (penalize_all nget_config_new [100, 500, 700, 900] example_server) = Some 260"
  using penalties [of nget_config_new example_server "[100, 500, 700, 900]" 1000, THEN conjunct1]
  by (simp add: nget_config_new_def example_server_def penalty_after_def)


lemma strtok_all_one: "CHR '','' \<notin> set s \<Longrightarrow> strtok_all (CHR '','') (Some s) = [s]"
proof -
  assume "CHR '','' \<notin> set s"
  then have "goodstrtok (Some s) (CHR '','') = (Some s, None)"
    using goodstrtok_field [of "CHR '',''" s "[]"] by simp
  then show ?thesis by (simp add: strtok_all.simps goodstrtok_def [of None])
qed


text \<open>\<open>parse_int_pair\<close> reads the decimal form of a pair of ints back in ascending order and a
  single int as the range around zero; an empty string and an empty second part
  are refused.\<close>

theorem parse_int_pair_correct:
  assumes "is_int32 l" "is_int32 h" "\<bar>n\<bar> < 2 ^ 31"
  shows "parse_int_pair (show_int l @ '','' @ show_int h) = Some (min l h, max l h) \<and>
    parse_int_pair (show_int n) = Some (- \<bar>n\<bar>, \<bar>n\<bar>) \<and>
    parse_int_pair [] = None \<and> parse_int_pair (show_int l @ '','') = None"
proof -
  have b: "\<bar>l\<bar> < 2 ^ 63" "\<bar>h\<bar> < 2 ^ 63" "\<bar>n\<bar> < 2 ^ 63" using assms by (auto simp: is_int32_def)
  have n: "is_int32 n" "is_int32 (- n)" using assms by (auto simp: is_int32_def)
  have p: "strtol0 (show_int l @ CHR '','' # show_int h) = (l, CHR '','' # show_int h)"
    "strtol0 (show_int h) = (h, [])" "strtol0 (show_int n) = (n, [])"
    using strtol0_show [of "CHR '','' # show_int h" l] strtol0_show [of "[]" h] strtol0_show [of "[]" n] b
    by (simp_all add: stops_digits_def is_digit_def)
  show ?thesis using p assms n
    by (auto simp: parse_int_pair_def dropWhile_comma int32_id min_def max_def Let_def)
qed

theorem parse_int_pair_correct_witness:
  "parse_int_pair (show_int 7 @ '','' @ show_int (- 3)) = Some (- 3, 7)"
  using parse_int_pair_correct [of 7 "- 3" 0] by (simp add: is_int32_def)

end
