(* ===== verification/Midinfo.thy ===== *)
theory Midinfo
  imports Buffy Server
begin

text \<open>
  The record of the messages already fetched (\<open>c_mid_info\<close> and \<open>meta_mid_info\<close> in \<open>cache.h\<close> and
  \<open>cache.cc\<close>): for each message id the time it was added and the time it was removed. The states are
  an ordered map from message ids; a file is its content, \<open>None\<close> when it does not exist; the clock
  is an argument. The lemmas: which of two states survives a merge, that saving and loading again
  gives back the states that are not dead, and which states expire.
\<close>

section \<open>One group\<close>

definition TIME_T_MAX :: int where
  "TIME_T_MAX = 2147483647"

definition TIME_T_MAX1 :: int where
  "TIME_T_MAX1 = TIME_T_MAX - 1"

definition TIME_T_DEAD :: int where
  "TIME_T_DEAD = TIME_T_MAX"

definition MID_INFO_MIN_KEEP :: int where
  "MID_INFO_MIN_KEEP = 14 * 24 * 60 * 60"

definition MID_INFO_MIN_KEEP_DEL :: int where
  "MID_INFO_MIN_KEEP_DEL = 7 * 24 * 60 * 60"

record message_state =
  date_added :: int
  date_removed :: int

record mid_info =
  mi_file :: string
  changed :: bool
  states :: "(string \<times> message_state) list"

definition mi_insert_full :: "mid_info \<Rightarrow> string \<Rightarrow> int \<Rightarrow> int \<Rightarrow> mid_info" where
  "mi_insert_full m mid a d =
     (let s' = \<lparr>date_added = a, date_removed = d\<rparr>
      in case map_of (states m) mid of
           Some s \<Rightarrow>
             if d = TIME_T_MAX1 \<and> date_removed s \<noteq> TIME_T_MAX1 then m
             else if date_removed s \<noteq> TIME_T_MAX1 \<and> date_removed s > d then m
             else m\<lparr>states := smap_insert (smap_erase (states m) mid) mid s'\<rparr>
         | None \<Rightarrow> m\<lparr>states := smap_insert (states m) mid s'\<rparr>)"

definition mi_check :: "mid_info \<Rightarrow> string \<Rightarrow> bool" where
  "mi_check m mid \<longleftrightarrow> map_of (states m) mid \<noteq> None"

definition mi_insert :: "int \<Rightarrow> mid_info \<Rightarrow> string \<Rightarrow> mid_info" where
  "mi_insert now m mid =
     (if mi_check m mid then m
      else m\<lparr>changed := True,
             states := smap_insert (states m) mid \<lparr>date_added = now, date_removed = TIME_T_MAX1\<rparr>\<rparr>)"

definition mi_remove :: "mid_info \<Rightarrow> string \<Rightarrow> mid_info" where
  "mi_remove m mid =
     (case map_of (states m) mid of
        None \<Rightarrow> m
      | Some s \<Rightarrow> m\<lparr>states := smap_put (states m) mid (s\<lparr>date_removed := TIME_T_DEAD\<rparr>), changed := True\<rparr>)"

definition mi_clear :: "mid_info \<Rightarrow> mid_info" where
  "mi_clear m = (if states m \<noteq> [] then m\<lparr>states := [], changed := True\<rparr> else m)"

definition mi_set_delete :: "int \<Rightarrow> mid_info \<Rightarrow> string \<Rightarrow> mid_info" where
  "mi_set_delete now m mid =
     (case map_of (states m) mid of
        None \<Rightarrow> m
      | Some s \<Rightarrow> m\<lparr>states := smap_put (states m) mid (s\<lparr>date_removed := now\<rparr>)\<rparr>)"

definition mi_expired :: "int \<Rightarrow> message_state \<Rightarrow> bool" where
  "mi_expired curtime s \<longleftrightarrow>
     (date_removed s = TIME_T_MAX1 \<and> date_added s + MID_INFO_MIN_KEEP < curtime) \<or>
     (date_added s + MID_INFO_MIN_KEEP < curtime \<and> date_removed s + MID_INFO_MIN_KEEP_DEL < curtime)"

text \<open>The loop over the states; the flag tells whether one was killed.\<close>

fun mi_do_delete_loop :: "int \<Rightarrow> mid_info \<Rightarrow> (string \<times> message_state) list \<Rightarrow> bool \<times> (string \<times> message_state) list" where
  "mi_do_delete_loop curtime rel [] = (False, [])"
| "mi_do_delete_loop curtime rel ((mid, s) # ms) =
     (case mi_do_delete_loop curtime rel ms of (c, ms') \<Rightarrow>
        if mi_check rel mid then (c, (mid, s) # ms')
        else if mi_expired curtime s then (True, (mid, s\<lparr>date_removed := TIME_T_DEAD\<rparr>) # ms')
        else (c, (mid, s) # ms'))"

definition mi_do_delete_fun :: "int \<Rightarrow> mid_info \<Rightarrow> mid_info \<Rightarrow> mid_info" where
  "mi_do_delete_fun curtime rel m =
     (case mi_do_delete_loop curtime rel (states m) of (c, ms') \<Rightarrow>
        m\<lparr>states := ms', changed := changed m \<or> c\<rparr>)"

text \<open>The lines of the file. The number counts the invalid lines, one cache warning each.\<close>

function mi_load_lines :: "string \<Rightarrow> mid_info \<Rightarrow> nat \<times> mid_info" where
  "mi_load_lines s m =
     (if s = [] then (0, m)
      else
        (case s_toks (CHR '' '') 3 True s of
           ((i, t), rest) \<Rightarrow>
             if i = 3 then mi_load_lines rest (mi_insert_full m (t ! 0) (atol (t ! 1)) (atol (t ! 2)))
             else (case mi_load_lines rest m of (w, m') \<Rightarrow> (Suc w, m'))))"
  by pat_completeness auto
termination
  by (relation "measure (length \<circ> fst)") (auto dest: s_toks_shorter [OF sym])

declare mi_load_lines.simps [simp del]

text \<open>\<open>load\<close> without \<open>merge\<close>: the name gets its extension when the configuration asks for compression.\<close>

definition mi_load :: "bool \<Rightarrow> string \<Rightarrow> (string \<Rightarrow> string option) \<Rightarrow> mid_info \<Rightarrow> nat \<times> mid_info" where
  "mi_load gz path fs m =
     (let m1 = (mi_clear m)\<lparr>changed := False\<rparr>
      in if path = [] then (0, m1)
         else
           (let file = path @ (if gz then ''.gz'' else []);
                m2 = m1\<lparr>mi_file := file\<rparr>
            in case fs file of
                 None \<Rightarrow> (0, m2)
               | Some content \<Rightarrow> (case mi_load_lines content m2 of (w, m3) \<Rightarrow> (w, m3\<lparr>changed := False\<rparr>))))"

definition mi_merge :: "(string \<Rightarrow> string option) \<Rightarrow> mid_info \<Rightarrow> nat \<times> mid_info" where
  "mi_merge fs m =
     (case fs (mi_file m) of None \<Rightarrow> (0, m) | Some content \<Rightarrow> mi_load_lines content m)"

definition mi_new :: "bool \<Rightarrow> string \<Rightarrow> (string \<Rightarrow> string option) \<Rightarrow> mid_info" where
  "mi_new gz path fs = snd (mi_load gz path fs \<lparr>mi_file = [], changed = False, states = []\<rparr>)"

definition mi_show_line :: "string \<times> message_state \<Rightarrow> string" where
  "mi_show_line p =
     (case p of (mid, s) \<Rightarrow>
        mid @ '' '' @ show_int (date_added s) @ '' '' @ show_int (date_removed s) @ [CHR 0x0A])"

definition mi_show :: "(string \<times> message_state) list \<Rightarrow> string" where
  "mi_show ms = concat (List.map mi_show_line (filter (\<lambda>(mid, s). date_removed s \<noteq> TIME_T_DEAD) ms))"

text \<open>\<open>save\<close> under the exclusive lock: merge what others have written, then replace the file. The
  states are not freed before the object is.\<close>

definition mi_save :: "(string \<Rightarrow> string option) \<Rightarrow> mid_info \<Rightarrow> mid_info \<times> (string \<Rightarrow> string option)" where
  "mi_save fs m =
     (if \<not> changed m \<or> mi_file m = [] then (m, fs)
      else (case mi_merge fs m of (w, m') \<Rightarrow> (m', fs(mi_file m \<mapsto> mi_show (states m')))))"

section \<open>All groups\<close>

type_synonym meta_mid_info = "(string \<times> mid_info) list"

definition mmi_add :: "bool \<Rightarrow> string \<Rightarrow> (string \<Rightarrow> string option) \<Rightarrow> meta_mid_info \<Rightarrow> string \<Rightarrow> meta_mid_info" where
  "mmi_add gz path fs mm grp = smap_insert mm grp (mi_new gz (path @ grp @ '',midinfo'') fs)"

definition mmi_new :: "bool \<Rightarrow> string \<Rightarrow> (string \<Rightarrow> string option) \<Rightarrow> string list \<Rightarrow> meta_mid_info" where
  "mmi_new gz path fs gs = foldl (mmi_add gz path fs) [] gs"

definition mmi_check :: "meta_mid_info \<Rightarrow> string \<Rightarrow> bool" where
  "mmi_check mm mid \<longleftrightarrow> list_ex (\<lambda>(g, m). mi_check m mid) mm"

definition mmi_remove :: "meta_mid_info \<Rightarrow> string \<Rightarrow> meta_mid_info" where
  "mmi_remove mm mid = List.map (\<lambda>(g, m). (g, mi_remove m mid)) mm"

definition mmi_set_delete :: "int \<Rightarrow> meta_mid_info \<Rightarrow> string \<Rightarrow> meta_mid_info" where
  "mmi_set_delete now mm mid = List.map (\<lambda>(g, m). (g, mi_set_delete now m mid)) mm"

definition mmi_do_delete_fun :: "int \<Rightarrow> mid_info \<Rightarrow> meta_mid_info \<Rightarrow> meta_mid_info" where
  "mmi_do_delete_fun now rel mm = List.map (\<lambda>(g, m). (g, mi_do_delete_fun now rel m)) mm"

text \<open>\<open>insert\<close> of a file: the groups are those of the articles of its first part. A group without an
  entry is a null iterator in the program and leaves the model unchanged.\<close>

definition mmi_insert_group :: "int \<Rightarrow> string \<Rightarrow> meta_mid_info \<Rightarrow> string \<Rightarrow> meta_mid_info" where
  "mmi_insert_group now mid mm g =
     (case map_of mm g of None \<Rightarrow> mm | Some m \<Rightarrow> smap_put mm g (mi_insert now m mid))"

definition mmi_insert :: "int \<Rightarrow> string \<Rightarrow> string list \<Rightarrow> meta_mid_info \<Rightarrow> meta_mid_info" where
  "mmi_insert now mid gs mm = foldl (mmi_insert_group now mid) mm gs"

section \<open>The surviving state of a merge\<close>

definition mi_ok :: "mid_info \<Rightarrow> bool" where
  "mi_ok m \<longleftrightarrow> smap_ok (states m)"

text \<open>Of our state and the other one: a known removal wins over no removal, the later removal wins, and
  between two states that are not removed the other one.\<close>

definition newer :: "message_state option \<Rightarrow> message_state \<Rightarrow> message_state" where
  "newer ours s' =
     (case ours of
        None \<Rightarrow> s'
      | Some s \<Rightarrow>
          if date_removed s \<noteq> TIME_T_MAX1 \<and> (date_removed s' = TIME_T_MAX1 \<or> date_removed s > date_removed s')
          then s else s')"

lemma mi_insert_full_state:
  assumes "mi_ok m"
  shows "mi_ok (mi_insert_full m mid a d) \<and>
    map_of (states (mi_insert_full m mid a d)) =
      (map_of (states m))(mid \<mapsto> newer (map_of (states m) mid) \<lparr>date_added = a, date_removed = d\<rparr>) \<and>
    changed (mi_insert_full m mid a d) = changed m \<and> mi_file (mi_insert_full m mid a d) = mi_file m"
  using assms
  by (auto simp: mi_insert_full_def Let_def mi_ok_def newer_def map_of_smap_insert map_of_smap_erase
      smap_ok_insert smap_ok_erase fun_eq_iff split: option.splits)

lemma mi_insert_state:
  assumes "mi_ok m"
  shows "mi_ok (mi_insert now m mid) \<and>
    map_of (states (mi_insert now m mid)) =
      (case map_of (states m) mid of
         Some _ \<Rightarrow> map_of (states m)
       | None \<Rightarrow> (map_of (states m))(mid \<mapsto> \<lparr>date_added = now, date_removed = TIME_T_MAX1\<rparr>))"
  using assms
  by (auto simp: mi_insert_def mi_check_def mi_ok_def map_of_smap_insert smap_ok_insert split: option.splits)

lemma mi_remove_state:
  assumes "mi_ok m"
  shows "mi_ok (mi_remove m mid) \<and>
    map_of (states (mi_remove m mid)) mid = map_option (\<lambda>s. s\<lparr>date_removed := TIME_T_DEAD\<rparr>) (map_of (states m) mid) \<and>
    (\<forall>k. k \<noteq> mid \<longrightarrow> map_of (states (mi_remove m mid)) k = map_of (states m) k)"
  using assms
  by (auto simp: mi_remove_def mi_ok_def map_of_smap_put smap_ok_put split: option.splits)

lemma mi_set_delete_state:
  assumes "mi_ok m"
  shows "mi_ok (mi_set_delete now m mid) \<and>
    map_of (states (mi_set_delete now m mid)) mid = map_option (\<lambda>s. s\<lparr>date_removed := now\<rparr>) (map_of (states m) mid) \<and>
    (\<forall>k. k \<noteq> mid \<longrightarrow> map_of (states (mi_set_delete now m mid)) k = map_of (states m) k) \<and>
    changed (mi_set_delete now m mid) = changed m"
  using assms
  by (auto simp: mi_set_delete_def mi_ok_def map_of_smap_put smap_ok_put split: option.splits)

lemma mi_do_delete_loop_keys:
  "List.map fst (snd (mi_do_delete_loop now rel ms)) = List.map fst ms"
  by (induction now rel ms rule: mi_do_delete_loop.induct) (auto split: prod.splits)

lemma mi_do_delete_loop_state:
  "map_of (snd (mi_do_delete_loop now rel ms)) k =
     map_option (\<lambda>s. if \<not> mi_check rel k \<and> mi_expired now s then s\<lparr>date_removed := TIME_T_DEAD\<rparr> else s) (map_of ms k)"
  by (induction now rel ms rule: mi_do_delete_loop.induct) (auto split: prod.splits)

lemma mi_do_delete_fun_state:
  "(mi_ok m \<longrightarrow> mi_ok (mi_do_delete_fun now rel m)) \<and>
   map_of (states (mi_do_delete_fun now rel m)) k =
     map_option (\<lambda>s. if \<not> mi_check rel k \<and> mi_expired now s then s\<lparr>date_removed := TIME_T_DEAD\<rparr> else s)
       (map_of (states m) k)"
  using mi_do_delete_loop_keys [of now rel "states m"] mi_do_delete_loop_state [of now rel "states m" k]
  by (cases "mi_do_delete_loop now rel (states m)") (simp add: mi_do_delete_fun_def mi_ok_def smap_ok_def)

section \<open>Saving and loading\<close>

definition mid_ok :: "string \<Rightarrow> bool" where
  "mid_ok mid \<longleftrightarrow> field_ok (CHR '' '') mid"

definition time_ok :: "message_state \<Rightarrow> bool" where
  "time_ok s \<longleftrightarrow> - (2 ^ 63) \<le> date_added s \<and> date_added s < 2 ^ 63 \<and>
     - (2 ^ 63) \<le> date_removed s \<and> date_removed s < 2 ^ 63"

definition mi_storable :: "mid_info \<Rightarrow> bool" where
  "mi_storable m \<longleftrightarrow> (\<forall>(mid, s) \<in> set (states m). mid_ok mid \<and> time_ok s)"

lemma field_ok_show_int: "field_ok (CHR '' '') (show_int i)" "field_ok (CHR 0x09) (show_int i)"
  using show_int_chars [of _ i] by (fastforce simp: field_ok_def is_digit_def)+

lemma mi_load_line:
  assumes "mid_ok mid" "time_ok s"
  shows "mi_load_lines (mi_show_line (mid, s) @ rest) m =
    mi_load_lines rest (mi_insert_full m mid (date_added s) (date_removed s))"
proof -
  have line: "mi_show_line (mid, s) =
      fields_line (CHR '' '') mid [show_int (date_added s), show_int (date_removed s)]"
    by (simp add: mi_show_line_def fields_line_def)
  have "s_toks (CHR '' '') 3 True (mi_show_line (mid, s) @ rest) =
      ((3, [mid, show_int (date_added s), show_int (date_removed s)]), rest)"
    unfolding line using assms(1) field_ok_show_int
    by (subst s_toks_fields) (simp_all add: mid_ok_def)
  moreover have "atol (show_int (date_added s)) = date_added s" "atol (show_int (date_removed s)) = date_removed s"
    using assms(2) by (simp_all add: time_ok_def atol_show)
  moreover have "mi_show_line (mid, s) @ rest \<noteq> []" by (simp add: mi_show_line_def)
  ultimately show ?thesis by (subst mi_load_lines.simps) (simp only: prod.case if_False if_True, simp)
qed

text \<open>Loading a list of states is merging them one by one.\<close>

lemma mi_load_show:
  "\<forall>(mid, s) \<in> set ms. mid_ok mid \<and> time_ok s \<Longrightarrow>
     mi_load_lines (mi_show ms) m =
       (0, foldl (\<lambda>m (mid, s). mi_insert_full m mid (date_added s) (date_removed s)) m
             (filter (\<lambda>(mid, s). date_removed s \<noteq> TIME_T_DEAD) ms))"
proof (induction ms arbitrary: m)
  case Nil
  then show ?case by (simp add: mi_show_def mi_load_lines.simps [of "[]"])
next
  case (Cons p ms)
  obtain mid s where p: "p = (mid, s)" by (cases p)
  have IH: "mi_load_lines (mi_show ms) m' = (0, foldl (\<lambda>m (mid, s). mi_insert_full m mid (date_added s) (date_removed s)) m'
             (filter (\<lambda>(mid, s). date_removed s \<noteq> TIME_T_DEAD) ms))" for m'
    using Cons by auto
  show ?case
  proof (cases "date_removed s = TIME_T_DEAD")
    case True
    then show ?thesis using IH [of m] by (simp add: p mi_show_def)
  next
    case False
    then have "mi_show (p # ms) = mi_show_line (mid, s) @ mi_show ms" by (simp add: p mi_show_def)
    then show ?thesis using mi_load_line [of mid s "mi_show ms" m] Cons.prems IH False by (simp add: p)
  qed
qed

lemma merge_all_state:
  assumes "mi_ok m" "distinct (List.map fst ms)"
  defines "m' \<equiv> foldl (\<lambda>m (mid, s). mi_insert_full m mid (date_added s) (date_removed s)) m ms"
  shows "mi_ok m' \<and> map_of (states m') k =
    (case map_of ms k of Some s \<Rightarrow> Some (newer (map_of (states m) k) s) | None \<Rightarrow> map_of (states m) k)"
  using assms(1,2) unfolding m'_def
proof (induction ms arbitrary: m)
  case (Cons p ms)
  obtain mid s where p: "p = (mid, s)" by (cases p)
  let ?m = "mi_insert_full m mid (date_added s) (date_removed s)"
  have f: "mi_ok ?m" "map_of (states ?m) = (map_of (states m))(mid \<mapsto> newer (map_of (states m) mid) s)"
    using mi_insert_full_state [OF Cons.prems(1), of mid "date_added s" "date_removed s"] by (cases s, simp)+
  have "map_of ms mid = None" using Cons.prems(2) p by (auto simp: map_of_eq_None_iff)
  then show ?case using Cons.IH [OF f(1)] Cons.prems(2) f(2) by (auto simp: p split: option.splits)
qed simp

lemma smap_ok_filter: "smap_ok ms \<Longrightarrow> smap_ok (filter P ms)"
  by (auto simp: smap_ok_def sorted_wrt_map intro: sorted_wrt_filter)

lemma smap_ok_map_of_filter:
  assumes "smap_ok ms"
  shows "map_of (filter (\<lambda>(k, s). P s) ms) k =
    (case map_of ms k of Some s \<Rightarrow> if P s then Some s else None | None \<Rightarrow> None)"
  using assms
proof (induction ms)
  case (Cons p ms)
  obtain k' s where p: "p = (k', s)" by (cases p)
  have "map_of ms k' = None" using Cons.prems by (auto simp: p smap_ok_Cons map_of_eq_None_iff)
  then show ?case using Cons by (auto simp: p smap_ok_Cons)
qed simp

lemma midinfo_merge_state:
  assumes "mi_ok m" "mi_ok other" "mi_storable other" "fs (mi_file m) = Some (mi_show (states other))"
  shows "fst (mi_merge fs m) = 0 \<and> mi_ok (snd (mi_merge fs m)) \<and>
    map_of (states (snd (mi_merge fs m))) k =
      (case map_of (states other) k of
         Some s \<Rightarrow> if date_removed s \<noteq> TIME_T_DEAD then Some (newer (map_of (states m) k) s)
                   else map_of (states m) k
       | None \<Rightarrow> map_of (states m) k)"
proof -
  let ?live = "filter (\<lambda>(mid, s). date_removed s \<noteq> TIME_T_DEAD) (states other)"
  have "mi_merge fs m = (0, foldl (\<lambda>m (mid, s). mi_insert_full m mid (date_added s) (date_removed s)) m ?live)"
    using mi_load_show [of "states other" m] assms(3,4) by (simp add: mi_merge_def mi_storable_def)
  moreover have "distinct (List.map fst ?live)"
    by (rule smap_ok_distinct, rule smap_ok_filter) (use assms(2) in \<open>simp add: mi_ok_def\<close>)
  ultimately show ?thesis
    using merge_all_state [OF assms(1), of ?live k]
      smap_ok_map_of_filter [of "states other" "\<lambda>s. date_removed s \<noteq> TIME_T_DEAD" k] assms(2)
    by (auto simp: mi_ok_def split: option.splits)
qed

section \<open>The properties\<close>

text \<open>Property C7. Loading the file another process has saved merges it into the states: a message known
  to one side only keeps its state, and of two states the surviving one is that of \<open>newer\<close>. Dead
  messages are not in the file.\<close>

theorem midinfo_merge:
  assumes "mi_ok m" "mi_ok other" "mi_storable other" "fs (mi_file m) = Some (mi_show (states other))"
  shows "fst (mi_merge fs m) = 0 \<and> mi_ok (snd (mi_merge fs m)) \<and>
    map_of (states (snd (mi_merge fs m))) k =
      (case map_of (states other) k of
         Some s \<Rightarrow> if date_removed s \<noteq> TIME_T_DEAD then Some (newer (map_of (states m) k) s)
                   else map_of (states m) k
       | None \<Rightarrow> map_of (states m) k)"
  using assms by (rule midinfo_merge_state)

definition example_mid_info :: "string \<Rightarrow> int \<Rightarrow> mid_info" where
  "example_mid_info mid t = \<lparr>mi_file = ''f'', changed = True, states = [(mid, \<lparr>date_added = 5, date_removed = t\<rparr>)]\<rparr>"

lemma example_mid_info_ok:
  "field_ok (CHR '' '') mid \<Longrightarrow> - 1000 < t \<Longrightarrow> t < 1000 \<Longrightarrow>
     mi_ok (example_mid_info mid t) \<and> mi_storable (example_mid_info mid t)"
  by (simp add: example_mid_info_def mi_ok_def smap_ok_def mi_storable_def mid_ok_def time_ok_def)

theorem midinfo_merge_witness:
  "map_of (states (snd (mi_merge (\<lambda>f. Some (mi_show (states (example_mid_info ''<b>'' 30))))
     (example_mid_info ''<b>'' 20)))) ''<b>'' = Some \<lparr>date_added = 5, date_removed = 30\<rparr>"
  using midinfo_merge [of "example_mid_info ''<b>'' 20" "example_mid_info ''<b>'' 30"
      "\<lambda>f. Some (mi_show (states (example_mid_info ''<b>'' 30)))" "''<b>''"] example_mid_info_ok
  by (simp add: example_mid_info_def newer_def TIME_T_DEAD_def TIME_T_MAX_def TIME_T_MAX1_def)

text \<open>Saving changed states to a file that does not exist and loading it again gives every
  message that is not dead its state back, no other message and no warning; unchanged states are not
  written.\<close>

theorem midinfo_save_load:
  assumes "mi_ok m" "mi_storable m" "changed m" "mi_file m \<noteq> []" "fs (mi_file m) = None"
  shows "(let fs' = snd (mi_save fs m); r = mi_load False (mi_file m) fs' m0
     in fst r = 0 \<and> mi_ok (snd r) \<and> changed (snd r) = False \<and>
        map_of (states (snd r)) k =
          (case map_of (states m) k of
             Some s \<Rightarrow> if date_removed s \<noteq> TIME_T_DEAD then Some s else None | None \<Rightarrow> None)) \<and>
    mi_save fs (m\<lparr>changed := False\<rparr>) = (m\<lparr>changed := False\<rparr>, fs)"
proof -
  let ?m = "(mi_clear m0)\<lparr>changed := False, mi_file := mi_file m\<rparr>"
  have e: "states ?m = []" by (simp add: mi_clear_def)
  then have ok: "mi_ok ?m" by (simp add: mi_ok_def)
  have s: "snd (mi_save fs m) = fs(mi_file m \<mapsto> mi_show (states m))"
    using assms by (simp add: mi_save_def mi_merge_def)
  have mg: "mi_merge (snd (mi_save fs m)) ?m = mi_load_lines (mi_show (states m)) ?m"
    by (simp add: s mi_merge_def)
  have l: "mi_load False (mi_file m) (snd (mi_save fs m)) m0 =
      (case mi_load_lines (mi_show (states m)) ?m of (w, m3) \<Rightarrow> (w, m3\<lparr>changed := False\<rparr>))"
    using assms(4) by (simp add: mi_load_def s)
  have "fst (mi_load_lines (mi_show (states m)) ?m) = 0 \<and> mi_ok (snd (mi_load_lines (mi_show (states m)) ?m)) \<and>
      map_of (states (snd (mi_load_lines (mi_show (states m)) ?m))) k =
      (case map_of (states m) k of
         Some s \<Rightarrow> if date_removed s \<noteq> TIME_T_DEAD then Some s else None | None \<Rightarrow> None)"
    using midinfo_merge_state [of ?m m "snd (mi_save fs m)" k] ok assms(1,2) e mg s
    by (auto simp: newer_def split: option.splits)
  moreover have "mi_save fs (m\<lparr>changed := False\<rparr>) = (m\<lparr>changed := False\<rparr>, fs)" by (simp add: mi_save_def)
  ultimately show ?thesis unfolding Let_def l
    by (cases "mi_load_lines (mi_show (states m)) ?m") (simp add: mi_ok_def)
qed

theorem midinfo_save_load_witness:
  "map_of (states (snd (mi_load False ''f'' (snd (mi_save (\<lambda>_. None) (example_mid_info ''<b>'' 20)))
     (example_mid_info ''<c>'' 1)))) ''<b>'' = Some \<lparr>date_added = 5, date_removed = 20\<rparr>"
  using midinfo_save_load [of "example_mid_info ''<b>'' 20" "\<lambda>_. None" "example_mid_info ''<c>'' 1" "''<b>''"]
    example_mid_info_ok [of "''<b>''" 20]
  by (simp add: example_mid_info_def Let_def TIME_T_DEAD_def TIME_T_MAX_def)

text \<open>Removal and expiry: \<open>remove\<close> marks a known message dead, \<open>set_delete\<close> gives it the time
  of its removal but leaves the record unchanged as far as saving is concerned; \<open>do_delete_fun\<close> kills
  exactly the messages that are not related and have been kept long enough, and forgets none.\<close>

theorem midinfo_expiry:
  assumes "mi_ok m"
  shows "map_of (states (mi_remove m mid)) mid = map_option (date_removed_update (\<lambda>_. TIME_T_DEAD)) (map_of (states m) mid) \<and>
    map_of (states (mi_set_delete now m mid)) mid = map_option (date_removed_update (\<lambda>_. now)) (map_of (states m) mid) \<and>
    mi_save fs (mi_set_delete now (m\<lparr>changed := False\<rparr>) mid) = (mi_set_delete now (m\<lparr>changed := False\<rparr>) mid, fs) \<and>
    mi_ok (mi_do_delete_fun now rel m) \<and>
    map_of (states (mi_do_delete_fun now rel m)) mid =
      map_option (\<lambda>s. if map_of (states rel) mid = None \<and> mi_expired now s then s\<lparr>date_removed := TIME_T_DEAD\<rparr> else s)
        (map_of (states m) mid)"
  using mi_remove_state [OF assms, of mid] mi_set_delete_state [OF assms, of now mid]
    mi_do_delete_fun_state [of m now rel mid] mi_set_delete_state [of "m\<lparr>changed := False\<rparr>" now mid] assms
  by (simp add: mi_check_def mi_save_def mi_ok_def)

theorem midinfo_expiry_witness:
  "map_of (states (mi_do_delete_fun 2000000 (example_mid_info ''<x>'' 0) (example_mid_info ''<b>'' 20))) ''<b>'' =
     Some \<lparr>date_added = 5, date_removed = TIME_T_DEAD\<rparr>"
  using midinfo_expiry [of "example_mid_info ''<b>'' 20" "''<b>''" 2000000 "\<lambda>_. None" "example_mid_info ''<x>'' 0"]
    example_mid_info_ok [of "''<b>''" 20]
  by (simp add: example_mid_info_def mi_expired_def MID_INFO_MIN_KEEP_def MID_INFO_MIN_KEEP_DEL_def)

end
