(* ===== verification/Article.thy ===== *)
theory Article
  imports Server
begin

text \<open>
  Articles, parts and files of the header cache (\<open>cache.h\<close>, \<open>cache.cc\<close>): the key of a file and its
  order, a header with the multipart subject it is made from, the articles of a part on the servers,
  the vector of parts with its binary search, and the operations of a file. The articles and parts
  own their memory, so values stand for the pointers. The lemmas: the order of the keys is linear,
  the binary search finds the lower bound, the parts stay sorted and distinct, \<open>have\<close> counts the
  wanted parts, and the subject of a multipart article is taken apart as written.
\<close>

section \<open>The key of a file\<close>

datatype file_base =
  File_base (fb_req: int) (fb_partoff: int) (fb_author: string) (fb_subject: string) (fb_references: "string list")

text \<open>\<open>operator<\<close>, comparison by comparison.\<close>

definition file_base_less :: "file_base \<Rightarrow> file_base \<Rightarrow> bool" where
  "file_base_less a b =
     (if fb_req a < fb_req b then True
      else if fb_req a > fb_req b then False
      else if fb_partoff a < fb_partoff b then True
      else if fb_partoff a > fb_partoff b then False
      else if fb_author a < fb_author b then True
      else if fb_author a > fb_author b then False
      else if fb_subject a < fb_subject b then True
      else if fb_subject a > fb_subject b then False
      else if fb_references a < fb_references b then True
      else False)"

definition file_base_eq :: "file_base \<Rightarrow> file_base \<Rightarrow> bool" where
  "file_base_eq a b \<longleftrightarrow>
     fb_req a = fb_req b \<and> fb_partoff a = fb_partoff b \<and> fb_author a = fb_author b \<and>
     fb_subject a = fb_subject b \<and> fb_references a = fb_references b"

instantiation file_base :: linorder
begin

definition less_file_base :: "file_base \<Rightarrow> file_base \<Rightarrow> bool" where
  "less_file_base a b \<longleftrightarrow> file_base_less a b"

definition less_eq_file_base :: "file_base \<Rightarrow> file_base \<Rightarrow> bool" where
  "less_eq_file_base a b \<longleftrightarrow> a = b \<or> file_base_less a b"

instance
proof
  fix x y z :: file_base
  show "x < y \<longleftrightarrow> x \<le> y \<and> \<not> y \<le> x"
    by (auto simp: less_file_base_def less_eq_file_base_def file_base_less_def split: if_splits)
  show "x \<le> x" by (simp add: less_eq_file_base_def)
  show "x \<le> y \<Longrightarrow> y \<le> z \<Longrightarrow> x \<le> z"
    by (auto simp: less_eq_file_base_def file_base_less_def split: if_splits)
  show "x \<le> y \<Longrightarrow> y \<le> x \<Longrightarrow> x = y"
    by (auto simp: less_eq_file_base_def file_base_less_def split: if_splits)
  show "x \<le> y \<or> y \<le> x"
    by (cases x; cases y) (auto simp: less_eq_file_base_def file_base_less_def)
qed

end

section \<open>Headers\<close>

definition count_partnum :: "int \<Rightarrow> int \<Rightarrow> bool" where
  "count_partnum partnum req = (if req > 0 then partnum > 0 \<and> partnum \<le> req else partnum = req)"

record header =
  h_base :: file_base
  h_serverid :: ulong
  h_group :: group_ptr
  h_partnum :: int
  h_tailoff :: int
  h_articlenum :: ulong
  h_date :: int
  h_bytes :: ulong
  h_lines :: ulong
  h_messageid :: string

text \<open>\<open>strtol(p, &erp, 10)\<close> into an int, with the character at \<open>erp\<close>, the terminating NUL at the end;
  \<open>None\<close> when nothing is converted (\<open>erp == p\<close>).\<close>

definition strtol_at :: "string \<Rightarrow> (int \<times> char) option" where
  "strtol_at p =
     (case scan_num p of
        None \<Rightarrow> None
      | Some _ \<Rightarrow> (case strtol10 p of (v, erp) \<Rightarrow> Some (int32 v, case erp of [] \<Rightarrow> CHR 0x00 | c # _ \<Rightarrow> c)))"

text \<open>The position of the first character of \<open>cs\<close> at or after \<open>i\<close>, and of the last \<open>m\<close> at or before \<open>k\<close>
  but after the start.\<close>

fun strpbrk_from :: "string \<Rightarrow> string \<Rightarrow> nat \<Rightarrow> nat option" where
  "strpbrk_from [] cs i = None"
| "strpbrk_from (c # s) cs i = (if c \<in> set cs then Some i else strpbrk_from s cs (Suc i))"

fun find_back :: "string \<Rightarrow> char \<Rightarrow> nat \<Rightarrow> nat option" where
  "find_back str m 0 = None"
| "find_back str m (Suc k) = (if str ! Suc k = m then Some (Suc k) else find_back str m k)"

text \<open>\<open>parsepnum\<close> at the slash at position \<open>soff\<close>: the number of parts with the part number, the part
  offset and the tail offset, \<open>None\<close> for \<open>-1\<close>. What a failed call leaves in the fields is overwritten
  before it is read.\<close>

definition parsepnum :: "string \<Rightarrow> nat \<Rightarrow> (int \<times> int \<times> nat \<times> nat) option" where
  "parsepnum str soff =
     (case strpbrk_from (drop (Suc soff) str) '')]'' (Suc soff) of
        None \<Rightarrow> None
      | Some t \<Rightarrow>
          (let m2 = str ! t; m = (if m2 = CHR '')'' then CHR ''('' else CHR ''['')
           in case find_back str m soff of
                None \<Rightarrow> None
              | Some p \<Rightarrow>
                  (case strtol_at (drop (Suc p) str) of
                     None \<Rightarrow> None
                   | Some (partnum, e1) \<Rightarrow>
                       if e1 \<noteq> CHR ''/'' then None
                       else
                         (case strtol_at (drop (Suc soff) str) of
                            None \<Rightarrow> None
                          | Some (req, e2) \<Rightarrow>
                              if e2 \<noteq> m2 then None
                              else if partnum > req then None
                              else Some (if partnum = 0 then 0 else req, partnum, Suc p, t)))))"

text \<open>The loop of \<open>set\<close> from the third character from the end down to the second character.\<close>

fun header_scan :: "string \<Rightarrow> nat \<Rightarrow> (int \<times> int \<times> nat \<times> nat \<times> nat) option" where
  "header_scan str 0 = None"
| "header_scan str (Suc k) =
     (if str ! Suc k = CHR ''/'' then
        (case parsepnum str (Suc k) of
           Some (req, partnum, partoff, tailoff) \<Rightarrow>
             if req \<ge> 0 then Some (req, partnum, partoff, tailoff, Suc k) else header_scan str k
         | None \<Rightarrow> header_scan str k)
      else header_scan str k)"

definition header_set :: "header \<Rightarrow> string \<Rightarrow> string \<Rightarrow> ulong \<Rightarrow> int \<Rightarrow> ulong \<Rightarrow> ulong \<Rightarrow> string \<Rightarrow> string option \<Rightarrow> header" where
  "header_set h str a anum d b l mid refstr =
     (let refs = (case refstr of None \<Rightarrow> [] | Some r \<Rightarrow> if r = [] then [] else strtok_all (CHR '' '') (Some r));
          h' = h\<lparr>h_articlenum := anum, h_date := d, h_bytes := b, h_lines := l, h_messageid := mid\<rparr>
      in case header_scan str (length str - 3) of
           None \<Rightarrow> h'\<lparr>h_base := File_base 0 (- 1) a str refs, h_tailoff := - 1, h_partnum := - 1\<rparr>
         | Some (req, partnum, partoff, tailoff, s) \<Rightarrow>
             h'\<lparr>h_base := File_base req (int partoff) a
                  (if req = 0 then str else take partoff str @ ''*'' @ drop s str) refs,
                h_tailoff := int tailoff, h_partnum := partnum\<rparr>)"

section \<open>Parts and their articles\<close>

record server_article =
  sa_serverid :: ulong
  sa_group :: group_ptr
  sa_articlenum :: ulong
  sa_bytes :: ulong
  sa_lines :: ulong

record part =
  partnum :: int
  articles :: "server_article list"
  p_date :: int
  p_messageid :: string

definition article_of :: "header \<Rightarrow> server_article" where
  "article_of h =
     \<lparr>sa_serverid = h_serverid h, sa_group = h_group h, sa_articlenum = h_articlenum h,
      sa_bytes = h_bytes h, sa_lines = h_lines h\<rparr>"

definition addserverarticle :: "header \<Rightarrow> part \<Rightarrow> part" where
  "addserverarticle h p = p\<lparr>articles := articles p @ [article_of h]\<rparr>"

definition part_new :: "int \<Rightarrow> int \<Rightarrow> string \<Rightarrow> part" where
  "part_new pn d mid = \<lparr>partnum = pn, articles = [], p_date = d, p_messageid = mid\<rparr>"

definition part_of :: "header \<Rightarrow> part" where
  "part_of h = addserverarticle h (part_new (h_partnum h) (h_date h) (h_messageid h))"

text \<open>The article on the server trusted most for its sizes, the first one of them; none beats the
  starting priority of -10000 in the model when there is no server left for any article.\<close>

definition best_sa_server ::
  "prio_grouping \<Rightarrow> server_article \<Rightarrow> server_article option \<times> rat \<Rightarrow> server_ptr \<Rightarrow> server_article option \<times> rat" where
  "best_sa_server trust sa best srv =
     (let f = getserverpriority trust srv in if f > snd best then (Some sa, f) else best)"

definition get_best_sa :: "nget_config \<Rightarrow> prio_grouping \<Rightarrow> part \<Rightarrow> server_article option" where
  "get_best_sa nconfig trust p =
     fst (foldl (\<lambda>best sa. foldl (best_sa_server trust sa) best (getservers nconfig (sa_serverid sa)))
       (None, - 10000) (articles p))"

text \<open>The null pointer is read as zero sizes.\<close>

definition part_bytes :: "nget_config \<Rightarrow> prio_grouping \<Rightarrow> part \<Rightarrow> ulong" where
  "part_bytes nconfig trust p = (case get_best_sa nconfig trust p of None \<Rightarrow> 0 | Some sa \<Rightarrow> sa_bytes sa)"

definition part_lines :: "nget_config \<Rightarrow> prio_grouping \<Rightarrow> part \<Rightarrow> ulong" where
  "part_lines nconfig trust p = (case get_best_sa nconfig trust p of None \<Rightarrow> 0 | Some sa \<Rightarrow> sa_lines sa)"

section \<open>The vector of parts\<close>

function lb_loop :: "part list \<Rightarrow> int \<Rightarrow> nat \<Rightarrow> nat \<Rightarrow> nat" where
  "lb_loop ps pn first len =
     (if len > 0 then
        (let half = len div 2; middle = first + half
         in if partnum (ps ! middle) < pn then lb_loop ps pn (Suc middle) (len - half - 1)
            else lb_loop ps pn first half)
      else first)"
  by pat_completeness auto
termination by (relation "measure (\<lambda>(ps, pn, first, len). len)") auto

declare lb_loop.simps [simp del]

definition parts_lower_bound :: "part list \<Rightarrow> int \<Rightarrow> nat" where
  "parts_lower_bound ps pn = lb_loop ps pn 0 (length ps)"

definition haspart :: "part list \<Rightarrow> int \<Rightarrow> bool" where
  "haspart ps pn = (let i = parts_lower_bound ps pn in i \<noteq> length ps \<and> partnum (ps ! i) = pn)"

definition parts_part :: "part list \<Rightarrow> int \<Rightarrow> part option" where
  "parts_part ps pn =
     (let i = parts_lower_bound ps pn
      in if i \<noteq> length ps \<and> partnum (ps ! i) = pn then Some (ps ! i) else None)"

definition parts_add :: "part list \<Rightarrow> part \<Rightarrow> part list" where
  "parts_add ps p = (let i = parts_lower_bound ps (partnum p) in take i ps @ p # drop i ps)"

definition removepart :: "part list \<Rightarrow> int \<Rightarrow> part list" where
  "removepart ps pn =
     (let i = parts_lower_bound ps pn
      in if i \<noteq> length ps \<and> partnum (ps ! i) = pn then take i ps @ drop (Suc i) ps else ps)"

text \<open>A part reached through its pointer is updated in place.\<close>

definition parts_modify :: "part list \<Rightarrow> int \<Rightarrow> (part \<Rightarrow> part) \<Rightarrow> part list" where
  "parts_modify ps pn f = List.map (\<lambda>p. if partnum p = pn then f p else p) ps"

section \<open>Files\<close>

record nntp_file =
  nf_base :: file_base
  parts :: "part list"
  have_count :: int
  flags :: ulong
  nf_tailoff :: int
  update_time :: int

definition file_new :: "int \<Rightarrow> ulong \<Rightarrow> string \<Rightarrow> string \<Rightarrow> int \<Rightarrow> int \<Rightarrow> int \<Rightarrow> nntp_file" where
  "file_new r f s a po to ud =
     \<lparr>nf_base = File_base r po a s [], parts = [], have_count = 0, flags = f, nf_tailoff = to, update_time = ud\<rparr>"

definition file_of :: "header \<Rightarrow> nntp_file" where
  "file_of h =
     \<lparr>nf_base = h_base h, parts = [], have_count = 0, flags = 0, nf_tailoff = h_tailoff h, update_time = 0\<rparr>"

definition addpart :: "part \<Rightarrow> nntp_file \<Rightarrow> nntp_file" where
  "addpart p f =
     f\<lparr>parts := parts_add (parts f) p,
       have_count := have_count f + (if count_partnum (partnum p) (fb_req (nf_base f)) then 1 else 0)\<rparr>"

definition addnewpart :: "int \<Rightarrow> part \<Rightarrow> nntp_file \<Rightarrow> nntp_file" where
  "addnewpart now p f = addpart p (f\<lparr>update_time := now\<rparr>)"

text \<open>\<open>mergefile\<close>: the parts that are taken over leave the other file.\<close>

definition merge_part :: "part \<Rightarrow> nntp_file \<Rightarrow> nntp_file" where
  "merge_part p f =
     (let f1 = (case parts_part (parts f) (partnum p) of
                  None \<Rightarrow> addpart (part_new (partnum p) (p_date p) (p_messageid p)) f
                | Some _ \<Rightarrow> f)
      in f1\<lparr>parts := parts_modify (parts f1) (partnum p) (\<lambda>mp. mp\<lparr>articles := articles mp @ articles p\<rparr>)\<rparr>)"

fun merge_parts :: "part list \<Rightarrow> nntp_file \<Rightarrow> nntp_file \<times> part list" where
  "merge_parts [] f = (f, [])"
| "merge_parts (p # ps) f =
     (if (\<exists>mp. parts_part (parts f) (partnum p) = Some mp \<and> p_messageid mp \<noteq> p_messageid p)
      then (case merge_parts ps f of (f', rest) \<Rightarrow> (f', p # rest))
      else merge_parts ps (merge_part p f))"

definition mergefile :: "nntp_file \<Rightarrow> nntp_file \<Rightarrow> nntp_file \<times> nntp_file" where
  "mergefile f g =
     (case merge_parts (parts g) (f\<lparr>update_time := max (update_time f) (update_time g)\<rparr>) of
        (f', rest) \<Rightarrow> (f', g\<lparr>parts := rest\<rparr>))"

text \<open>\<open>get_server_have_map\<close>: each server counts once per part.\<close>

fun have_articles :: "int \<Rightarrow> int \<Rightarrow> server_article list \<Rightarrow> ulong set \<Rightarrow> (ulong \<times> int) list \<Rightarrow> (ulong \<times> int) list" where
  "have_articles pn req [] found hm = hm"
| "have_articles pn req (sa # sas) found hm =
     (if sa_serverid sa \<in> found then have_articles pn req sas found hm
      else
        (let hm1 = smap_insert hm (sa_serverid sa) 0;
             hm2 = (if count_partnum pn req then smap_put hm1 (sa_serverid sa) (the (map_of hm1 (sa_serverid sa)) + 1)
                    else hm1)
         in have_articles pn req sas (insert (sa_serverid sa) found) hm2))"

definition get_server_have_map :: "nntp_file \<Rightarrow> (ulong \<times> int) list \<Rightarrow> (ulong \<times> int) list" where
  "get_server_have_map f hm =
     foldl (\<lambda>hm p. have_articles (partnum p) (fb_req (nf_base f)) (articles p) {} hm) hm (parts f)"

definition file_bytes :: "nget_config \<Rightarrow> prio_grouping \<Rightarrow> nntp_file \<Rightarrow> ulong" where
  "file_bytes nconfig trust f = sum_list (List.map (part_bytes nconfig trust) (parts f))"

definition file_lines :: "nget_config \<Rightarrow> prio_grouping \<Rightarrow> nntp_file \<Rightarrow> ulong" where
  "file_lines nconfig trust f = sum_list (List.map (part_lines nconfig trust) (parts f))"

definition is_a_reply :: "nntp_file \<Rightarrow> bool" where
  "is_a_reply f =
     (let s = fb_subject (nf_base f)
      in fb_references (nf_base f) \<noteq> [] \<or>
         (length s \<ge> 4 \<and> to_lower (s ! 0) = CHR ''r'' \<and> to_lower (s ! 1) = CHR ''e'' \<and>
          s ! 2 = CHR '':'' \<and> s ! 3 = CHR '' ''))"

definition maybe_a_textreply :: "nget_config \<Rightarrow> prio_grouping \<Rightarrow> nntp_file \<Rightarrow> bool" where
  "maybe_a_textreply nconfig trust f \<longleftrightarrow>
     have_count f \<le> 1 \<and> is_a_reply f \<and> file_lines nconfig trust f < 1000"

definition maybe_a_zerofile :: "nntp_file \<Rightarrow> bool" where
  "maybe_a_zerofile f \<longleftrightarrow> fb_req (nf_base f) = 0 \<and> fb_partoff (nf_base f) \<ge> 0 \<and> have_count f = 1"

definition maybe_a_textpost :: "nget_config \<Rightarrow> prio_grouping \<Rightarrow> nntp_file \<Rightarrow> bool" where
  "maybe_a_textpost nconfig trust f \<longleftrightarrow> maybe_a_zerofile f \<or> maybe_a_textreply nconfig trust f"

definition iscomplete :: "nget_config \<Rightarrow> prio_grouping \<Rightarrow> nntp_file \<Rightarrow> bool" where
  "iscomplete nconfig trust f \<longleftrightarrow>
     have_count f \<ge> fb_req (nf_base f) \<or> maybe_a_textreply nconfig trust f"

definition bamid :: "nntp_file \<Rightarrow> string" where
  "bamid f = p_messageid (hd (parts f))"

definition badate :: "nntp_file \<Rightarrow> int" where
  "badate f = p_date (hd (parts f))"

section \<open>The binary search\<close>

definition parts_ok :: "part list \<Rightarrow> bool" where
  "parts_ok ps \<longleftrightarrow> sorted_wrt (<) (List.map partnum ps)"

lemma parts_ok_nth: "parts_ok ps \<Longrightarrow> i < j \<Longrightarrow> j < length ps \<Longrightarrow> partnum (ps ! i) < partnum (ps ! j)"
  by (auto simp: parts_ok_def sorted_wrt_iff_nth_less)

lemma lb_loop_bound:
  assumes "parts_ok ps" "first + len \<le> length ps" "\<forall>i < first. partnum (ps ! i) < pn"
    "\<forall>i. first + len \<le> i \<and> i < length ps \<longrightarrow> pn \<le> partnum (ps ! i)"
  shows "lb_loop ps pn first len \<le> length ps \<and>
    (\<forall>i < lb_loop ps pn first len. partnum (ps ! i) < pn) \<and>
    (\<forall>i. lb_loop ps pn first len \<le> i \<and> i < length ps \<longrightarrow> pn \<le> partnum (ps ! i))"
  using assms
proof (induction ps pn first len rule: lb_loop.induct)
  case (1 ps pn first len)
  show ?case
  proof (cases "len > 0")
    case False
    then have "lb_loop ps pn first len = first" by (subst lb_loop.simps) simp
    then show ?thesis using 1(4-6) False by simp
  next
    case True
    let ?half = "len div 2"
    let ?mid = "first + ?half"
    have h: "?half < len" using True by simp
    have mid: "?mid < length ps" using 1(4) h by linarith
    show ?thesis
    proof (cases "partnum (ps ! ?mid) < pn")
      case lt: True
      have "\<forall>i < Suc ?mid. partnum (ps ! i) < pn"
      proof (intro allI impI)
        fix i assume "i < Suc ?mid"
        then show "partnum (ps ! i) < pn"
          using lt parts_ok_nth [OF 1(3) _ mid, of i] by (cases "i = ?mid") auto
      qed
      moreover have "Suc ?mid + (len - ?half - 1) = first + len" using h by simp
      ultimately have res: "lb_loop ps pn (Suc ?mid) (len - ?half - 1) \<le> length ps \<and>
          (\<forall>i < lb_loop ps pn (Suc ?mid) (len - ?half - 1). partnum (ps ! i) < pn) \<and>
          (\<forall>i. lb_loop ps pn (Suc ?mid) (len - ?half - 1) \<le> i \<and> i < length ps \<longrightarrow> pn \<le> partnum (ps ! i))"
        using 1(1) [OF True refl refl lt 1(3)] 1(4,6) by simp
      have eq: "lb_loop ps pn first len = lb_loop ps pn (Suc ?mid) (len - ?half - 1)"
        using True lt by (subst lb_loop.simps) (simp add: Let_def)
      show ?thesis unfolding eq by (rule res)
    next
      case ge: False
      have up: "\<forall>i. ?mid \<le> i \<and> i < length ps \<longrightarrow> pn \<le> partnum (ps ! i)"
      proof (intro allI impI)
        fix i assume i: "?mid \<le> i \<and> i < length ps"
        then show "pn \<le> partnum (ps ! i)"
          using ge parts_ok_nth [OF 1(3), of ?mid i] by (cases "i = ?mid") auto
      qed
      have res: "lb_loop ps pn first ?half \<le> length ps \<and>
          (\<forall>i < lb_loop ps pn first ?half. partnum (ps ! i) < pn) \<and>
          (\<forall>i. lb_loop ps pn first ?half \<le> i \<and> i < length ps \<longrightarrow> pn \<le> partnum (ps ! i))"
        by (intro 1(2) [OF True refl refl ge 1(3) less_imp_le [OF mid] 1(5)]) (rule up)
      have eq: "lb_loop ps pn first len = lb_loop ps pn first ?half"
        using True ge by (subst lb_loop.simps) (simp add: Let_def)
      show ?thesis unfolding eq by (rule res)
    qed
  qed
qed

lemma parts_split:
  assumes "parts_ok ps"
  obtains lo hi where "ps = lo @ hi" "parts_lower_bound ps pn = length lo"
    "\<forall>p \<in> set lo. partnum p < pn" "\<forall>p \<in> set hi. pn \<le> partnum p"
proof -
  let ?i = "parts_lower_bound ps pn"
  have b: "?i \<le> length ps" "\<forall>i < ?i. partnum (ps ! i) < pn" "\<forall>i. ?i \<le> i \<and> i < length ps \<longrightarrow> pn \<le> partnum (ps ! i)"
    using lb_loop_bound [OF assms, of 0 "length ps" pn] by (auto simp: parts_lower_bound_def)
  have "\<forall>p \<in> set (take ?i ps). partnum p < pn" using b by (auto simp: in_set_conv_nth)
  moreover have "\<forall>p \<in> set (drop ?i ps). pn \<le> partnum p" using b by (auto simp: in_set_conv_nth)
  ultimately show ?thesis using that [of "take ?i ps" "drop ?i ps"] b(1) by simp
qed

lemma parts_ok_append:
  "parts_ok (lo @ hi) \<longleftrightarrow> parts_ok lo \<and> parts_ok hi \<and> (\<forall>p \<in> set lo. \<forall>q \<in> set hi. partnum p < partnum q)"
  by (auto simp: parts_ok_def sorted_wrt_append)

lemma parts_ok_Cons: "parts_ok (p # ps) \<longleftrightarrow> (\<forall>q \<in> set ps. partnum p < partnum q) \<and> parts_ok ps"
  by (auto simp: parts_ok_def)

lemma parts_ok_Nil [simp]: "parts_ok []"
  by (simp add: parts_ok_def)

lemma find_append: "find P (xs @ ys) = (case find P xs of None \<Rightarrow> find P ys | Some x \<Rightarrow> Some x)"
  by (induction xs) auto

lemma parts_part_find:
  assumes "parts_ok ps"
  shows "parts_part ps pn = find (\<lambda>p. partnum p = pn) ps"
proof -
  obtain lo hi where s: "ps = lo @ hi" "parts_lower_bound ps pn = length lo"
      "\<forall>p \<in> set lo. partnum p < pn" "\<forall>p \<in> set hi. pn \<le> partnum p"
    using parts_split [OF assms] by blast
  have "find (\<lambda>p. partnum p = pn) lo = None" using s(3) by (auto simp: find_None_iff)
  then have f: "find (\<lambda>p. partnum p = pn) ps = find (\<lambda>p. partnum p = pn) hi"
    using s(1) by (simp add: find_append)
  show ?thesis
  proof (cases hi)
    case Nil
    then show ?thesis using s f by (simp add: parts_part_def)
  next
    case (Cons h hs)
    have "find (\<lambda>p. partnum p = pn) hs = None" if "partnum h \<noteq> pn"
      using assms s Cons that by (fastforce simp: find_None_iff parts_ok_append parts_ok_Cons)
    then show ?thesis unfolding f using s Cons by (auto simp: parts_part_def Let_def nth_append)
  qed
qed

lemma parts_add_ok:
  assumes "parts_ok ps" "parts_part ps (partnum p) = None"
  shows "parts_ok (parts_add ps p) \<and> set (parts_add ps p) = insert p (set ps)"
proof -
  obtain lo hi where s: "ps = lo @ hi" "parts_lower_bound ps (partnum p) = length lo"
      "\<forall>q \<in> set lo. partnum q < partnum p" "\<forall>q \<in> set hi. partnum p \<le> partnum q"
    using parts_split [OF assms(1)] by blast
  have "\<forall>q \<in> set hi. partnum q \<noteq> partnum p"
    using assms s by (auto simp: parts_part_find find_None_iff)
  then have "\<forall>q \<in> set hi. partnum p < partnum q" using s(4) by force
  then show ?thesis using assms(1) s
    by (auto simp: parts_add_def parts_ok_append parts_ok_Cons)
qed

lemma removepart_ok:
  assumes "parts_ok ps"
  shows "parts_ok (removepart ps pn) \<and> set (removepart ps pn) = {q \<in> set ps. partnum q \<noteq> pn}"
proof -
  obtain lo hi where s: "ps = lo @ hi" "parts_lower_bound ps pn = length lo"
      "\<forall>q \<in> set lo. partnum q < pn" "\<forall>q \<in> set hi. pn \<le> partnum q"
    using parts_split [OF assms] by blast
  show ?thesis
  proof (cases hi)
    case Nil
    then show ?thesis using s assms by (auto simp: removepart_def)
  next
    case (Cons h hs)
    have "\<forall>q \<in> set hs. pn < partnum q"
      using assms s Cons by (fastforce simp: parts_ok_append parts_ok_Cons)
    then show ?thesis using s Cons assms
      by (auto simp: removepart_def Let_def nth_append parts_ok_append parts_ok_Cons)
  qed
qed

lemma parts_part_Some: "parts_ok ps \<Longrightarrow> parts_part ps pn = Some p \<longleftrightarrow> p \<in> set ps \<and> partnum p = pn"
proof (induction ps)
  case (Cons q ps)
  then show ?case by (auto simp: parts_part_find parts_ok_Cons)
qed (simp add: parts_part_find)

lemma parts_part_None: "parts_ok ps \<Longrightarrow> parts_part ps pn = None \<longleftrightarrow> (\<forall>p \<in> set ps. partnum p \<noteq> pn)"
  by (auto simp: parts_part_find find_None_iff)

section \<open>A store with a key per element\<close>

text \<open>What the cache relies on when it keeps elements under their keys: after adding an element whose key
  is new it is found under the key, after removing a key nothing is, and nothing else changes.\<close>

locale keyed_store =
  fixes look :: "'s \<Rightarrow> 'k \<Rightarrow> 'v option" and add :: "'s \<Rightarrow> 'v \<Rightarrow> 's" and del :: "'s \<Rightarrow> 'k \<Rightarrow> 's"
    and key :: "'v \<Rightarrow> 'k" and invar :: "'s \<Rightarrow> bool"
  assumes look_key: "invar s \<Longrightarrow> look s k = Some v \<Longrightarrow> key v = k"
    and invar_add: "invar s \<Longrightarrow> look s (key v) = None \<Longrightarrow> invar (add s v)"
    and look_add: "invar s \<Longrightarrow> look s (key v) = None \<Longrightarrow> look (add s v) k = (if k = key v then Some v else look s k)"
    and invar_del: "invar s \<Longrightarrow> invar (del s k)"
    and look_del: "invar s \<Longrightarrow> look (del s k) k' = (if k' = k then None else look s k')"
begin

lemma add_all:
  "invar s \<Longrightarrow> distinct (List.map key vs) \<Longrightarrow> \<forall>v \<in> set vs. look s (key v) = None \<Longrightarrow>
     invar (foldl add s vs) \<and>
     (\<forall>k. look (foldl add s vs) k = (case find (\<lambda>v. key v = k) vs of Some v \<Rightarrow> Some v | None \<Rightarrow> look s k))"
proof (induction vs arbitrary: s)
  case (Cons v vs)
  have a: "invar (add s v)" "\<And>k. look (add s v) k = (if k = key v then Some v else look s k)"
    using Cons.prems invar_add look_add by simp_all
  have "find (\<lambda>w. key w = key v) vs = None" using Cons.prems by (auto simp: find_None_iff image_iff)
  moreover have "\<forall>w \<in> set vs. look (add s v) (key w) = None"
    using Cons.prems a(2) by (auto simp: image_iff)
  ultimately show ?case using Cons.IH [OF a(1)] Cons.prems a(2) by (auto split: option.splits)
qed simp

lemma add_del: "invar s \<Longrightarrow> look s (key v) = None \<Longrightarrow> look (del (add s v) (key v)) k = look s k"
  by (auto simp: look_del look_add invar_add)

end

interpretation parts_store: keyed_store parts_part parts_add removepart partnum parts_ok
proof
  fix s :: "part list" and k k' :: int and v :: part
  assume ok: "parts_ok s"
  show "parts_part s k = Some v \<Longrightarrow> partnum v = k" using ok by (simp add: parts_part_Some)
  show "parts_ok (removepart s k)" using ok removepart_ok by blast
  show "parts_part (removepart s k) k' = (if k' = k then None else parts_part s k')"
  proof (cases "parts_part s k'")
    case None
    then have "parts_part (removepart s k) k' = None"
      using ok removepart_ok [OF ok, of k] by (simp add: parts_part_None)
    then show ?thesis using None by simp
  next
    case (Some p)
    show ?thesis
    proof (cases "k' = k")
      case True
      then show ?thesis using ok removepart_ok [OF ok, of k] by (simp add: parts_part_None)
    next
      case False
      then have "parts_part (removepart s k) k' = Some p"
        using Some ok removepart_ok [OF ok, of k] by (simp add: parts_part_Some)
      then show ?thesis using Some False by simp
    qed
  qed
  assume new: "parts_part s (partnum v) = None"
  show "parts_ok (parts_add s v)" using ok new parts_add_ok by blast
  show "parts_part (parts_add s v) k = (if k = partnum v then Some v else parts_part s k)"
  proof (cases "parts_part s k")
    case None
    show ?thesis
    proof (cases "k = partnum v")
      case True
      then show ?thesis using ok parts_add_ok [OF ok new] by (simp add: parts_part_Some)
    next
      case False
      then have "parts_part (parts_add s v) k = None"
        using None ok parts_add_ok [OF ok new] by (auto simp: parts_part_None)
      then show ?thesis using None False by simp
    qed
  next
    case (Some p)
    then have "k \<noteq> partnum v" using new by auto
    moreover have "parts_part (parts_add s v) k = Some p"
      using Some ok parts_add_ok [OF ok new] by (simp add: parts_part_Some)
    ultimately show ?thesis using Some by simp
  qed
qed

section \<open>Counting the wanted parts\<close>

text \<open>The invariant of a file: sorted parts, and \<open>have\<close> is the number of parts that count.\<close>

definition wanted :: "nntp_file \<Rightarrow> part list" where
  "wanted f = filter (\<lambda>p. count_partnum (partnum p) (fb_req (nf_base f))) (parts f)"

definition file_ok :: "nntp_file \<Rightarrow> bool" where
  "file_ok f \<longleftrightarrow> parts_ok (parts f) \<and> have_count f = int (length (wanted f))"

lemma parts_add_filter:
  "length (filter P (parts_add ps p)) = length (filter P ps) + (if P p then 1 else 0)"
proof -
  have "length (filter P ps) = length (filter P (take i ps)) + length (filter P (drop i ps))" for i
    by (metis append_take_drop_id filter_append length_append)
  then show ?thesis by (simp add: parts_add_def Let_def)
qed

lemma file_new_ok: "file_ok (file_new r f s a po to ud)" "file_ok (file_of h)"
  by (simp_all add: file_ok_def file_new_def file_of_def wanted_def)

lemma addpart_ok:
  assumes "file_ok f" "parts_part (parts f) (partnum p) = None"
  shows "file_ok (addpart p f) \<and> nf_base (addpart p f) = nf_base f \<and>
    parts_part (parts (addpart p f)) k = (if k = partnum p then Some p else parts_part (parts f) k) \<and>
    set (parts (addpart p f)) = insert p (set (parts f))"
  using assms parts_store.invar_add [of "parts f" p] parts_store.look_add [of "parts f" p k]
    parts_add_ok [of "parts f" p]
  by (simp add: file_ok_def addpart_def wanted_def parts_add_filter)

lemma addnewpart_ok:
  assumes "file_ok f" "parts_part (parts f) (partnum p) = None"
  shows "file_ok (addnewpart now p f) \<and> nf_base (addnewpart now p f) = nf_base f \<and>
    parts_part (parts (addnewpart now p f)) k = (if k = partnum p then Some p else parts_part (parts f) k)"
  using addpart_ok [of "f\<lparr>update_time := now\<rparr>" p k] assms
  by (simp add: addnewpart_def file_ok_def wanted_def)

lemma parts_modify_nums:
  assumes "\<And>p. partnum (f p) = partnum p"
  shows "List.map partnum (parts_modify ps k f) = List.map partnum ps"
  using assms by (simp add: parts_modify_def)

lemma parts_modify_look:
  assumes "parts_ok ps" "\<And>p. partnum (f p) = partnum p"
  shows "parts_ok (parts_modify ps k f) \<and>
    parts_part (parts_modify ps k f) k' = (if k' = k then map_option f (parts_part ps k') else parts_part ps k')"
proof -
  have ok: "parts_ok (parts_modify ps k f)"
    using assms parts_modify_nums [of f ps k] by (simp add: parts_ok_def)
  have "find (\<lambda>p. partnum p = k') (parts_modify ps k f) =
      (if k' = k then map_option f (find (\<lambda>p. partnum p = k') ps) else find (\<lambda>p. partnum p = k') ps)"
    by (induction ps) (auto simp: parts_modify_def assms(2))
  then show ?thesis using ok assms(1) by (simp add: parts_part_find)
qed

lemma parts_modify_wanted:
  assumes "\<And>p. partnum (f p) = partnum p"
  shows "length (filter (\<lambda>p. Q (partnum p)) (parts_modify ps k f)) = length (filter (\<lambda>p. Q (partnum p)) ps)"
  by (induction ps) (auto simp: parts_modify_def assms)

lemma file_ok_modify:
  assumes "file_ok f" "\<And>p. partnum (g p) = partnum p"
  shows "file_ok (f\<lparr>parts := parts_modify (parts f) k g\<rparr>)"
  using assms parts_modify_look [of "parts f" g k]
    parts_modify_wanted [of g "\<lambda>pn. count_partnum pn (fb_req (nf_base f))" "parts f" k]
  by (simp add: file_ok_def wanted_def)

text \<open>What a merge leaves under a part number.\<close>

definition merged_part :: "part option \<Rightarrow> part \<Rightarrow> part" where
  "merged_part ours p =
     (case ours of
        None \<Rightarrow> p
      | Some mp \<Rightarrow> if p_messageid mp = p_messageid p then mp\<lparr>articles := articles mp @ articles p\<rparr> else mp)"

lemma merge_part_ok:
  assumes "file_ok f" "\<And>mp. parts_part (parts f) (partnum p) = Some mp \<Longrightarrow> p_messageid mp = p_messageid p"
  shows "file_ok (merge_part p f) \<and> nf_base (merge_part p f) = nf_base f \<and>
    parts_part (parts (merge_part p f)) k =
      (if k = partnum p then Some (merged_part (parts_part (parts f) k) p) else parts_part (parts f) k)"
proof -
  let ?app = "\<lambda>mp. mp\<lparr>articles := articles mp @ articles p\<rparr>"
  show ?thesis
  proof (cases "parts_part (parts f) (partnum p)")
    case None
    let ?np = "part_new (partnum p) (p_date p) (p_messageid p)"
    have np: "partnum ?np = partnum p" by (simp add: part_new_def)
    have a: "file_ok (addpart ?np f)" "nf_base (addpart ?np f) = nf_base f"
      "\<And>k. parts_part (parts (addpart ?np f)) k = (if k = partnum p then Some ?np else parts_part (parts f) k)"
      using addpart_ok [OF assms(1), of ?np] None np by simp_all
    have "parts_ok (parts (addpart ?np f))" using a(1) by (simp add: file_ok_def)
    then have l: "parts_part (parts_modify (parts (addpart ?np f)) (partnum p) ?app) k =
        (if k = partnum p then Some (?app ?np) else parts_part (parts f) k)"
      using parts_modify_look [of "parts (addpart ?np f)" ?app "partnum p" k] a(3) by simp
    have "?app ?np = p" by (simp add: part_new_def)
    then show ?thesis using None a(1,2) file_ok_modify [OF a(1), of ?app "partnum p"] l
      by (simp add: merge_part_def merged_part_def Let_def)
  next
    case (Some mp)
    then have m: "p_messageid mp = p_messageid p" using assms(2) by blast
    have "parts_ok (parts f)" using assms(1) by (simp add: file_ok_def)
    then have "parts_part (parts_modify (parts f) (partnum p) ?app) k =
        (if k = partnum p then Some (?app mp) else parts_part (parts f) k)"
      using parts_modify_look [of "parts f" ?app "partnum p" k] Some by auto
    then show ?thesis using Some m file_ok_modify [OF assms(1), of ?app "partnum p"]
      by (simp add: merge_part_def merged_part_def Let_def)
  qed
qed

lemma merge_parts_ok:
  assumes "file_ok f" "distinct (List.map partnum ps)"
  shows "file_ok (fst (merge_parts ps f)) \<and> nf_base (fst (merge_parts ps f)) = nf_base f \<and>
    (\<forall>k. parts_part (parts (fst (merge_parts ps f))) k =
       (case find (\<lambda>p. partnum p = k) ps of
          None \<Rightarrow> parts_part (parts f) k
        | Some p \<Rightarrow> Some (merged_part (parts_part (parts f) k) p))) \<and>
    snd (merge_parts ps f) =
      filter (\<lambda>p. \<exists>mp. parts_part (parts f) (partnum p) = Some mp \<and> p_messageid mp \<noteq> p_messageid p) ps"
  using assms
proof (induction ps f rule: merge_parts.induct)
  case (1 f)
  then show ?case by simp
next
  case (2 p ps f)
  have nf: "find (\<lambda>q. partnum q = partnum p) ps = None"
    using 2(4) by (auto simp: find_None_iff image_iff)
  show ?case
  proof (cases "\<exists>mp. parts_part (parts f) (partnum p) = Some mp \<and> p_messageid mp \<noteq> p_messageid p")
    case True
    then obtain mp where mp: "parts_part (parts f) (partnum p) = Some mp" "p_messageid mp \<noteq> p_messageid p" by blast
    have IH: "file_ok (fst (merge_parts ps f)) \<and> nf_base (fst (merge_parts ps f)) = nf_base f \<and>
      (\<forall>k. parts_part (parts (fst (merge_parts ps f))) k =
         (case find (\<lambda>p. partnum p = k) ps of
            None \<Rightarrow> parts_part (parts f) k
          | Some p \<Rightarrow> Some (merged_part (parts_part (parts f) k) p))) \<and>
      snd (merge_parts ps f) =
        filter (\<lambda>p. \<exists>mp. parts_part (parts f) (partnum p) = Some mp \<and> p_messageid mp \<noteq> p_messageid p) ps"
      using 2(1) [OF True 2(3)] 2(4) by simp
    have e: "merge_parts (p # ps) f = (fst (merge_parts ps f), p # snd (merge_parts ps f))"
      using True by (simp split: prod.split)
    have "merged_part (Some mp) p = mp" using mp by (simp add: merged_part_def)
    then show ?thesis unfolding e using IH True mp nf by auto
  next
    case False
    then have same: "\<And>mp. parts_part (parts f) (partnum p) = Some mp \<Longrightarrow> p_messageid mp = p_messageid p" by blast
    have m: "file_ok (merge_part p f)" "nf_base (merge_part p f) = nf_base f"
      "\<And>k. parts_part (parts (merge_part p f)) k =
        (if k = partnum p then Some (merged_part (parts_part (parts f) k) p) else parts_part (parts f) k)"
      using merge_part_ok [OF 2(3) same] by auto
    have IH: "file_ok (fst (merge_parts ps (merge_part p f))) \<and>
      nf_base (fst (merge_parts ps (merge_part p f))) = nf_base (merge_part p f) \<and>
      (\<forall>k. parts_part (parts (fst (merge_parts ps (merge_part p f)))) k =
         (case find (\<lambda>p. partnum p = k) ps of
            None \<Rightarrow> parts_part (parts (merge_part p f)) k
          | Some p' \<Rightarrow> Some (merged_part (parts_part (parts (merge_part p f)) k) p'))) \<and>
      snd (merge_parts ps (merge_part p f)) =
        filter (\<lambda>q. \<exists>mp. parts_part (parts (merge_part p f)) (partnum q) = Some mp \<and> p_messageid mp \<noteq> p_messageid q) ps"
      using 2(2) [OF False m(1)] 2(4) by simp
    have e: "merge_parts (p # ps) f = merge_parts ps (merge_part p f)"
      using False by (simp only: merge_parts.simps(2) if_False)
    have other: "partnum q \<noteq> partnum p" if "q \<in> set ps" for q using that 2(4) by (auto simp: image_iff)
    have fl: "filter (\<lambda>q. \<exists>mp. parts_part (parts (merge_part p f)) (partnum q) = Some mp \<and> p_messageid mp \<noteq> p_messageid q) ps =
        filter (\<lambda>q. \<exists>mp. parts_part (parts f) (partnum q) = Some mp \<and> p_messageid mp \<noteq> p_messageid q) ps"
      by (rule filter_cong) (auto simp: m(3) other)
    have lk: "(case find (\<lambda>q. partnum q = k) ps of
            None \<Rightarrow> parts_part (parts (merge_part p f)) k
          | Some p' \<Rightarrow> Some (merged_part (parts_part (parts (merge_part p f)) k) p')) =
        (case find (\<lambda>q. partnum q = k) (p # ps) of
            None \<Rightarrow> parts_part (parts f) k
          | Some p' \<Rightarrow> Some (merged_part (parts_part (parts f) k) p'))" for k
      using nf by (cases "k = partnum p") (auto simp: m(3) split: option.splits)
    show ?thesis unfolding e using IH lk fl m(2) False by simp
  qed
qed

lemma wanted_all:
  assumes "file_ok f" "0 < fb_req (nf_base f)"
  shows "have_count f \<le> fb_req (nf_base f) \<and>
    (fb_req (nf_base f) \<le> have_count f \<longleftrightarrow> {1 .. fb_req (nf_base f)} \<subseteq> partnum ` set (parts f))"
proof -
  let ?r = "fb_req (nf_base f)" and ?W = "partnum ` set (wanted f)"
  have d: "distinct (List.map partnum (parts f))"
    using assms(1) by (auto simp: file_ok_def parts_ok_def strict_sorted_iff)
  then have "distinct (List.map partnum (wanted f))" unfolding wanted_def by (rule distinct_map_filter)
  then have c: "card ?W = length (wanted f)" by (metis distinct_card length_map set_map)
  have W: "?W = partnum ` set (parts f) \<inter> {1 .. ?r}"
    using assms(2) by (auto simp: wanted_def count_partnum_def)
  have fin: "finite {1 .. ?r}" by simp
  have le: "card ?W \<le> card {1 .. ?r}" by (rule card_mono [OF fin]) (simp add: W)
  have card: "card {1 .. ?r} = nat ?r" by simp
  have "?r \<le> int (card ?W) \<longleftrightarrow> {1 .. ?r} \<subseteq> ?W"
  proof
    assume "?r \<le> int (card ?W)"
    then have "card ?W = card {1 .. ?r}" using le card assms(2) by linarith
    then have "?W = {1 .. ?r}" by (intro card_subset_eq [OF fin]) (simp_all add: W)
    then show "{1 .. ?r} \<subseteq> ?W" by simp
  next
    assume "{1 .. ?r} \<subseteq> ?W"
    then have "?W = {1 .. ?r}" using W by auto
    then show "?r \<le> int (card ?W)" using card assms(2) by simp
  qed
  moreover have "{1 .. ?r} \<subseteq> ?W \<longleftrightarrow> {1 .. ?r} \<subseteq> partnum ` set (parts f)" unfolding W by blast
  ultimately show ?thesis using assms c le card by (simp add: file_ok_def)
qed

section \<open>Taking a subject apart\<close>

lemma strtol_at_show:
  assumes "int n < 2 ^ 31" "\<not> is_digit c"
  shows "strtol_at (show_nat n @ c # s) = Some (int n, c)"
proof -
  have "stops_digits (c # s)" using assms(2) by (simp add: stops_digits_def)
  moreover have "int32 (int n) = int n" using assms(1) by (simp add: int32_id is_int32_def)
  ultimately show ?thesis using assms(1)
    by (simp add: strtol_at_def strtol10_def scan_num_show_nat)
qed

lemma strpbrk_from_append:
  "\<forall>c \<in> set a. c \<notin> set cs \<Longrightarrow> strpbrk_from (a @ b) cs i = strpbrk_from b cs (i + length a)"
  by (induction a arbitrary: i) auto

lemma find_back_to:
  "p \<le> k \<Longrightarrow> 0 < p \<Longrightarrow> str ! p = m \<Longrightarrow> (\<And>i. p < i \<Longrightarrow> i \<le> k \<Longrightarrow> str ! i \<noteq> m) \<Longrightarrow> find_back str m k = Some p"
proof (induction k)
  case (Suc k)
  then show ?case by (cases "p = Suc k") auto
qed simp

lemma header_scan_skip:
  "k \<le> n \<Longrightarrow> (\<And>i. k < i \<Longrightarrow> i \<le> n \<Longrightarrow> str ! i \<noteq> CHR ''/'') \<Longrightarrow> header_scan str n = header_scan str k"
proof (induction n)
  case (Suc n)
  then show ?case by (cases "k = Suc n") auto
qed simp

lemma header_scan_none: "(\<And>i. 0 < i \<Longrightarrow> i \<le> n \<Longrightarrow> str ! i \<noteq> CHR ''/'') \<Longrightarrow> header_scan str n = None"
  using header_scan_skip [of 0 n str] by simp

lemma digit_chars: "is_digit c \<Longrightarrow> c \<noteq> CHR ''/'' \<and> c \<noteq> CHR ''('' \<and> c \<noteq> CHR '')'' \<and> c \<noteq> CHR '']'' \<and> c \<noteq> CHR ''[''"
  by (auto simp: is_digit_def)

text \<open>A subject with a part number in round or square brackets, \<open>pre\<close> before and \<open>suf\<close> after it.\<close>

definition brackets :: "bool \<Rightarrow> char \<times> char" where
  "brackets sq = (if sq then (CHR ''['', CHR '']'') else (CHR ''('', CHR '')''))"

definition multipart_subject :: "string \<Rightarrow> bool \<Rightarrow> string \<Rightarrow> nat \<Rightarrow> string \<Rightarrow> string" where
  "multipart_subject pre sq num req suf =
     pre @ [fst (brackets sq)] @ num @ ''/'' @ show_nat req @ [snd (brackets sq)] @ suf"

lemma brackets_not_digit: "\<not> is_digit (fst (brackets sq))" "\<not> is_digit (snd (brackets sq))"
  "fst (brackets sq) \<noteq> CHR ''/''" "snd (brackets sq) \<noteq> CHR ''/''"
  by (auto simp: brackets_def is_digit_def)

lemma parsepnum_subject:
  assumes "pre \<noteq> []" "int m < 2 ^ 31" "int req < 2 ^ 31"
  shows "parsepnum (multipart_subject pre sq (show_nat m) req suf) (length pre + 1 + length (show_nat m)) =
    (if m \<le> req then Some (if m = 0 then 0 else int req, int m, Suc (length pre),
       length pre + 2 + length (show_nat m) + length (show_nat req)) else None)"
proof -
  let ?o = "fst (brackets sq)" and ?c = "snd (brackets sq)"
  let ?str = "multipart_subject pre sq (show_nat m) req suf"
  let ?k = "length pre + 1 + length (show_nat m)"
  have str: "?str = (pre @ ?o # show_nat m @ ''/'') @ show_nat req @ ?c # suf"
    by (simp add: multipart_subject_def)
  have str2: "?str = (pre @ [?o]) @ show_nat m @ CHR ''/'' # show_nat req @ ?c # suf"
    by (simp add: multipart_subject_def)
  have d: "drop (Suc ?k) ?str = show_nat req @ ?c # suf" unfolding str by simp
  have dig: "is_digit x" if "x \<in> set (show_nat n)" for x n using that by (rule show_nat_digits)
  have b: "strpbrk_from (drop (Suc ?k) ?str) '')]'' (Suc ?k) = Some (Suc ?k + length (show_nat req))"
  proof -
    have "\<forall>x \<in> set (show_nat req). x \<notin> set '')]''" using dig digit_chars by fastforce
    then have "strpbrk_from (show_nat req @ ?c # suf) '')]'' (Suc ?k) =
        strpbrk_from (?c # suf) '')]'' (Suc ?k + length (show_nat req))"
      by (rule strpbrk_from_append)
    then show ?thesis unfolding d by (simp add: brackets_def)
  qed
  have m2: "?str ! (Suc ?k + length (show_nat req)) = ?c" unfolding str by (simp add: nth_append)
  have fb: "find_back ?str ?o ?k = Some (length pre)"
  proof (rule find_back_to)
    show "length pre \<le> ?k" "0 < length pre" using assms(1) by auto
    show "?str ! length pre = ?o" unfolding str by (simp add: nth_append)
    fix i assume i: "length pre < i" "i \<le> ?k"
    have "?str ! i \<in> set (show_nat m @ ''/'')"
    proof -
      have "?str ! i = (show_nat m @ ''/'') ! (i - Suc (length pre))"
        unfolding str using i by (auto simp: nth_append nth_Cons' split: if_splits)
      then show ?thesis using i by (metis (no_types, lifting) length_append_singleton nth_mem add.commute add_Suc_right diff_less_mono le_imp_less_Suc less_eq_Suc_le diff_add_inverse plus_1_eq_Suc add.assoc)
    qed
    then have "is_digit (?str ! i) \<or> ?str ! i = CHR ''/''" using dig [of "?str ! i" m] by auto
    moreover have "?o = CHR ''('' \<or> ?o = CHR ''[''" by (simp add: brackets_def)
    ultimately show "?str ! i \<noteq> ?o" using digit_chars [of "?str ! i"] by auto
  qed
  have s1: "strtol_at (drop (Suc (length pre)) ?str) = Some (int m, CHR ''/'')"
    unfolding str2 using strtol_at_show [of m "CHR ''/''"] assms(2) by (simp add: is_digit_def)
  have s2: "strtol_at (drop (Suc ?k) ?str) = Some (int req, ?c)"
    unfolding d by (rule strtol_at_show [OF assms(3) brackets_not_digit(2)])
  have mm: "(if ?c = CHR '')'' then CHR ''('' else CHR ''['') = ?o" by (simp add: brackets_def)
  show ?thesis unfolding parsepnum_def b option.case Let_def m2 mm fb s1 s2 prod.case
    by simp
qed

lemma header_scan_subject:
  assumes "pre \<noteq> []" "int m < 2 ^ 31" "int req < 2 ^ 31" "m \<le> req" "CHR ''/'' \<notin> set suf"
    and str_def: "str = multipart_subject pre sq (show_nat m) req suf"
    and k_def: "k = length pre + 1 + length (show_nat m)"
  shows "header_scan str (length str - 3) =
    Some (if m = 0 then 0 else int req, int m, Suc (length pre),
      length pre + 2 + length (show_nat m) + length (show_nat req), k)"
proof -
  have len: "length str = k + 2 + length (show_nat req) + length suf"
    by (simp add: str_def k_def multipart_subject_def)
  have pos: "0 < length (show_nat req)" by simp
  have kle: "k \<le> length str - 3" using len pos by linarith
  have slash: "str ! k = CHR ''/''"
    by (simp add: str_def k_def multipart_subject_def nth_append)
  have after: "str ! i \<noteq> CHR ''/''" if "k < i" "i \<le> length str - 3" for i
  proof -
    have "i < length str" using that len by simp
    then have "i - Suc k < length (drop (Suc k) str)" using that by simp
    then have "drop (Suc k) str ! (i - Suc k) \<in> set (drop (Suc k) str)" by (rule nth_mem)
    moreover have "drop (Suc k) str ! (i - Suc k) = str ! i" using that \<open>i < length str\<close> by simp
    ultimately have "str ! i \<in> set (drop (Suc k) str)" by simp
    moreover have "drop (Suc k) str = show_nat req @ snd (brackets sq) # suf"
      by (simp add: str_def k_def multipart_subject_def)
    ultimately show ?thesis using assms(5) brackets_not_digit digit_chars show_nat_digits
      by (auto simp: brackets_def)
  qed
  obtain j where j: "k = Suc j" by (simp add: k_def)
  have p: "parsepnum str k = Some (if m = 0 then 0 else int req, int m, Suc (length pre),
      length pre + 2 + length (show_nat m) + length (show_nat req))"
    using parsepnum_subject [OF assms(1-3), of sq suf] assms(4) by (simp add: str_def k_def)
  have "header_scan str (length str - 3) = header_scan str k"
    by (rule header_scan_skip [OF kle after])
  also have "\<dots> = Some (if m = 0 then 0 else int req, int m, Suc (length pre),
      length pre + 2 + length (show_nat m) + length (show_nat req), k)"
    using slash p unfolding j by simp
  finally show ?thesis .
qed

section \<open>Servers and parts\<close>

lemma have_articles_state:
  assumes "smap_ok hm"
  shows "smap_ok (have_articles pn req sas found hm) \<and>
    map_of (have_articles pn req sas found hm) s =
      (if s \<in> sa_serverid ` set sas - found
       then Some ((case map_of hm s of None \<Rightarrow> 0 | Some n \<Rightarrow> n) + (if count_partnum pn req then 1 else 0))
       else map_of hm s)"
  using assms
proof (induction pn req sas found hm rule: have_articles.induct)
  case (2 pn req sa sas found hm)
  show ?case
  proof (cases "sa_serverid sa \<in> found")
    case True
    then show ?thesis using 2 by (auto simp: image_iff)
  next
    case False
    let ?h1 = "smap_insert hm (sa_serverid sa) 0"
    let ?h2 = "if count_partnum pn req then smap_put ?h1 (sa_serverid sa) (the (map_of ?h1 (sa_serverid sa)) + 1) else ?h1"
    have ok1: "smap_ok ?h1" using 2(3) by (rule smap_ok_insert)
    then have ok2: "smap_ok ?h2" by (simp add: smap_ok_put)
    have m1: "map_of ?h1 = (map_of hm)(sa_serverid sa \<mapsto> (case map_of hm (sa_serverid sa) of None \<Rightarrow> 0 | Some n \<Rightarrow> n))"
      using map_of_smap_insert [OF 2(3), of "sa_serverid sa" 0] by (auto split: option.splits)
    have m2: "map_of ?h2 = (map_of hm)(sa_serverid sa \<mapsto> (case map_of hm (sa_serverid sa) of None \<Rightarrow> 0 | Some n \<Rightarrow> n) +
        (if count_partnum pn req then 1 else 0))"
      using map_of_smap_put [OF ok1] m1 by simp
    have e: "have_articles pn req (sa # sas) found hm = have_articles pn req sas (insert (sa_serverid sa) found) ?h2"
      using False by (simp add: Let_def)
    show ?thesis unfolding e using 2(2) [OF False refl refl ok2] m2 False by auto
  qed
qed simp

text \<open>The parts of a list that have an article on a server and count.\<close>

definition parts_on :: "int \<Rightarrow> part list \<Rightarrow> ulong \<Rightarrow> part list" where
  "parts_on req ps s = filter (\<lambda>p. s \<in> sa_serverid ` set (articles p) \<and> count_partnum (partnum p) req) ps"

lemma have_map_fold:
  assumes "smap_ok hm"
  shows "smap_ok (foldl (\<lambda>hm p. have_articles (partnum p) req (articles p) {} hm) hm ps) \<and>
    map_of (foldl (\<lambda>hm p. have_articles (partnum p) req (articles p) {} hm) hm ps) s =
      (if \<exists>p \<in> set ps. s \<in> sa_serverid ` set (articles p)
       then Some ((case map_of hm s of None \<Rightarrow> 0 | Some n \<Rightarrow> n) + int (length (parts_on req ps s)))
       else map_of hm s)"
  using assms
proof (induction ps arbitrary: hm)
  case (Cons p ps)
  let ?h = "have_articles (partnum p) req (articles p) {} hm"
  have h: "smap_ok ?h" "map_of ?h s = (if s \<in> sa_serverid ` set (articles p)
       then Some ((case map_of hm s of None \<Rightarrow> 0 | Some n \<Rightarrow> n) + (if count_partnum (partnum p) req then 1 else 0))
       else map_of hm s)"
    using have_articles_state [OF Cons.prems, of "partnum p" req "articles p" "{}" s] by auto
  show ?case using Cons.IH [OF h(1)] h(2) by (auto simp: parts_on_def split: option.splits)
qed (simp add: parts_on_def)

section \<open>The properties\<close>

text \<open>The keys of the cached files are linearly ordered by \<open>operator<\<close>: it is irreflexive,
  transitive and total, and two keys neither of which is less are the ones \<open>operator==\<close> identifies, so
  that the ordered containers of files find a file under its key.\<close>

theorem file_base_order:
  "\<not> file_base_less a a \<and>
   (file_base_less a b \<longrightarrow> file_base_less b c \<longrightarrow> file_base_less a c) \<and>
   (file_base_eq a b \<longleftrightarrow> \<not> file_base_less a b \<and> \<not> file_base_less b a)"
proof (intro conjI impI)
  show "\<not> file_base_less a a" by (simp add: file_base_less_def)
  assume "file_base_less a b" "file_base_less b c"
  then show "file_base_less a c" using less_trans [of a b c] by (simp add: less_file_base_def)
next
  have "file_base_eq a b \<longleftrightarrow> a = b" by (auto simp: file_base_eq_def intro: file_base.expand)
  then show "file_base_eq a b \<longleftrightarrow> \<not> file_base_less a b \<and> \<not> file_base_less b a"
    using linorder_neq_iff [of a b] by (auto simp: less_file_base_def)
qed

theorem file_base_order_witness:
  "file_base_less (File_base 2 5 ''a'' ''s'' []) (File_base 2 5 ''b'' ''s'' [''<r>''])"
  using file_base_order [of "File_base 2 5 ''a'' ''s'' []" "File_base 2 5 ''a'' ''t'' []" "File_base 2 5 ''b'' ''s'' [''<r>'']"]
  by (simp add: file_base_less_def)

text \<open>Property C8. The vector of parts is a keyed store: over sorted parts with distinct numbers the binary
  search finds exactly the part with the number asked for, adding a part with a new number keeps the
  order and makes it the part found, and removing a number removes that part only.\<close>

theorem parts_vector_correct:
  assumes "parts_ok ps"
  shows "parts_part ps pn = find (\<lambda>p. partnum p = pn) ps \<and> haspart ps pn = (\<exists>p \<in> set ps. partnum p = pn) \<and>
    parts_ok (removepart ps pn) \<and> parts_part (removepart ps pn) k = (if k = pn then None else parts_part ps k) \<and>
    (parts_part ps (partnum p) = None \<longrightarrow> parts_ok (parts_add ps p) \<and>
       parts_part (parts_add ps p) k = (if k = partnum p then Some p else parts_part ps k))"
proof -
  have "haspart ps pn \<longleftrightarrow> parts_part ps pn \<noteq> None" by (simp add: haspart_def parts_part_def Let_def)
  then have "haspart ps pn = (\<exists>p \<in> set ps. partnum p = pn)" using parts_part_None [OF assms] by auto
  then show ?thesis
    using parts_part_find [OF assms] parts_store.invar_del [OF assms] parts_store.look_del [OF assms]
      parts_store.invar_add [OF assms] parts_store.look_add [OF assms] by simp
qed

theorem parts_vector_correct_witness:
  "parts_part (parts_add [part_new 1 0 ''a'', part_new 5 0 ''b''] (part_new 3 0 ''c'')) 3 = Some (part_new 3 0 ''c'')"
proof -
  have ok: "parts_ok [part_new 1 0 ''a'', part_new 5 0 ''b'']" by (simp add: parts_ok_def part_new_def)
  show ?thesis
    using parts_vector_correct [OF ok, of 3 3 "part_new 3 0 ''c''"] parts_part_None [OF ok, of 3]
    by (simp add: part_new_def)
qed

text \<open>Property C9. \<open>have\<close> counts the wanted parts: every way to build up a file keeps the invariant, a
  multipart file never has more than it needs, and it is complete by count exactly when each of the
  parts 1 to \<open>req\<close> is there.\<close>

theorem file_have_count:
  assumes "file_ok f" "parts_part (parts f) (partnum p) = None" "0 < fb_req (nf_base f)" "file_ok g"
  shows "file_ok (file_of h) \<and> file_ok (addpart p f) \<and> file_ok (addnewpart now p f) \<and>
    file_ok (fst (mergefile f g)) \<and>
    have_count f \<le> fb_req (nf_base f) \<and>
    (fb_req (nf_base f) \<le> have_count f \<longleftrightarrow> {1 .. fb_req (nf_base f)} \<subseteq> partnum ` set (parts f))"
proof -
  have "file_ok (f\<lparr>update_time := t\<rparr>)" for t using assms(1) by (simp add: file_ok_def wanted_def)
  moreover have "distinct (List.map partnum (parts g))"
    using assms(4) by (auto simp: file_ok_def parts_ok_def strict_sorted_iff)
  ultimately have "file_ok (fst (merge_parts (parts g) (f\<lparr>update_time := max (update_time f) (update_time g)\<rparr>)))"
    using merge_parts_ok by blast
  then have "file_ok (fst (mergefile f g))" by (simp add: mergefile_def prod.case_eq_if)
  then show ?thesis
    using file_new_ok(2) addpart_ok [OF assms(1,2)] addnewpart_ok [OF assms(1,2)] wanted_all [OF assms(1,3)] by simp
qed

definition example_header :: "int \<Rightarrow> int \<Rightarrow> string \<Rightarrow> header" where
  "example_header pn req mid =
     \<lparr>h_base = File_base req 5 ''poster'' ''pic (*/2)'' [], h_serverid = 1, h_group = 0, h_partnum = pn,
      h_tailoff = 8, h_articlenum = 10, h_date = 0, h_bytes = 500, h_lines = 10, h_messageid = mid\<rparr>"

theorem file_have_count_witness:
  "(2 \<le> have_count (addpart (part_of (example_header 1 2 ''<a>'')) (file_of (example_header 1 2 ''<a>''))) \<longleftrightarrow>
     {1 .. (2 :: int)} \<subseteq> {1})"
proof -
  let ?p = "part_of (example_header 1 2 ''<a>'')" and ?f = "file_of (example_header 1 2 ''<a>'')"
  let ?q = "part_of (example_header 2 2 ''<b>'')"
  have n: "partnum ?p = 1" "partnum ?q = 2"
    by (simp_all add: part_of_def addserverarticle_def part_new_def example_header_def)
  have f: "file_ok ?f" by (rule file_new_ok)
  have b: "parts ?f = []" "nf_base (addpart ?p ?f) = nf_base ?f" "fb_req (nf_base ?f) = 2"
    by (simp_all add: file_of_def addpart_def example_header_def)
  have e: "parts_part (parts ?f) (partnum ?p) = None" using b by (simp add: parts_part_find)
  have g: "file_ok (addpart ?p ?f)" "set (parts (addpart ?p ?f)) = {?p}"
    using addpart_ok [OF f e] b(1) by simp_all
  then have "parts_part (parts (addpart ?p ?f)) (partnum ?q) = None"
    using n by (simp add: file_ok_def parts_part_None)
  then show ?thesis using file_have_count [OF g(1) _ _ f, of ?q] b g n by simp
qed

text \<open>Property C10. Merging a file into another one with the same key: parts the first does not have are
  taken over, the articles of a part with the same message id are joined, and a part with the same
  number but another message id stays behind in the second file, which is empty exactly when there
  is no such part.\<close>

theorem mergefile_correct:
  assumes "file_ok f" "file_ok g"
  shows "parts_part (parts (fst (mergefile f g))) k =
      (case parts_part (parts g) k of
         None \<Rightarrow> parts_part (parts f) k
       | Some p \<Rightarrow> Some (merged_part (parts_part (parts f) k) p)) \<and>
    nf_base (fst (mergefile f g)) = nf_base f \<and>
    parts (snd (mergefile f g)) =
      filter (\<lambda>p. \<exists>mp. parts_part (parts f) (partnum p) = Some mp \<and> p_messageid mp \<noteq> p_messageid p) (parts g) \<and>
    update_time (fst (mergefile f g)) \<ge> update_time f"
proof -
  let ?f = "f\<lparr>update_time := max (update_time f) (update_time g)\<rparr>"
  have f: "file_ok ?f" using assms(1) by (simp add: file_ok_def wanted_def)
  have g: "parts_ok (parts g)" "distinct (List.map partnum (parts g))"
    using assms(2) by (auto simp: file_ok_def parts_ok_def strict_sorted_iff)
  have upd: "update_time (fst (merge_parts ps f')) = update_time f'" for ps f'
    by (induction ps f' rule: merge_parts.induct)
      (auto simp: merge_part_def addpart_def Let_def split: prod.splits option.splits)
  have "update_time (fst (mergefile f g)) = max (update_time f) (update_time g)"
    using upd [of "parts g" ?f] by (simp add: mergefile_def prod.case_eq_if)
  then show ?thesis
    using merge_parts_ok [OF f g(2)] parts_part_find [OF g(1)]
    by (simp add: mergefile_def prod.case_eq_if cong: option.case_cong)
qed

theorem mergefile_correct_witness:
  "parts (snd (mergefile (addpart (part_new 1 0 ''<a>'') (file_new 2 0 ''s'' ''p'' 3 4 9))
      (addpart (part_new 1 0 ''<b>'') (file_new 2 0 ''s'' ''p'' 3 4 8)))) = [part_new 1 0 ''<b>'']"
proof -
  have f: "file_ok (addpart (part_new 1 0 mid) (file_new 2 0 ''s'' ''p'' 3 4 t)) \<and>
      parts (addpart (part_new 1 0 mid) (file_new 2 0 ''s'' ''p'' 3 4 t)) = [part_new 1 0 mid]" for mid t
    by (simp add: file_ok_def wanted_def addpart_def file_new_def parts_add_def parts_lower_bound_def
        lb_loop.simps part_new_def count_partnum_def parts_ok_def)
  have p: "parts_ok [part_new 1 0 ''<a>'']" by (simp add: parts_ok_def)
  show ?thesis
    using mergefile_correct [of "addpart (part_new 1 0 ''<a>'') (file_new 2 0 ''s'' ''p'' 3 4 9)"
      "addpart (part_new 1 0 ''<b>'') (file_new 2 0 ''s'' ''p'' 3 4 8)" 1] f parts_part_find [OF p]
    by (simp add: part_new_def)
qed

text \<open>The header of a multipart article: for a subject with a part number \<open>m/req\<close> in round or
  square brackets after a nonempty beginning, and no slash after them, the part number is \<open>m\<close>, and
  the key of the file does not depend on \<open>m\<close>, so that all parts of a posting are filed together; part
  0 keeps the whole subject and wants no parts. A subject without a slash is no multipart.\<close>

theorem header_multipart:
  assumes "pre \<noteq> []" "int req < 2 ^ 31" "m \<le> req" "CHR ''/'' \<notin> set suf"
    "h' = header_set h (multipart_subject pre sq (show_nat m) req suf) a n d b l mid refs"
  shows "h_partnum h' = int m \<and> h_messageid h' = mid \<and> h_articlenum h' = n \<and>
    (0 < m \<longrightarrow> fb_req (h_base h') = int req \<and> fb_author (h_base h') = a \<and>
       fb_subject (h_base h') = multipart_subject pre sq ''*'' req suf \<and> fb_partoff (h_base h') = int (Suc (length pre))) \<and>
    (m = 0 \<longrightarrow> fb_req (h_base h') = 0 \<and> fb_subject (h_base h') = multipart_subject pre sq (show_nat 0) req suf) \<and>
    h_partnum (header_set h suf a n d b l mid refs) = - 1 \<and>
    fb_req (h_base (header_set h suf a n d b l mid refs)) = 0"
proof -
  let ?str = "multipart_subject pre sq (show_nat m) req suf"
  have m: "int m < 2 ^ 31" using assms(2,3) by linarith
  have s: "header_scan ?str (length ?str - 3) =
    Some (if m = 0 then 0 else int req, int m, Suc (length pre),
      length pre + 2 + length (show_nat m) + length (show_nat req), length pre + 1 + length (show_nat m))"
    using header_scan_subject [OF assms(1) m assms(2-4) refl refl] .
  have t: "take (Suc (length pre)) ?str @ ''*'' @ drop (length pre + 1 + length (show_nat m)) ?str =
      multipart_subject pre sq ''*'' req suf"
    by (simp add: multipart_subject_def)
  have "header_scan suf (length suf - 3) = None"
  proof (rule header_scan_none)
    fix i assume "0 < i" "i \<le> length suf - 3"
    then have "i < length suf" by simp
    then show "suf ! i \<noteq> CHR ''/''" using assms(4) by (metis nth_mem)
  qed
  then show ?thesis using s t assms(3,5) by (simp add: header_set_def Let_def del: append.simps)
qed

theorem header_multipart_witness:
  "h_base (header_set (example_header 0 0 []) (multipart_subject ''pic '' False (show_nat 1) 12 '' yEnc'') ''p'' 7 0 0 0 ''<a>'' None) =
   h_base (header_set (example_header 0 0 []) (multipart_subject ''pic '' False (show_nat 12) 12 '' yEnc'') ''p'' 8 0 0 0 ''<b>'' None)"
proof -
  have r: "fb_references (h_base (header_set h s a n d b l mid None)) = []" for h s a n d b l mid
    by (simp add: header_set_def Let_def split: option.splits)
  show ?thesis
    using header_multipart [of "''pic ''" 12 1 "'' yEnc''" _ "example_header 0 0 []" False "''p''" 7 0 0 0 "''<a>''" None, OF _ _ _ _ refl]
      header_multipart [of "''pic ''" 12 12 "'' yEnc''" _ "example_header 0 0 []" False "''p''" 8 0 0 0 "''<b>''" None, OF _ _ _ _ refl]
    by (intro file_base.expand) (simp add: r)
qed

text \<open>The map of what each server has of a file: a server is in it exactly when it has an
  article of some part, with the number of counted parts it has an article of, however many articles
  of a part it has.\<close>

theorem server_have_map_correct:
  "map_of (get_server_have_map f []) s =
     (if \<exists>p \<in> set (parts f). s \<in> sa_serverid ` set (articles p)
      then Some (int (length (parts_on (fb_req (nf_base f)) (parts f) s))) else None)"
  using have_map_fold [of "[]" "fb_req (nf_base f)" "parts f" s] by (simp add: get_server_have_map_def)

end
