(* ===== verification/Dupes.thy ===== *)
theory Dupes
  imports Strings
begin

text \<open>
  The check for files that are already on disk (\<open>dupe_file.cc\<close>) and the quoting of a string for a
  regular expression (\<open>myregex.cc\<close>). A compiled expression is its pattern; the regular expression
  library is an argument \<open>rx\<close> that tells whether a pattern is found in a string, and the markers for
  the start and the end of a word, which the program finds out by trial, are arguments. The lemmas:
  quoting can be undone, and the range of sizes that is searched is that of files of more than half
  and less than the whole of the posted bytes.
\<close>

definition regex_specials :: string where
  "regex_specials = [CHR 0x7B, CHR 0x7D, CHR ''('', CHR '')'', CHR ''|'', CHR ''['', CHR '']'', CHR 0x5C,
     CHR ''.'', CHR ''+'', CHR ''*'', CHR ''?'', CHR ''^'', CHR ''$'']"

fun regex_escape_string :: "string \<Rightarrow> string \<Rightarrow> string" where
  "regex_escape_string [] buf = buf"
| "regex_escape_string (c # s) buf =
     regex_escape_string s (buf @ (if c \<in> set regex_specials then [CHR 0x5C, c] else [c]))"

text \<open>The files by size, in the order of insertion among equal sizes, each with its pattern.\<close>

type_synonym dupe_checker = "(ulong \<times> string) list"

definition word_char_at :: "string \<Rightarrow> bool" where
  "word_char_at s \<longleftrightarrow> (case s of [] \<Rightarrow> False | c # _ \<Rightarrow> is_alnum c)"

definition dupe_pattern :: "string \<Rightarrow> string \<Rightarrow> string \<Rightarrow> string" where
  "dupe_pattern wbeg wend filename =
     (let b1 = (if word_char_at filename then wbeg else []);
          b2 = regex_escape_string filename b1
      in if b2 \<noteq> [] \<and> is_alnum (last b2) then b2 @ wend else b2)"

definition dupe_add :: "string \<Rightarrow> string \<Rightarrow> dupe_checker \<Rightarrow> string \<Rightarrow> ulong \<Rightarrow> dupe_checker" where
  "dupe_add wbeg wend flist filename sz = mmap_insert flist sz (dupe_pattern wbeg wend filename)"

text \<open>\<open>stat\<close> is an argument that gives the size of a file that can be examined.\<close>

definition dupe_addfile ::
  "string \<Rightarrow> string \<Rightarrow> (string \<Rightarrow> ulong option) \<Rightarrow> dupe_checker \<Rightarrow> string \<Rightarrow> string \<Rightarrow> dupe_checker" where
  "dupe_addfile wbeg wend stat flist path filename =
     dupe_add wbeg wend flist filename (case stat (path_join path filename) of Some n \<Rightarrow> n | None \<Rightarrow> 0)"

text \<open>A directory is the list of its entries.\<close>

definition dupe_addfrompath ::
  "string \<Rightarrow> string \<Rightarrow> (string \<Rightarrow> ulong option) \<Rightarrow> string list \<Rightarrow> dupe_checker \<Rightarrow> string \<Rightarrow> dupe_checker" where
  "dupe_addfrompath wbeg wend stat entries flist path =
     foldl (\<lambda>fl d. if d = ''..'' \<or> d = ''.'' then fl else dupe_addfile wbeg wend stat fl path d) flist entries"

fun dupe_scan :: "(string \<Rightarrow> string \<Rightarrow> bool) \<Rightarrow> dupe_checker \<Rightarrow> string \<Rightarrow> ulong \<Rightarrow> bool" where
  "dupe_scan rx [] f bytes = False"
| "dupe_scan rx ((sz, pat) # fl) f bytes =
     (if sz < bytes then (if rx pat f then True else dupe_scan rx fl f bytes) else False)"

definition checkhavefile :: "(string \<Rightarrow> string \<Rightarrow> bool) \<Rightarrow> dupe_checker \<Rightarrow> string \<Rightarrow> ulong \<Rightarrow> bool" where
  "checkhavefile rx flist f bytes = dupe_scan rx (dropWhile (\<lambda>p. fst p \<le> bytes div 2) flist) f bytes"

section \<open>Quoting and sizes\<close>

text \<open>The characters a quoted string stands for.\<close>

fun regex_unescape :: "string \<Rightarrow> string" where
  "regex_unescape [] = []"
| "regex_unescape [c] = [c]"
| "regex_unescape (c # d # s) = (if c = CHR 0x5C then d # regex_unescape s else c # regex_unescape (d # s))"

lemma regex_escape_append: "regex_escape_string s buf = buf @ regex_escape_string s []"
proof (induction s arbitrary: buf)
  case (Cons c s)
  show ?case
    using Cons.IH [of "buf @ (if c \<in> set regex_specials then [CHR 0x5C, c] else [c])"]
      Cons.IH [of "if c \<in> set regex_specials then [CHR 0x5C, c] else [c]"] by simp
qed simp

lemma regex_escape_Cons:
  "regex_escape_string (c # s) [] = (if c \<in> set regex_specials then [CHR 0x5C, c] else [c]) @ regex_escape_string s []"
  using regex_escape_append [of s "if c \<in> set regex_specials then [CHR 0x5C, c] else [c]"] by simp

lemma backslash_special: "CHR 0x5C \<in> set regex_specials"
  by (simp add: regex_specials_def)

lemma regex_unescape_plain: "c \<noteq> CHR 0x5C \<Longrightarrow> regex_unescape (c # s) = c # regex_unescape s"
  by (cases s) auto

lemma regex_unescape_escape: "regex_unescape (regex_escape_string s []) = s"
proof (induction s)
  case (Cons c s)
  show ?case
  proof (cases "c \<in> set regex_specials")
    case True
    then show ?thesis using Cons by (simp add: regex_escape_Cons del: regex_escape_string.simps)
  next
    case False
    then have "c \<noteq> CHR 0x5C" using backslash_special by metis
    then show ?thesis using Cons False
      by (simp add: regex_escape_Cons regex_unescape_plain del: regex_escape_string.simps)
  qed
qed simp

lemma dupe_scan_sorted:
  "mmap_ok fl \<Longrightarrow> dupe_scan rx fl f bytes \<longleftrightarrow> (\<exists>(sz, pat) \<in> set fl. sz < bytes \<and> rx pat f)"
proof (induction rx fl f bytes rule: dupe_scan.induct)
  case (2 rx sz pat fl f bytes)
  have ok: "mmap_ok fl" "\<forall>p \<in> set fl. sz \<le> fst p" using 2(2) by (auto simp: mmap_ok_def)
  show ?case
  proof (cases "sz < bytes")
    case True
    then show ?thesis using 2(1) [OF True _ ok(1)] by (cases "rx pat f") auto
  next
    case False
    then have "\<forall>p \<in> set fl. \<not> fst p < bytes" using ok(2) by (meson leD leI le_less_trans)
    then show ?thesis using False by auto
  qed
qed simp

lemma dropWhile_sorted:
  "mmap_ok fl \<Longrightarrow> mmap_ok (dropWhile (\<lambda>p. fst p \<le> b) fl) \<and>
     set (dropWhile (\<lambda>p. fst p \<le> b) fl) = {p \<in> set fl. b < fst p}"
proof (induction fl)
  case (Cons p fl)
  show ?case
  proof (cases "fst p \<le> b")
    case True
    then show ?thesis using Cons by (auto simp: mmap_ok_def)
  next
    case False
    then show ?thesis using Cons.prems by (fastforce simp: mmap_ok_def)
  qed
qed simp

lemma half_less: "(bytes :: ulong) div 2 < sz \<longleftrightarrow> unat bytes < 2 * unat sz"
proof -
  have "unat (bytes div 2) = unat bytes div 2" by (simp add: unat_div)
  moreover have "n div 2 < m \<longleftrightarrow> n < 2 * m" for n m :: nat by linarith
  ultimately show ?thesis unfolding word_less_nat_alt by simp
qed

lemma dupe_addfrompath_ok: "mmap_ok fl \<Longrightarrow> mmap_ok (dupe_addfrompath wbeg wend stat entries fl path)"
  unfolding dupe_addfrompath_def
  by (induction entries arbitrary: fl) (auto simp: dupe_addfile_def dupe_add_def mmap_ok_insert)

lemma set_dupe_addfrompath:
  "set (dupe_addfrompath wbeg wend stat entries fl path) = set fl \<union>
     (\<lambda>d. (case stat (path_join path d) of Some n \<Rightarrow> n | None \<Rightarrow> 0, dupe_pattern wbeg wend d)) ` (set entries - {''.'', ''..''})"
  unfolding dupe_addfrompath_def
  by (induction entries arbitrary: fl) (auto simp: dupe_addfile_def dupe_add_def)

text \<open>Property C11. A posting is taken for one that is on disk exactly when its subject matches the quoted
  name of a file in the directory with more than half of and less than all the posted bytes; the
  quoted name stands for the name itself.\<close>

theorem checkhavefile_correct:
  "checkhavefile rx (dupe_addfrompath wbeg wend stat entries [] path) f bytes \<longleftrightarrow>
     (\<exists>d \<in> set entries - {''.'', ''..''}.
        (let sz = (case stat (path_join path d) of Some n \<Rightarrow> n | None \<Rightarrow> 0)
         in unat bytes < 2 * unat sz \<and> sz < bytes \<and> rx (dupe_pattern wbeg wend d) f)) \<and>
   regex_unescape (regex_escape_string s []) = s"
proof -
  let ?fl = "dupe_addfrompath wbeg wend stat entries [] path"
  have ok: "mmap_ok ?fl" by (rule dupe_addfrompath_ok) simp
  have "checkhavefile rx ?fl f bytes \<longleftrightarrow> (\<exists>(sz, pat) \<in> set ?fl. unat bytes < 2 * unat sz \<and> sz < bytes \<and> rx pat f)"
    using dupe_scan_sorted [of "dropWhile (\<lambda>p. fst p \<le> bytes div 2) ?fl" rx f bytes]
      dropWhile_sorted [OF ok, of "bytes div 2"]
    by (auto simp: checkhavefile_def half_less)
  then show ?thesis
    by (auto simp: set_dupe_addfrompath Let_def regex_unescape_escape)
qed

end
