(* ===== verification/Cache.thy ===== *)
theory Cache
  imports Nrange Midinfo Article Dupes "HOL-Library.Multiset"
begin

text \<open>
  The header cache of a group (\<open>c_nntp_cache\<close> in \<open>cache.h\<close> and \<open>cache.cc\<close>): adding the headers that a
  server sends, the range of article numbers that are still to be fetched, flushing the headers that
  have expired, and the selection of the files to retrieve. The multimap of files is the list of its
  entries in iteration order. The lemmas state the invariant of the cache, that adding and flushing
  keep it, what a flush removes, and which numbers are left to fetch.
\<close>

section \<open>Per server bookkeeping\<close>

record server_info =
  si_serverid :: ulong
  si_high :: ulong
  si_low :: ulong
  si_num :: ulong

definition server_info_reset :: "server_info \<Rightarrow> server_info" where
  "server_info_reset si = si\<lparr>si_high := 0, si_low := ULONG_MAX, si_num := 0\<rparr>"

definition server_info_new :: "ulong \<Rightarrow> server_info" where
  "server_info_new sid = server_info_reset \<lparr>si_serverid = sid, si_high = 0, si_low = 0, si_num = 0\<rparr>"

record cache =
  cache_file :: string
  cfiles :: "(file_base \<times> nntp_file) list"
  totalnum :: ulong
  server_infos :: "(ulong \<times> server_info) list"
  cache_group :: group_ptr
  saveit :: bool
  fileread :: int

definition getserverinfo :: "ulong \<Rightarrow> cache \<Rightarrow> server_info \<times> cache" where
  "getserverinfo sid c =
     (case map_of (server_infos c) sid of
        Some si \<Rightarrow> (si, c)
      | None \<Rightarrow> (server_info_new sid, c\<lparr>server_infos := smap_insert (server_infos c) sid (server_info_new sid)\<rparr>))"

text \<open>An update through the pointer that \<open>getserverinfo\<close> returns.\<close>

definition put_server_info :: "server_info \<Rightarrow> cache \<Rightarrow> cache" where
  "put_server_info si c = c\<lparr>server_infos := smap_put (server_infos c) (si_serverid si) si\<rparr>"

definition infos_multiserver :: "(ulong \<times> server_info) list \<Rightarrow> bool" where
  "infos_multiserver infos \<longleftrightarrow> length (filter (\<lambda>(sid, si). si_num si > 0) infos) > 1"

definition ismultiserver :: "cache \<Rightarrow> bool" where
  "ismultiserver c = infos_multiserver (server_infos c)"

section \<open>Adding a header\<close>

text \<open>The search through the files with the header's key: the changed list and whether a part was added,
  or \<open>None\<close> when no file took the header.\<close>

fun additem_loop :: "int \<Rightarrow> header \<Rightarrow> (file_base \<times> nntp_file) list \<Rightarrow> ((file_base \<times> nntp_file) list \<times> bool) option" where
  "additem_loop now h [] = None"
| "additem_loop now h ((k, f) # fs) =
     (if k \<noteq> h_base h then map_option (\<lambda>(fs', b). ((k, f) # fs', b)) (additem_loop now h fs)
      else
        (case parts_part (parts f) (h_partnum h) of
           Some mp \<Rightarrow>
             if p_messageid mp = h_messageid h
             then Some ((k, f\<lparr>parts := parts_modify (parts f) (h_partnum h) (addserverarticle h)\<rparr>) # fs, False)
             else map_option (\<lambda>(fs', b). ((k, f) # fs', b)) (additem_loop now h fs)
         | None \<Rightarrow> Some ((k, addnewpart now (part_of h) f) # fs, True)))"

definition note_article :: "header \<Rightarrow> server_info \<Rightarrow> server_info" where
  "note_article h si =
     si\<lparr>si_high := (if h_articlenum h > si_high si then h_articlenum h else si_high si),
        si_low := (if h_articlenum h < si_low si then h_articlenum h else si_low si),
        si_num := si_num si + 1\<rparr>"

definition additem :: "int \<Rightarrow> header \<Rightarrow> cache \<Rightarrow> int \<times> cache" where
  "additem now h c =
     (case getserverinfo (h_serverid h) c of (si, c1) \<Rightarrow>
        (let c2 = (put_server_info (note_article h si) c1)\<lparr>saveit := True\<rparr>
         in case additem_loop now h (cfiles c2) of
              Some (fs, newpart) \<Rightarrow>
                (0, c2\<lparr>cfiles := fs, totalnum := (if newpart then totalnum c2 + 1 else totalnum c2)\<rparr>)
            | None \<Rightarrow>
                (1, c2\<lparr>cfiles := mmap_insert (cfiles c2) (h_base h) (addnewpart now (part_of h) (file_of h)),
                       totalnum := totalnum c2 + 1\<rparr>)))"

section \<open>What is still to be fetched\<close>

definition cache_parts :: "cache \<Rightarrow> part list" where
  "cache_parts c = concat (List.map (\<lambda>(k, f). parts f) (cfiles c))"

definition cache_articles :: "cache \<Rightarrow> server_article list" where
  "cache_articles c = concat (List.map articles (cache_parts c))"

definition getxrange_have :: "server_info \<Rightarrow> cache \<Rightarrow> rlist \<Rightarrow> rlist" where
  "getxrange_have si c rng =
     foldl (\<lambda>r sa. if sa_serverid sa = si_serverid si then nr_remove1 r (sa_articlenum sa) else r)
       rng (cache_articles c)"

definition getxrange :: "server_info \<Rightarrow> ulong \<Rightarrow> ulong \<Rightarrow> cache \<Rightarrow> rlist" where
  "getxrange si newlow newhigh c =
     getxrange_have si c (nr_insert2 [] (if newlow < si_low si then newlow else si_low si) newhigh)"

section \<open>Flushing\<close>

text \<open>The state the loops of \<open>flush\<close> change: the record of fetched messages, the messages related to
  what stays, and the counts of articles, parts and files.\<close>

record flush_state =
  fl_midinfo :: meta_mid_info
  fl_rel :: mid_info
  fl_count :: ulong
  fl_countp :: ulong
  fl_countf :: ulong

definition flushed :: "ulong \<Rightarrow> rlist \<Rightarrow> server_article \<Rightarrow> bool" where
  "flushed sid rng sa \<longleftrightarrow> sa_serverid sa = sid \<and> nr_check rng (sa_articlenum sa)"

text \<open>The loop over the articles of a part, from the last one to the first.\<close>

fun flush_articles :: "ulong \<Rightarrow> rlist \<Rightarrow> server_article list \<Rightarrow> ulong \<Rightarrow> server_article list \<times> ulong" where
  "flush_articles sid rng [] cnt = ([], cnt)"
| "flush_articles sid rng (sa # sas) cnt =
     (case flush_articles sid rng sas cnt of (sas', cnt') \<Rightarrow>
        if flushed sid rng sa then (sas', cnt' + 1) else (sa # sas', cnt'))"

text \<open>The loop over the parts of a file, from the last one to the first, with the file's \<open>have\<close>.\<close>

fun flush_parts :: "int \<Rightarrow> ulong \<Rightarrow> rlist \<Rightarrow> int \<Rightarrow> part list \<Rightarrow> int \<Rightarrow> flush_state \<Rightarrow> part list \<times> int \<times> flush_state" where
  "flush_parts now sid rng req [] hv st = ([], hv, st)"
| "flush_parts now sid rng req (p # ps) hv st =
     (case flush_parts now sid rng req ps hv st of (ps', hv', st1) \<Rightarrow>
        (case flush_articles sid rng (articles p) (fl_count st1) of (as, cnt') \<Rightarrow>
           (let st2 = st1\<lparr>fl_count := cnt'\<rparr>
            in if as = [] then
                 (ps', if count_partnum (partnum p) req then hv' - 1 else hv',
                  st2\<lparr>fl_midinfo := mmi_set_delete now (fl_midinfo st2) (p_messageid p),
                      fl_countp := fl_countp st2 + 1\<rparr>)
               else
                 (p\<lparr>articles := as\<rparr> # ps', hv',
                  if mmi_check (fl_midinfo st2) (p_messageid p)
                  then st2\<lparr>fl_rel := mi_insert now (fl_rel st2) (p_messageid p)\<rparr> else st2))))"

definition flush_file :: "int \<Rightarrow> ulong \<Rightarrow> rlist \<Rightarrow> nntp_file \<Rightarrow> flush_state \<Rightarrow> nntp_file option \<times> flush_state" where
  "flush_file now sid rng f st =
     (case flush_parts now sid rng (fb_req (nf_base f)) (parts f) (have_count f) st of (ps, hv, st') \<Rightarrow>
        if ps = [] then (None, st'\<lparr>fl_countf := fl_countf st' + 1\<rparr>)
        else (Some (f\<lparr>parts := ps, have_count := hv\<rparr>), st'))"

fun flush_files ::
  "int \<Rightarrow> ulong \<Rightarrow> rlist \<Rightarrow> (file_base \<times> nntp_file) list \<Rightarrow> flush_state \<Rightarrow> (file_base \<times> nntp_file) list \<times> flush_state" where
  "flush_files now sid rng [] st = ([], st)"
| "flush_files now sid rng ((k, f) # fs) st =
     (case flush_file now sid rng f st of (f', st1) \<Rightarrow>
        (case flush_files now sid rng fs st1 of (fs', st2) \<Rightarrow>
           (case f' of None \<Rightarrow> fs' | Some g \<Rightarrow> (k, g) # fs', st2)))"

definition flush_range :: "server_info \<Rightarrow> rlist \<Rightarrow> rlist" where
  "flush_range si rng = nr_remove (nr_remove rng 0 (si_low si - 1)) (si_high si + 1) ULONG_MAX"

definition flush :: "int \<Rightarrow> server_info \<Rightarrow> rlist \<Rightarrow> meta_mid_info \<Rightarrow> cache \<Rightarrow> ulong \<times> meta_mid_info \<times> cache" where
  "flush now si flushrange midinfo c =
     (let rng = flush_range si flushrange
      in if nr_empty rng then (0, midinfo, c)
         else
           (case flush_files now (si_serverid si) rng (cfiles c)
                   \<lparr>fl_midinfo = midinfo, fl_rel = \<lparr>mi_file = [], changed = False, states = []\<rparr>,
                    fl_count = 0, fl_countp = 0, fl_countf = 0\<rparr> of
              (fs, st) \<Rightarrow>
                (fl_count st,
                 mmi_do_delete_fun now (fl_rel st) (fl_midinfo st),
                 (put_server_info (si\<lparr>si_num := si_num si - fl_count st\<rparr>) c)
                   \<lparr>cfiles := fs, totalnum := totalnum c - fl_countp st,
                    saveit := saveit c \<or> fl_count st \<noteq> 0\<rparr>)))"

definition flushlow :: "int \<Rightarrow> server_info \<Rightarrow> ulong \<Rightarrow> meta_mid_info \<Rightarrow> cache \<Rightarrow> ulong \<times> meta_mid_info \<times> cache" where
  "flushlow now si newlow midinfo c =
     (case flush now si (nr_insert2 [] 0 (newlow - 1)) midinfo c of (r, midinfo', c') \<Rightarrow>
        (let si' = the (map_of (server_infos c') (si_serverid si))
         in (r, midinfo', put_server_info (si'\<lparr>si_low := newlow\<rparr>) c')))"

section \<open>Selecting the files to retrieve\<close>

record file_retr =
  fr_path :: string
  fr_temppath :: string
  fr_file :: nntp_file
  fr_dupecheck :: bool

record files_u =
  fu_bytes :: ulong
  fu_lines :: ulong
  fu_files :: "(int \<times> file_retr) list"

definition files_u_new :: files_u where
  "files_u_new = \<lparr>fu_bytes = 0, fu_lines = 0, fu_files = []\<rparr>"

definition addfile :: "nget_config \<Rightarrow> prio_grouping \<Rightarrow> nntp_file \<Rightarrow> string \<Rightarrow> string \<Rightarrow> bool \<Rightarrow> files_u \<Rightarrow> files_u" where
  "addfile nconfig trust f path temppath dupecheck fc =
     fc\<lparr>fu_files := mmap_insert (fu_files fc) (badate f)
          \<lparr>fr_path = path, fr_temppath = temppath, fr_file = f, fr_dupecheck = dupecheck\<rparr>,
        fu_lines := fu_lines fc + file_lines nconfig trust f,
        fu_bytes := fu_bytes fc + file_bytes nconfig trust f\<rparr>"

text \<open>One request of the user: where to, which files, the flags of \<open>nget.h\<close>, and the files on disk.\<close>

record getinfo =
  gi_path :: string
  gi_temppath :: string
  gi_pred :: "nntp_file \<Rightarrow> bool"
  gi_getincomplete :: bool
  gi_nodupeidcheck :: bool
  gi_nodupefilecheck :: bool
  gi_dupefilemark :: bool
  gi_noautopar :: bool
  gi_testmode :: bool
  gi_mark :: bool
  gi_unmark :: bool
  gi_nodecode :: bool
  gi_flist :: dupe_checker

definition autopar_disabled :: "getinfo \<Rightarrow> bool" where
  "autopar_disabled info \<longleftrightarrow>
     gi_noautopar info \<or> gi_testmode info \<or> gi_mark info \<or> gi_unmark info \<or> gi_nodecode info"

text \<open>\<open>c_nntp_getinfo\<close>: the files on disk are listed unless the check is turned off.\<close>

definition getinfo_flist ::
  "string \<Rightarrow> string \<Rightarrow> (string \<Rightarrow> ulong option) \<Rightarrow> (string \<Rightarrow> string list) \<Rightarrow> string list \<Rightarrow> getinfo \<Rightarrow> getinfo" where
  "getinfo_flist wbeg wend stat dir dupepaths info =
     (if gi_nodupefilecheck info then info
      else info\<lparr>gi_flist :=
        foldl (\<lambda>fl p. dupe_addfrompath wbeg wend stat (dir p) fl p) (gi_flist info) (dupepaths @ [gi_path info])\<rparr>)"

text \<open>The groups of the articles of a file's first part, by name.\<close>

definition first_part_groups :: "nget_config \<Rightarrow> nntp_file \<Rightarrow> string list" where
  "first_part_groups nconfig f =
     List.map (\<lambda>sa. gi_group (ginfos nconfig ! sa_group sa)) (articles (hd (parts f)))"

text \<open>The loop over the requests. The par handler is a state with the operation \<open>maybe_add\<close>
  (\<open>ParHandler::maybe_add_parfile\<close>), the regular expression library the argument \<open>rx\<close>.\<close>

record 'ph getfile_state =
  gs_fc :: files_u
  gs_par :: 'ph
  gs_midinfo :: meta_mid_info

definition getfile_wants :: "nget_config \<Rightarrow> prio_grouping \<Rightarrow> meta_mid_info \<Rightarrow> getinfo \<Rightarrow> nntp_file \<Rightarrow> bool" where
  "getfile_wants nconfig trust midinfo info f \<longleftrightarrow>
     (\<not> autopar_disabled info \<or> gi_getincomplete info \<or> iscomplete nconfig trust f) \<and>
     (gi_nodupeidcheck info \<or> \<not> mmi_check midinfo (bamid f)) \<and>
     gi_pred info f"

fun cache_getfile ::
  "nget_config \<Rightarrow> prio_grouping \<Rightarrow> (string \<Rightarrow> string \<Rightarrow> bool) \<Rightarrow>
   (nntp_file \<Rightarrow> string \<Rightarrow> string \<Rightarrow> bool \<Rightarrow> 'ph \<Rightarrow> bool \<times> 'ph) \<Rightarrow> int \<Rightarrow>
   getinfo list \<Rightarrow> nntp_file \<Rightarrow> 'ph getfile_state \<Rightarrow> 'ph getfile_state"
where
  "cache_getfile nconfig trust rx maybe_add now [] f st = st"
| "cache_getfile nconfig trust rx maybe_add now (info # infos) f st =
     (if getfile_wants nconfig trust (gs_midinfo st) info f then
        (case (if autopar_disabled info then (False, gs_par st)
               else maybe_add f (gi_path info) (gi_temppath info) (gi_getincomplete info) (gs_par st)) of
           (taken, par') \<Rightarrow>
             (let st1 = st\<lparr>gs_par := par'\<rparr>
              in if taken then cache_getfile nconfig trust rx maybe_add now infos f st1
                 else if \<not> autopar_disabled info \<and> \<not> (gi_getincomplete info \<or> iscomplete nconfig trust f)
                 then cache_getfile nconfig trust rx maybe_add now infos f st1
                 else if list_ex (\<lambda>fr. bamid (fr_file fr) = bamid f) (mmap_equal_range (fu_files (gs_fc st1)) (badate f))
                 then st1
                 else if \<not> gi_nodupefilecheck info \<and>
                         checkhavefile rx (gi_flist info) (fb_subject (nf_base f)) (file_bytes nconfig trust f)
                 then cache_getfile nconfig trust rx maybe_add now infos f
                        (if gi_dupefilemark info
                         then st1\<lparr>gs_midinfo := mmi_insert now (bamid f) (first_part_groups nconfig f) (gs_midinfo st1)\<rparr>
                         else st1)
                 else st1\<lparr>gs_fc := addfile nconfig trust f (gi_path info) (gi_temppath info) True (gs_fc st1)\<rparr>))
      else cache_getfile nconfig trust rx maybe_add now infos f st)"

definition getfiles ::
  "nget_config \<Rightarrow> prio_grouping \<Rightarrow> (string \<Rightarrow> string \<Rightarrow> bool) \<Rightarrow>
   (nntp_file \<Rightarrow> string \<Rightarrow> string \<Rightarrow> bool \<Rightarrow> 'ph \<Rightarrow> bool \<times> 'ph) \<Rightarrow> int \<Rightarrow>
   getinfo list \<Rightarrow> cache \<Rightarrow> 'ph getfile_state \<Rightarrow> 'ph getfile_state" where
  "getfiles nconfig trust rx maybe_add now infos c st =
     foldl (\<lambda>st (k, f). cache_getfile nconfig trust rx maybe_add now infos f st) st (cfiles c)"

section \<open>The invariant of the cache\<close>

definition entry_ok :: "file_base \<times> nntp_file \<Rightarrow> bool" where
  "entry_ok e \<longleftrightarrow>
     nf_base (snd e) = fst e \<and> file_ok (snd e) \<and> parts (snd e) \<noteq> [] \<and> (\<forall>p \<in> set (parts (snd e)). articles p \<noteq> [])"

definition file_arts :: "nntp_file \<Rightarrow> server_article list" where
  "file_arts f = concat (List.map articles (parts f))"

definition of_server :: "ulong \<Rightarrow> server_article list \<Rightarrow> server_article list" where
  "of_server sid sas = filter (\<lambda>sa. sa_serverid sa = sid) sas"

text \<open>What a server's entry says of the articles: their number, and bounds of their article numbers. The
  bounds are not there to rely on when servers use the largest and the smallest number there is.\<close>

definition info_ok :: "bool \<Rightarrow> ulong \<Rightarrow> server_info option \<Rightarrow> server_article list \<Rightarrow> bool" where
  "info_ok bd sid si sas \<longleftrightarrow>
     (case si of
        None \<Rightarrow> of_server sid sas = []
      | Some si \<Rightarrow> si_serverid si = sid \<and> si_num si = of_nat (length (of_server sid sas)) \<and>
          (bd \<longrightarrow> (\<forall>sa \<in> set (of_server sid sas). si_low si \<le> sa_articlenum sa \<and> sa_articlenum sa \<le> si_high si)))"

definition cache_inv :: "bool \<Rightarrow> cache \<Rightarrow> bool" where
  "cache_inv bd c \<longleftrightarrow>
     mmap_ok (cfiles c) \<and> (\<forall>e \<in> set (cfiles c). entry_ok e) \<and>
     totalnum c = of_nat (length (cache_parts c)) \<and>
     smap_ok (server_infos c) \<and> (\<forall>sid. info_ok bd sid (map_of (server_infos c) sid) (cache_articles c))"

abbreviation cache_ok :: "cache \<Rightarrow> bool" where
  "cache_ok \<equiv> cache_inv True"

definition list_parts :: "(file_base \<times> nntp_file) list \<Rightarrow> part list" where
  "list_parts fs = concat (List.map (\<lambda>(k, f). parts f) fs)"

definition list_arts :: "(file_base \<times> nntp_file) list \<Rightarrow> server_article list" where
  "list_arts fs = concat (List.map articles (list_parts fs))"

lemma list_simps [simp]:
  "list_parts [] = []" "list_parts ((k, f) # fs) = parts f @ list_parts fs"
  "list_arts [] = []" "list_arts ((k, f) # fs) = file_arts f @ list_arts fs"
  by (simp_all add: list_parts_def list_arts_def file_arts_def)

lemma cache_lists: "cache_parts c = list_parts (cfiles c)" "cache_articles c = list_arts (cfiles c)"
  by (simp_all add: cache_parts_def cache_articles_def list_parts_def list_arts_def)

lemma info_ok_mset:
  assumes "mset sas = mset sas'"
  shows "info_ok bd sid si sas = info_ok bd sid si sas'"
proof -
  have "mset (of_server sid sas) = mset (of_server sid sas')" using assms by (simp add: of_server_def)
  then have "length (of_server sid sas) = length (of_server sid sas')"
    "set (of_server sid sas) = set (of_server sid sas')"
    by (metis size_mset, metis set_mset_mset)
  then show ?thesis by (auto simp: info_ok_def split: option.splits)
qed

section \<open>Adding a header\<close>

lemma parts_add_arts:
  "mset (concat (List.map articles (parts_add ps p))) = mset (articles p) + mset (concat (List.map articles ps))"
proof -
  have "concat (List.map articles ps) = concat (List.map articles (take i ps)) @ concat (List.map articles (drop i ps))" for i
    by (metis append_take_drop_id concat_append map_append)
  then have "mset (concat (List.map articles ps)) =
      mset (concat (List.map articles (take i ps))) + mset (concat (List.map articles (drop i ps)))" for i
    by (metis mset_append)
  then show ?thesis by (simp add: parts_add_def Let_def del: mset_concat)
qed

lemma length_parts_add: "length (parts_add ps p) = Suc (length ps)"
  by (simp add: parts_add_def Let_def)

lemma parts_modify_other: "\<forall>q \<in> set ps. partnum q \<noteq> k \<Longrightarrow> parts_modify ps k g = ps"
  by (induction ps) (auto simp: parts_modify_def)

lemma parts_modify_arts:
  "parts_ok ps \<Longrightarrow> p \<in> set ps \<Longrightarrow> partnum p = k \<Longrightarrow>
     mset (concat (List.map articles (parts_modify ps k (addserverarticle h)))) =
       add_mset (article_of h) (mset (concat (List.map articles ps)))"
proof (induction ps)
  case (Cons q ps)
  show ?case
  proof (cases "q = p")
    case True
    then have "parts_modify ps k (addserverarticle h) = ps"
      using Cons.prems by (intro parts_modify_other) (auto simp: parts_ok_Cons)
    moreover have "parts_modify (q # ps) k (addserverarticle h) = addserverarticle h q # parts_modify ps k (addserverarticle h)"
      using True Cons.prems by (simp add: parts_modify_def)
    ultimately show ?thesis by (simp only:) (simp add: addserverarticle_def)
  next
    case False
    then have "partnum q \<noteq> k" using Cons.prems by (auto simp: parts_ok_Cons)
    then show ?thesis using False Cons by (simp add: parts_modify_def parts_ok_Cons)
  qed
qed simp

lemma addnewpart_entry:
  assumes "nf_base f = k" "file_ok f" "\<forall>p \<in> set (parts f). articles p \<noteq> []"
    and "parts_part (parts f) (h_partnum h) = None"
  shows "entry_ok (k, addnewpart now (part_of h) f) \<and>
    mset (file_arts (addnewpart now (part_of h) f)) = add_mset (article_of h) (mset (file_arts f)) \<and>
    length (parts (addnewpart now (part_of h) f)) = Suc (length (parts f))"
proof -
  have p: "partnum (part_of h) = h_partnum h" "articles (part_of h) = [article_of h]"
    by (simp_all add: part_of_def addserverarticle_def part_new_def)
  have a: "file_ok (addnewpart now (part_of h) f)" "nf_base (addnewpart now (part_of h) f) = k"
    using addnewpart_ok [OF assms(2), of "part_of h"] assms(1,4) p by simp_all
  have ps: "parts (addnewpart now (part_of h) f) = parts_add (parts f) (part_of h)"
    by (simp add: addnewpart_def addpart_def)
  have s: "set (parts_add (parts f) (part_of h)) = insert (part_of h) (set (parts f))"
    using parts_add_ok [of "parts f" "part_of h"] assms(2,4) p by (simp add: file_ok_def)
  then have "parts_add (parts f) (part_of h) \<noteq> []" by auto
  then show ?thesis
    using a ps s assms(3) p
    by (simp add: entry_ok_def file_arts_def parts_add_arts length_parts_add del: mset_concat)
qed

lemma additem_loop_ok:
  assumes "additem_loop now h fs = Some (fs', b)" "\<forall>e \<in> set fs. entry_ok e"
  shows "(\<forall>e \<in> set fs'. entry_ok e) \<and> List.map fst fs' = List.map fst fs \<and>
    mset (list_arts fs') = add_mset (article_of h) (mset (list_arts fs)) \<and>
    length (list_parts fs') = length (list_parts fs) + (if b then 1 else 0)"
  using assms
proof (induction fs arbitrary: fs' b)
  case (Cons e fs)
  obtain k f where e: "e = (k, f)" by (cases e)
  have eo: "entry_ok (k, f)" using Cons.prems e by simp
  show ?case
  proof (cases "additem_loop now h (e # fs) = map_option (\<lambda>(fs', b). ((k, f) # fs', b)) (additem_loop now h fs)")
    case True
    then obtain fs1 where "additem_loop now h fs = Some (fs1, b)" "fs' = (k, f) # fs1"
      using Cons.prems(1) by (cases "additem_loop now h fs") auto
    then show ?thesis using Cons.IH [of fs1 b] Cons.prems(2) e by auto
  next
    case False
    then have k: "k = h_base h" using e by (auto split: if_splits)
    show ?thesis
    proof (cases "parts_part (parts f) (h_partnum h)")
      case None
      have "fs' = (k, addnewpart now (part_of h) f) # fs" "b" using Cons.prems(1) e k None by simp_all
      then show ?thesis
        using addnewpart_entry [of f k h now] eo None Cons.prems(2) e by (simp add: entry_ok_def)
    next
      case (Some mp)
      then have mid: "p_messageid mp = h_messageid h" using False e k by (auto split: if_splits)
      let ?ps = "parts_modify (parts f) (h_partnum h) (addserverarticle h)"
      have r: "fs' = (k, f\<lparr>parts := ?ps\<rparr>) # fs" "\<not> b" using Cons.prems(1) e k Some mid by simp_all
      have fo: "file_ok f" "nf_base f = k" "parts f \<noteq> []" "\<forall>p \<in> set (parts f). articles p \<noteq> []"
        using eo by (simp_all add: entry_ok_def)
      have po: "parts_ok (parts f)" using fo by (simp add: file_ok_def)
      then have mp: "mp \<in> set (parts f)" "partnum mp = h_partnum h" using Some by (simp_all add: parts_part_Some)
      have ad: "partnum (addserverarticle h p) = partnum p" for p by (simp add: addserverarticle_def)
      have "file_ok (f\<lparr>parts := ?ps\<rparr>)" using file_ok_modify [OF fo(1)] ad by simp
      moreover have "?ps \<noteq> []" using fo by (simp add: parts_modify_def)
      moreover have "\<forall>p \<in> set ?ps. articles p \<noteq> []" using fo by (auto simp: parts_modify_def addserverarticle_def)
      ultimately have "entry_ok (k, f\<lparr>parts := ?ps\<rparr>)" using fo by (simp add: entry_ok_def)
      moreover have "mset (file_arts (f\<lparr>parts := ?ps\<rparr>)) = add_mset (article_of h) (mset (file_arts f))"
        using parts_modify_arts [OF po mp(1,2)] by (simp add: file_arts_def)
      moreover have "length ?ps = length (parts f)" by (simp add: parts_modify_def)
      ultimately show ?thesis using r Cons.prems(2) e by simp
    qed
  qed
qed simp

lemma mmap_insert_lists:
  "mset (list_arts (mmap_insert fs k f)) = mset (file_arts f) + mset (list_arts fs)"
  "length (list_parts (mmap_insert fs k f)) = length (parts f) + length (list_parts fs)"
  by (induction fs k f rule: mmap_insert.induct) (auto simp: ac_simps)

lemma file_of_entry: "entry_ok (h_base h, addnewpart now (part_of h) (file_of h))"
  "mset (file_arts (addnewpart now (part_of h) (file_of h))) = {#article_of h#}"
  "length (parts (addnewpart now (part_of h) (file_of h))) = 1"
proof -
  have "parts_part [] n = None" for n by (simp add: parts_part_find)
  then show "entry_ok (h_base h, addnewpart now (part_of h) (file_of h))"
    "mset (file_arts (addnewpart now (part_of h) (file_of h))) = {#article_of h#}"
    "length (parts (addnewpart now (part_of h) (file_of h))) = 1"
    using addnewpart_entry [of "file_of h" "h_base h" h now]
    by (simp_all add: file_new_ok(2)) (simp_all add: file_of_def file_arts_def)
qed

lemma getserverinfo_info:
  assumes "smap_ok (server_infos c)" "getserverinfo sid c = (si, c1)"
    and "\<forall>s. info_ok bd s (map_of (server_infos c) s) sas"
  shows "smap_ok (server_infos c1) \<and> info_ok bd sid (Some si) sas \<and>
    (\<forall>s. s \<noteq> sid \<longrightarrow> map_of (server_infos c1) s = map_of (server_infos c) s) \<and>
    cfiles c1 = cfiles c \<and> totalnum c1 = totalnum c"
proof (cases "map_of (server_infos c) sid")
  case None
  have "info_ok bd sid (Some (server_info_new sid)) sas"
    using assms(3) [THEN spec, of sid] None by (simp add: info_ok_def server_info_new_def server_info_reset_def)
  then show ?thesis using assms(1,2) None
    by (auto simp: getserverinfo_def map_of_smap_insert smap_ok_insert)
next
  case (Some s)
  then show ?thesis using assms(1,2) assms(3) [THEN spec, of sid]
    by (simp add: getserverinfo_def)
qed

lemma note_article_info:
  assumes "info_ok bd sid (Some si) sas" "h_serverid h = sid" "mset sas' = add_mset (article_of h) (mset sas)"
  shows "info_ok bd sid (Some (note_article h si)) sas'"
proof -
  have "info_ok bd sid (Some (note_article h si)) (article_of h # sas)"
    using assms(1,2)
    by (auto simp: info_ok_def of_server_def note_article_def article_of_def not_less intro: order_trans)
  then show ?thesis using info_ok_mset [of sas' "article_of h # sas"] assms(3) by simp
qed

lemma info_other:
  assumes "info_ok bd s oi sas" "s \<noteq> h_serverid h" "mset sas' = add_mset (article_of h) (mset sas)"
  shows "info_ok bd s oi sas'"
proof -
  have "of_server s (article_of h # sas) = of_server s sas"
    using assms(2) by (simp add: of_server_def article_of_def)
  then have "info_ok bd s oi (article_of h # sas)" using assms(1) by (simp only: info_ok_def)
  then show ?thesis using info_ok_mset [of sas' "article_of h # sas"] assms(3) by simp
qed

lemma additem_files:
  assumes "mmap_ok fs" "\<forall>e \<in> set fs. entry_ok e"
    and r_def: "r = (case additem_loop now h fs of Some (fs', b) \<Rightarrow> (fs', if b then 1 else 0)
      | None \<Rightarrow> (mmap_insert fs (h_base h) (addnewpart now (part_of h) (file_of h)), 1))"
  shows "mmap_ok (fst r) \<and> (\<forall>e \<in> set (fst r). entry_ok e) \<and>
    mset (list_arts (fst r)) = add_mset (article_of h) (mset (list_arts fs)) \<and>
    length (list_parts (fst r)) = length (list_parts fs) + snd r"
proof (cases "additem_loop now h fs")
  case None
  then show ?thesis using assms(1,2) file_of_entry [where now = now and h = h]
    by (auto simp: r_def mmap_insert_lists)
next
  case (Some p)
  obtain fs' b where p: "p = (fs', b)" by (cases p)
  then show ?thesis using additem_loop_ok [of now h fs fs' b] Some assms(1,2)
    by (simp add: r_def mmap_ok_def)
qed

lemma additem_ok:
  assumes "cache_inv bd c"
  shows "cache_inv bd (snd (additem now h c)) \<and>
    mset (cache_articles (snd (additem now h c))) = add_mset (article_of h) (mset (cache_articles c)) \<and>
    saveit (snd (additem now h c))"
proof -
  obtain si c1 where g: "getserverinfo (h_serverid h) c = (si, c1)" by (cases "getserverinfo (h_serverid h) c")
  define c' where "c' = snd (additem now h c)"
  have c: "mmap_ok (cfiles c)" "\<forall>e \<in> set (cfiles c). entry_ok e" "totalnum c = of_nat (length (list_parts (cfiles c)))"
    "smap_ok (server_infos c)" "\<forall>s. info_ok bd s (map_of (server_infos c) s) (list_arts (cfiles c))"
    using assms by (simp_all add: cache_inv_def cache_lists)
  have i: "smap_ok (server_infos c1)" "info_ok bd (h_serverid h) (Some si) (list_arts (cfiles c))"
    "\<forall>s. s \<noteq> h_serverid h \<longrightarrow> map_of (server_infos c1) s = map_of (server_infos c) s"
    "cfiles c1 = cfiles c" "totalnum c1 = totalnum c"
    using getserverinfo_info [OF c(4) g c(5)] by blast+
  have sid: "si_serverid si = h_serverid h" using i(2) by (simp add: info_ok_def)
  have f: "mmap_ok (cfiles c')" "\<forall>e \<in> set (cfiles c'). entry_ok e"
    "mset (list_arts (cfiles c')) = add_mset (article_of h) (mset (list_arts (cfiles c)))"
    "totalnum c' = of_nat (length (list_parts (cfiles c')))"
    using additem_files [OF c(1,2) refl, where now = now and h = h] c(3) i(4,5)
    by (auto simp: c'_def additem_def g put_server_info_def Let_def split: option.splits)
  have s: "server_infos c' = smap_put (server_infos c1) (h_serverid h) (note_article h si)" "saveit c'"
    using sid by (auto simp: c'_def additem_def g put_server_info_def note_article_def Let_def split: option.splits)
  have "info_ok bd s (map_of (server_infos c') s) (list_arts (cfiles c'))" for s
  proof (cases "s = h_serverid h")
    case True
    then show ?thesis using s i(1) note_article_info [OF i(2) refl f(3)] by (simp add: map_of_smap_put)
  next
    case False
    then have "map_of (server_infos c') s = map_of (server_infos c) s"
      using s i(1,3) by (simp add: map_of_smap_put)
    then show ?thesis using info_other [OF c(5) [THEN spec, of s] False f(3)] by simp
  qed
  then show ?thesis using f s i(1) unfolding c'_def [symmetric]
    by (simp add: cache_inv_def cache_lists smap_ok_put)
qed

section \<open>What a flush removes\<close>

lemma flush_articles_eq:
  "flush_articles sid rng sas cnt =
     (filter (\<lambda>sa. \<not> flushed sid rng sa) sas, cnt + of_nat (length (filter (flushed sid rng) sas)))"
  by (induction sid rng sas cnt rule: flush_articles.induct) auto

text \<open>A part after its articles were flushed, \<open>None\<close> when none is left.\<close>

definition flush_part :: "ulong \<Rightarrow> rlist \<Rightarrow> part \<Rightarrow> part option" where
  "flush_part sid rng p =
     (let as = filter (\<lambda>sa. \<not> flushed sid rng sa) (articles p)
      in if as = [] then None else Some (p\<lparr>articles := as\<rparr>))"

definition flush_ps :: "ulong \<Rightarrow> rlist \<Rightarrow> part list \<Rightarrow> part list" where
  "flush_ps sid rng ps = List.map_filter (flush_part sid rng) ps"

lemma flush_ps_Nil [simp]: "flush_ps sid rng [] = []"
  by (simp add: flush_ps_def List.map_filter_def)

lemma flush_ps_Cons:
  "flush_ps sid rng (p # ps) =
     (case flush_part sid rng p of None \<Rightarrow> flush_ps sid rng ps | Some q \<Rightarrow> q # flush_ps sid rng ps)"
  by (simp add: flush_ps_def List.map_filter_simps split: option.split)

lemma flush_ps_arts:
  "concat (List.map articles (flush_ps sid rng ps)) =
     filter (\<lambda>sa. \<not> flushed sid rng sa) (concat (List.map articles ps))"
  by (induction ps) (auto simp: flush_ps_Cons flush_part_def Let_def split: option.splits if_splits)

lemma flush_ps_nonempty: "\<forall>p \<in> set (flush_ps sid rng ps). articles p \<noteq> []"
  by (induction ps) (auto simp: flush_ps_Cons flush_part_def Let_def split: option.splits if_splits)

lemma flush_ps_nums: "set (List.map partnum (flush_ps sid rng ps)) \<subseteq> set (List.map partnum ps)"
  by (induction ps) (auto simp: flush_ps_Cons flush_part_def Let_def split: option.splits if_splits)

lemma flush_ps_ok: "parts_ok ps \<Longrightarrow> parts_ok (flush_ps sid rng ps)"
proof (induction ps)
  case (Cons p ps)
  have "\<forall>q \<in> set (flush_ps sid rng ps). partnum p < partnum q"
    using Cons.prems flush_ps_nums [of sid rng ps] by (force simp: parts_ok_Cons)
  then show ?case using Cons
    by (auto simp: flush_ps_Cons flush_part_def Let_def parts_ok_Cons split: option.splits if_splits)
qed simp

lemma flush_parts_eq:
  "flush_parts now sid rng req ps hv st = (ps', hv', st') \<Longrightarrow>
     ps' = flush_ps sid rng ps \<and>
     hv' + int (length (filter (\<lambda>p. count_partnum (partnum p) req) ps)) =
       hv + int (length (filter (\<lambda>p. count_partnum (partnum p) req) ps')) \<and>
     fl_count st' = fl_count st + of_nat (length (filter (flushed sid rng) (concat (List.map articles ps)))) \<and>
     fl_countp st' = fl_countp st + of_nat (length ps) - of_nat (length ps') \<and>
     fl_countf st' = fl_countf st"
proof (induction ps arbitrary: ps' hv' st')
  case (Cons p ps)
  obtain ps1 hv1 st1 where r: "flush_parts now sid rng req ps hv st = (ps1, hv1, st1)"
    by (cases "flush_parts now sid rng req ps hv st")
  note IH = Cons.IH [OF r]
  show ?case
    using Cons.prems IH
    by (auto simp: r flush_articles_eq flush_ps_Cons flush_part_def Let_def algebra_simps split: if_splits)
qed simp

lemma flush_file_eq:
  assumes "entry_ok (k, f)" "flush_file now sid rng f st = (r, st')"
  shows "(case r of None \<Rightarrow> flush_ps sid rng (parts f) = []
      | Some g \<Rightarrow> entry_ok (k, g) \<and> parts g = flush_ps sid rng (parts f)) \<and>
    fl_count st' = fl_count st + of_nat (length (filter (flushed sid rng) (file_arts f))) \<and>
    fl_countp st' = fl_countp st + of_nat (length (parts f)) - of_nat (length (flush_ps sid rng (parts f)))"
proof -
  obtain ps hv st1 where e: "flush_parts now sid rng (fb_req (nf_base f)) (parts f) (have_count f) st = (ps, hv, st1)"
    by (cases "flush_parts now sid rng (fb_req (nf_base f)) (parts f) (have_count f) st")
  note q = flush_parts_eq [OF e]
  have f: "file_ok f" "nf_base f = k" using assms(1) by (simp_all add: entry_ok_def)
  have "file_ok (f\<lparr>parts := ps, have_count := hv\<rparr>)"
    using f(1) q flush_ps_ok [of "parts f" sid rng] by (simp add: file_ok_def wanted_def)
  then show ?thesis
    using assms(2) e q f(2) flush_ps_nonempty [of sid rng "parts f"]
    by (auto simp: flush_file_def entry_ok_def file_arts_def split: if_splits)
qed

lemma flush_files_eq:
  "\<forall>e \<in> set fs. entry_ok e \<Longrightarrow> flush_files now sid rng fs st = (fs', st') \<Longrightarrow>
     (\<forall>e \<in> set fs'. entry_ok e) \<and> set (List.map fst fs') \<subseteq> set (List.map fst fs) \<and>
     (mmap_ok fs \<longrightarrow> mmap_ok fs') \<and>
     list_arts fs' = filter (\<lambda>sa. \<not> flushed sid rng sa) (list_arts fs) \<and>
     fl_count st' = fl_count st + of_nat (length (filter (flushed sid rng) (list_arts fs))) \<and>
     fl_countp st' = fl_countp st + of_nat (length (list_parts fs)) - of_nat (length (list_parts fs'))"
proof (induction fs arbitrary: fs' st st')
  case (Cons e fs)
  obtain k f where e: "e = (k, f)" by (cases e)
  obtain r st1 where f: "flush_file now sid rng f st = (r, st1)" by (cases "flush_file now sid rng f st")
  obtain fs2 st2 where fs: "flush_files now sid rng fs st1 = (fs2, st2)" by (cases "flush_files now sid rng fs st1")
  have res: "fs' = (case r of None \<Rightarrow> fs2 | Some g \<Rightarrow> (k, g) # fs2)" "st' = st2"
    using Cons.prems(2) by (simp_all add: e f fs)
  have eo: "entry_ok (k, f)" using Cons.prems(1) e by simp
  note IH = Cons.IH [OF _ fs]
  note F = flush_file_eq [OF eo f]
  have arts: "(case r of None \<Rightarrow> [] | Some g \<Rightarrow> file_arts g) = filter (\<lambda>sa. \<not> flushed sid rng sa) (file_arts f)"
    using F flush_ps_arts [of sid rng "parts f"] by (auto simp: file_arts_def split: option.splits)
  have keys: "mmap_ok (e # fs) \<longrightarrow> mmap_ok fs'"
  proof -
    have "k \<le> fst x" if "mmap_ok (e # fs)" "x \<in> set fs2" for x
    proof -
      have "fst x \<in> set (List.map fst fs)" using IH Cons.prems(1) that(2) by fastforce
      then show ?thesis using that(1) by (auto simp: e mmap_ok_def)
    qed
    then show ?thesis using IH Cons.prems(1) res by (cases r) (auto simp: e mmap_ok_def)
  qed
  show ?case
    using IH Cons.prems(1) F res arts keys
    by (cases r) (auto simp: e algebra_simps)
qed simp

lemma nr_remove_outside:
  assumes "nr_ok r" "l \<le> h" "x < l \<or> h < x"
  shows "nr_ok (nr_remove r l h) \<and> (nr_check (nr_remove r l h) x \<longleftrightarrow> x \<in> nr_set r)"
proof -
  have top: "nr_remove_top r l h \<le> h"
    using assms(1) by (auto simp: nr_remove_top_def smap_lb_None split: option.splits intro: less_imp_le
      dest!: smap_lb_Some [OF nr_ok_smap, THEN iffD1, rotated])
  have "x \<notin> {l..nr_remove_top r l h}" using assms(3) top by auto
  then show ?thesis using nr_remove_correct [OF assms(1,2)] by (auto simp: nr_check_iff)
qed

lemma flush_range_inside:
  assumes "nr_ok r" "0 < si_low si" "si_high si \<noteq> ULONG_MAX" "si_low si \<le> x" "x \<le> si_high si"
  shows "nr_ok (flush_range si r) \<and> (nr_check (flush_range si r) x \<longleftrightarrow> x \<in> nr_set r)"
proof -
  let ?r = "nr_remove r 0 (si_low si - 1)"
  have "si_low si - 1 < x" using assms(2,4) by (meson less_le_trans word_minus_one_less)
  then have a: "nr_ok ?r" "nr_check ?r x \<longleftrightarrow> x \<in> nr_set r"
    using nr_remove_outside [OF assms(1), of 0 "si_low si - 1" x] by simp_all
  have "x < si_high si + 1" using assms(3,5) by (meson le_less_trans word_less_plus_one)
  then show ?thesis
    using nr_remove_outside [OF a(1), of "si_high si + 1" ULONG_MAX x] a by (simp add: flush_range_def nr_check_iff)
qed

lemma flush_range_ok: "nr_ok r \<Longrightarrow> nr_ok (flush_range si r)"
  using nr_remove_correct by (simp add: flush_range_def)

lemma of_server_filter: "of_server s (filter P sas) = filter P (of_server s sas)"
  by (simp add: of_server_def conj_commute)

lemma flush_info_same:
  assumes "info_ok bd sid (Some si) sas" "cnt = of_nat (length (filter (flushed sid rng) sas))"
  shows "info_ok bd sid (Some (si\<lparr>si_num := si_num si - cnt\<rparr>)) (filter (\<lambda>sa. \<not> flushed sid rng sa) sas)"
proof -
  let ?s = "of_server sid sas"
  have "filter (flushed sid rng) sas = filter (flushed sid rng) ?s"
    by (auto simp: of_server_def flushed_def intro: filter_cong)
  moreover have "length (filter (flushed sid rng) ?s) + length (filter (\<lambda>sa. \<not> flushed sid rng sa) ?s) = length ?s"
    by (rule sum_length_filter_compl)
  ultimately have "si_num si - cnt = of_nat (length (filter (\<lambda>sa. \<not> flushed sid rng sa) ?s))"
    using assms by (simp add: info_ok_def) (metis add_diff_cancel_left' of_nat_add)
  then show ?thesis using assms(1) by (auto simp: info_ok_def of_server_filter)
qed

lemma flush_info_other:
  assumes "info_ok bd s oi sas" "s \<noteq> sid"
  shows "info_ok bd s oi (filter (\<lambda>sa. \<not> flushed sid rng sa) sas)"
proof -
  have "of_server s (filter (\<lambda>sa. \<not> flushed sid rng sa) sas) = of_server s sas"
    using assms(2) by (auto simp: of_server_def flushed_def intro: filter_cong)
  then show ?thesis using assms(1) by (simp only: info_ok_def)
qed

lemma flush_empty:
  assumes "flush_range si r = []"
  shows "flush now si r mm c = (0, mm, c)"
  using assms by (simp add: flush_def nr_empty_def)

text \<open>The state after a flush, with the exact set of articles that were removed.\<close>

lemma flush_ok:
  assumes "cache_inv bd c" "map_of (server_infos c) sid = Some si" "nr_ok r" "flush now si r mm c = (n, mm', c')"
  shows "cache_inv bd c' \<and>
    cache_articles c' = filter (\<lambda>sa. \<not> flushed sid (flush_range si r) sa) (cache_articles c) \<and>
    n = of_nat (length (filter (flushed sid (flush_range si r)) (cache_articles c))) \<and>
    map_of (server_infos c') sid = Some (si\<lparr>si_num := si_num si - n\<rparr>)"
proof (cases "flush_range si r = []")
  case True
  have "\<not> flushed sid (flush_range si r) sa" for sa
    using flush_range_ok [OF assms(3), of si] by (simp add: flushed_def nr_check_iff True)
  then show ?thesis using True assms flush_empty [OF True, of now mm c] by simp
next
  case False
  have c: "mmap_ok (cfiles c)" "\<forall>e \<in> set (cfiles c). entry_ok e" "totalnum c = of_nat (length (list_parts (cfiles c)))"
    "smap_ok (server_infos c)" "\<And>s. info_ok bd s (map_of (server_infos c) s) (list_arts (cfiles c))"
    using assms(1) by (simp_all add: cache_inv_def cache_lists)
  have si: "info_ok bd sid (Some si) (list_arts (cfiles c))" using c(5) [of sid] assms(2) by simp
  then have sid: "si_serverid si = sid" by (simp add: info_ok_def)
  let ?st = "\<lparr>fl_midinfo = mm, fl_rel = \<lparr>mi_file = [], changed = False, states = []\<rparr>,
      fl_count = 0, fl_countp = 0, fl_countf = 0\<rparr>"
  obtain fs st where f: "flush_files now sid (flush_range si r) (cfiles c) ?st = (fs, st)"
    by (cases "flush_files now sid (flush_range si r) (cfiles c) ?st")
  note F = flush_files_eq [OF c(2) f]
  have res: "n = fl_count st" "cfiles c' = fs" "totalnum c' = totalnum c - fl_countp st"
    "server_infos c' = smap_put (server_infos c) sid (si\<lparr>si_num := si_num si - fl_count st\<rparr>)"
    using assms(4) False sid by (auto simp: flush_def nr_empty_def f Let_def put_server_info_def)
  have n: "n = of_nat (length (filter (flushed sid (flush_range si r)) (list_arts (cfiles c))))"
    using F res by simp
  have "info_ok bd s (map_of (server_infos c') s) (list_arts fs)" for s
    using F res flush_info_same [OF si n] flush_info_other [OF c(5), where s = s and sid = sid] c(4)
    by (cases "s = sid") (simp_all add: map_of_smap_put)
  then show ?thesis using F res c(1,3,4) n
    by (simp add: cache_inv_def cache_lists smap_ok_put map_of_smap_put)
qed

section \<open>The numbers left to fetch\<close>

lemma foldl_remove: "foldl (\<lambda>r sa. if P sa then nr_remove1 r (f sa) else r) r sas =
    fold (\<lambda>n r. nr_remove1 r n) (List.map f (filter P sas)) r"
  by (induction sas arbitrary: r) auto

lemma getxrange_have_ok:
  assumes "nr_ok r"
  shows "nr_ok (getxrange_have si c r) \<and>
    nr_set (getxrange_have si c r) = nr_set r - sa_articlenum ` set (of_server (si_serverid si) (cache_articles c))"
  using nrs.del_many [OF assms] by (simp add: getxrange_have_def foldl_remove of_server_def)

section \<open>The chosen files\<close>

lemma mmap_equal_range_set: "set (mmap_equal_range m k) = {v. (k, v) \<in> set m}"
  by (force simp: mmap_equal_range_def)

definition chosen_ok :: "files_u \<Rightarrow> bool" where
  "chosen_ok fc \<longleftrightarrow>
     mmap_ok (fu_files fc) \<and> (\<forall>(d, fr) \<in> set (fu_files fc). d = badate (fr_file fr)) \<and>
     distinct (List.map (\<lambda>(d, fr). (d, bamid (fr_file fr))) (fu_files fc))"

definition fu_totals :: "nget_config \<Rightarrow> prio_grouping \<Rightarrow> files_u \<Rightarrow> bool" where
  "fu_totals nconfig trust fc \<longleftrightarrow>
     fu_bytes fc = (\<Sum>(d, fr) \<leftarrow> fu_files fc. file_bytes nconfig trust (fr_file fr)) \<and>
     fu_lines fc = (\<Sum>(d, fr) \<leftarrow> fu_files fc. file_lines nconfig trust (fr_file fr))"

lemma sum_list_mmap_insert:
  fixes g :: "'k::linorder \<times> 'v \<Rightarrow> 'a::comm_monoid_add"
  shows "sum_list (List.map g (mmap_insert m k v)) = g (k, v) + sum_list (List.map g m)"
  by (induction m k v rule: mmap_insert.induct) (auto simp: ac_simps)

lemma distinct_mmap_insert:
  "distinct (List.map g (mmap_insert m k v)) \<longleftrightarrow> g (k, v) \<notin> g ` set m \<and> distinct (List.map g m)"
  by (induction m k v rule: mmap_insert.induct) auto

lemma addfile_ok:
  assumes "chosen_ok fc" "fu_totals nconfig trust fc"
    and "\<not> list_ex (\<lambda>fr. bamid (fr_file fr) = bamid f) (mmap_equal_range (fu_files fc) (badate f))"
  shows "chosen_ok (addfile nconfig trust f path temppath dc fc) \<and>
    fu_totals nconfig trust (addfile nconfig trust f path temppath dc fc)"
proof -
  have "(badate f, bamid f) \<notin> (\<lambda>(d, fr). (d, bamid (fr_file fr))) ` set (fu_files fc)"
    using assms(3) by (force simp: list_ex_iff mmap_equal_range_set)
  then show ?thesis using assms(1,2)
    by (auto simp: chosen_ok_def fu_totals_def addfile_def distinct_mmap_insert sum_list_mmap_insert)
qed

text \<open>Why a file was chosen: the first request that wants it, accepts its state and does not have it.\<close>

definition chosen_for ::
  "nget_config \<Rightarrow> prio_grouping \<Rightarrow> (string \<Rightarrow> string \<Rightarrow> bool) \<Rightarrow> getinfo list \<Rightarrow> nntp_file \<Rightarrow> file_retr \<Rightarrow> bool" where
  "chosen_for nconfig trust rx infos f fr \<longleftrightarrow>
     fr_file fr = f \<and> fr_dupecheck fr \<and>
     (\<exists>info \<in> set infos. fr_path fr = gi_path info \<and> fr_temppath fr = gi_temppath info \<and> gi_pred info f \<and>
        (gi_getincomplete info \<or> iscomplete nconfig trust f) \<and>
        (gi_nodupefilecheck info \<or>
         \<not> checkhavefile rx (gi_flist info) (fb_subject (nf_base f)) (file_bytes nconfig trust f)))"

lemma chosen_for_Cons: "chosen_for nconfig trust rx infos f fr \<Longrightarrow> chosen_for nconfig trust rx (info # infos) f fr"
  by (auto simp: chosen_for_def)

text \<open>What one request does: pass the file on, with the chosen files unchanged, drop it, or take it.\<close>

lemma cache_getfile_step:
  obtains (pass) st1 where "gs_fc st1 = gs_fc st"
      "cache_getfile nconfig trust rx maybe_add now (info # infos) f st = cache_getfile nconfig trust rx maybe_add now infos f st1"
  | (drop) "gs_fc (cache_getfile nconfig trust rx maybe_add now (info # infos) f st) = gs_fc st"
  | (take) "gs_fc (cache_getfile nconfig trust rx maybe_add now (info # infos) f st) =
        addfile nconfig trust f (gi_path info) (gi_temppath info) True (gs_fc st)"
      "\<not> list_ex (\<lambda>fr. bamid (fr_file fr) = bamid f) (mmap_equal_range (fu_files (gs_fc st)) (badate f))"
      "gi_pred info f" "gi_getincomplete info \<or> iscomplete nconfig trust f"
      "gi_nodupefilecheck info \<or> \<not> checkhavefile rx (gi_flist info) (fb_subject (nf_base f)) (file_bytes nconfig trust f)"
proof (cases "getfile_wants nconfig trust (gs_midinfo st) info f")
  case False
  then show ?thesis by (intro pass [of st]) simp_all
next
  case True
  obtain taken par' where t: "(if autopar_disabled info then (False, gs_par st)
      else maybe_add f (gi_path info) (gi_temppath info) (gi_getincomplete info) (gs_par st)) = (taken, par')"
    by (cases "if autopar_disabled info then (False, gs_par st)
      else maybe_add f (gi_path info) (gi_temppath info) (gi_getincomplete info) (gs_par st)")
  let ?st = "st\<lparr>gs_par := par'\<rparr>"
  let ?dup = "list_ex (\<lambda>fr. bamid (fr_file fr) = bamid f) (mmap_equal_range (fu_files (gs_fc st)) (badate f))"
  let ?have = "\<not> gi_nodupefilecheck info \<and>
      checkhavefile rx (gi_flist info) (fb_subject (nf_base f)) (file_bytes nconfig trust f)"
  let ?cont = "taken \<or> \<not> autopar_disabled info \<and> \<not> (gi_getincomplete info \<or> iscomplete nconfig trust f)"
  have w: "gi_pred info f" "\<not> autopar_disabled info \<or> gi_getincomplete info \<or> iscomplete nconfig trust f"
    using True by (simp_all add: getfile_wants_def)
  have eq: "cache_getfile nconfig trust rx maybe_add now (info # infos) f st =
      (if taken then cache_getfile nconfig trust rx maybe_add now infos f ?st
       else if \<not> autopar_disabled info \<and> \<not> (gi_getincomplete info \<or> iscomplete nconfig trust f)
       then cache_getfile nconfig trust rx maybe_add now infos f ?st
       else if ?dup then ?st
       else if ?have then cache_getfile nconfig trust rx maybe_add now infos f
         (if gi_dupefilemark info
          then ?st\<lparr>gs_midinfo := mmi_insert now (bamid f) (first_part_groups nconfig f) (gs_midinfo ?st)\<rparr> else ?st)
       else ?st\<lparr>gs_fc := addfile nconfig trust f (gi_path info) (gi_temppath info) True (gs_fc ?st)\<rparr>)"
    by (simp only: cache_getfile.simps True if_True t prod.case Let_def) simp
  consider (a) "?cont" | (b) "\<not> ?cont" "?dup" | (c) "\<not> ?cont" "\<not> ?dup" "?have" | (d) "\<not> ?cont" "\<not> ?dup" "\<not> ?have"
    by blast
  then show ?thesis
  proof cases
    case a
    then show ?thesis by (intro pass [of ?st]) (simp, simp only: eq, auto)
  next
    case b
    then have "cache_getfile nconfig trust rx maybe_add now (info # infos) f st = ?st" by (simp only: eq) auto
    then show ?thesis by (intro drop) simp
  next
    case c
    let ?st' = "if gi_dupefilemark info
        then ?st\<lparr>gs_midinfo := mmi_insert now (bamid f) (first_part_groups nconfig f) (gs_midinfo ?st)\<rparr> else ?st"
    have "cache_getfile nconfig trust rx maybe_add now (info # infos) f st =
        cache_getfile nconfig trust rx maybe_add now infos f ?st'" using c by (simp only: eq) auto
    then show ?thesis by (intro pass [of ?st']) simp_all
  next
    case d
    then have "cache_getfile nconfig trust rx maybe_add now (info # infos) f st =
        ?st\<lparr>gs_fc := addfile nconfig trust f (gi_path info) (gi_temppath info) True (gs_fc ?st)\<rparr>"
      by (simp only: eq) auto
    then show ?thesis using d w by (intro take) auto
  qed
qed

lemma cache_getfile_ok:
  assumes "chosen_ok (gs_fc st)" "fu_totals nconfig trust (gs_fc st)"
    and "st' = cache_getfile nconfig trust rx maybe_add now infos f st"
  shows "chosen_ok (gs_fc st') \<and> fu_totals nconfig trust (gs_fc st') \<and>
    (\<forall>(d, fr) \<in> set (fu_files (gs_fc st')). (d, fr) \<in> set (fu_files (gs_fc st)) \<or> chosen_for nconfig trust rx infos f fr)"
  using assms
proof (induction infos arbitrary: st st')
  case Nil
  then show ?case by auto
next
  case (Cons info infos)
  show ?case
  proof (cases rule: cache_getfile_step [of st nconfig trust rx maybe_add now info infos f])
    case (pass st1)
    then show ?thesis
      using Cons.IH [of st1 st'] Cons.prems chosen_for_Cons [of nconfig trust rx infos f _ info] by fastforce
  next
    case drop
    then show ?thesis using Cons.prems by auto
  next
    case take
    then show ?thesis
      using addfile_ok [OF Cons.prems(1,2) take(2)] Cons.prems(3)
      by (auto simp: addfile_def chosen_for_def)
  qed
qed

lemma getfiles_ok:
  assumes "chosen_ok (gs_fc st)" "fu_totals nconfig trust (gs_fc st)"
  shows "chosen_ok (gs_fc (foldl (\<lambda>st (k, f). cache_getfile nconfig trust rx maybe_add now infos f st) st fs)) \<and>
    fu_totals nconfig trust (gs_fc (foldl (\<lambda>st (k, f). cache_getfile nconfig trust rx maybe_add now infos f st) st fs)) \<and>
    (\<forall>(d, fr) \<in> set (fu_files (gs_fc (foldl (\<lambda>st (k, f). cache_getfile nconfig trust rx maybe_add now infos f st) st fs))).
       (d, fr) \<in> set (fu_files (gs_fc st)) \<or> (\<exists>(k, f) \<in> set fs. chosen_for nconfig trust rx infos f fr))"
  using assms
proof (induction fs arbitrary: st)
  case (Cons e fs)
  obtain k f where e: "e = (k, f)" by (cases e)
  note g = cache_getfile_ok [OF Cons.prems refl, of rx maybe_add now infos f]
  show ?case using Cons.IH [of "cache_getfile nconfig trust rx maybe_add now infos f st"] g
    by (fastforce simp: e)
qed auto

section \<open>Properties\<close>

text \<open>The cache without entries, and a header to try the operations on.\<close>

definition cache_new :: cache where
  "cache_new = \<lparr>cache_file = [], cfiles = [], totalnum = 0, server_infos = [], cache_group = 0,
     saveit = False, fileread = - 1\<rparr>"

lemma cache_new_ok: "cache_inv bd cache_new"
  by (simp add: cache_inv_def cache_new_def cache_lists info_ok_def of_server_def)

definition example_header :: header where
  "example_header = \<lparr>h_base = File_base 2 5 ''a'' ''file (*/2)'' [], h_serverid = 1, h_group = 0, h_partnum = 1,
     h_tailoff = 9, h_articlenum = 7, h_date = 100, h_bytes = 500, h_lines = 10, h_messageid = ''<m1>''\<rparr>"

lemma example_info:
  "map_of (server_infos (snd (additem 0 example_header cache_new))) 1 =
     Some \<lparr>si_serverid = 1, si_high = 7, si_low = 7, si_num = 1\<rparr>"
  by (simp add: additem_def getserverinfo_def cache_new_def example_header_def put_server_info_def
      server_info_new_def server_info_reset_def note_article_def smap_insert_def Let_def word_less_alt
      unsigned_minus_1_eq_mask mask_eq_exp_minus_1)



text \<open>Property C13. A flush removes from the cache exactly the articles of the server whose numbers are in
  the range, in place, returns how many they were, and keeps the invariant (so parts and files that
  have lost their last article are gone and the counts are adjusted). The range is first restricted
  to the numbers the server has; that needs \<open>low\<close> above 0 and \<open>high\<close> below the largest number, as the
  bounds \<open>low - 1\<close> and \<open>high + 1\<close> wrap around otherwise.\<close>

theorem cache_flush_exact:
  assumes "cache_ok c" "map_of (server_infos c) sid = Some si" "nr_ok r"
    and "0 < si_low si" "si_high si \<noteq> ULONG_MAX"
    and "flush now si r mm c = (n, mm', c')"
  shows "cache_ok c' \<and>
    cache_articles c' = filter (\<lambda>sa. \<not> (sa_serverid sa = sid \<and> sa_articlenum sa \<in> nr_set r)) (cache_articles c) \<and>
    n = of_nat (length (filter (\<lambda>sa. sa_serverid sa = sid \<and> sa_articlenum sa \<in> nr_set r) (cache_articles c)))"
proof -
  have "info_ok True sid (Some si) (cache_articles c)" using assms(1,2) by (metis cache_inv_def)
  then have "flushed sid (flush_range si r) sa \<longleftrightarrow> sa_serverid sa = sid \<and> sa_articlenum sa \<in> nr_set r"
    if "sa \<in> set (cache_articles c)" for sa
    using flush_range_inside [OF assms(3,4,5), of "sa_articlenum sa"] that
    by (auto simp: flushed_def info_ok_def of_server_def)
  then have "filter (flushed sid (flush_range si r)) (cache_articles c) =
      filter (\<lambda>sa. sa_serverid sa = sid \<and> sa_articlenum sa \<in> nr_set r) (cache_articles c)"
    "filter (\<lambda>sa. \<not> flushed sid (flush_range si r) sa) (cache_articles c) =
      filter (\<lambda>sa. \<not> (sa_serverid sa = sid \<and> sa_articlenum sa \<in> nr_set r)) (cache_articles c)"
    by (auto intro: filter_cong)
  then show ?thesis using flush_ok [OF assms(1,2,3,6)] by simp
qed

theorem cache_flush_exact_witness:
  "\<exists>n mm' c'. flush 5 \<lparr>si_serverid = 1, si_high = 7, si_low = 7, si_num = 1\<rparr> [(9, 3)] []
      (snd (additem 0 example_header cache_new)) = (n, mm', c') \<and> cache_ok c' \<and>
    cache_articles c' = filter (\<lambda>sa. \<not> (sa_serverid sa = 1 \<and> sa_articlenum sa \<in> nr_set [(9, 3)]))
      (cache_articles (snd (additem 0 example_header cache_new)))"
proof -
  let ?c = "snd (additem 0 example_header cache_new)"
  let ?si = "\<lparr>si_serverid = 1, si_high = 7, si_low = 7, si_num = 1\<rparr> :: server_info"
  obtain n mm' c' where f: "flush 5 ?si [(9, 3)] [] ?c = (n, mm', c')"
    by (cases "flush 5 ?si [(9, 3)] [] ?c")
  have "cache_ok ?c" using additem_ok [OF cache_new_ok] by blast
  then show ?thesis
    using cache_flush_exact [OF _ example_info _ _ _ f] f by (simp add: nr_ok_Cons nr_gap_def)
qed

text \<open>The numbers to fetch from a server are the interval from the lower of the server's new
  and old low marks to the new high mark, without the numbers of the articles of this server that the
  cache already has.\<close>

theorem cache_getxrange_missing:
  assumes "newlow \<le> newhigh"
  shows "nr_ok (getxrange si newlow newhigh c) \<and>
    nr_set (getxrange si newlow newhigh c) =
      {min newlow (si_low si)..newhigh} -
        {sa_articlenum sa | sa. sa \<in> set (cache_articles c) \<and> sa_serverid sa = si_serverid si}"
proof -
  have m: "(if newlow < si_low si then newlow else si_low si) = min newlow (si_low si)"
    by (cases newlow "si_low si" rule: linorder_cases) (auto simp: min_def not_less less_imp_le)
  have "min newlow (si_low si) \<le> newhigh" using assms by (simp add: min.coboundedI1)
  then have "nr_ok (nr_insert2 [] (min newlow (si_low si)) newhigh)"
    "nr_set (nr_insert2 [] (min newlow (si_low si)) newhigh) = {min newlow (si_low si)..newhigh}"
    using nr_insert2_correct [of "[]" "min newlow (si_low si)" newhigh] by simp_all
  then show ?thesis
    using getxrange_have_ok [of "nr_insert2 [] (min newlow (si_low si)) newhigh" si c]
    by (auto simp: getxrange_def m of_server_def)
qed

theorem cache_getxrange_missing_witness:
  "nr_set (getxrange \<lparr>si_serverid = 1, si_high = 7, si_low = 7, si_num = 1\<rparr> 5 9 cache_new) = {5..9}"
  using cache_getxrange_missing [of 5 9 "\<lparr>si_serverid = 1, si_high = 7, si_low = 7, si_num = 1\<rparr>" cache_new]
  by (simp add: cache_lists cache_new_def min_def)

text \<open>Property C14. \<open>getfiles\<close> keeps the list of chosen files sorted by date, without two entries of the same
  date and message id, and its totals the sums over the entries. Every file it adds comes from the cache
  and was asked for by one of the requests: it matches, it is complete or incomplete files are asked for,
  and the request's file check does not find it on disk.\<close>

theorem getfiles_selection:
  assumes "chosen_ok (gs_fc st)" "fu_totals nconfig trust (gs_fc st)"
    and "st' = getfiles nconfig trust rx maybe_add now infos c st"
  shows "chosen_ok (gs_fc st') \<and> fu_totals nconfig trust (gs_fc st') \<and>
    (\<forall>(d, fr) \<in> set (fu_files (gs_fc st')).
       (d, fr) \<in> set (fu_files (gs_fc st)) \<or> (\<exists>(k, f) \<in> set (cfiles c). chosen_for nconfig trust rx infos f fr))"
  using getfiles_ok [OF assms(1,2)] unfolding assms(3) getfiles_def .

theorem getfiles_selection_witness:
  "\<exists>info st'. gi_getincomplete info \<and>
      st' = getfiles nget_config_new (prio_grouping_new ''x'') (\<lambda>_ _. False) (\<lambda>_ _ _ _ u. (False, u)) 0 [info]
        (snd (additem 0 example_header cache_new)) \<lparr>gs_fc = files_u_new, gs_par = (), gs_midinfo = []\<rparr> \<and>
      chosen_ok (gs_fc st') \<and> length (fu_files (gs_fc st')) = 1"
proof -
  let ?info = "\<lparr>gi_path = ''d'', gi_temppath = ''d'', gi_pred = \<lambda>f. True, gi_getincomplete = True,
    gi_nodupeidcheck = True, gi_nodupefilecheck = True, gi_dupefilemark = False, gi_noautopar = True,
    gi_testmode = False, gi_mark = False, gi_unmark = False, gi_nodecode = False, gi_flist = []\<rparr>"
  let ?st = "getfiles nget_config_new (prio_grouping_new ''x'') (\<lambda>_ _. False) (\<lambda>_ _ _ _ u. (False, u)) 0 [?info]
        (snd (additem 0 example_header cache_new)) \<lparr>gs_fc = files_u_new, gs_par = (), gs_midinfo = []\<rparr>"
  have "chosen_ok (gs_fc ?st)"
    by (rule getfiles_selection [OF _ _ refl, THEN conjunct1])
      (simp_all add: chosen_ok_def fu_totals_def files_u_new_def)
  moreover have "length (fu_files (gs_fc ?st)) = 1"
    by (simp add: getfiles_def additem_def getserverinfo_def cache_new_def put_server_info_def Let_def
        getfile_wants_def autopar_disabled_def addfile_def files_u_new_def mmap_equal_range_def)
  moreover have "gi_getincomplete ?info" by simp
  ultimately show ?thesis by blast
qed

end
