(* ===== verification/CacheIO.thy ===== *)
theory CacheIO
  imports Cache Strings
begin

text \<open>
  The cache file (\<open>cache.cc\<close>): the reader with its modes, loading and saving a cache, and the two forms
  of \<open>nntp_cache_getfiles\<close>, which choose files straight from the cache files of one or several groups.
  A file is its content; the state of a reader holds what is left to read of it. The lemmas: the
  reader consumes its input, what is saved is read back, and what is lost when servers have been
  taken out of the configuration.
\<close>

section \<open>The reader\<close>

text \<open>The C string in a buffer.\<close>

definition cstr :: "string \<Rightarrow> string" where
  "cstr s = takeWhile (\<lambda>c. c \<noteq> CHR 0x00) s"

datatype cache_error = Unexpected_EOF ulong | Different_version | Not_a_cache | Must_be_updated

definition CACHE_VERSION :: string where
  "CACHE_VERSION = ''NGET5''"

definition CACHE_SORTVER :: int where
  "CACHE_SORTVER = 1"

text \<open>The pointers \<open>nf\<close> and \<open>np\<close> of \<open>read_file\<close> are set in exactly the modes that use them. The part \<open>np\<close>
  is the first one of the file with its number, which is where \<open>addpart\<close> puts a new part.\<close>

datatype rmode =
  FILE_MODE | REFERENCES_MODE nntp_file | PART_MODE nntp_file "int option" | SERVER_ARTICLE_MODE nntp_file int

record reader =
  rd_in :: string
  rd_group :: group_ptr
  rd_sortver :: int
  rd_count :: ulong
  rd_counta :: ulong
  rd_line :: ulong
  rd_countdeada :: ulong
  rd_totalnum :: ulong
  rd_warnings :: nat

definition rd_warn :: "reader \<Rightarrow> reader" where
  "rd_warn r = r\<lparr>rd_warnings := rd_warnings r + 1\<rparr>"

text \<open>The line with the dot that ends a list.\<close>

definition skip_dot :: "reader \<Rightarrow> reader" where
  "skip_dot r =
     (case s_gets (rd_in r) of (n, l, rest) \<Rightarrow>
        (let r' = r\<lparr>rd_in := rest\<rparr> in if cstr l = ''.'' then r' else rd_warn r'))"

definition read_toks :: "nat \<Rightarrow> reader \<Rightarrow> (nat \<times> string list) \<times> reader" where
  "read_toks m r = (case s_toks (CHR 0x09) m True (rd_in r) of (it, rest) \<Rightarrow> (it, r\<lparr>rd_in := rest\<rparr>))"

function read_infos ::
  "nget_config \<Rightarrow> reader \<Rightarrow> (ulong \<times> server_info) list \<Rightarrow> cache_error option \<times> reader \<times> (ulong \<times> server_info) list"
where
  "read_infos nconfig r infos =
     (if rd_in r = [] then (Some (Unexpected_EOF (rd_line r)), r, infos)
      else
        (let r1 = r\<lparr>rd_line := rd_line r + 1\<rparr>
         in if hd (rd_in r1) = CHR ''.'' then (None, skip_dot r1, infos)
            else
              (case read_toks 4 r1 of
                 ((i, t), r2) \<Rightarrow>
                   if i = 4 then
                     (let sid = atoul (t ! 0)
                      in if hasserver nconfig sid
                         then read_infos nconfig r2
                                (smap_insert infos sid
                                   \<lparr>si_serverid = sid, si_high = atoul (t ! 1), si_low = atoul (t ! 2), si_num = atoul (t ! 3)\<rparr>)
                         else read_infos nconfig (rd_warn r2) infos)
                   else read_infos nconfig (rd_warn r2) infos)))"
  by pat_completeness auto
termination
  by (relation "measure (\<lambda>(nconfig, r, infos). length (rd_in r))")
    (auto simp: read_toks_def rd_warn_def split: prod.splits dest: s_toks_shorter)

declare read_infos.simps [simp del]

text \<open>The constructor. The entries that were read before an error stay in the map of the caller.\<close>

definition reader_new ::
  "nget_config \<Rightarrow> group_ptr \<Rightarrow> string \<Rightarrow> cache_error option \<times> reader \<times> (ulong \<times> server_info) list" where
  "reader_new nconfig grp content =
     (let r = \<lparr>rd_in = content, rd_group = grp, rd_sortver = - 1, rd_count = 0, rd_counta = 0, rd_line = 0,
               rd_countdeada = 0, rd_totalnum = 0, rd_warnings = 0\<rparr>
      in if content = [] then (Some (Unexpected_EOF 0), r, [])
         else
           (case read_toks 2 (r\<lparr>rd_line := 1\<rparr>) of
              ((i, t), r1) \<Rightarrow>
                if i = 2 \<and> t ! 0 = CACHE_VERSION then
                  (let subver = dropWhile (\<lambda>c. c \<noteq> CHR '' '') (t ! 1);
                       r2 = r1\<lparr>rd_totalnum := atoul (t ! 1),
                               rd_sortver := (if subver = [] then rd_sortver r1 else atoi subver)\<rparr>
                   in read_infos nconfig r2 [])
                else if i > 0 \<and> take 4 (t ! 0) = ''NGET'' then (Some Different_version, r1, [])
                else (Some Not_a_cache, r1, [])))"

definition push_article :: "int \<Rightarrow> server_article \<Rightarrow> nntp_file \<Rightarrow> nntp_file" where
  "push_article pn sa f =
     (let i = parts_lower_bound (parts f) pn; p = parts f ! i
      in f\<lparr>parts := (parts f)[i := p\<lparr>articles := articles p @ [sa]\<rparr>]\<rparr>)"

definition add_reference :: "string \<Rightarrow> nntp_file \<Rightarrow> nntp_file" where
  "add_reference s f =
     (let b = nf_base f
      in f\<lparr>nf_base := File_base (fb_req b) (fb_partoff b) (fb_author b) (fb_subject b) (fb_references b @ [s])\<rparr>)"

text \<open>At the start of a line in \<open>PART_MODE\<close>: a part that got no article is taken out again.\<close>

definition drop_empty ::
  "int \<Rightarrow> nntp_file \<Rightarrow> int option \<Rightarrow> reader \<Rightarrow> meta_mid_info \<Rightarrow> nntp_file \<times> int option \<times> reader \<times> meta_mid_info" where
  "drop_empty now f np r mm =
     (case np of
        None \<Rightarrow> (f, None, r, mm)
      | Some pn \<Rightarrow>
          (let p = parts f ! parts_lower_bound (parts f) pn
           in if articles p = []
              then (f\<lparr>parts := removepart (parts f) pn\<rparr>, None, r\<lparr>rd_count := rd_count r - 1\<rparr>,
                    mmi_set_delete now mm (p_messageid p))
              else (f, np, r, mm)))"

text \<open>One round of the loop of \<open>read_file\<close>: the next mode, or the file that is returned.\<close>

fun read_step ::
  "nget_config \<Rightarrow> int \<Rightarrow> rmode \<Rightarrow> reader \<Rightarrow> meta_mid_info \<Rightarrow> (rmode + nntp_file) \<times> reader \<times> meta_mid_info"
where
  "read_step nconfig now (SERVER_ARTICLE_MODE f pn) r mm =
     (if hd (rd_in r) = CHR ''.'' then (Inl (PART_MODE f (Some pn)), skip_dot r, mm)
      else
        (case read_toks 4 r of
           ((i, t), r1) \<Rightarrow>
             if i = 4 then
               (let sid = atoul (t ! 0)
                in if hasserver nconfig sid
                   then (Inl (SERVER_ARTICLE_MODE
                                (push_article pn
                                   \<lparr>sa_serverid = sid, sa_group = rd_group r, sa_articlenum = atoul (t ! 1),
                                    sa_bytes = atoul (t ! 2), sa_lines = atoul (t ! 3)\<rparr> f) pn),
                         r1\<lparr>rd_counta := rd_counta r1 + 1\<rparr>, mm)
                   else (Inl (SERVER_ARTICLE_MODE f pn), r1\<lparr>rd_countdeada := rd_countdeada r1 + 1\<rparr>, mm))
             else (Inl (SERVER_ARTICLE_MODE f pn), rd_warn r1, mm)))"
| "read_step nconfig now (PART_MODE f np) r mm =
     (case drop_empty now f np r mm of
        (f1, np1, r1, mm1) \<Rightarrow>
          if hd (rd_in r1) = CHR ''.'' then
            (let r2 = skip_dot r1
             in if parts f1 = [] then (Inl FILE_MODE, rd_warn r2, mm1) else (Inr f1, r2, mm1))
          else
            (case read_toks 3 r1 of
               ((i, t), r2) \<Rightarrow>
                 if i = 3 then
                   (Inl (SERVER_ARTICLE_MODE
                           (addpart (part_new (atoi (t ! 0)) (sint (atoul (t ! 1))) (t ! 2)) f1) (atoi (t ! 0))),
                    r2\<lparr>rd_count := rd_count r2 + 1\<rparr>, mm1)
                 else (Inl (PART_MODE f1 np1), rd_warn r2, mm1)))"
| "read_step nconfig now FILE_MODE r mm =
     (case read_toks 7 r of
        ((i, t), r1) \<Rightarrow>
          if i = 7 then
            (Inl (REFERENCES_MODE
                    (file_new (atoi (t ! 0)) (atoul (t ! 1)) (t ! 2) (t ! 3) (atoi (t ! 4)) (atoi (t ! 5)) (sint (atoul (t ! 6))))),
             r1, mm)
          else (Inl FILE_MODE, rd_warn r1, mm))"
| "read_step nconfig now (REFERENCES_MODE f) r mm =
     (case s_gets (rd_in r) of
        (n, l, rest) \<Rightarrow>
          (let buf = cstr l; r1 = r\<lparr>rd_in := rest\<rparr>
           in if buf = ''.'' then (Inl (PART_MODE f None), r1, mm)
              else (Inl (REFERENCES_MODE (add_reference (if take 1 buf = ''.'' then tl buf else buf) f)), r1, mm)))"

lemma skip_dot_shorter: "rd_in r \<noteq> [] \<Longrightarrow> length (rd_in (skip_dot r)) < length (rd_in r)"
  by (auto simp: skip_dot_def rd_warn_def Let_def split: prod.splits dest: s_gets_shorter)

lemma read_toks_shorter: "read_toks m r = (it, r') \<Longrightarrow> rd_in r \<noteq> [] \<Longrightarrow> length (rd_in r') < length (rd_in r)"
  by (auto simp: read_toks_def split: prod.splits dest: s_toks_shorter)

lemma drop_empty_in: "drop_empty now f np r mm = (f1, np1, r1, mm1) \<Longrightarrow> rd_in r1 = rd_in r"
  by (auto simp: drop_empty_def Let_def split: option.splits if_splits)

lemma read_step_shorter:
  assumes "read_step nconfig now md r mm = (res, r', mm')" "rd_in r \<noteq> []"
  shows "length (rd_in r') < length (rd_in r)"
proof (cases md)
  case FILE_MODE
  then show ?thesis using assms by (auto simp: rd_warn_def split: prod.splits if_splits dest: read_toks_shorter)
next
  case (REFERENCES_MODE f)
  then show ?thesis using assms by (auto simp: Let_def split: prod.splits if_splits dest: s_gets_shorter)
next
  case (PART_MODE f np)
  obtain f1 np1 r1 mm1 where d: "drop_empty now f np r mm = (f1, np1, r1, mm1)"
    by (cases "drop_empty now f np r mm")
  then have "rd_in r1 = rd_in r" by (rule drop_empty_in)
  then show ?thesis using assms PART_MODE d skip_dot_shorter [of r1]
    by (auto simp: Let_def rd_warn_def split: prod.splits if_splits dest: read_toks_shorter)
next
  case (SERVER_ARTICLE_MODE f pn)
  then show ?thesis using assms skip_dot_shorter [of r]
    by (auto simp: Let_def rd_warn_def split: prod.splits if_splits dest: read_toks_shorter)
qed

function read_loop ::
  "nget_config \<Rightarrow> int \<Rightarrow> rmode \<Rightarrow> reader \<Rightarrow> meta_mid_info \<Rightarrow> (cache_error + nntp_file option) \<times> reader \<times> meta_mid_info"
where
  "read_loop nconfig now md r mm =
     (if rd_in r = [] then (if md = FILE_MODE then Inr None else Inl (Unexpected_EOF (rd_line r)), r, mm)
      else
        (case read_step nconfig now md (r\<lparr>rd_line := rd_line r + 1\<rparr>) mm of
           (Inl md', r', mm') \<Rightarrow> read_loop nconfig now md' r' mm'
         | (Inr f, r', mm') \<Rightarrow> (Inr (Some f), r', mm')))"
  by pat_completeness auto
termination
  by (relation "measure (\<lambda>(nconfig, now, md, r, mm). length (rd_in r))")
    (auto dest!: read_step_shorter [OF sym])

declare read_loop.simps [simp del]

definition read_file ::
  "nget_config \<Rightarrow> int \<Rightarrow> reader \<Rightarrow> meta_mid_info \<Rightarrow> (cache_error + nntp_file option) \<times> reader \<times> meta_mid_info" where
  "read_file nconfig now r mm = read_loop nconfig now FILE_MODE r mm"

definition check_counts :: "reader \<Rightarrow> reader" where
  "check_counts r =
     (let r1 = (if rd_countdeada r \<noteq> 0 then rd_warn r else r)
      in if rd_count r1 \<noteq> rd_totalnum r1 then rd_warn (r1\<lparr>rd_totalnum := rd_count r1\<rparr>) else r1)"

section \<open>Loading\<close>

text \<open>\<open>setfilenamegz\<close> in a build with zlib, and the name of the cache file of a group.\<close>

definition setfilenamegz :: "nget_config \<Rightarrow> string \<Rightarrow> int \<Rightarrow> string" where
  "setfilenamegz nconfig file gz = (if (if gz = - 2 then usegz nconfig else gz) \<noteq> 0 then file @ ''.gz'' else file)"

definition cache_filename :: "nget_config \<Rightarrow> string \<Rightarrow> group_ptr \<Rightarrow> string" where
  "cache_filename nconfig path grp =
     setfilenamegz nconfig (path_join path (gi_group (ginfos nconfig ! grp) @ '',cache'')) (gi_usegz (ginfos nconfig ! grp))"

text \<open>The loop over all files of a reader, which ends at the end of the input or with an error.\<close>

lemma read_loop_shorter:
  assumes "read_loop nconfig now md r mm = (Inr (Some f), r', mm')"
  shows "length (rd_in r') < length (rd_in r)"
  using assms
proof (induction nconfig now md r mm rule: read_loop.induct)
  case (1 nconfig now md r mm)
  show ?case
  proof (cases "rd_in r = []")
    case True
    then show ?thesis using 1(2) by (subst (asm) read_loop.simps) (auto split: if_splits)
  next
    case False
    let ?r = "r\<lparr>rd_line := rd_line r + 1\<rparr>"
    obtain res r1 mm1 where s: "read_step nconfig now md ?r mm = (res, r1, mm1)"
      by (cases "read_step nconfig now md ?r mm")
    have sh: "length (rd_in r1) < length (rd_in r)" using read_step_shorter [OF s] False by simp
    show ?thesis
    proof (cases res)
      case (Inl md')
      then have "read_loop nconfig now md' r1 mm1 = (Inr (Some f), r', mm')"
        using 1(2) False s by (subst (asm) read_loop.simps) simp
      then show ?thesis using "1.IH" [OF False s [symmetric] Inl refl] sh by simp
    next
      case (Inr g)
      then show ?thesis using 1(2) False s sh by (subst (asm) read_loop.simps) simp
    qed
  qed
qed

lemma read_file_shorter:
  "read_file nconfig now r mm = (Inr (Some f), r', mm') \<Longrightarrow> length (rd_in r') < length (rd_in r)"
  by (simp add: read_file_def read_loop_shorter)

function read_all ::
  "nget_config \<Rightarrow> int \<Rightarrow> reader \<Rightarrow> meta_mid_info \<Rightarrow> nntp_file list \<times> cache_error option \<times> reader \<times> meta_mid_info"
where
  "read_all nconfig now r mm =
     (case read_file nconfig now r mm of
        (Inr (Some f), r', mm') \<Rightarrow> (case read_all nconfig now r' mm' of (fs, e, r'', mm'') \<Rightarrow> (f # fs, e, r'', mm''))
      | (Inr None, r', mm') \<Rightarrow> ([], None, r', mm')
      | (Inl e, r', mm') \<Rightarrow> ([], Some e, r', mm'))"
  by pat_completeness auto
termination
  by (relation "measure (\<lambda>(nconfig, now, r, mm). length (rd_in r))") (auto dest: read_file_shorter [OF sym])

declare read_all.simps [simp del]

text \<open>The constructor of the cache: a file that does not exist gives the empty cache; an error leaves what
  was read before it, with the total still 0. The number counts the warnings, the error included.\<close>

definition cache_load ::
  "nget_config \<Rightarrow> int \<Rightarrow> string \<Rightarrow> group_ptr \<Rightarrow> (string \<Rightarrow> string option) \<Rightarrow> meta_mid_info \<Rightarrow> cache \<times> nat \<times> meta_mid_info"
where
  "cache_load nconfig now path grp fs mm =
     (let file = cache_filename nconfig path grp;
          c = \<lparr>cache_file = file, cfiles = [], totalnum = 0, server_infos = [], cache_group = grp,
               saveit = False, fileread = 0\<rparr>
      in case fs file of
           None \<Rightarrow> (c, 0, mm)
         | Some content \<Rightarrow>
             (case reader_new nconfig grp content of
                (Some e, r, infos) \<Rightarrow> (c\<lparr>server_infos := infos\<rparr>, rd_warnings r + 1, mm)
              | (None, r, infos) \<Rightarrow>
                  (case read_all nconfig now r mm of
                     (nfs, e, r', mm') \<Rightarrow>
                       (let c1 = c\<lparr>server_infos := infos,
                                   cfiles := foldl (\<lambda>m f. mmap_insert m (nf_base f) f) [] nfs\<rparr>
                        in case e of
                             Some _ \<Rightarrow> (c1, rd_warnings r' + 1, mm')
                           | None \<Rightarrow>
                               (let r'' = check_counts r'
                                in (c1\<lparr>fileread := 1, saveit := rd_sortver r \<noteq> CACHE_SORTVER,
                                       totalnum := rd_totalnum r''\<rparr>, rd_warnings r'', mm'))))))"

section \<open>Saving\<close>

definition show_info :: "ulong \<times> server_info \<Rightarrow> string" where
  "show_info e =
     (let si = snd e
      in fields_line (CHR 0x09) (show_ulong (si_serverid si))
           [show_ulong (si_high si), show_ulong (si_low si), show_ulong (si_num si)])"

definition show_article :: "server_article \<Rightarrow> string" where
  "show_article sa =
     fields_line (CHR 0x09) (show_ulong (sa_serverid sa))
       [show_ulong (sa_articlenum sa), show_ulong (sa_bytes sa), show_ulong (sa_lines sa)]"

definition dot_line :: string where
  "dot_line = [CHR ''.'', CHR 0x0A]"

definition show_part :: "part \<Rightarrow> string" where
  "show_part p =
     fields_line (CHR 0x09) (show_int (partnum p)) [show_ulong (of_int (p_date p)), p_messageid p] @
     concat (List.map show_article (articles p)) @ dot_line"

definition show_reference :: "string \<Rightarrow> string" where
  "show_reference s = (if take 1 s = ''.'' then ''.'' else []) @ s @ [CHR 0x0A]"

definition show_file :: "nntp_file \<Rightarrow> string" where
  "show_file f =
     (let b = nf_base f
      in fields_line (CHR 0x09) (show_int (fb_req b))
           [show_ulong (flags f), fb_subject b, fb_author b, show_int (fb_partoff b), show_int (nf_tailoff f),
            show_ulong (of_int (update_time f))] @
         concat (List.map show_reference (fb_references b)) @ dot_line @
         concat (List.map show_part (parts f)) @ dot_line)"

definition show_cache :: "cache \<Rightarrow> string" where
  "show_cache c =
     fields_line (CHR 0x09) CACHE_VERSION [show_ulong (totalnum c) @ '' '' @ show_int CACHE_SORTVER] @
     concat (List.map show_info (server_infos c)) @ dot_line @
     concat (List.map (\<lambda>(k, f). show_file f) (cfiles c))"

text \<open>The destructor: the file is replaced through a temporary one when there is something to save. A failed
  write ends the program and leaves the old file.\<close>

definition cache_save :: "cache \<Rightarrow> (string \<Rightarrow> string option) \<Rightarrow> (string \<Rightarrow> string option)" where
  "cache_save c fs =
     (if fileread c \<noteq> - 1 \<and> saveit c \<and> (fileread c \<noteq> 0 \<or> cfiles c \<noteq> [])
      then fs(cache_file c \<mapsto> show_cache c) else fs)"

section \<open>Choosing files from cache files\<close>

text \<open>One group: the files are offered while they are read. The number counts the warnings.\<close>

function getfiles_loop ::
  "nget_config \<Rightarrow> int \<Rightarrow> (nntp_file \<Rightarrow> 'ph getfile_state \<Rightarrow> 'ph getfile_state) \<Rightarrow> reader \<Rightarrow> 'ph getfile_state \<Rightarrow>
   nat \<times> 'ph getfile_state"
where
  "getfiles_loop nconfig now getfile r st =
     (case read_file nconfig now r (gs_midinfo st) of
        (Inr (Some f), r', mm') \<Rightarrow> getfiles_loop nconfig now getfile r' (getfile f (st\<lparr>gs_midinfo := mm'\<rparr>))
      | (Inr None, r', mm') \<Rightarrow> (rd_warnings (check_counts r'), st\<lparr>gs_midinfo := mm'\<rparr>)
      | (Inl e, r', mm') \<Rightarrow> (rd_warnings r' + 1, st\<lparr>gs_midinfo := mm'\<rparr>))"
  by pat_completeness auto
termination
  by (relation "measure (\<lambda>(nconfig, now, getfile, r, st). length (rd_in r))") (auto dest: read_file_shorter [OF sym])

declare getfiles_loop.simps [simp del]

definition nntp_cache_getfiles ::
  "nget_config \<Rightarrow> prio_grouping \<Rightarrow> (string \<Rightarrow> string \<Rightarrow> bool) \<Rightarrow>
   (nntp_file \<Rightarrow> string \<Rightarrow> string \<Rightarrow> bool \<Rightarrow> 'ph \<Rightarrow> bool \<times> 'ph) \<Rightarrow> int \<Rightarrow> string \<Rightarrow> group_ptr \<Rightarrow>
   (string \<Rightarrow> string option) \<Rightarrow> getinfo list \<Rightarrow> 'ph getfile_state \<Rightarrow> bool option \<times> nat \<times> 'ph getfile_state"
where
  "nntp_cache_getfiles nconfig trust rx maybe_add now path grp fs infos st =
     (case fs (cache_filename nconfig path grp) of
        None \<Rightarrow> (None, 0, st)
      | Some content \<Rightarrow>
          (case reader_new nconfig grp content of
             (Some e, r, sinfos) \<Rightarrow> (None, rd_warnings r + 1, st)
           | (None, r, sinfos) \<Rightarrow>
               (Some (infos_multiserver sinfos),
                getfiles_loop nconfig now (cache_getfile nconfig trust rx maybe_add now infos) r st)))"

text \<open>Several groups. First every cache file is opened and its first file read: the servers in use, the
  pairs of current file and reader in the order of the groups, the warnings and the record of fetched
  messages.\<close>

definition open_reader ::
  "nget_config \<Rightarrow> int \<Rightarrow> string \<Rightarrow> (string \<Rightarrow> string option) \<Rightarrow> group_ptr \<Rightarrow>
   ulong set \<times> (nntp_file \<times> reader) list \<times> nat \<times> meta_mid_info \<Rightarrow>
   ulong set \<times> (nntp_file \<times> reader) list \<times> nat \<times> meta_mid_info"
where
  "open_reader nconfig now path fs grp acc =
     (case acc of (used, rs, w, mm) \<Rightarrow>
        (case fs (cache_filename nconfig path grp) of
           None \<Rightarrow> acc
         | Some content \<Rightarrow>
             (case reader_new nconfig grp content of
                (Some e, r, sinfos) \<Rightarrow> (used, rs, w + rd_warnings r + 1, mm)
              | (None, r, sinfos) \<Rightarrow>
                  if rd_sortver r \<noteq> CACHE_SORTVER then (used, rs, w + rd_warnings r + 1, mm)
                  else
                    (let used' = used \<union> set (List.map fst (filter (\<lambda>(sid, si). si_num si > 0) sinfos))
                     in case read_file nconfig now r mm of
                          (Inr (Some f), r', mm') \<Rightarrow> (used', rs @ [(f, r')], w, mm')
                        | (Inr None, r', mm') \<Rightarrow> (used', rs, w + rd_warnings r', mm')
                        | (Inl e, r', mm') \<Rightarrow> (used', rs, w + rd_warnings r' + 1, mm')))))"

text \<open>The position of the first file with a minimal key.\<close>

fun min_element :: "(nntp_file \<times> reader) list \<Rightarrow> nat" where
  "min_element [] = 0"
| "min_element [e] = 0"
| "min_element (e # e' # es) =
     (let j = min_element (e' # es)
      in if nf_base (fst ((e' # es) ! j)) < nf_base (fst e) then Suc j else 0)"

text \<open>The inner loop: the files with the key of the smallest one are merged into it and replaced by the
  next files of their readers; a reader without another file is dropped. The argument \<open>mi\<close> counts down
  to the position of the smallest file, the pointer the program compares with.\<close>

fun merge_pass ::
  "nget_config \<Rightarrow> int \<Rightarrow> nat option \<Rightarrow> (nntp_file \<times> reader) list \<Rightarrow> nntp_file \<Rightarrow> nat \<times> meta_mid_info \<Rightarrow>
   (nntp_file \<times> reader) list \<times> nntp_file \<times> nat \<times> meta_mid_info"
where
  "merge_pass nconfig now mi [] mf (w, mm) = ([], mf, w, mm)"
| "merge_pass nconfig now mi ((nf, r) # rest) mf (w, mm) =
     (let ismin = (mi = Some 0);
          mi' = (case mi of Some (Suc k) \<Rightarrow> Some k | _ \<Rightarrow> None)
      in if ismin \<or> file_base_eq (nf_base nf) (nf_base mf) then
           (case (if ismin then (mf, nf) else mergefile mf nf) of
              (mf1, nf1) \<Rightarrow>
                if ismin \<or> parts nf1 = [] then
                  (case read_file nconfig now r mm of
                     (Inr (Some f), r', mm') \<Rightarrow>
                       (case merge_pass nconfig now mi' rest mf1 (w, mm') of (es, res) \<Rightarrow> ((f, r') # es, res))
                   | (Inr None, r', mm') \<Rightarrow>
                       merge_pass nconfig now mi' rest mf1 (w + rd_warnings (check_counts r'), mm')
                   | (Inl e, r', mm') \<Rightarrow>
                       merge_pass nconfig now mi' rest mf1 (w + rd_warnings (check_counts r') + 1, mm'))
                else (case merge_pass nconfig now mi' rest mf1 (w, mm) of (es, res) \<Rightarrow> ((nf1, r) # es, res)))
         else (case merge_pass nconfig now mi' rest mf (w, mm) of (es, res) \<Rightarrow> ((nf, r) # es, res)))"

definition readers_size :: "(nntp_file \<times> reader) list \<Rightarrow> nat" where
  "readers_size es = (\<Sum>(f, r) \<leftarrow> es. Suc (length (rd_in r)))"

lemma readers_size_simps [simp]:
  "readers_size [] = 0" "readers_size ((f, r) # es) = Suc (length (rd_in r)) + readers_size es"
  by (simp_all add: readers_size_def)

lemma merge_pass_size:
  "merge_pass nconfig now mi es mf (w, mm) = (es', mf', w', mm') \<Longrightarrow>
     readers_size es' \<le> readers_size es \<and>
     (\<forall>k. mi = Some k \<longrightarrow> k < length es \<longrightarrow> readers_size es' < readers_size es)"
proof (induction es arbitrary: mi mf w mm es' mf' w' mm')
  case Nil
  then show ?case by simp
next
  case (Cons e rest)
  obtain nf r where e: "e = (nf, r)" by (cases e)
  let ?mi = "case mi of Some (Suc k) \<Rightarrow> Some k | _ \<Rightarrow> None"
  have tail: "readers_size es1 \<le> readers_size rest \<and>
      (\<forall>k. mi = Some (Suc k) \<longrightarrow> k < length rest \<longrightarrow> readers_size es1 < readers_size rest)"
    if "merge_pass nconfig now ?mi rest mf1 wm1 = (es1, mf2, w2, mm2)" for mf1 wm1 es1 mf2 w2 mm2
    using Cons.IH [of ?mi mf1 "fst wm1" "snd wm1" es1 mf2 w2 mm2] that by (cases wm1) auto
  show ?case
  proof (cases "mi = Some 0 \<or> file_base_eq (nf_base nf) (nf_base mf)")
    case False
    obtain es1 mf2 w2 mm2 where t: "merge_pass nconfig now ?mi rest mf (w, mm) = (es1, mf2, w2, mm2)"
      by (cases "merge_pass nconfig now ?mi rest mf (w, mm)")
    then have "es' = (nf, r) # es1" using Cons.prems False by (auto simp: e Let_def)
    then show ?thesis using tail [OF t] False by (auto simp: e less_Suc_eq_0_disj)
  next
    case True
    obtain mf1 nf1 where m: "(if mi = Some 0 then (mf, nf) else mergefile mf nf) = (mf1, nf1)"
      by (cases "if mi = Some 0 then (mf, nf) else mergefile mf nf")
    obtain rf r1 mm1 where f: "read_file nconfig now r mm = (rf, r1, mm1)"
      by (cases "read_file nconfig now r mm")
    consider (advance) g es1 mf2 w2 mm2 where "mi = Some 0 \<or> parts nf1 = []" "rf = Inr (Some g)"
        "merge_pass nconfig now ?mi rest mf1 (w, mm1) = (es1, mf2, w2, mm2)" "es' = (g, r1) # es1"
      | (ended) wm2 where "mi = Some 0 \<or> parts nf1 = []"
        "merge_pass nconfig now ?mi rest mf1 wm2 = (es', mf', w', mm')"
      | (keep) es1 mf2 w2 mm2 where "mi \<noteq> Some 0" "merge_pass nconfig now ?mi rest mf1 (w, mm) = (es1, mf2, w2, mm2)" "es' = (nf1, r) # es1"
      using Cons.prems True m f
      by (cases "mi = Some 0 \<or> parts nf1 = []"; cases rf rule: sum.exhaust; (cases "projr rf")?)
        (simp_all add: e Let_def split: prod.splits option.splits)
    then show ?thesis
    proof cases
      case advance
      then have "length (rd_in r1) < length (rd_in r)" using f read_file_shorter by blast
      then show ?thesis using advance(4) tail [OF advance(3)] by (auto simp: e less_Suc_eq_0_disj)
    next
      case ended
      then show ?thesis using tail [OF ended(2)] by (simp add: e)
    next
      case keep
      then show ?thesis using tail by (auto simp: e less_Suc_eq_0_disj)
    qed
  qed
qed

lemma min_element_less: "es \<noteq> [] \<Longrightarrow> min_element es < length es"
  by (induction es rule: min_element.induct) (auto simp: Let_def)

function getfiles_merge ::
  "nget_config \<Rightarrow> int \<Rightarrow> (nntp_file \<Rightarrow> 'ph getfile_state \<Rightarrow> 'ph getfile_state) \<Rightarrow>
   (nntp_file \<times> reader) list \<Rightarrow> nat \<Rightarrow> 'ph getfile_state \<Rightarrow> nat \<times> 'ph getfile_state"
where
  "getfiles_merge nconfig now getfile es w st =
     (if es = [] then (w, st)
      else
        (let m = min_element es
         in case merge_pass nconfig now (Some m) es (fst (es ! m)) (w, gs_midinfo st) of
              (es', mf, w', mm') \<Rightarrow> getfiles_merge nconfig now getfile es' w' (getfile mf (st\<lparr>gs_midinfo := mm'\<rparr>))))"
  by pat_completeness auto
termination
  by (relation "measure (\<lambda>(nconfig, now, getfile, es, w, st). readers_size es)")
    (auto dest!: merge_pass_size [OF sym] simp: min_element_less)

declare getfiles_merge.simps [simp del]

definition nntp_cache_getfiles_groups ::
  "nget_config \<Rightarrow> prio_grouping \<Rightarrow> (string \<Rightarrow> string \<Rightarrow> bool) \<Rightarrow>
   (nntp_file \<Rightarrow> string \<Rightarrow> string \<Rightarrow> bool \<Rightarrow> 'ph \<Rightarrow> bool \<times> 'ph) \<Rightarrow> int \<Rightarrow> string \<Rightarrow> group_ptr list \<Rightarrow>
   (string \<Rightarrow> string option) \<Rightarrow> getinfo list \<Rightarrow> 'ph getfile_state \<Rightarrow> bool \<times> nat \<times> 'ph getfile_state"
where
  "nntp_cache_getfiles_groups nconfig trust rx maybe_add now path grps fs infos st =
     (case foldl (\<lambda>acc grp. open_reader nconfig now path fs grp acc) ({}, [], 0, gs_midinfo st) grps of
        (used, es, w, mm) \<Rightarrow>
          (card used > 1,
           getfiles_merge nconfig now (cache_getfile nconfig trust rx maybe_add now infos) es w (st\<lparr>gs_midinfo := mm\<rparr>)))"

section \<open>Reading back what was saved\<close>

definition article_storable :: "nget_config \<Rightarrow> group_ptr \<Rightarrow> server_article \<Rightarrow> bool" where
  "article_storable nconfig grp sa \<longleftrightarrow> hasserver nconfig (sa_serverid sa) \<and> sa_group sa = grp"

definition int64_ok :: "int \<Rightarrow> bool" where
  "int64_ok i \<longleftrightarrow> - (2 ^ 63) \<le> i \<and> i < 2 ^ 63"

definition part_storable :: "nget_config \<Rightarrow> group_ptr \<Rightarrow> part \<Rightarrow> bool" where
  "part_storable nconfig grp p \<longleftrightarrow>
     is_int32 (partnum p) \<and> int64_ok (p_date p) \<and> field_ok (CHR 0x09) (p_messageid p) \<and> articles p \<noteq> [] \<and>
     (\<forall>sa \<in> set (articles p). article_storable nconfig grp sa)"

definition file_storable :: "nget_config \<Rightarrow> group_ptr \<Rightarrow> nntp_file \<Rightarrow> bool" where
  "file_storable nconfig grp f \<longleftrightarrow>
     file_ok f \<and> parts f \<noteq> [] \<and> (\<forall>p \<in> set (parts f). part_storable nconfig grp p) \<and>
     is_int32 (fb_req (nf_base f)) \<and> is_int32 (fb_partoff (nf_base f)) \<and> is_int32 (nf_tailoff f) \<and>
     int64_ok (update_time f) \<and>
     field_ok (CHR 0x09) (fb_subject (nf_base f)) \<and> field_ok (CHR 0x09) (fb_author (nf_base f)) \<and>
     (\<forall>s \<in> set (fb_references (nf_base f)). field_ok (CHR 0x0A) s)"

definition adv :: "nat \<Rightarrow> nat \<Rightarrow> nat \<Rightarrow> reader \<Rightarrow> reader" where
  "adv n k a r =
     r\<lparr>rd_line := rd_line r + of_nat n, rd_count := rd_count r + of_nat k, rd_counta := rd_counta r + of_nat a\<rparr>"

lemma adv_adv: "adv n k a (adv n' k' a' r) = adv (n' + n) (k' + k) (a' + a) r"
  by (simp add: adv_def add.assoc)

lemma adv_in [simp]: "adv n k a (r\<lparr>rd_in := s\<rparr>) = (adv n k a r)\<lparr>rd_in := s\<rparr>"
  "rd_in (adv n k a r) = rd_in r" "rd_group (adv n k a r) = rd_group r" "rd_sortver (adv n k a r) = rd_sortver r"
  "rd_countdeada (adv n k a r) = rd_countdeada r" "rd_totalnum (adv n k a r) = rd_totalnum r"
  "rd_warnings (adv n k a r) = rd_warnings r"
  by (simp_all add: adv_def)

lemma sint_date: "int64_ok i \<Longrightarrow> sint (of_int i :: ulong) = i"
  by (simp add: int64_ok_def sint_sbintrunc' signed_take_bit_int_eq_self)

lemma field_ok_show_ulong: "field_ok (CHR 0x09) (show_ulong w)"
  using show_ulong_chars [of _ w] by (fastforce simp: field_ok_def is_digit_def)

lemma show_ulong_hd: "hd (show_ulong w) \<noteq> CHR ''.''"
  using show_ulong_chars [of "hd (show_ulong w)" w] by (auto simp: is_digit_def)

lemma show_int_hd: "hd (show_int i) \<noteq> CHR ''.''"
  using show_int_chars [of "hd (show_int i)" i] by (auto simp: is_digit_def)

lemma read_toks_fields:
  assumes "field_ok (CHR 0x09) f" "\<forall>g \<in> set fs. field_ok (CHR 0x09) g" "Suc (length fs) \<le> m"
  shows "read_toks m (r\<lparr>rd_in := fields_line (CHR 0x09) f fs @ rest\<rparr>) = ((Suc (length fs), f # fs), r\<lparr>rd_in := rest\<rparr>)"
  using s_toks_fields [OF assms, of True rest] by (simp add: read_toks_def)

lemma fields_line_hd: "f \<noteq> [] \<Longrightarrow> hd (fields_line t f fs @ rest) = hd f \<and> fields_line t f fs @ rest \<noteq> []"
  by (simp add: fields_line_def)

text \<open>One round of the loop.\<close>

lemma read_loop_step:
  "s \<noteq> [] \<Longrightarrow>
     read_step nconfig now md ((adv 1 0 0 r)\<lparr>rd_in := s\<rparr>) mm = (Inl md', (adv n k a r)\<lparr>rd_in := rest\<rparr>, mm') \<Longrightarrow>
     read_loop nconfig now md (r\<lparr>rd_in := s\<rparr>) mm = read_loop nconfig now md' ((adv n k a r)\<lparr>rd_in := rest\<rparr>) mm'"
proof -
  have "(r\<lparr>rd_in := s\<rparr>)\<lparr>rd_line := rd_line (r\<lparr>rd_in := s\<rparr>) + 1\<rparr> = (adv 1 0 0 r)\<lparr>rd_in := s\<rparr>"
    by (simp add: adv_def)
  moreover assume "s \<noteq> []"
    "read_step nconfig now md ((adv 1 0 0 r)\<lparr>rd_in := s\<rparr>) mm = (Inl md', (adv n k a r)\<lparr>rd_in := rest\<rparr>, mm')"
  ultimately show ?thesis by (subst read_loop.simps) (simp only: if_False prod.case sum.case, simp)
qed

lemma dot_line_step:
  "skip_dot (r\<lparr>rd_in := dot_line @ rest\<rparr>) = r\<lparr>rd_in := rest\<rparr>" "hd (dot_line @ rest) = CHR ''.''" "dot_line @ rest \<noteq> []"
  using s_gets_line [of "''.''" rest] by (simp_all add: skip_dot_def dot_line_def cstr_def)

lemma read_article:
  assumes "article_storable nconfig (rd_group r) sa"
  shows "read_loop nconfig now (SERVER_ARTICLE_MODE f pn) (r\<lparr>rd_in := show_article sa @ rest\<rparr>) mm =
    read_loop nconfig now (SERVER_ARTICLE_MODE (push_article pn sa f) pn) ((adv 1 0 1 r)\<lparr>rd_in := rest\<rparr>) mm"
proof (rule read_loop_step)
  let ?fs = "[show_ulong (sa_articlenum sa), show_ulong (sa_bytes sa), show_ulong (sa_lines sa)]"
  have h: "hd (show_article sa @ rest) \<noteq> CHR ''.'' \<and> show_article sa @ rest \<noteq> []"
    using fields_line_hd [of "show_ulong (sa_serverid sa)" "CHR 0x09" ?fs rest] show_ulong_hd by (simp add: show_article_def)
  then show "show_article sa @ rest \<noteq> []" by simp
  have "read_toks 4 ((adv 1 0 0 r)\<lparr>rd_in := show_article sa @ rest\<rparr>) =
      ((4, show_ulong (sa_serverid sa) # ?fs), (adv 1 0 0 r)\<lparr>rd_in := rest\<rparr>)"
    unfolding show_article_def by (subst read_toks_fields) (simp_all add: field_ok_show_ulong)
  then show "read_step nconfig now (SERVER_ARTICLE_MODE f pn) ((adv 1 0 0 r)\<lparr>rd_in := show_article sa @ rest\<rparr>) mm =
      (Inl (SERVER_ARTICLE_MODE (push_article pn sa f) pn), (adv 1 0 1 r)\<lparr>rd_in := rest\<rparr>, mm)"
    using assms h by (cases sa) (simp add: article_storable_def adv_def)
qed

lemma read_articles:
  assumes "\<forall>sa \<in> set sas. article_storable nconfig (rd_group r) sa"
  shows "read_loop nconfig now (SERVER_ARTICLE_MODE f pn) (r\<lparr>rd_in := concat (List.map show_article sas) @ rest\<rparr>) mm =
    read_loop nconfig now (SERVER_ARTICLE_MODE (foldl (\<lambda>f sa. push_article pn sa f) f sas) pn)
      ((adv (length sas) 0 (length sas) r)\<lparr>rd_in := rest\<rparr>) mm"
  using assms
proof (induction sas arbitrary: f r)
  case Nil
  then show ?case by (simp add: adv_def)
next
  case (Cons sa sas)
  have "read_loop nconfig now (SERVER_ARTICLE_MODE f pn) (r\<lparr>rd_in := concat (List.map show_article (sa # sas)) @ rest\<rparr>) mm =
      read_loop nconfig now (SERVER_ARTICLE_MODE (push_article pn sa f) pn)
        ((adv 1 0 1 r)\<lparr>rd_in := concat (List.map show_article sas) @ rest\<rparr>) mm"
    using read_article [of nconfig r sa now f pn "concat (List.map show_article sas) @ rest" mm] Cons.prems by simp
  also have "\<dots> = read_loop nconfig now (SERVER_ARTICLE_MODE (foldl (\<lambda>f sa. push_article pn sa f) (push_article pn sa f) sas) pn)
      ((adv (length sas) 0 (length sas) (adv 1 0 1 r))\<lparr>rd_in := rest\<rparr>) mm"
    using Cons.IH [of "adv 1 0 1 r"] Cons.prems by simp
  finally show ?case by (simp add: adv_adv)
qed

lemma parts_last:
  assumes "parts_ok (ps @ [p])"
  shows "parts_add ps p = ps @ [p]" "parts_lower_bound (ps @ [p]) (partnum p) = length ps"
proof -
  have ok: "parts_ok ps" and lt: "\<forall>q \<in> set ps. partnum q < partnum p" using assms by (auto simp: parts_ok_append)
  obtain lo hi where s: "ps = lo @ hi" "parts_lower_bound ps (partnum p) = length lo" "\<forall>q \<in> set hi. partnum p \<le> partnum q"
    using parts_split [OF ok] by metis
  have "hi = []" using s lt by (cases hi) auto
  then show "parts_add ps p = ps @ [p]" using s by (simp add: parts_add_def)
  obtain lo hi where t: "ps @ [p] = lo @ hi" "parts_lower_bound (ps @ [p]) (partnum p) = length lo"
      "\<forall>q \<in> set lo. partnum q < partnum p" "\<forall>q \<in> set hi. partnum p \<le> partnum q"
    using parts_split [OF assms] by metis
  have "hi \<noteq> []"
  proof
    assume "hi = []"
    then have "p \<in> set lo" using t(1) by (metis append.right_neutral in_set_conv_decomp)
    then show False using t(3) by auto
  qed
  then obtain us z where h: "hi = us @ [z]" by (metis rev_exhaust)
  then have "ps = lo @ us" "z = p" using t(1) by auto
  moreover have "us = []" using t(4) h lt \<open>ps = lo @ us\<close> by (cases us) force+
  ultimately show "parts_lower_bound (ps @ [p]) (partnum p) = length ps" using t(2) by simp
qed

lemma push_articles:
  assumes "parts_ok (ps @ [p])" "parts f = ps @ [p\<lparr>articles := as\<rparr>]"
  shows "foldl (\<lambda>f sa. push_article (partnum p) sa f) f sas = f\<lparr>parts := ps @ [p\<lparr>articles := as @ sas\<rparr>]\<rparr>"
  using assms(2)
proof (induction sas arbitrary: as f)
  case Nil
  then show ?case by simp
next
  case (Cons sa sas)
  have "parts_ok (ps @ [p\<lparr>articles := as\<rparr>])" using assms(1) by (simp add: parts_ok_def)
  then have "parts_lower_bound (ps @ [p\<lparr>articles := as\<rparr>]) (partnum p) = length ps"
    using parts_last(2) [of ps "p\<lparr>articles := as\<rparr>"] by simp
  then have "push_article (partnum p) sa f = f\<lparr>parts := ps @ [p\<lparr>articles := as @ [sa]\<rparr>]\<rparr>"
    using Cons.prems by (simp add: push_article_def Let_def)
  then show ?case using Cons.IH [of "f\<lparr>parts := ps @ [p\<lparr>articles := as @ [sa]\<rparr>]\<rparr>" "as @ [sa]"] by simp
qed

text \<open>The current part of the reader has articles, or there is none.\<close>

definition np_ok :: "nntp_file \<Rightarrow> int option \<Rightarrow> bool" where
  "np_ok f np \<longleftrightarrow> (case np of None \<Rightarrow> True | Some pn \<Rightarrow> articles (parts f ! parts_lower_bound (parts f) pn) \<noteq> [])"

lemma drop_empty_keeps: "np_ok f np \<Longrightarrow> drop_empty now f np r mm = (f, np, r, mm)"
  by (cases np) (simp_all add: np_ok_def drop_empty_def Let_def)

lemma read_part:
  assumes "part_storable nconfig (rd_group r) p" "parts_ok (parts f @ [p])" "np_ok f np"
  shows "\<exists>n. read_loop nconfig now (PART_MODE f np) (r\<lparr>rd_in := show_part p @ rest\<rparr>) mm =
    read_loop nconfig now (PART_MODE (addpart p f) (Some (partnum p)))
      ((adv n 1 (length (articles p)) r)\<lparr>rd_in := rest\<rparr>) mm \<and> np_ok (addpart p f) (Some (partnum p))"
proof -
  let ?fs = "[show_ulong (of_int (p_date p)), p_messageid p]"
  let ?arts = "concat (List.map show_article (articles p))"
  let ?q = "part_new (partnum p) (p_date p) (p_messageid p)"
  have q: "?q = p\<lparr>articles := []\<rparr>" by (cases p) (simp add: part_new_def)
  have sp: "show_part p @ rest = fields_line (CHR 0x09) (show_int (partnum p)) ?fs @ ?arts @ dot_line @ rest"
    by (simp add: show_part_def)
  have h: "hd (show_part p @ rest) \<noteq> CHR ''.'' \<and> show_part p @ rest \<noteq> []"
    unfolding sp using fields_line_hd [of "show_int (partnum p)"] show_int_hd by (simp add: dot_line_def)
  have "read_toks 3 ((adv 1 0 0 r)\<lparr>rd_in := show_part p @ rest\<rparr>) =
      ((3, show_int (partnum p) # ?fs), (adv 1 0 0 r)\<lparr>rd_in := ?arts @ dot_line @ rest\<rparr>)"
    unfolding sp using assms(1) field_ok_show_ulong field_ok_show_int
    by (subst read_toks_fields) (simp_all add: part_storable_def)
  then have 1: "read_loop nconfig now (PART_MODE f np) (r\<lparr>rd_in := show_part p @ rest\<rparr>) mm =
      read_loop nconfig now (SERVER_ARTICLE_MODE (addpart ?q f) (partnum p))
        ((adv 1 1 0 r)\<lparr>rd_in := ?arts @ dot_line @ rest\<rparr>) mm"
    using assms(1) h drop_empty_keeps [OF assms(3)]
    by (intro read_loop_step) (simp_all add: part_storable_def atoi_show sint_date adv_def)
  have okq: "parts_ok (parts f @ [?q])" using assms(2) by (simp add: parts_ok_def part_new_def)
  then have ps: "parts (addpart ?q f) = parts f @ [p\<lparr>articles := []\<rparr>]"
    using parts_last(1) [OF okq] q by (simp add: addpart_def)
  have "foldl (\<lambda>f sa. push_article (partnum p) sa f) (addpart ?q f) (articles p) =
      (addpart ?q f)\<lparr>parts := parts f @ [p]\<rparr>"
    using push_articles [OF assms(2) ps] by simp
  also have "\<dots> = addpart p f"
    using parts_last(1) [OF assms(2)] by (simp add: addpart_def part_new_def)
  finally have 2: "read_loop nconfig now (SERVER_ARTICLE_MODE (addpart ?q f) (partnum p))
        ((adv 1 1 0 r)\<lparr>rd_in := ?arts @ dot_line @ rest\<rparr>) mm =
      read_loop nconfig now (SERVER_ARTICLE_MODE (addpart p f) (partnum p))
        ((adv (length (articles p)) 0 (length (articles p)) (adv 1 1 0 r))\<lparr>rd_in := dot_line @ rest\<rparr>) mm"
    using read_articles [of "articles p" nconfig "adv 1 1 0 r"] assms(1) by (simp add: part_storable_def)
  let ?r2 = "adv (Suc (length (articles p))) 1 (length (articles p)) r"
  have 3: "read_loop nconfig now (SERVER_ARTICLE_MODE (addpart p f) (partnum p)) (?r2\<lparr>rd_in := dot_line @ rest\<rparr>) mm =
      read_loop nconfig now (PART_MODE (addpart p f) (Some (partnum p))) ((adv 1 0 0 ?r2)\<lparr>rd_in := rest\<rparr>) mm"
    using dot_line_step [where rest = rest] by (intro read_loop_step) simp_all
  have "np_ok (addpart p f) (Some (partnum p))"
    using parts_last [OF assms(2)] assms(1) by (simp add: np_ok_def addpart_def part_storable_def)
  then show ?thesis using 1 2 3 by (auto simp: adv_adv)
qed

lemma read_parts:
  assumes "\<forall>p \<in> set ps. part_storable nconfig (rd_group r) p" "parts_ok (parts f @ ps)" "np_ok f np"
  shows "\<exists>n np'. read_loop nconfig now (PART_MODE f np) (r\<lparr>rd_in := concat (List.map show_part ps) @ rest\<rparr>) mm =
    read_loop nconfig now (PART_MODE (foldl (\<lambda>f p. addpart p f) f ps) np')
      ((adv n (length ps) (length (concat (List.map articles ps))) r)\<lparr>rd_in := rest\<rparr>) mm \<and>
    np_ok (foldl (\<lambda>f p. addpart p f) f ps) np' \<and> parts (foldl (\<lambda>f p. addpart p f) f ps) = parts f @ ps"
  using assms
proof (induction ps arbitrary: f np r)
  case Nil
  then show ?case by (intro exI [of _ 0] exI [of _ np]) (simp add: adv_def)
next
  case (Cons p ps)
  have ok: "parts_ok (parts f @ [p])" using Cons.prems(2) by (auto simp: parts_ok_append parts_ok_Cons)
  have pf: "parts (addpart p f) = parts f @ [p]" using parts_last(1) [OF ok] by (simp add: addpart_def)
  obtain n where n: "read_loop nconfig now (PART_MODE f np) (r\<lparr>rd_in := concat (List.map show_part (p # ps)) @ rest\<rparr>) mm =
      read_loop nconfig now (PART_MODE (addpart p f) (Some (partnum p)))
        ((adv n 1 (length (articles p)) r)\<lparr>rd_in := concat (List.map show_part ps) @ rest\<rparr>) mm"
      "np_ok (addpart p f) (Some (partnum p))"
    using read_part [OF _ ok Cons.prems(3), of nconfig r now "concat (List.map show_part ps) @ rest" mm] Cons.prems(1)
    by auto
  obtain n' np' where n': "read_loop nconfig now (PART_MODE (addpart p f) (Some (partnum p)))
        ((adv n 1 (length (articles p)) r)\<lparr>rd_in := concat (List.map show_part ps) @ rest\<rparr>) mm =
      read_loop nconfig now (PART_MODE (foldl (\<lambda>f p. addpart p f) (addpart p f) ps) np')
        ((adv n' (length ps) (length (concat (List.map articles ps))) (adv n 1 (length (articles p)) r))\<lparr>rd_in := rest\<rparr>) mm"
      "np_ok (foldl (\<lambda>f p. addpart p f) (addpart p f) ps) np'"
      "parts (foldl (\<lambda>f p. addpart p f) (addpart p f) ps) = parts (addpart p f) @ ps"
    using Cons.IH [of "adv n 1 (length (articles p)) r" "addpart p f" "Some (partnum p)"] Cons.prems n(2) pf by auto
  show ?case using n n' pf by (intro exI [of _ "n + n'"] exI [of _ np']) (simp add: adv_adv add.commute)
qed

lemma rd_in_upd: "rd_in (r\<lparr>rd_in := s\<rparr>) = s" "r\<lparr>rd_in := s, rd_in := s'\<rparr> = r\<lparr>rd_in := s'\<rparr>"
  by simp_all

lemma read_reference:
  assumes "field_ok (CHR 0x0A) s"
  shows "read_loop nconfig now (REFERENCES_MODE f) (r\<lparr>rd_in := show_reference s @ rest\<rparr>) mm =
    read_loop nconfig now (REFERENCES_MODE (add_reference s f)) ((adv 1 0 0 r)\<lparr>rd_in := rest\<rparr>) mm"
proof (rule read_loop_step)
  let ?l = "(if take 1 s = ''.'' then ''.'' else []) @ s"
  have ok: "field_ok (CHR 0x0A) ?l" using assms by simp
  then have "CHR 0x0A \<notin> set ?l" "CHR 0x0D \<notin> set ?l" by (auto simp: field_ok_def)
  then have g: "s_gets (show_reference s @ rest) = (Suc (length ?l), ?l, rest)"
    using s_gets_line [of ?l rest] by (simp add: show_reference_def)
  have c: "cstr ?l = ?l" using ok by (auto simp: cstr_def field_ok_def takeWhile_eq_all_conv split: if_splits)
  have "(if take 1 ?l = ''.'' then tl ?l else ?l) = s \<and> ?l \<noteq> ''.''" by (cases s) auto
  then show "read_step nconfig now (REFERENCES_MODE f) ((adv 1 0 0 r)\<lparr>rd_in := show_reference s @ rest\<rparr>) mm =
      (Inl (REFERENCES_MODE (add_reference s f)), (adv 1 0 0 r)\<lparr>rd_in := rest\<rparr>, mm)"
    unfolding read_step.simps by (simp only: g c prod.case Let_def reader.select_convs reader.update_convs rd_in_upd) auto
  show "show_reference s @ rest \<noteq> []" by (simp add: show_reference_def)
qed

lemma read_references:
  assumes "\<forall>s \<in> set ss. field_ok (CHR 0x0A) s"
  shows "read_loop nconfig now (REFERENCES_MODE f) (r\<lparr>rd_in := concat (List.map show_reference ss) @ rest\<rparr>) mm =
    read_loop nconfig now (REFERENCES_MODE (foldl (\<lambda>f s. add_reference s f) f ss)) ((adv (length ss) 0 0 r)\<lparr>rd_in := rest\<rparr>) mm"
  using assms
proof (induction ss arbitrary: f r)
  case Nil
  then show ?case by (simp add: adv_def)
next
  case (Cons s ss)
  then show ?case
    using read_reference [of s nconfig now f "concat (List.map show_reference ss) @ rest" r mm]
      Cons.IH [of "add_reference s f" "adv 1 0 0 r"] by (simp add: adv_adv)
qed

lemma add_references:
  "foldl (\<lambda>f s. add_reference s f) f ss =
     f\<lparr>nf_base := File_base (fb_req (nf_base f)) (fb_partoff (nf_base f)) (fb_author (nf_base f)) (fb_subject (nf_base f))
        (fb_references (nf_base f) @ ss)\<rparr>"
  by (induction ss arbitrary: f) (simp_all add: add_reference_def Let_def)

lemma addparts_state:
  "nf_base (foldl (\<lambda>f p. addpart p f) f ps) = nf_base f \<and> flags (foldl (\<lambda>f p. addpart p f) f ps) = flags f \<and>
   nf_tailoff (foldl (\<lambda>f p. addpart p f) f ps) = nf_tailoff f \<and>
   update_time (foldl (\<lambda>f p. addpart p f) f ps) = update_time f \<and>
   have_count (foldl (\<lambda>f p. addpart p f) f ps) =
     have_count f + int (length (filter (\<lambda>p. count_partnum (partnum p) (fb_req (nf_base f))) ps))"
  by (induction ps arbitrary: f) (simp_all add: addpart_def)

text \<open>One file.\<close>

lemma read_file_show:
  assumes "file_storable nconfig (rd_group r) f"
  shows "\<exists>n. read_file nconfig now (r\<lparr>rd_in := show_file f @ rest\<rparr>) mm =
    (Inr (Some f), (adv n (length (parts f)) (length (file_arts f)) r)\<lparr>rd_in := rest\<rparr>, mm)"
proof -
  let ?b = "nf_base f"
  let ?fs = "[show_ulong (flags f), fb_subject ?b, fb_author ?b, show_int (fb_partoff ?b), show_int (nf_tailoff f),
            show_ulong (of_int (update_time f))]"
  let ?ps = "concat (List.map show_part (parts f)) @ dot_line @ rest"
  let ?refs = "concat (List.map show_reference (fb_references ?b)) @ dot_line @ ?ps"
  let ?f0 = "file_new (fb_req ?b) (flags f) (fb_subject ?b) (fb_author ?b) (fb_partoff ?b) (nf_tailoff f) (update_time f)"
  let ?f1 = "foldl (\<lambda>f s. add_reference s f) ?f0 (fb_references ?b)"
  have ok: "file_ok f" "parts_ok (parts f)" "parts f \<noteq> []" "\<forall>p \<in> set (parts f). part_storable nconfig (rd_group r) p"
    using assms by (simp_all add: file_storable_def file_ok_def)
  have sf: "show_file f @ rest = fields_line (CHR 0x09) (show_int (fb_req ?b)) ?fs @ ?refs"
    by (simp add: show_file_def Let_def)
  have "read_toks 7 ((adv 1 0 0 r)\<lparr>rd_in := show_file f @ rest\<rparr>) =
      ((7, show_int (fb_req ?b) # ?fs), (adv 1 0 0 r)\<lparr>rd_in := ?refs\<rparr>)"
    unfolding sf using assms field_ok_show_ulong field_ok_show_int
    by (subst read_toks_fields) (simp_all add: file_storable_def)
  then have 1: "read_loop nconfig now FILE_MODE (r\<lparr>rd_in := show_file f @ rest\<rparr>) mm =
      read_loop nconfig now (REFERENCES_MODE ?f0) ((adv 1 0 0 r)\<lparr>rd_in := ?refs\<rparr>) mm"
    using assms sf by (intro read_loop_step) (simp_all add: file_storable_def atoi_show sint_date fields_line_def)
  let ?r1 = "adv (1 + length (fb_references ?b)) 0 0 r"
  have 2: "read_loop nconfig now (REFERENCES_MODE ?f0) ((adv 1 0 0 r)\<lparr>rd_in := ?refs\<rparr>) mm =
      read_loop nconfig now (REFERENCES_MODE ?f1) (?r1\<lparr>rd_in := dot_line @ ?ps\<rparr>) mm"
    using read_references [of "fb_references ?b" nconfig now ?f0 "dot_line @ ?ps" "adv 1 0 0 r" mm] assms
    by (simp add: file_storable_def adv_adv)
  have 3: "read_loop nconfig now (REFERENCES_MODE ?f1) (?r1\<lparr>rd_in := dot_line @ ?ps\<rparr>) mm =
      read_loop nconfig now (PART_MODE ?f1 None) ((adv 1 0 0 ?r1)\<lparr>rd_in := ?ps\<rparr>) mm"
    using s_gets_line [of "''.''" ?ps] by (intro read_loop_step) (simp_all add: dot_line_def cstr_def Let_def)
  have f1: "parts ?f1 = []" by (simp add: add_references file_new_def)
  obtain n np where 4: "read_loop nconfig now (PART_MODE ?f1 None) ((adv 1 0 0 ?r1)\<lparr>rd_in := ?ps\<rparr>) mm =
      read_loop nconfig now (PART_MODE (foldl (\<lambda>f p. addpart p f) ?f1 (parts f)) np)
        ((adv n (length (parts f)) (length (file_arts f)) (adv 1 0 0 ?r1))\<lparr>rd_in := dot_line @ rest\<rparr>) mm"
      "np_ok (foldl (\<lambda>f p. addpart p f) ?f1 (parts f)) np" "parts (foldl (\<lambda>f p. addpart p f) ?f1 (parts f)) = parts f"
    using read_parts [of "parts f" nconfig "adv 1 0 0 ?r1" ?f1 None now "dot_line @ rest" mm] ok f1
    by (auto simp: np_ok_def file_arts_def)
  have "foldl (\<lambda>f p. addpart p f) ?f1 (parts f) = f"
  proof -
    have "nf_base ?f1 = ?b" by (simp add: add_references file_new_def)
    moreover have "have_count ?f1 = 0" "flags ?f1 = flags f" "nf_tailoff ?f1 = nf_tailoff f" "update_time ?f1 = update_time f"
      by (simp_all add: add_references file_new_def)
    ultimately show ?thesis using 4(3) addparts_state [of ?f1 "parts f"] ok(1)
      by (intro nntp_file.equality) (simp_all add: file_ok_def wanted_def)
  qed
  note eq = this
  let ?r2 = "adv n (length (parts f)) (length (file_arts f)) (adv 1 0 0 ?r1)"
  have "read_loop nconfig now (PART_MODE f np) (?r2\<lparr>rd_in := dot_line @ rest\<rparr>) mm =
      (Inr (Some f), (adv 1 0 0 ?r2)\<lparr>rd_in := rest\<rparr>, mm)"
  proof -
    have l: "(?r2\<lparr>rd_in := dot_line @ rest\<rparr>)\<lparr>rd_line := rd_line (?r2\<lparr>rd_in := dot_line @ rest\<rparr>) + 1\<rparr> =
        (adv 1 0 0 ?r2)\<lparr>rd_in := dot_line @ rest\<rparr>" by (simp add: adv_def)
    have "read_step nconfig now (PART_MODE f np) ((adv 1 0 0 ?r2)\<lparr>rd_in := dot_line @ rest\<rparr>) mm =
        (Inr f, (adv 1 0 0 ?r2)\<lparr>rd_in := rest\<rparr>, mm)"
      using 4(2) dot_line_step [where rest = rest] ok(3)
      by (simp add: eq drop_empty_keeps del: adv_in(1))
    then show ?thesis using dot_line_step(3) by (subst read_loop.simps) (simp only: l, simp)
  qed
  then show ?thesis using 1 2 3 4(1) eq
    by (simp add: read_file_def) (simp add: adv_adv, blast)
qed

lemma read_all_show:
  assumes "\<forall>e \<in> set fs. file_storable nconfig (rd_group r) (snd e)"
  shows "\<exists>n. read_all nconfig now (r\<lparr>rd_in := concat (List.map (\<lambda>(k, f). show_file f) fs)\<rparr>) mm =
    (List.map snd fs, None, (adv n (length (list_parts fs)) (length (list_arts fs)) r)\<lparr>rd_in := []\<rparr>, mm)"
  using assms
proof (induction fs arbitrary: r)
  case Nil
  have "read_file nconfig now (r\<lparr>rd_in := []\<rparr>) mm = (Inr None, r\<lparr>rd_in := []\<rparr>, mm)"
    by (simp add: read_file_def) (subst read_loop.simps, simp)
  then have "read_all nconfig now (r\<lparr>rd_in := []\<rparr>) mm = ([], None, r\<lparr>rd_in := []\<rparr>, mm)"
    by (subst read_all.simps) simp
  then show ?case by (intro exI [of _ 0]) (simp add: adv_def)
next
  case (Cons e fs)
  obtain k f where e: "e = (k, f)" by (cases e)
  let ?rest = "concat (List.map (\<lambda>(k, f). show_file f) fs)"
  obtain n where n: "read_file nconfig now (r\<lparr>rd_in := show_file f @ ?rest\<rparr>) mm =
      (Inr (Some f), (adv n (length (parts f)) (length (file_arts f)) r)\<lparr>rd_in := ?rest\<rparr>, mm)"
    using read_file_show [of nconfig r f now ?rest mm] Cons.prems e by auto
  let ?r1 = "adv n (length (parts f)) (length (file_arts f)) r"
  obtain n' where "read_all nconfig now (?r1\<lparr>rd_in := ?rest\<rparr>) mm =
      (List.map snd fs, None, (adv n' (length (list_parts fs)) (length (list_arts fs)) ?r1)\<lparr>rd_in := []\<rparr>, mm)"
    using Cons.IH [of ?r1] Cons.prems by auto
  then show ?case
    by (subst read_all.simps) (simp add: e n adv_adv, blast)
qed

lemma smap_insert_last:
  "smap_ok (m @ [(k, v)]) \<Longrightarrow> smap_insert m k v = m @ [(k, v)]"
proof -
  assume a: "smap_ok (m @ [(k, v)])"
  then have "map_of m k = None" by (auto simp: smap_ok_append map_of_eq_None_iff)
  moreover have "smap_put m k v = m @ [(k, v)]" using a
    by (induction m k v rule: smap_put.induct) (auto simp: smap_ok_Cons)
  ultimately show ?thesis by (simp add: smap_insert_def)
qed

lemma read_infos_show:
  assumes "smap_ok (infos @ ents)" "\<forall>(sid, si) \<in> set ents. si_serverid si = sid \<and> hasserver nconfig sid"
  shows "\<exists>n. read_infos nconfig (r\<lparr>rd_in := concat (List.map show_info ents) @ dot_line @ rest\<rparr>) infos =
    (None, (adv n 0 0 r)\<lparr>rd_in := rest\<rparr>, infos @ ents)"
  using assms
proof (induction ents arbitrary: infos r)
  case Nil
  let ?r = "adv 1 0 0 r"
  have l: "(r\<lparr>rd_in := dot_line @ rest\<rparr>)\<lparr>rd_line := rd_line (r\<lparr>rd_in := dot_line @ rest\<rparr>) + 1\<rparr> = ?r\<lparr>rd_in := dot_line @ rest\<rparr>"
    by (simp add: adv_def)
  have "read_infos nconfig (r\<lparr>rd_in := dot_line @ rest\<rparr>) infos = (None, ?r\<lparr>rd_in := rest\<rparr>, infos)"
    using dot_line_step [where rest = rest] by (subst read_infos.simps) (simp only: l, simp)
  then show ?case by auto
next
  case (Cons e ents)
  obtain sid si where e: "e = (sid, si)" by (cases e)
  let ?fs = "[show_ulong (si_high si), show_ulong (si_low si), show_ulong (si_num si)]"
  let ?rest = "concat (List.map show_info ents) @ dot_line @ rest"
  let ?r = "adv 1 0 0 r"
  have si: "si_serverid si = sid" "hasserver nconfig sid" using Cons.prems(2) e by simp_all
  have s: "show_info e @ ?rest = fields_line (CHR 0x09) (show_ulong sid) ?fs @ ?rest"
    using si by (simp add: show_info_def e Let_def)
  have h: "hd (show_info e @ ?rest) \<noteq> CHR ''.''" "show_info e @ ?rest \<noteq> []"
    unfolding s using fields_line_hd [of "show_ulong sid" "CHR 0x09" ?fs ?rest] show_ulong_hd by simp_all
  have t: "read_toks 4 (?r\<lparr>rd_in := show_info e @ ?rest\<rparr>) = ((4, show_ulong sid # ?fs), ?r\<lparr>rd_in := ?rest\<rparr>)"
    unfolding s by (subst read_toks_fields) (simp_all add: field_ok_show_ulong)
  have l: "(r\<lparr>rd_in := show_info e @ ?rest\<rparr>)\<lparr>rd_line := rd_line (r\<lparr>rd_in := show_info e @ ?rest\<rparr>) + 1\<rparr> =
      ?r\<lparr>rd_in := show_info e @ ?rest\<rparr>" by (simp add: adv_def)
  have e': "\<lparr>si_serverid = sid, si_high = si_high si, si_low = si_low si, si_num = si_num si\<rparr> = si"
    using si by (cases si) simp
  have "smap_ok (infos @ [(sid, si)])" using Cons.prems(1) e by (auto simp: smap_ok_append smap_ok_Cons)
  then have ins: "smap_insert infos sid si = infos @ [e]" using smap_insert_last e by simp
  have step: "read_infos nconfig (r\<lparr>rd_in := show_info e @ ?rest\<rparr>) infos =
      read_infos nconfig (?r\<lparr>rd_in := ?rest\<rparr>) (infos @ [e])"
  proof -
    have "smap_insert infos sid \<lparr>si_serverid = sid, si_high = si_high si, si_low = si_low si, si_num = si_num si\<rparr> = infos @ [e]"
      using ins e' by simp
    then show ?thesis using h si(2)
      by (subst read_infos.simps) (simp only: l Let_def t prod.case rd_in_upd, simp)
  qed
  obtain n where "read_infos nconfig (?r\<lparr>rd_in := ?rest\<rparr>) (infos @ [e]) = (None, (adv n 0 0 ?r)\<lparr>rd_in := rest\<rparr>, infos @ e # ents)"
    using Cons.IH [of "infos @ [e]" ?r] Cons.prems by auto
  then show ?case using step by (simp add: adv_adv) blast
qed

lemma mmap_insert_last: "mmap_ok (m @ [(k, v)]) \<Longrightarrow> mmap_insert m k v = m @ [(k, v)]"
  by (induction m k v rule: mmap_insert.induct) (auto simp: mmap_ok_def sorted_append)

lemma mmap_insert_all:
  "mmap_ok (m @ fs) \<Longrightarrow> \<forall>(k, f) \<in> set fs. nf_base f = k \<Longrightarrow>
     foldl (\<lambda>m f. mmap_insert m (nf_base f) f) m (List.map snd fs) = m @ fs"
proof (induction fs arbitrary: m)
  case (Cons e fs)
  obtain k f where e: "e = (k, f)" by (cases e)
  have "mmap_ok (m @ [e])" using Cons.prems(1) by (auto simp: mmap_ok_def sorted_append)
  then have "mmap_insert m (nf_base f) f = m @ [e]" using mmap_insert_last Cons.prems(2) e by auto
  then show ?case using Cons.IH [of "m @ [e]"] Cons.prems e by simp
qed simp

definition cache_storable :: "nget_config \<Rightarrow> cache \<Rightarrow> bool" where
  "cache_storable nconfig c \<longleftrightarrow>
     (\<forall>(k, f) \<in> set (cfiles c). file_storable nconfig (cache_group c) f) \<and>
     (\<forall>(sid, si) \<in> set (server_infos c). hasserver nconfig sid)"

lemma show_header:
  "s_toks (CHR 0x09) 2 True (fields_line (CHR 0x09) CACHE_VERSION [show_ulong t @ '' '' @ show_int CACHE_SORTVER] @ rest) =
     ((2, [CACHE_VERSION, show_ulong t @ '' '' @ show_int CACHE_SORTVER]), rest)"
  using field_ok_show_ulong [of t] field_ok_show_int(2) [of CACHE_SORTVER]
  by (subst s_toks_fields) (auto simp: CACHE_VERSION_def field_ok_def)

lemma header_numbers:
  "atoul (show_ulong t @ '' '' @ show_int i) = t"
  "dropWhile (\<lambda>c. c \<noteq> CHR '' '') (show_ulong t @ '' '' @ show_int i) = CHR '' '' # show_int i"
  "atoi ('' '' @ show_int CACHE_SORTVER) = CACHE_SORTVER"
proof -
  show "atoul (show_ulong t @ '' '' @ show_int i) = t"
    using strtoul10_show [of "'' '' @ show_int i" t] by (simp add: atoul_def stops_digits_def is_digit_def)
  have "\<forall>c \<in> set (show_ulong t). c \<noteq> CHR '' ''" using show_ulong_chars [of _ t] by (fastforce simp: is_digit_def)
  then show "dropWhile (\<lambda>c. c \<noteq> CHR '' '') (show_ulong t @ '' '' @ show_int i) = CHR '' '' # show_int i"
    by (simp add: dropWhile_append2)
  show "atoi ('' '' @ show_int CACHE_SORTVER) = CACHE_SORTVER" by (simp add: CACHE_SORTVER_def) code_simp
qed

section \<open>Properties\<close>

text \<open>Property C15. A cache that was changed is saved and loaded again without a loss: files, parts, articles,
  server entries and the total come back exactly, without a warning, and the loaded cache is unchanged.
  The texts must not hold the separators of the file, the times fit 64 bits, and the servers are still
  configured.\<close>

theorem cache_save_load:
  assumes "cache_ok c" "cache_storable nconfig c" "saveit c" "fileread c = 1"
    and "cache_file c = cache_filename nconfig path (cache_group c)"
  shows "cache_load nconfig now path (cache_group c) (cache_save c fs) mm = (c\<lparr>saveit := False\<rparr>, 0, mm)"
proof -
  let ?files = "concat (List.map (\<lambda>(k, f). show_file f) (cfiles c))"
  let ?t = "[CACHE_VERSION, show_ulong (totalnum c) @ '' '' @ show_int CACHE_SORTVER]"
  have ok: "mmap_ok (cfiles c)" "\<forall>e \<in> set (cfiles c). entry_ok e" "totalnum c = of_nat (length (list_parts (cfiles c)))"
    "smap_ok (server_infos c)" "\<And>sid. info_ok True sid (map_of (server_infos c) sid) (list_arts (cfiles c))"
    using assms(1) by (simp_all add: cache_inv_def cache_lists)
  have infos: "\<forall>(sid, si) \<in> set (server_infos c). si_serverid si = sid \<and> hasserver nconfig sid"
  proof safe
    fix sid si
    assume m: "(sid, si) \<in> set (server_infos c)"
    then have "map_of (server_infos c) sid = Some si" using ok(4) by (simp add: smap_of_mem)
    then show "si_serverid si = sid" using ok(5) [of sid] by (simp add: info_ok_def)
    show "hasserver nconfig sid" using m assms(2) by (auto simp: cache_storable_def)
  qed
  define r0 :: reader where "r0 = \<lparr>rd_in = [], rd_group = cache_group c, rd_sortver = CACHE_SORTVER, rd_count = 0, rd_counta = 0,
      rd_line = 1, rd_countdeada = 0, rd_totalnum = totalnum c, rd_warnings = 0\<rparr>"
  obtain n where n: "read_infos nconfig (r0\<lparr>rd_in := concat (List.map show_info (server_infos c)) @ dot_line @ ?files\<rparr>) [] =
      (None, (adv n 0 0 r0)\<lparr>rd_in := ?files\<rparr>, server_infos c)"
    using read_infos_show [of "[]" "server_infos c" nconfig ?files r0] ok(4) infos by auto
  then have new: "reader_new nconfig (cache_group c) (show_cache c) = (None, (adv n 0 0 r0)\<lparr>rd_in := ?files\<rparr>, server_infos c)"
  proof -
    let ?rest = "concat (List.map show_info (server_infos c)) @ dot_line @ ?files"
    let ?r = "\<lparr>rd_in = show_cache c, rd_group = cache_group c, rd_sortver = - 1, rd_count = 0, rd_counta = 0, rd_line = 0,
      rd_countdeada = 0, rd_totalnum = 0, rd_warnings = 0\<rparr>"
    have "show_cache c \<noteq> []" by (simp add: show_cache_def fields_line_def)
    moreover have "read_toks 2 (?r\<lparr>rd_line := 1\<rparr>) = ((2, ?t), ?r\<lparr>rd_line := 1, rd_in := ?rest\<rparr>)"
      using show_header [of "totalnum c" ?rest] by (simp add: read_toks_def show_cache_def)
    moreover have "?r\<lparr>rd_line := 1, rd_in := ?rest, rd_totalnum := totalnum c, rd_sortver := CACHE_SORTVER\<rparr> = r0\<lparr>rd_in := ?rest\<rparr>"
      by (simp add: r0_def)
    ultimately show ?thesis
      using n header_numbers(3) by (simp add: reader_new_def Let_def header_numbers(1,2) [simplified])
  qed
  have "\<forall>e \<in> set (cfiles c). file_storable nconfig (rd_group (adv n 0 0 r0)) (snd e)"
    using assms(2) by (auto simp: cache_storable_def r0_def)
  then obtain n' where all: "read_all nconfig now ((adv n 0 0 r0)\<lparr>rd_in := ?files\<rparr>) mm = (List.map snd (cfiles c), None,
      (adv n' (length (list_parts (cfiles c))) (length (list_arts (cfiles c))) (adv n 0 0 r0))\<lparr>rd_in := []\<rparr>, mm)"
    using read_all_show by blast
  have files: "foldl (\<lambda>m f. mmap_insert m (nf_base f) f) [] (List.map snd (cfiles c)) = cfiles c"
    using mmap_insert_all [of "[]" "cfiles c"] ok(1,2) by (simp add: entry_ok_def split_beta)
  have "cache_save c fs (cache_file c) = Some (show_cache c)" using assms(3,4) by (simp add: cache_save_def)
  then show ?thesis
    using new all files ok(3) assms(4,5)
    by (simp add: cache_load_def Let_def check_counts_def adv_def r0_def)
qed

definition example_config :: nget_config where
  "example_config = nget_config_new\<lparr>serv := [(1, 0)],
     ginfos := [\<lparr>gi_alias = ''a'', gi_group = ''alt.test'', gi_prio = ''p'', gi_usegz = 0\<rparr>]\<rparr>"

definition example_cache :: cache where
  "example_cache = (snd (additem 9 example_header (cache_new\<lparr>fileread := 1\<rparr>)))
     \<lparr>cache_file := cache_filename example_config ''/c/'' 0\<rparr>"

lemma example_cache_fields:
  "cfiles example_cache = [(File_base 2 5 ''a'' ''file (*/2)'' [],
     \<lparr>nf_base = File_base 2 5 ''a'' ''file (*/2)'' [],
      parts = [\<lparr>partnum = 1, articles = [\<lparr>sa_serverid = 1, sa_group = 0, sa_articlenum = 7, sa_bytes = 500, sa_lines = 10\<rparr>],
                p_date = 100, p_messageid = ''<m1>''\<rparr>],
      have_count = 1, flags = 0, nf_tailoff = 9, update_time = 9\<rparr>)]"
  "map fst (server_infos example_cache) = [1]"
  "saveit example_cache" "fileread example_cache = 1" "cache_group example_cache = 0"
  "cache_file example_cache = cache_filename example_config ''/c/'' 0"
  by (simp_all add: example_cache_def additem_def getserverinfo_def cache_new_def example_header_def put_server_info_def
      server_info_new_def server_info_reset_def note_article_def smap_insert_def Let_def addnewpart_def addpart_def
      file_of_def part_of_def addserverarticle_def part_new_def article_of_def parts_add_def parts_lower_bound_def
      lb_loop.simps count_partnum_def)

lemma example_cache_ok: "cache_ok example_cache"
proof -
  have "cache_ok (cache_new\<lparr>fileread := 1\<rparr>)" using cache_new_ok by (simp add: cache_inv_def cache_lists)
  then have "cache_ok (snd (additem 9 example_header (cache_new\<lparr>fileread := 1\<rparr>)))" using additem_ok by blast
  then show ?thesis by (simp add: example_cache_def cache_inv_def cache_lists)
qed

lemma example_cache_storable: "cache_storable example_config example_cache"
proof -
  have "hasserver example_config 1" by (simp add: hasserver_def example_config_def mmap_equal_range_def)
  moreover have "parts_ok [p]" for p by (simp add: parts_ok_def)
  moreover have "\<forall>(sid, si) \<in> set (server_infos example_cache). sid = 1"
    using example_cache_fields(2) by auto
  ultimately show ?thesis
    by (auto simp: cache_storable_def example_cache_fields(1,5) file_storable_def part_storable_def article_storable_def
        is_int32_def int64_ok_def file_ok_def wanted_def count_partnum_def field_ok_def)
qed

theorem cache_save_load_witness:
  "cache_load example_config 5 ''/c/'' 0 (cache_save example_cache (\<lambda>_. None)) [] = (example_cache\<lparr>saveit := False\<rparr>, 0, [])"
  using cache_save_load [OF example_cache_ok example_cache_storable, of "''/c/''" 5 "\<lambda>_. None" "[]"]
  by (simp add: example_cache_fields(3-6))

text \<open>While a cache file is read, a part whose articles are all on servers that are no longer
  configured is taken out of its file, but it stays counted in \<open>have\<close>. When it is one of the wanted
  parts the file has from then on one part less than \<open>have\<close> says, so that the check for complete files,
  which compares \<open>have\<close> with the number of parts of the posting, can accept a file with a missing part
  (\<open>flush\<close>, which removes parts in the same way, does decrease \<open>have\<close>).\<close>

theorem dead_server_part_stays_counted:
  assumes "file_ok f" "parts_part (parts f) pn = Some p" "articles p = []"
    and "count_partnum pn (fb_req (nf_base f))"
    and "drop_empty now f (Some pn) r mm = (f', np, r', mm')"
  shows "parts_ok (parts f') \<and> set (parts f') = set (parts f) - {p} \<and> np = None \<and>
    have_count f' = int (length (wanted f')) + 1 \<and> \<not> file_ok f'"
proof -
  have ok: "parts_ok (parts f)" "have_count f = int (length (wanted f))" using assms(1) by (simp_all add: file_ok_def)
  have p: "p \<in> set (parts f)" "partnum p = pn" using assms(2) ok(1) by (simp_all add: parts_part_Some)
  have i: "parts_lower_bound (parts f) pn < length (parts f)" "parts f ! parts_lower_bound (parts f) pn = p"
    using assms(2) ok(1) by (auto simp: parts_part_def Let_def parts_split split: if_splits)
      (metis length_append parts_split le_add1 order_le_imp_less_or_eq)
  have f': "f' = f\<lparr>parts := removepart (parts f) pn\<rparr>" "np = None"
    using assms(3,5) i by (simp_all add: drop_empty_def Let_def)
  have same: "q = p" if "q \<in> set (parts f)" "partnum q = pn" for q
    using that p parts_part_Some [OF ok(1), of pn] by (metis option.inject)
  have r: "parts_ok (parts f')" "set (parts f') = set (parts f) - {p}"
    using removepart_ok [OF ok(1), of pn] f' p(2) same by auto
  have d: "distinct xs" if "parts_ok xs" for xs :: "part list"
    using that by (induction xs) (auto simp: parts_ok_Cons)
  have "set (wanted f') = set (wanted f) - {p}" "p \<in> set (wanted f)"
    using r(2) p assms(4) f' by (auto simp: wanted_def)
  moreover have "distinct (wanted f)" "distinct (wanted f')" using d [OF ok(1)] d [OF r(1)] by (simp_all add: wanted_def)
  ultimately have "length (wanted f) = Suc (length (wanted f'))"
    by (metis List.finite_set card.remove distinct_card)
  then show ?thesis using r f' ok(2) by (simp add: file_ok_def)
qed

theorem dead_server_part_stays_counted_witness:
  "\<exists>f f' r r' mm'. drop_empty 0 f (Some 2) r [] = (f', None, r', mm') \<and> length (parts f') = 1 \<and> have_count f' = 2"
proof -
  let ?p1 = "addserverarticle example_header (part_new 1 100 ''<m1>'')"
  let ?p2 = "part_new 2 100 ''<m2>''"
  let ?f = "\<lparr>nf_base = File_base 2 5 ''a'' ''s'' [], parts = [?p1, ?p2], have_count = 2, flags = 0, nf_tailoff = 9, update_time = 0\<rparr>"
  let ?r = "fst (snd (reader_new example_config 0 []))"
  obtain f' np r' mm' where d: "drop_empty 0 ?f (Some 2) ?r [] = (f', np, r', mm')"
    by (cases "drop_empty 0 ?f (Some 2) ?r []")
  have n: "partnum ?p1 = 1" "partnum ?p2 = 2" "articles ?p2 = []" by (simp_all add: addserverarticle_def part_new_def)
  have ok: "parts_ok (parts ?f)" using n by (simp add: parts_ok_def)
  then have 1: "file_ok ?f" using n by (simp add: file_ok_def wanted_def count_partnum_def)
  have 2: "parts_part (parts ?f) 2 = Some ?p2" using ok n by (simp add: parts_part_Some)
  have 3: "count_partnum 2 (fb_req (nf_base ?f))" by (simp add: count_partnum_def)
  note D = dead_server_part_stays_counted [OF 1 2 n(3) 3 d]
  have "?p1 \<noteq> ?p2" using n by auto
  moreover have "length (parts f') = card (set (parts f'))"
    using D distinct_card [of "parts f'"] by (metis distinct_map distinct_card parts_ok_def strict_sorted_iff)
  ultimately have "length (parts f') = 1" using D by (auto simp: insert_Diff_if)
  moreover have "wanted f' = parts f'"
  proof -
    have "nf_base f' = nf_base ?f" using d by (auto simp: drop_empty_def Let_def split: if_splits)
    moreover have "set (parts f') = {?p1}" using D \<open>?p1 \<noteq> ?p2\<close> by auto
    ultimately show ?thesis using n by (simp add: wanted_def count_partnum_def filter_id_conv)
  qed
  ultimately show ?thesis using D d by (intro exI [of _ ?f] exI [of _ f'] exI [of _ ?r] exI [of _ r'] exI [of _ mm']) simp
qed

end
