(* ===== verification/Grouplist.thy ===== *)
theory Grouplist
  imports CacheIO
begin

text \<open>
  The list of newsgroups (\<open>grouplist.h\<close>, \<open>grouplist.cc\<close>): which servers carry a group, which description
  each server gives it, flushing a server, and the file the list is kept in. Sets of server ids are
  sets, visited in ascending order. The lemmas: each server has at most one description of a group,
  what adding and flushing change, and what the reader makes of a group without configured servers.
\<close>

section \<open>Groups and their descriptions\<close>

record group_avail =
  ga_name :: string
  ga_serverids :: "ulong set"
  ga_servergroups :: "(string \<times> ulong set) list"

definition group_avail_new :: "string \<Rightarrow> group_avail" where
  "group_avail_new name = \<lparr>ga_name = name, ga_serverids = {}, ga_servergroups = []\<rparr>"

definition drop_description :: "ulong \<Rightarrow> (string \<times> ulong set) list \<Rightarrow> string \<times> ulong set \<Rightarrow> (string \<times> ulong set) list" where
  "drop_description sid sgs si =
     (case si of (d, ids) \<Rightarrow> if ids - {sid} = {} then smap_erase sgs d else smap_put sgs d (ids - {sid}))"

definition put_description :: "ulong \<Rightarrow> string \<Rightarrow> (string \<times> ulong set) list \<Rightarrow> (string \<times> ulong set) list" where
  "put_description sid desc sgs =
     (case map_of sgs desc of
        Some ids \<Rightarrow> smap_put sgs desc (insert sid ids)
      | None \<Rightarrow> smap_insert sgs desc {sid})"

definition addserverdescription :: "ulong \<Rightarrow> string \<Rightarrow> group_avail \<Rightarrow> bool \<times> group_avail" where
  "addserverdescription sid desc g =
     (case find (\<lambda>(d, ids). sid \<in> ids) (ga_servergroups g) of
        Some (d, ids) \<Rightarrow>
          if d = desc then (False, g)
          else (True, g\<lparr>ga_servergroups := put_description sid desc (drop_description sid (ga_servergroups g) (d, ids))\<rparr>)
      | None \<Rightarrow> (True, g\<lparr>ga_servergroups := put_description sid desc (ga_servergroups g)\<rparr>))"

section \<open>The list of groups\<close>

record grouplist =
  gl_filename :: string
  gl_saveit :: bool
  gl_server_info :: "(ulong \<times> string) list"
  gl_groups :: "(string \<times> group_avail) list"

text \<open>The date of a server's list, entered empty when there is none.\<close>

definition gl_getserverinfo :: "ulong \<Rightarrow> grouplist \<Rightarrow> string \<times> grouplist" where
  "gl_getserverinfo sid gl =
     (case map_of (gl_server_info gl) sid of
        Some d \<Rightarrow> (d, gl)
      | None \<Rightarrow> ([], gl\<lparr>gl_server_info := smap_put (gl_server_info gl) sid []\<rparr>))"

definition gl_group :: "string \<Rightarrow> grouplist \<Rightarrow> group_avail" where
  "gl_group name gl = (case map_of (gl_groups gl) name of Some g \<Rightarrow> g | None \<Rightarrow> group_avail_new name)"

text \<open>The group is entered when it is new, and updated in place.\<close>

definition gl_addgroup :: "ulong \<Rightarrow> string \<Rightarrow> grouplist \<Rightarrow> grouplist" where
  "gl_addgroup sid name gl =
     (let g = gl_group name gl
      in gl\<lparr>gl_groups := smap_put (gl_groups gl) name (g\<lparr>ga_serverids := insert sid (ga_serverids g)\<rparr>),
            gl_saveit := gl_saveit gl \<or> sid \<notin> ga_serverids g\<rparr>)"

definition gl_addgroupdesc :: "ulong \<Rightarrow> string \<Rightarrow> string \<Rightarrow> grouplist \<Rightarrow> grouplist" where
  "gl_addgroupdesc sid name desc gl =
     (case addserverdescription sid desc (gl_group name gl) of
        (b, g) \<Rightarrow> gl\<lparr>gl_groups := smap_put (gl_groups gl) name g, gl_saveit := gl_saveit gl \<or> b\<rparr>)"

text \<open>Flushing the descriptions of a group: what stays, the number of entries taken out, and of descriptions
  that died with them.\<close>

fun flush_descs :: "ulong \<Rightarrow> (string \<times> ulong set) list \<Rightarrow> (string \<times> ulong set) list \<times> ulong \<times> ulong" where
  "flush_descs sid [] = ([], 0, 0)"
| "flush_descs sid ((d, ids) # sgs) =
     (case flush_descs sid sgs of
        (sgs', ds, dead) \<Rightarrow>
          (let ds' = (if sid \<in> ids then ds + 1 else ds); ids' = ids - {sid}
           in if ids' = {} then (sgs', ds', dead + 1) else ((d, ids') # sgs', ds', dead)))"

definition flush_group :: "ulong \<Rightarrow> group_avail \<Rightarrow> group_avail \<times> ulong \<times> ulong \<times> ulong" where
  "flush_group sid g =
     (case flush_descs sid (ga_servergroups g) of
        (sgs, ds, d) \<Rightarrow>
          (g\<lparr>ga_servergroups := sgs, ga_serverids := ga_serverids g - {sid}\<rparr>,
           (if sid \<in> ga_serverids g then 1 else 0), ds, d))"

text \<open>The groups that stay, the numbers of groups and descriptions the server was taken out of, and of those
  that died.\<close>

fun flush_groups ::
  "ulong \<Rightarrow> (string \<times> group_avail) list \<Rightarrow> (string \<times> group_avail) list \<times> ulong \<times> ulong \<times> ulong \<times> ulong" where
  "flush_groups sid [] = ([], 0, 0, 0, 0)"
| "flush_groups sid ((name, g) # gs) =
     (case flush_groups sid gs of
        (gs', countgs, countg, countds, countd) \<Rightarrow>
          (case flush_group sid g of
             (g', n, ds, d) \<Rightarrow>
               if ga_serverids g' = {} \<and> ga_servergroups g' = []
               then (gs', countgs + n, countg + 1, countds + ds, countd + d)
               else ((name, g') # gs', countgs + n, countg, countds + ds, countd + d)))"

definition gl_flushserver :: "ulong \<Rightarrow> grouplist \<Rightarrow> grouplist" where
  "gl_flushserver sid gl =
     (case flush_groups sid (gl_groups gl) of
        (gs, countgs, countg, countds, countd) \<Rightarrow>
          gl\<lparr>gl_server_info := smap_erase (gl_server_info gl) sid, gl_groups := gs,
             gl_saveit := gl_saveit gl \<or> map_of (gl_server_info gl) sid \<noteq> None \<or> countgs \<noteq> 0 \<or> countds \<noteq> 0\<rparr>)"

section \<open>Printing\<close>

definition shortnames :: "nget_config \<Rightarrow> ulong set \<Rightarrow> string" where
  "shortnames nconfig ids =
     concat (List.map (\<lambda>sid. concat (List.map (\<lambda>p. sv_shortname (servers nconfig ! p)) (getservers nconfig sid)))
       (sorted_list_of_set ids))"

definition gl_printline :: "nget_config \<Rightarrow> group_avail \<Rightarrow> string" where
  "gl_printline nconfig g =
     shortnames nconfig (ga_serverids g) @ [CHR 0x09] @ ga_name g @
     concat (List.map (\<lambda>(d, ids). [CHR 0x09] @ d @ '' ['' @ shortnames nconfig ids @ '']'') (ga_servergroups g)) @ [CHR 0x0A]"

text \<open>A group is printed once for each request that it satisfies.\<close>

definition gl_printinfo :: "nget_config \<Rightarrow> (group_avail \<Rightarrow> bool) list \<Rightarrow> group_avail \<Rightarrow> string" where
  "gl_printinfo nconfig getinfos g =
     concat (List.map (\<lambda>pred. if pred g then gl_printline nconfig g else []) getinfos)"

definition gl_printinfos :: "nget_config \<Rightarrow> (group_avail \<Rightarrow> bool) list \<Rightarrow> grouplist \<Rightarrow> string" where
  "gl_printinfos nconfig getinfos gl = concat (List.map (\<lambda>(name, g). gl_printinfo nconfig getinfos g) (gl_groups gl))"

section \<open>The reader\<close>

definition GLCACHE_VERSION :: string where
  "GLCACHE_VERSION = ''NGETGL1''"

record gl_reader =
  gr_in :: string
  gr_line :: ulong
  gr_num :: ulong
  gr_nums :: ulong
  gr_numd :: ulong
  gr_numsd :: ulong
  gr_countdeads :: ulong
  gr_countdeadg :: ulong
  gr_warnings :: nat

definition gr_warn :: "gl_reader \<Rightarrow> gl_reader" where
  "gr_warn r = r\<lparr>gr_warnings := gr_warnings r + 1\<rparr>"

definition gr_skip_dot :: "gl_reader \<Rightarrow> gl_reader" where
  "gr_skip_dot r =
     (case s_gets (gr_in r) of (n, l, rest) \<Rightarrow>
        (let r' = r\<lparr>gr_in := rest\<rparr> in if cstr l = ''.'' then r' else gr_warn r'))"

definition gr_toks :: "bool \<Rightarrow> gl_reader \<Rightarrow> (nat \<times> string list) \<times> gl_reader" where
  "gr_toks tokfinal r = (case s_toks (CHR 0x09) 2 tokfinal (gr_in r) of (it, rest) \<Rightarrow> (it, r\<lparr>gr_in := rest\<rparr>))"

lemma gr_toks_shorter: "gr_toks fin r = (it, r') \<Longrightarrow> gr_in r \<noteq> [] \<Longrightarrow> length (gr_in r') < length (gr_in r)"
  by (auto simp: gr_toks_def split: prod.splits dest: s_toks_shorter)

lemma gr_skip_dot_shorter: "gr_in r \<noteq> [] \<Longrightarrow> length (gr_in (gr_skip_dot r)) < length (gr_in r)"
  by (auto simp: gr_skip_dot_def gr_warn_def Let_def split: prod.splits dest: s_gets_shorter)

function gl_read_infos ::
  "nget_config \<Rightarrow> gl_reader \<Rightarrow> (ulong \<times> string) list \<Rightarrow> cache_error option \<times> gl_reader \<times> (ulong \<times> string) list"
where
  "gl_read_infos nconfig r infos =
     (if gr_in r = [] then (Some (Unexpected_EOF (gr_line r)), r, infos)
      else
        (let r1 = r\<lparr>gr_line := gr_line r + 1\<rparr>
         in if hd (gr_in r1) = CHR ''.'' then (None, gr_skip_dot r1, infos)
            else
              (case gr_toks True r1 of
                 ((i, t), r2) \<Rightarrow>
                   if i = 2 then
                     (if hasserver nconfig (atoul (t ! 0))
                      then gl_read_infos nconfig r2 (smap_insert infos (atoul (t ! 0)) (t ! 1))
                      else gl_read_infos nconfig (gr_warn r2) infos)
                   else gl_read_infos nconfig (gr_warn r2) infos)))"
  by pat_completeness auto
termination
  by (relation "measure (\<lambda>(nconfig, r, infos). length (gr_in r))")
    (auto simp: gr_warn_def dest!: gr_toks_shorter [OF sym])

declare gl_read_infos.simps [simp del]

definition gl_reader_new :: "nget_config \<Rightarrow> string \<Rightarrow> cache_error option \<times> gl_reader \<times> (ulong \<times> string) list" where
  "gl_reader_new nconfig content =
     (case s_gets content of
        (n, l, rest) \<Rightarrow>
          (let r = \<lparr>gr_in = rest, gr_line = 1, gr_num = 0, gr_nums = 0, gr_numd = 0, gr_numsd = 0,
                    gr_countdeads = 0, gr_countdeadg = 0, gr_warnings = 0\<rparr>
           in if n = 0 then (Some (Unexpected_EOF 0), r, [])
              else if cstr l \<noteq> GLCACHE_VERSION
              then (Some (if take 6 (cstr l) = ''NGETGL'' then Different_version else Not_a_cache), r, [])
              else gl_read_infos nconfig r []))"

text \<open>The servers of a group, up to the first empty name, and the servers of a description.\<close>

fun add_group_ids :: "nget_config \<Rightarrow> string list \<Rightarrow> group_avail \<Rightarrow> gl_reader \<Rightarrow> group_avail \<times> gl_reader" where
  "add_group_ids nconfig [] g r = (g, r)"
| "add_group_ids nconfig (cp # cps) g r =
     (if cp = [] then (g, r)
      else if hasserver nconfig (atoul cp)
      then add_group_ids nconfig cps (g\<lparr>ga_serverids := insert (atoul cp) (ga_serverids g)\<rparr>) (r\<lparr>gr_nums := gr_nums r + 1\<rparr>)
      else add_group_ids nconfig cps g (r\<lparr>gr_countdeads := gr_countdeads r + 1\<rparr>))"

fun add_desc_ids :: "nget_config \<Rightarrow> string \<Rightarrow> string list \<Rightarrow> group_avail \<Rightarrow> gl_reader \<Rightarrow> group_avail \<times> gl_reader" where
  "add_desc_ids nconfig desc [] g r = (g, r)"
| "add_desc_ids nconfig desc (cp # cps) g r =
     (if hasserver nconfig (atoul cp)
      then add_desc_ids nconfig desc cps (snd (addserverdescription (atoul cp) desc g)) (r\<lparr>gr_numsd := gr_numsd r + 1\<rparr>)
      else add_desc_ids nconfig desc cps g (r\<lparr>gr_countdeads := gr_countdeads r + 1\<rparr>))"

lemma add_group_ids_in: "gr_in (snd (add_group_ids nconfig cps g r)) = gr_in r"
  by (induction nconfig cps g r rule: add_group_ids.induct) simp_all

lemma add_desc_ids_in: "gr_in (snd (add_desc_ids nconfig d cps g r)) = gr_in r"
  by (induction nconfig d cps g r rule: add_desc_ids.induct) simp_all

lemma add_desc_ids_rest: "add_desc_ids nconfig d cps g r = (g', r') \<Longrightarrow> gr_in r' = gr_in r"
  using add_desc_ids_in [of nconfig d cps g r] by simp

lemma add_group_ids_rest: "add_group_ids nconfig cps g r = (g', r') \<Longrightarrow> gr_in r' = gr_in r"
  using add_group_ids_in [of nconfig cps g r] by simp

text \<open>The lines of the descriptions of a group, up to the dot or the end of the file.\<close>

function gl_read_descs :: "nget_config \<Rightarrow> gl_reader \<Rightarrow> group_avail \<Rightarrow> group_avail \<times> gl_reader" where
  "gl_read_descs nconfig r g =
     (if gr_in r = [] then (g, r)
      else
        (let r1 = r\<lparr>gr_line := gr_line r + 1\<rparr>
         in if hd (gr_in r1) = CHR ''.'' then (g, gr_skip_dot r1)
            else
              (case gr_toks False r1 of
                 ((i, t), r2) \<Rightarrow>
                   if i = 2 then
                     (case add_desc_ids nconfig (t ! 1) (strtok_all (CHR '','') (Some (t ! 0))) g r2 of
                        (g', r3) \<Rightarrow> gl_read_descs nconfig r3 g')
                   else gl_read_descs nconfig (gr_warn r2) g)))"
  by pat_completeness auto
termination
  by (relation "measure (\<lambda>(nconfig, r, g). length (gr_in r))")
    (auto simp: gr_warn_def dest!: gr_toks_shorter [OF sym] add_desc_ids_rest [OF sym])

declare gl_read_descs.simps [simp del]

lemma gl_read_descs_shorter:
  "gl_read_descs nconfig r g = (g', r') \<Longrightarrow> length (gr_in r') \<le> length (gr_in r)"
proof (induction "length (gr_in r)" arbitrary: r g rule: less_induct)
  case less
  show ?case
  proof (cases "gr_in r = []")
    case True
    then show ?thesis using less.prems by (subst (asm) gl_read_descs.simps) simp
  next
    case False
    let ?r = "r\<lparr>gr_line := gr_line r + 1\<rparr>"
    obtain i t r2 where t: "gr_toks False ?r = ((i, t), r2)" by (cases "gr_toks False ?r") auto
    then have s: "length (gr_in r2) < length (gr_in r)" using gr_toks_shorter [OF t] False by simp
    have d: "length (gr_in (gr_skip_dot ?r)) < length (gr_in r)" using gr_skip_dot_shorter [of ?r] False by simp
    obtain g1 r3 where a: "add_desc_ids nconfig (t ! 1) (strtok_all (CHR '','') (Some (t ! 0))) g r2 = (g1, r3)"
      by (cases "add_desc_ids nconfig (t ! 1) (strtok_all (CHR '','') (Some (t ! 0))) g r2")
    then have "gr_in r3 = gr_in r2" by (rule add_desc_ids_rest)
    then show ?thesis
      using less.prems False t s d a less.hyps [of r3 g1] less.hyps [of "gr_warn r2" g]
      by (subst (asm) gl_read_descs.simps) (auto simp: gr_warn_def Let_def split: if_splits)
  qed
qed

text \<open>The flag tells whether the pointer still holds an earlier group that was dead.\<close>

function gl_read_group ::
  "nget_config \<Rightarrow> bool \<Rightarrow> gl_reader \<Rightarrow> (cache_error + group_avail option) \<times> gl_reader"
where
  "gl_read_group nconfig gd r =
     (if gr_in r = [] then (if gd then Inl (Unexpected_EOF (gr_line r)) else Inr None, r)
      else
        (case gr_toks True (r\<lparr>gr_line := gr_line r + 1\<rparr>) of
           ((i, t), r1) \<Rightarrow>
             if i = 2 then
               (case add_group_ids nconfig (strtok_all (CHR '','') (Some (t ! 0))) (group_avail_new (t ! 1)) r1 of
                  (g1, r2) \<Rightarrow>
                    (case gl_read_descs nconfig (r2\<lparr>gr_num := gr_num r2 + 1\<rparr>) g1 of
                       (g, r3) \<Rightarrow>
                         if ga_servergroups g \<noteq> [] \<or> ga_serverids g \<noteq> {}
                         then (Inr (Some g), r3\<lparr>gr_numd := gr_numd r3 + of_nat (length (ga_servergroups g))\<rparr>)
                         else gl_read_group nconfig True (r3\<lparr>gr_countdeadg := gr_countdeadg r3 + 1\<rparr>)))
             else gl_read_group nconfig gd (gr_warn r1)))"
  by pat_completeness auto
termination
  by (relation "measure (\<lambda>(nconfig, gd, r). length (gr_in r))")
    (auto simp: gr_warn_def dest!: gr_toks_shorter [OF sym] add_group_ids_rest [OF sym] gl_read_descs_shorter [OF sym])

declare gl_read_group.simps [simp del]

definition gl_check_counts :: "gl_reader \<Rightarrow> gl_reader" where
  "gl_check_counts r = (if gr_countdeads r \<noteq> 0 \<or> gr_countdeadg r \<noteq> 0 then gr_warn r else r)"

lemma gl_read_group_shorter:
  "gl_read_group nconfig gd r = (Inr (Some g), r') \<Longrightarrow> length (gr_in r') < length (gr_in r)"
proof (induction "length (gr_in r)" arbitrary: r gd rule: less_induct)
  case less
  show ?case
  proof (cases "gr_in r = []")
    case True
    then show ?thesis using less.prems by (subst (asm) gl_read_group.simps) (simp split: if_splits)
  next
    case False
    let ?r = "r\<lparr>gr_line := gr_line r + 1\<rparr>"
    obtain i t r1 where t: "gr_toks True ?r = ((i, t), r1)" by (cases "gr_toks True ?r") auto
    then have s: "length (gr_in r1) < length (gr_in r)" using gr_toks_shorter [OF t] False by simp
    obtain g1 r2 where a: "add_group_ids nconfig (strtok_all (CHR '','') (Some (t ! 0))) (group_avail_new (t ! 1)) r1 = (g1, r2)"
      by (cases "add_group_ids nconfig (strtok_all (CHR '','') (Some (t ! 0))) (group_avail_new (t ! 1)) r1")
    have 2: "gr_in r2 = gr_in r1" using a by (rule add_group_ids_rest)
    obtain g2 r3 where d: "gl_read_descs nconfig (r2\<lparr>gr_num := gr_num r2 + 1\<rparr>) g1 = (g2, r3)"
      by (cases "gl_read_descs nconfig (r2\<lparr>gr_num := gr_num r2 + 1\<rparr>) g1")
    have 3: "length (gr_in r3) \<le> length (gr_in r2)" using gl_read_descs_shorter [OF d] by simp
    show ?thesis
      using less.prems False t s a d 2 3 less.hyps [of "r3\<lparr>gr_countdeadg := gr_countdeadg r3 + 1\<rparr>" True]
        less.hyps [of "gr_warn r1" gd]
      by (subst (asm) gl_read_group.simps) (auto simp: gr_warn_def Let_def split: if_splits)
  qed
qed

function gl_read_all :: "nget_config \<Rightarrow> gl_reader \<Rightarrow> group_avail list \<times> cache_error option \<times> gl_reader" where
  "gl_read_all nconfig r =
     (case gl_read_group nconfig False r of
        (Inr (Some g), r') \<Rightarrow> (case gl_read_all nconfig r' of (gs, res) \<Rightarrow> (g # gs, res))
      | (Inr None, r') \<Rightarrow> ([], None, gl_check_counts r')
      | (Inl e, r') \<Rightarrow> ([], Some e, gr_warn r'))"
  by pat_completeness auto
termination
  by (relation "measure (\<lambda>(nconfig, r). length (gr_in r))") (auto dest: gl_read_group_shorter [OF sym])

declare gl_read_all.simps [simp del]

text \<open>The constructor with a path, and the number of warnings.\<close>

definition gl_load :: "nget_config \<Rightarrow> string \<Rightarrow> (string \<Rightarrow> string option) \<Rightarrow> grouplist \<times> nat" where
  "gl_load nconfig path fs =
     (let file = setfilenamegz nconfig path (- 2);
          gl = \<lparr>gl_filename = file, gl_saveit = False, gl_server_info = [], gl_groups = []\<rparr>
      in case fs file of
           None \<Rightarrow> (gl, 0)
         | Some content \<Rightarrow>
             (case gl_reader_new nconfig content of
                (Some e, r, infos) \<Rightarrow> (gl\<lparr>gl_server_info := infos\<rparr>, gr_warnings r + 1)
              | (None, r, infos) \<Rightarrow>
                  (case gl_read_all nconfig r of
                     (gs, e, r') \<Rightarrow>
                       (gl\<lparr>gl_server_info := infos,
                           gl_groups := foldl (\<lambda>m g. smap_insert m (ga_name g) g) [] gs\<rparr>, gr_warnings r'))))"

section \<open>Saving\<close>

definition show_ids :: "ulong set \<Rightarrow> string" where
  "show_ids ids =
     (case sorted_list_of_set ids of [] \<Rightarrow> []
      | sid # sids \<Rightarrow> show_ulong sid @ concat (List.map (\<lambda>s. CHR '','' # show_ulong s) sids))"

definition show_group :: "group_avail \<Rightarrow> string" where
  "show_group g =
     fields_line (CHR 0x09) (show_ids (ga_serverids g)) [ga_name g] @
     concat (List.map (\<lambda>(d, ids). fields_line (CHR 0x09) (show_ids ids) [d]) (ga_servergroups g)) @ dot_line"

definition show_grouplist :: "grouplist \<Rightarrow> string" where
  "show_grouplist gl =
     GLCACHE_VERSION @ [CHR 0x0A] @
     concat (List.map (\<lambda>(sid, d). fields_line (CHR 0x09) (show_ulong sid) [d]) (gl_server_info gl)) @ dot_line @
     concat (List.map (\<lambda>(name, g). show_group g) (gl_groups gl))"

definition gl_save :: "grouplist \<Rightarrow> (string \<Rightarrow> string option) \<Rightarrow> (string \<Rightarrow> string option)" where
  "gl_save gl fs =
     (if \<not> gl_saveit gl \<or> gl_filename gl = [] then fs else fs(gl_filename gl \<mapsto> show_grouplist gl))"

text \<open>Printing straight from the file: the output and the number of warnings.\<close>

definition nntp_grouplist_printinfos ::
  "nget_config \<Rightarrow> string \<Rightarrow> (string \<Rightarrow> string option) \<Rightarrow> (group_avail \<Rightarrow> bool) list \<Rightarrow> string \<times> nat" where
  "nntp_grouplist_printinfos nconfig ngcachehome fs getinfos =
     (case fs (setfilenamegz nconfig (ngcachehome @ ''newsgroups'') (- 2)) of
        None \<Rightarrow> ([], 0)
      | Some content \<Rightarrow>
          (case gl_reader_new nconfig content of
             (Some e, r, infos) \<Rightarrow> ([], gr_warnings r + 1)
           | (None, r, infos) \<Rightarrow>
               (case gl_read_all nconfig r of
                  (gs, e, r') \<Rightarrow> (concat (List.map (gl_printinfo nconfig getinfos) gs), gr_warnings r'))))"

section \<open>Descriptions of a group\<close>

definition ga_ok :: "group_avail \<Rightarrow> bool" where
  "ga_ok g \<longleftrightarrow>
     smap_ok (ga_servergroups g) \<and> (\<forall>(d, ids) \<in> set (ga_servergroups g). ids \<noteq> {}) \<and>
     (\<forall>(d, ids) \<in> set (ga_servergroups g). \<forall>(d', ids') \<in> set (ga_servergroups g). ids \<inter> ids' \<noteq> {} \<longrightarrow> d = d')"

text \<open>The description a server gives the group.\<close>

definition desc_of :: "group_avail \<Rightarrow> ulong \<Rightarrow> string option" where
  "desc_of g sid = map_option fst (find (\<lambda>(d, ids). sid \<in> ids) (ga_servergroups g))"

lemma find_mem: "find P xs = Some x \<Longrightarrow> x \<in> set xs \<and> P x"
  by (induction xs) (auto split: if_splits)

lemma desc_of_Some:
  assumes "ga_ok g"
  shows "desc_of g sid = Some d \<longleftrightarrow> (\<exists>ids. (d, ids) \<in> set (ga_servergroups g) \<and> sid \<in> ids)"
proof
  assume "desc_of g sid = Some d"
  then obtain ids where "find (\<lambda>(d, ids). sid \<in> ids) (ga_servergroups g) = Some (d, ids)"
    by (auto simp: desc_of_def)
  then show "\<exists>ids. (d, ids) \<in> set (ga_servergroups g) \<and> sid \<in> ids" using find_mem by fastforce
next
  assume "\<exists>ids. (d, ids) \<in> set (ga_servergroups g) \<and> sid \<in> ids"
  then obtain ids where m: "(d, ids) \<in> set (ga_servergroups g)" "sid \<in> ids" by blast
  then have "find (\<lambda>(d, ids). sid \<in> ids) (ga_servergroups g) \<noteq> None" by (auto simp: find_None_iff)
  then obtain d' ids' where f: "find (\<lambda>(d, ids). sid \<in> ids) (ga_servergroups g) = Some (d', ids')" by auto
  then have "(d', ids') \<in> set (ga_servergroups g)" "sid \<in> ids'" using find_mem [OF f] by simp_all
  then have "d = d'" using assms m by (fastforce simp: ga_ok_def)
  then show "desc_of g sid = Some d" using f by (simp add: desc_of_def)
qed

lemma desc_of_None: "desc_of g sid = None \<longleftrightarrow> (\<forall>(d, ids) \<in> set (ga_servergroups g). sid \<notin> ids)"
  by (auto simp: desc_of_def find_None_iff)

text \<open>Two groups with the same server sets per description have the same descriptions.\<close>

lemma desc_of_eqI:
  assumes "ga_ok g" "\<And>d. (\<exists>ids. (d, ids) \<in> set (ga_servergroups g) \<and> sid \<in> ids) \<longleftrightarrow> D = Some d"
  shows "desc_of g sid = D"
proof (cases D)
  case None
  then show ?thesis using assms(2) by (force simp: desc_of_None)
next
  case (Some d)
  then show ?thesis using assms by (simp add: desc_of_Some)
qed

lemma drop_description_set:
  assumes "smap_ok sgs" "(d, ids) \<in> set sgs"
  shows "smap_ok (drop_description sid sgs (d, ids)) \<and>
    set (drop_description sid sgs (d, ids)) =
      {p \<in> set sgs. fst p \<noteq> d} \<union> (if ids - {sid} = {} then {} else {(d, ids - {sid})})"
  using assms by (auto simp: drop_description_def smap_simps)

lemma put_description_set:
  assumes "smap_ok sgs"
  shows "smap_ok (put_description sid desc sgs) \<and>
    set (put_description sid desc sgs) =
      insert (desc, insert sid (case map_of sgs desc of Some ids \<Rightarrow> ids | None \<Rightarrow> {})) {p \<in> set sgs. fst p \<noteq> desc}"
  using assms
  by (auto simp: put_description_def smap_simps smap_insert_def split: option.splits)

definition describes :: "(string \<times> ulong set) list \<Rightarrow> string \<Rightarrow> ulong \<Rightarrow> bool" where
  "describes sgs d s \<longleftrightarrow> (\<exists>ids. (d, ids) \<in> set sgs \<and> s \<in> ids)"

lemma ga_ok_describes:
  "ga_ok g \<longleftrightarrow> smap_ok (ga_servergroups g) \<and> (\<forall>(d, ids) \<in> set (ga_servergroups g). ids \<noteq> {}) \<and>
     (\<forall>d d' s. describes (ga_servergroups g) d s \<longrightarrow> describes (ga_servergroups g) d' s \<longrightarrow> d = d')"
  by (fastforce simp: ga_ok_def describes_def)

lemma put_description_describes:
  assumes "smap_ok sgs"
  shows "describes (put_description sid desc sgs) d s \<longleftrightarrow> describes sgs d s \<or> d = desc \<and> s = sid"
proof (cases "map_of sgs desc")
  case None
  then have "\<forall>p \<in> set sgs. fst p \<noteq> desc" by (simp add: smap_of_None)
  then show ?thesis using put_description_set [OF assms, of sid desc] None by (force simp: describes_def)
next
  case (Some ids)
  then have m: "(desc, ids) \<in> set sgs" using assms by (simp add: smap_of_mem)
  have D: "describes sgs desc s \<longleftrightarrow> s \<in> ids" unfolding describes_def using smap_ok_unique [OF assms m] m by blast
  have S: "set (put_description sid desc sgs) = insert (desc, insert sid ids) {p \<in> set sgs. fst p \<noteq> desc}"
    using put_description_set [OF assms, of sid desc] Some by simp
  show ?thesis
  proof (cases "d = desc")
    case True
    then show ?thesis using D by (auto simp: describes_def S)
  next
    case False
    then show ?thesis by (auto simp: describes_def S)
  qed
qed

lemma drop_description_describes:
  assumes "smap_ok sgs" "(d, ids) \<in> set sgs"
  shows "describes (drop_description sid sgs (d, ids)) d' s \<longleftrightarrow> describes sgs d' s \<and> \<not> (d' = d \<and> s = sid)"
proof -
  have D: "describes sgs d s \<longleftrightarrow> s \<in> ids" unfolding describes_def using smap_ok_unique [OF assms] assms(2) by blast
  have S: "set (drop_description sid sgs (d, ids)) =
      {p \<in> set sgs. fst p \<noteq> d} \<union> (if ids - {sid} = {} then {} else {(d, ids - {sid})})"
    using drop_description_set [OF assms] by blast
  show ?thesis
  proof (cases "d' = d")
    case True
    then show ?thesis using D by (auto simp: describes_def S)
  next
    case False
    then show ?thesis by (auto simp: describes_def S)
  qed
qed

lemma desc_of_describes: "ga_ok g \<Longrightarrow> desc_of g s = Some d \<longleftrightarrow> describes (ga_servergroups g) d s"
  by (simp add: desc_of_Some describes_def)

lemma desc_of_describesI:
  assumes "ga_ok g" "\<And>d. describes (ga_servergroups g) d s \<longleftrightarrow> D = Some d"
  shows "desc_of g s = D"
  using desc_of_eqI [OF assms(1), of s D] assms(2) by (simp add: describes_def)

lemma addserverdescription_ok:
  assumes "ga_ok g" "addserverdescription sid desc g = (b, g')"
  shows "ga_ok g' \<and> desc_of g' = (desc_of g)(sid \<mapsto> desc) \<and> (b \<longleftrightarrow> desc_of g sid \<noteq> Some desc) \<and>
    ga_name g' = ga_name g \<and> ga_serverids g' = ga_serverids g"
proof -
  let ?sgs = "ga_servergroups g"
  have ok: "smap_ok ?sgs" "\<forall>(d, ids) \<in> set ?sgs. ids \<noteq> {}"
    "\<forall>d d' s. describes ?sgs d s \<longrightarrow> describes ?sgs d' s \<longrightarrow> d = d'"
    using assms(1) by (simp_all add: ga_ok_describes)
  have put: "ga_ok g2 \<and> desc_of g2 = (desc_of g)(sid \<mapsto> desc)"
    if s: "smap_ok sgs" "\<forall>(d, ids) \<in> set sgs. ids \<noteq> {}"
      and h: "\<And>d s. describes sgs d s \<longleftrightarrow> describes ?sgs d s \<and> s \<noteq> sid"
      and g2: "ga_servergroups g2 = put_description sid desc sgs" for sgs g2
  proof -
    have d: "describes (ga_servergroups g2) d s \<longleftrightarrow> describes ?sgs d s \<and> s \<noteq> sid \<or> d = desc \<and> s = sid" for d s
      unfolding g2 using put_description_describes [OF s(1), of sid desc d s] h by simp
    have "ga_ok g2"
      using put_description_set [OF s(1), of sid desc] s(2) d ok(3) by (auto simp: ga_ok_describes g2)
    moreover have "desc_of g2 s = ((desc_of g)(sid \<mapsto> desc)) s" for s
      using d desc_of_describes [OF assms(1)] by (intro desc_of_describesI \<open>ga_ok g2\<close>) auto
    ultimately show ?thesis by (simp add: fun_eq_iff)
  qed
  show ?thesis
  proof (cases "find (\<lambda>(d, ids). sid \<in> ids) ?sgs")
    case None
    then have "\<not> describes ?sgs d sid" for d by (auto simp: describes_def find_None_iff)
    then have "describes ?sgs d s \<longleftrightarrow> describes ?sgs d s \<and> s \<noteq> sid" for d s by auto
    moreover have "g' = g\<lparr>ga_servergroups := put_description sid desc ?sgs\<rparr>" "b" "desc_of g sid = None"
      using assms(2) None by (simp_all add: addserverdescription_def desc_of_def)
    ultimately show ?thesis using put [OF ok(1,2), of g'] by simp
  next
    case (Some p)
    obtain d ids where p: "p = (d, ids)" by (cases p)
    have m: "(d, ids) \<in> set ?sgs" "sid \<in> ids" using find_mem [OF Some] p by simp_all
    have dd: "desc_of g sid = Some d" using Some p by (simp add: desc_of_def)
    have ds: "describes ?sgs d sid" using m by (auto simp: describes_def)
    show ?thesis
    proof (cases "d = desc")
      case True
      then show ?thesis using assms dd Some p by (simp add: addserverdescription_def fun_upd_idem)
    next
      case False
      let ?s1 = "drop_description sid ?sgs (d, ids)"
      have h: "describes ?s1 d' s \<longleftrightarrow> describes ?sgs d' s \<and> s \<noteq> sid" for d' s
        using drop_description_describes [OF ok(1) m(1), of sid d' s] ok(3) ds by blast
      have "smap_ok ?s1" "\<forall>(d, ids) \<in> set ?s1. ids \<noteq> {}"
        using drop_description_set [OF ok(1) m(1), of sid] ok(2) by auto
      moreover have "g' = g\<lparr>ga_servergroups := put_description sid desc ?s1\<rparr>" "b"
        using assms(2) Some p False by (simp_all add: addserverdescription_def)
      ultimately show ?thesis using put [of ?s1 g'] h dd False by simp
    qed
  qed
qed

section \<open>Flushing a server\<close>

lemma flush_descs_set:
  "fst (flush_descs sid sgs) = filter (\<lambda>(d, ids). ids \<noteq> {}) (List.map (\<lambda>(d, ids). (d, ids - {sid})) sgs)"
  by (induction sid sgs rule: flush_descs.induct) (auto simp: Let_def split: prod.splits)

lemma flush_group_ok:
  assumes "ga_ok g" "flush_group sid g = (g', n)"
  shows "ga_ok g' \<and> desc_of g' = (desc_of g)(sid := None) \<and> ga_serverids g' = ga_serverids g - {sid} \<and> ga_name g' = ga_name g"
proof -
  have s: "ga_servergroups g' = filter (\<lambda>(d, ids). ids \<noteq> {}) (List.map (\<lambda>(d, ids). (d, ids - {sid})) (ga_servergroups g))"
    "ga_serverids g' = ga_serverids g - {sid}" "ga_name g' = ga_name g"
    using assms(2) flush_descs_set [of sid "ga_servergroups g"] by (auto simp: flush_group_def split: prod.splits)
  have d: "describes (ga_servergroups g') d s \<longleftrightarrow> describes (ga_servergroups g) d s \<and> s \<noteq> sid" for d s
  proof -
    have "set (ga_servergroups g') = {(d, ids - {sid}) | d ids. (d, ids) \<in> set (ga_servergroups g) \<and> ids - {sid} \<noteq> {}}"
      unfolding s by (auto simp: image_iff) (metis (mono_tags, lifting) case_prod_conv)
    then show ?thesis unfolding describes_def by blast
  qed
  have "smap_ok (List.map (\<lambda>(d, ids). (d, ids - {sid})) (ga_servergroups g))"
    using assms(1) by (simp add: ga_ok_def smap_ok_def comp_def split_beta)
  then have "smap_ok (ga_servergroups g')" unfolding s by (rule smap_ok_filter)
  then have ok: "ga_ok g'" using d assms(1) by (auto simp: ga_ok_describes s(1))
  have "desc_of g' s = ((desc_of g)(sid := None)) s" for s
    using d desc_of_describes [OF assms(1)] by (intro desc_of_describesI ok) auto
  then show ?thesis using ok s(2,3) by (simp add: fun_eq_iff)
qed

text \<open>A list of groups is well formed when its groups are, under their names, and none is empty.\<close>

definition gl_ok :: "grouplist \<Rightarrow> bool" where
  "gl_ok gl \<longleftrightarrow>
     smap_ok (gl_groups gl) \<and> smap_ok (gl_server_info gl) \<and>
     (\<forall>(name, g) \<in> set (gl_groups gl). ga_ok g \<and> ga_name g = name)"

lemma group_avail_new_ok: "ga_ok (group_avail_new name)"
  by (simp add: ga_ok_def group_avail_new_def)

lemma gl_group_ok: "gl_ok gl \<Longrightarrow> ga_ok (gl_group name gl) \<and> ga_name (gl_group name gl) = name"
  using group_avail_new_ok
  by (auto simp: gl_group_def gl_ok_def group_avail_new_def smap_of_mem split: option.splits)

lemma gl_put_ok:
  assumes "gl_ok gl" "ga_ok g" "ga_name g = name"
  shows "gl_ok (gl\<lparr>gl_groups := smap_put (gl_groups gl) name g, gl_saveit := b\<rparr>)"
  using assms by (auto simp: gl_ok_def smap_simps)

lemma flush_groups_state:
  assumes "\<forall>(name, g) \<in> set gs. ga_ok g" "flush_groups sid gs = (gs', n)"
  shows "gs' = filter (\<lambda>(name, g). ga_serverids g \<noteq> {} \<or> ga_servergroups g \<noteq> [])
      (List.map (\<lambda>(name, g). (name, fst (flush_group sid g))) gs)"
  using assms
  by (induction gs arbitrary: gs' n) (auto simp: split: prod.splits if_splits)

section \<open>Properties\<close>

text \<open>Property C16. Whatever is added, every server has at most one description of a group, and it is the one
  added last: adding a description takes the server out of the set of its old description, a description
  without servers disappears, and the list is marked for saving exactly when something changed. Adding a
  server to a group changes no description.\<close>

theorem grouplist_add:
  assumes "gl_ok gl"
  shows "gl_ok (gl_addgroupdesc sid name desc gl) \<and>
    desc_of (gl_group name (gl_addgroupdesc sid name desc gl)) = (desc_of (gl_group name gl))(sid \<mapsto> desc) \<and>
    (gl_saveit (gl_addgroupdesc sid name desc gl) \<longleftrightarrow> gl_saveit gl \<or> desc_of (gl_group name gl) sid \<noteq> Some desc) \<and>
    gl_ok (gl_addgroup sid name gl) \<and>
    ga_serverids (gl_group name (gl_addgroup sid name gl)) = insert sid (ga_serverids (gl_group name gl)) \<and>
    desc_of (gl_group name (gl_addgroup sid name gl)) = desc_of (gl_group name gl) \<and>
    (gl_saveit (gl_addgroup sid name gl) \<longleftrightarrow> gl_saveit gl \<or> sid \<notin> ga_serverids (gl_group name gl))"
proof -
  let ?g = "gl_group name gl"
  have g: "ga_ok ?g" "ga_name ?g = name" using gl_group_ok [OF assms] by simp_all
  have s: "smap_ok (gl_groups gl)" using assms by (simp add: gl_ok_def)
  obtain b g' where a: "addserverdescription sid desc ?g = (b, g')" by (cases "addserverdescription sid desc ?g")
  note A = addserverdescription_ok [OF g(1) a]
  have 1: "gl_addgroupdesc sid name desc gl = gl\<lparr>gl_groups := smap_put (gl_groups gl) name g', gl_saveit := gl_saveit gl \<or> b\<rparr>"
    by (simp add: gl_addgroupdesc_def a)
  have look: "gl_group name (gl\<lparr>gl_groups := smap_put (gl_groups gl) name h, gl_saveit := c\<rparr>) = h" for h c
    using s by (simp add: gl_group_def map_of_smap_put)
  let ?h = "?g\<lparr>ga_serverids := insert sid (ga_serverids ?g)\<rparr>"
  have h: "ga_ok ?h" "ga_name ?h = name" "desc_of ?h = desc_of ?g"
    using g by (simp_all add: ga_ok_def desc_of_def fun_eq_iff)
  have 2: "gl_addgroup sid name gl =
      gl\<lparr>gl_groups := smap_put (gl_groups gl) name ?h, gl_saveit := gl_saveit gl \<or> sid \<notin> ga_serverids ?g\<rparr>"
    by (simp add: gl_addgroup_def Let_def)
  show ?thesis
    using gl_put_ok [OF assms, of g' name "gl_saveit gl \<or> b"] gl_put_ok [OF assms h(1,2)] A g(2) h(3)
    by (simp add: 1 2 look)
qed

theorem grouplist_add_witness:
  "desc_of (gl_group ''g'' (gl_addgroupdesc 2 ''g'' ''d'' \<lparr>gl_filename = [], gl_saveit = False, gl_server_info = [], gl_groups = []\<rparr>)) 2 = Some ''d''"
proof -
  let ?gl = "\<lparr>gl_filename = [], gl_saveit = False, gl_server_info = [], gl_groups = []\<rparr>"
  have "gl_ok ?gl" by (simp add: gl_ok_def)
  then show ?thesis using grouplist_add [of ?gl 2 "''g''" "''d''"] by simp
qed

text \<open>A group at the end of the file none of whose servers is configured any more makes the
  reader report an unexpected end of a file that is complete: the pointer to the dead group is still set
  when the input ends. The check of the counts, which would explain the dead group, is not reached.\<close>

theorem grouplist_dead_last_group:
  assumes "\<not> hasserver nconfig sid" "field_ok (CHR 0x09) name"
    and "gr_in r = show_group \<lparr>ga_name = name, ga_serverids = {sid}, ga_servergroups = []\<rparr>"
  shows "\<exists>line r'. gl_read_group nconfig False r = (Inl (Unexpected_EOF line), r')"
proof -
  let ?r = "r\<lparr>gr_line := gr_line r + 1\<rparr>"
  have c: "gr_in r = fields_line (CHR 0x09) (show_ulong sid) [name] @ dot_line"
    unfolding assms(3) by (simp add: show_group_def show_ids_def)
  have t: "gr_toks True ?r = ((2, [show_ulong sid, name]), ?r\<lparr>gr_in := dot_line\<rparr>)"
    using s_toks_fields [of "CHR 0x09" "show_ulong sid" "[name]" 2 True dot_line] assms(2) field_ok_show_ulong
    by (simp add: gr_toks_def c)
  have "CHR '','' \<notin> set (show_ulong sid)" using show_ulong_chars [of "CHR '',''" sid] by (auto simp: is_digit_def)
  then have ids: "strtok_all (CHR '','') (Some (show_ulong sid)) = [show_ulong sid]" by (rule strtok_all_one)
  let ?r2 = "?r\<lparr>gr_in := dot_line, gr_countdeads := gr_countdeads r + 1\<rparr>"
  have a: "add_group_ids nconfig [show_ulong sid] (group_avail_new name) (?r\<lparr>gr_in := dot_line\<rparr>) = (group_avail_new name, ?r2)"
    using assms(1) by simp
  have ne: "dot_line \<noteq> []" "hd dot_line = CHR ''.''" by (simp_all add: dot_line_def)
  have g: "s_gets dot_line = (2, ''.'', [])" using s_gets_line [of "''.''" "[]"] by (simp add: dot_line_def)
  let ?r2' = "?r2\<lparr>gr_num := gr_num ?r2 + 1\<rparr>"
  define r3 where "r3 = gr_skip_dot (?r2'\<lparr>gr_line := gr_line ?r2' + 1\<rparr>)"
  have d: "gl_read_descs nconfig ?r2' (group_avail_new name) = (group_avail_new name, r3)"
    using ne by (subst gl_read_descs.simps) (simp add: r3_def)
  have e: "gr_in r3 = []" using g by (simp add: r3_def gr_skip_dot_def cstr_def)
  have "gr_in r \<noteq> []" using c ne by simp
  then have "gl_read_group nconfig False r = gl_read_group nconfig True (r3\<lparr>gr_countdeadg := gr_countdeadg r3 + 1\<rparr>)"
    using t a d by (subst gl_read_group.simps) (simp add: ids group_avail_new_def)
  also have "\<dots> = (Inl (Unexpected_EOF (gr_line r3)), r3\<lparr>gr_countdeadg := gr_countdeadg r3 + 1\<rparr>)"
    using e by (subst gl_read_group.simps) simp
  finally show ?thesis by blast
qed

theorem grouplist_dead_last_group_witness:
  "\<exists>line r'. gl_read_group nget_config_new False
      \<lparr>gr_in = show_group \<lparr>ga_name = ''alt.test'', ga_serverids = {7}, ga_servergroups = []\<rparr>, gr_line = 2, gr_num = 0,
       gr_nums = 0, gr_numd = 0, gr_numsd = 0, gr_countdeads = 0, gr_countdeadg = 0, gr_warnings = 0\<rparr> =
    (Inl (Unexpected_EOF line), r')"
  by (rule grouplist_dead_last_group [where sid = 7])
    (simp_all add: hasserver_def mmap_equal_range_def nget_config_new_def)

lemma flush_groups_look:
  assumes "gl_ok gl" "flush_groups sid (gl_groups gl) = (gs', n)"
  shows "smap_ok gs' \<and>
    map_of gs' name = (case map_of (gl_groups gl) name of None \<Rightarrow> None
      | Some g \<Rightarrow> if ga_serverids (fst (flush_group sid g)) \<noteq> {} \<or> ga_servergroups (fst (flush_group sid g)) \<noteq> []
                   then Some (fst (flush_group sid g)) else None)"
proof -
  let ?m = "List.map (\<lambda>(name, g). (name, fst (flush_group sid g))) (gl_groups gl)"
  let ?P = "\<lambda>g. ga_serverids g \<noteq> {} \<or> ga_servergroups g \<noteq> []"
  have gs': "gs' = filter (\<lambda>(name, g). ?P g) ?m"
    using flush_groups_state [OF _ assms(2)] assms(1) by (auto simp: gl_ok_def)
  have ok: "smap_ok ?m" using assms(1) by (simp add: gl_ok_def smap_ok_def comp_def split_beta)
  have "map_of ?m name = map_option (\<lambda>g. fst (flush_group sid g)) (map_of (gl_groups gl) name)"
    by (simp add: map_of_map)
  then show ?thesis unfolding gs' using smap_ok_filter [OF ok] smap_ok_map_of_filter [OF ok, of ?P name]
    by (simp split: option.splits)
qed

text \<open>Flushing a server takes it out of every group and of every description, leaves the other
  servers' entries as they are, and removes the groups nobody carries or describes any more.\<close>

theorem grouplist_flush:
  assumes "gl_ok gl"
  shows "gl_ok (gl_flushserver sid gl) \<and>
    ga_serverids (gl_group name (gl_flushserver sid gl)) = ga_serverids (gl_group name gl) - {sid} \<and>
    desc_of (gl_group name (gl_flushserver sid gl)) = (desc_of (gl_group name gl))(sid := None) \<and>
    (\<forall>g. map_of (gl_groups (gl_flushserver sid gl)) name = Some g \<longrightarrow> ga_serverids g \<noteq> {} \<or> ga_servergroups g \<noteq> [])"
proof -
  obtain gs' n where f: "flush_groups sid (gl_groups gl) = (gs', n)" by (cases "flush_groups sid (gl_groups gl)")
  note L = flush_groups_look [OF assms f]
  have fl: "gl_groups (gl_flushserver sid gl) = gs'" "gl_server_info (gl_flushserver sid gl) = smap_erase (gl_server_info gl) sid"
    using f by (simp_all add: gl_flushserver_def split_beta)
  have ok: "ga_ok (fst (flush_group sid g)) \<and> desc_of (fst (flush_group sid g)) = (desc_of g)(sid := None) \<and>
      ga_serverids (fst (flush_group sid g)) = ga_serverids g - {sid} \<and> ga_name (fst (flush_group sid g)) = ga_name g"
    if "ga_ok g" for g using flush_group_ok [OF that, of sid "fst (flush_group sid g)" "snd (flush_group sid g)"] by simp
  have g: "ga_ok g \<and> ga_name g = nm" if "map_of (gl_groups gl) nm = Some g" for nm g
    using that assms by (auto simp: gl_ok_def smap_of_mem)
  have "\<forall>(nm, g') \<in> set gs'. ga_ok g' \<and> ga_name g' = nm"
  proof safe
    fix nm g'
    assume "(nm, g') \<in> set gs'"
    then have "map_of gs' nm = Some g'" by (rule smap_of_mem [OF conjunct1 [OF L], THEN iffD2])
    then obtain g0 where "map_of (gl_groups gl) nm = Some g0" "g' = fst (flush_group sid g0)"
      using flush_groups_look [OF assms f, of nm] by (auto split: option.splits if_splits)
    then show "ga_ok g'" "ga_name g' = nm" using ok g by blast+
  qed
  then have 1: "gl_ok (gl_flushserver sid gl)"
    using L assms by (simp add: gl_ok_def fl smap_simps)
  show ?thesis
  proof (cases "map_of (gl_groups gl) name")
    case None
    then show ?thesis using 1 L by (simp add: gl_group_def fl group_avail_new_def desc_of_def fun_eq_iff)
  next
    case (Some g0)
    note O = ok [OF conjunct1 [OF g [OF Some]]]
    have e: "ga_serverids g0 - {sid} = {}" "(desc_of g0)(sid := None) = (\<lambda>_. None)"
      if "map_of gs' name = None"
    proof -
      have "ga_serverids (fst (flush_group sid g0)) = {}" "ga_servergroups (fst (flush_group sid g0)) = []"
        using that L Some by (auto split: if_splits)
      moreover from this have "desc_of (fst (flush_group sid g0)) = (\<lambda>_. None)" by (simp add: desc_of_def fun_eq_iff)
      ultimately show "ga_serverids g0 - {sid} = {}" "(desc_of g0)(sid := None) = (\<lambda>_. None)" using O by simp_all
    qed
    show ?thesis
    proof (cases "map_of gs' name")
      case None
      then show ?thesis using 1 e Some by (simp add: gl_group_def fl group_avail_new_def desc_of_def fun_eq_iff)
    next
      case (Some g')
      then have "g' = fst (flush_group sid g0)" "ga_serverids g' \<noteq> {} \<or> ga_servergroups g' \<noteq> []"
        using L \<open>map_of (gl_groups gl) name = Some g0\<close> by (simp_all split: if_splits)
      then show ?thesis using 1 O Some \<open>map_of (gl_groups gl) name = Some g0\<close> by (simp add: gl_group_def fl)
    qed
  qed
qed

theorem grouplist_flush_witness:
  "ga_serverids (gl_group ''g'' (gl_flushserver 2 (gl_addgroup 2 ''g''
     \<lparr>gl_filename = [], gl_saveit = False, gl_server_info = [], gl_groups = []\<rparr>))) = {}"
proof -
  let ?gl = "gl_addgroup 2 ''g'' \<lparr>gl_filename = [], gl_saveit = False, gl_server_info = [], gl_groups = []\<rparr>"
  have "gl_ok ?gl" by (simp add: gl_ok_def gl_addgroup_def gl_group_def group_avail_new_def ga_ok_def smap_ok_def Let_def)
  moreover have "ga_serverids (gl_group ''g'' ?gl) = {2}"
    by (simp add: gl_addgroup_def gl_group_def group_avail_new_def Let_def)
  ultimately show ?thesis using grouplist_flush [of ?gl 2 "''g''"] by simp
qed

end
