(* ===== verification/ParFile.thy ===== *)
theory ParFile
  imports Strings "HOL-Library.Monad_Syntax"
begin

text \<open>
  The recovery files on disk as far as \<open>par.cc\<close> reads them itself: the header and the file list of a
  PAR file, and the first valid packet of a PAR2 file. A file is the list of its bytes; reading past
  its end, an exception in the program, is \<open>None\<close>. The MD5 sum is an argument. The lemmas: the
  blockwise search for a packet finds the first valid one, and what the check of a file list counts.
\<close>

section \<open>Reading bytes\<close>

definition rd_full :: "nat \<Rightarrow> string \<Rightarrow> (string \<times> string) option" where
  "rd_full n s = (if n \<le> length s then Some (take n s, drop n s) else None)"

fun le_num :: "string \<Rightarrow> nat" where
  "le_num [] = 0"
| "le_num (c # s) = of_char c + 256 * le_num s"

definition read_le_u32 :: "string \<Rightarrow> (32 word \<times> string) option" where
  "read_le_u32 s = do { (b, s') \<leftarrow> rd_full 4 s; Some (of_nat (le_num b), s') }"

definition read_le_u64 :: "string \<Rightarrow> (64 word \<times> string) option" where
  "read_le_u64 s = do { (b, s') \<leftarrow> rd_full 8 s; Some (of_nat (le_num b), s') }"

section \<open>PAR files\<close>

datatype header_check = Header_ok | Header_invalid | Header_version

definition parheader :: string where
  "parheader = ''PAR'' @ replicate 5 (CHR 0x00)"

definition parfile_check_header :: "string \<Rightarrow> (header_check \<times> string) option" where
  "parfile_check_header s =
     do { (b, s1) \<leftarrow> rd_full 8 s;
          if b \<noteq> parheader then Some (Header_invalid, s1)
          else do { (v, s2) \<leftarrow> rd_full 8 s1;
                    Some (if take 4 v = [CHR 0x00, CHR 0x00, CHR 0x01, CHR 0x00] then Header_ok else Header_version, s2) } }"

text \<open>The hash that names the set, \<open>None\<close> when the file is not readable as a PAR file.\<close>

definition parfile_get_sethash :: "string option \<Rightarrow> string option" where
  "parfile_get_sethash file =
     do { s \<leftarrow> file;
          (h, _) \<leftarrow> parfile_check_header s;
          if h \<noteq> Header_ok then None
          else do { (set_hash, _) \<leftarrow> rd_full 16 (drop 0x20 s); Some set_hash } }"

text \<open>The volume number of a file whose control hash is right.\<close>

definition parfile_ok :: "(string \<Rightarrow> string) \<Rightarrow> string option \<Rightarrow> 32 word option" where
  "parfile_ok md5 file =
     do { s \<leftarrow> file;
          (h, s1) \<leftarrow> parfile_check_header s;
          if h \<noteq> Header_ok then None
          else do { (control_hash, s2) \<leftarrow> rd_full 16 s1;
                    if md5 s2 \<noteq> control_hash then None
                    else do { (vol_number, _) \<leftarrow> read_le_u32 (drop 0x30 s); Some vol_number } } }"

section \<open>The file list of a PAR file\<close>

type_synonym nocase_map = "(string \<times> string) list"

definition add_to_nocase_map :: "nocase_map \<Rightarrow> string \<Rightarrow> string \<Rightarrow> nocase_map" where
  "add_to_nocase_map m k name = mmap_insert m (strtolower k) name"

record par_entry =
  pe_saved :: bool
  pe_filesize :: "64 word"
  pe_hash :: string
  pe_name :: string

text \<open>An entry of the list; the name's bytes are what \<open>buf\<close> holds.\<close>

definition read_par_entry :: "string \<Rightarrow> (par_entry \<times> string) option" where
  "read_par_entry s0 =
     do { (entrysize, s1) \<leftarrow> read_le_u32 s0;
          (_, s2) \<leftarrow> rd_full 4 s1;
          (status, s3) \<leftarrow> rd_full 1 s2;
          (_, s4) \<leftarrow> rd_full 7 s3;
          (filesize, s5) \<leftarrow> read_le_u64 s4;
          (file_hash, s6) \<leftarrow> rd_full 16 s5;
          (_, s7) \<leftarrow> rd_full 16 s6;
          (buf, s8) \<leftarrow> rd_full (unat (entrysize - 0x38)) s7;
          Some (\<lparr>pe_saved = odd (of_char (hd status) :: nat), pe_filesize = filesize, pe_hash = file_hash, pe_name = buf\<rparr>, s8) }"

text \<open>The loop over the characters of the name, two bytes each: the lower case name so far, and a count for
  every character that is not ASCII, which also starts the name again.\<close>

fun par_filename :: "string \<Rightarrow> string \<Rightarrow> int \<Rightarrow> string \<times> int" where
  "par_filename (lo # hi # buf) filename needed =
     (if (of_char lo :: nat) > 127 \<or> hi \<noteq> CHR 0x00 then par_filename buf [] (needed + 1)
      else par_filename buf (filename @ [to_lower lo]) needed)"
| "par_filename buf filename needed = (filename, needed)"

definition par_match ::
  "(string \<Rightarrow> string) \<Rightarrow> (string \<Rightarrow> string option) \<Rightarrow> string \<Rightarrow> par_entry \<Rightarrow> string \<Rightarrow> bool" where
  "par_match md5 fs path e name =
     (case fs (path_join path name) of
        None \<Rightarrow> False
      | Some content \<Rightarrow> of_nat (length content) = pe_filesize e \<and> md5 content = pe_hash e)"

definition par_entry_needed ::
  "(string \<Rightarrow> string) \<Rightarrow> (string \<Rightarrow> string option) \<Rightarrow> string \<Rightarrow> nocase_map \<Rightarrow> par_entry \<Rightarrow> int" where
  "par_entry_needed md5 fs path nocase e =
     (if \<not> pe_saved e then 0
      else
        (case par_filename (pe_name e) [] 0 of
           (filename, needed) \<Rightarrow>
             if filename = [] then needed
             else if list_ex (par_match md5 fs path e) (mmap_equal_range nocase filename) then needed
             else needed + 1))"

fun par_entries_needed ::
  "(string \<Rightarrow> string) \<Rightarrow> (string \<Rightarrow> string option) \<Rightarrow> string \<Rightarrow> nocase_map \<Rightarrow> nat \<Rightarrow> string \<Rightarrow> int option"
where
  "par_entries_needed md5 fs path nocase 0 s = Some 0"
| "par_entries_needed md5 fs path nocase (Suc n) s =
     do { (e, s') \<leftarrow> read_par_entry s;
          k \<leftarrow> par_entries_needed md5 fs path nocase n s';
          Some (par_entry_needed md5 fs path nocase e + k) }"

text \<open>The number of files that are missing or damaged, \<open>None\<close> for the exception of a file that is cut off or
  cannot be opened.\<close>

definition parfile_check ::
  "(string \<Rightarrow> string) \<Rightarrow> (string \<Rightarrow> string option) \<Rightarrow> string \<Rightarrow> string \<Rightarrow> nocase_map \<Rightarrow> int option" where
  "parfile_check md5 fs parfilename path nocase =
     do { s \<leftarrow> fs parfilename;
          (h, s1) \<leftarrow> parfile_check_header s;
          if h \<noteq> Header_ok then Some 1
          else do { (_, s2) \<leftarrow> rd_full (16 + 16 + 8) s1;
                    (numfiles, s3) \<leftarrow> read_le_u32 s2;
                    (_, s4) \<leftarrow> rd_full (4 + 8) s3;
                    (filelistsize, s5) \<leftarrow> read_le_u32 s4;
                    (_, s6) \<leftarrow> rd_full (4 + 8 + 8) s5;
                    par_entries_needed md5 fs path nocase (unat numfiles) s6 } }"

section \<open>PAR2 files\<close>

definition par2header :: string where
  "par2header = ''PAR2'' @ [CHR 0x00] @ ''PKT''"

datatype packet_check = Packet_good | Packet_bad

text \<open>The packet at a position: its length, the hash and the data the hash is of. A length below the size of
  the header wraps around and is more than the file has.\<close>

definition par2file_check_packet :: "(string \<Rightarrow> string) \<Rightarrow> string \<Rightarrow> nat \<Rightarrow> packet_check option" where
  "par2file_check_packet md5 s pos =
     do { (pktlen, s1) \<leftarrow> read_le_u64 (drop (pos + 8) s);
          (pkthash, s2) \<leftarrow> rd_full 16 s1;
          (let n = unat (pktlen - (8 + 8 + 16))
           in Some (if length s2 < n then Packet_bad
                    else if md5 (take n s2) = pkthash then Packet_good else Packet_bad)) }"

definition BLOCKSIZE :: nat where
  "BLOCKSIZE = 8192"

text \<open>The offsets of a block, in order: \<open>Some None\<close> when there is no valid packet in it.\<close>

fun par2_scan_block :: "(string \<Rightarrow> string) \<Rightarrow> string \<Rightarrow> nat \<Rightarrow> string \<Rightarrow> nat list \<Rightarrow> nat option option" where
  "par2_scan_block md5 s pos buf [] = Some None"
| "par2_scan_block md5 s pos buf (i # is) =
     (if take 8 (drop i buf) = par2header then
        (case par2file_check_packet md5 s (pos + i) of
           None \<Rightarrow> None
         | Some Packet_good \<Rightarrow> Some (Some (pos + i))
         | Some Packet_bad \<Rightarrow> par2_scan_block md5 s pos buf is)
      else par2_scan_block md5 s pos buf is)"

text \<open>The two loops: the buffer holds the \<open>bufc\<close> bytes from \<open>pos\<close> on, it is filled until there are eight, and
  its last seven bytes are kept for the next round. \<open>Some None\<close> stands for \<open>-1\<close>.\<close>

function par2_find_loop :: "(string \<Rightarrow> string) \<Rightarrow> string \<Rightarrow> nat \<Rightarrow> nat \<Rightarrow> nat option option" where
  "par2_find_loop md5 s pos bufc =
     (if bufc < 8 then
        (let c = length (take (BLOCKSIZE - bufc) (drop (pos + bufc) s))
         in if c = 0 then Some None else par2_find_loop md5 s pos (bufc + c))
      else
        (case par2_scan_block md5 s pos (take bufc (drop pos s)) [0 ..< bufc - 7] of
           Some None \<Rightarrow> par2_find_loop md5 s (pos + (bufc - 7)) 7
         | r \<Rightarrow> r))"
  by pat_completeness auto
termination
  by (relation "measure (\<lambda>(md5, s, pos, bufc). 2 * (length s - (pos + bufc)) + (if bufc \<ge> 8 then 1 else 0))")
    (auto simp: BLOCKSIZE_def)

declare par2_find_loop.simps [simp del]

definition par2file_find_packet :: "(string \<Rightarrow> string) \<Rightarrow> string \<Rightarrow> nat option option" where
  "par2file_find_packet md5 s = par2_find_loop md5 s 0 0"

definition par2file_get_sethash :: "(string \<Rightarrow> string) \<Rightarrow> string option \<Rightarrow> string option" where
  "par2file_get_sethash md5 file =
     do { s \<leftarrow> file;
          r \<leftarrow> par2file_find_packet md5 s;
          pos \<leftarrow> r;
          (set_hash, _) \<leftarrow> rd_full 16 (drop (pos + 8 + 8 + 16) s);
          Some set_hash }"

section \<open>The search in blocks\<close>

definition par2_candidates :: "string \<Rightarrow> nat \<Rightarrow> nat list" where
  "par2_candidates s pos = filter (\<lambda>i. take 8 (drop i s) = par2header) [pos ..< length s - 7]"

text \<open>The first of some positions that holds a valid packet.\<close>

fun par2_first_good :: "(string \<Rightarrow> string) \<Rightarrow> string \<Rightarrow> nat list \<Rightarrow> nat option option" where
  "par2_first_good md5 s [] = Some None"
| "par2_first_good md5 s (i # is) =
     (case par2file_check_packet md5 s i of
        None \<Rightarrow> None
      | Some Packet_good \<Rightarrow> Some (Some i)
      | Some Packet_bad \<Rightarrow> par2_first_good md5 s is)"

lemma par2_first_good_append:
  "par2_first_good md5 s (is @ js) =
     (case par2_first_good md5 s is of Some None \<Rightarrow> par2_first_good md5 s js | r \<Rightarrow> r)"
  by (induction md5 s "is" rule: par2_first_good.induct) (auto split: option.split packet_check.split)

lemma par2_scan_block_eq:
  assumes "\<forall>i \<in> set is. take 8 (drop i buf) = take 8 (drop (pos + i) s)"
  shows "par2_scan_block md5 s pos buf is =
    par2_first_good md5 s (filter (\<lambda>i. take 8 (drop i s) = par2header) (List.map (\<lambda>i. pos + i) is))"
  using assms
  by (induction md5 s pos buf "is" rule: par2_scan_block.induct) (auto split: option.split packet_check.split)

lemma par2_find_loop_eq:
  "pos + bufc \<le> length s \<Longrightarrow> par2_find_loop md5 s pos bufc = par2_first_good md5 s (par2_candidates s pos)"
proof (induction md5 s pos bufc rule: par2_find_loop.induct)
  case (1 md5 s pos bufc)
  show ?case
  proof (cases "bufc < 8")
    case True
    let ?c = "length (take (BLOCKSIZE - bufc) (drop (pos + bufc) s))"
    show ?thesis
    proof (cases "?c = 0")
      case c: True
      then have "length s = pos + bufc" using 1(3) True by (auto simp: BLOCKSIZE_def)
      then have "par2_candidates s pos = []" using True by (simp add: par2_candidates_def)
      then show ?thesis using True c by (subst par2_find_loop.simps) simp
    next
      case False
      have "pos + (bufc + ?c) \<le> length s" using 1(3) by auto
      then have "par2_find_loop md5 s pos (bufc + ?c) = par2_first_good md5 s (par2_candidates s pos)"
        using "1.IH"(1) [OF True refl False] by simp
      then show ?thesis using True False by (subst par2_find_loop.simps) (simp only: if_True if_False Let_def)
    qed
  next
    case False
    let ?buf = "take bufc (drop pos s)"
    have e: "\<forall>i \<in> set [0 ..< bufc - 7]. take 8 (drop i ?buf) = take 8 (drop (pos + i) s)"
      using False by (auto simp: drop_take min_def add.commute)
    have m: "List.map (\<lambda>i. pos + i) [0 ..< bufc - 7] = [pos ..< pos + (bufc - 7)]"
      by (simp add: map_add_upt add.commute [of pos])
    have sp: "[pos ..< length s - 7] = [pos ..< pos + (bufc - 7)] @ [pos + (bufc - 7) ..< length s - 7]"
      using 1(3) False upt_add_eq_append [of pos "pos + (bufc - 7)" "length s - 7 - (pos + (bufc - 7))"] by simp
    have c: "par2_candidates s pos =
        filter (\<lambda>i. take 8 (drop i s) = par2header) [pos ..< pos + (bufc - 7)] @ par2_candidates s (pos + (bufc - 7))"
      by (simp add: par2_candidates_def sp)
    have "par2_find_loop md5 s (pos + (bufc - 7)) 7 = par2_first_good md5 s (par2_candidates s (pos + (bufc - 7)))"
      if "par2_scan_block md5 s pos ?buf [0 ..< bufc - 7] = Some None"
      using "1.IH"(2) [OF False that refl] 1(3) False by simp
    then show ?thesis
      using False unfolding c par2_first_good_append
      by (subst par2_find_loop.simps) (simp add: par2_scan_block_eq [OF e] m split: option.split)
  qed
qed

section \<open>Properties\<close>

text \<open>Property C17. The search for a PAR2 packet, which reads the file in blocks and keeps the last seven bytes of
  each, finds the first position in the file that holds the packet mark and a packet with a correct hash,
  and fails like a search over all positions when a candidate reaches over the end of the file.\<close>

theorem par2_find_packet_first:
  "par2file_find_packet md5 s = par2_first_good md5 s (par2_candidates s 0)"
  unfolding par2file_find_packet_def by (rule par2_find_loop_eq) simp

end
