(* ===== verification/Par.thy ===== *)
theory Par
  imports Cache ParFile Knapsack "HOL-Library.Product_Lexorder"
begin

text \<open>
  The retrieval of recovery files (\<open>par.h\<close>, \<open>par.cc\<close>): the postings of PAR and PAR2 volumes are kept aside,
  the index files are fetched first, and then as many volumes as the local files are found to need.
  A completeness is a rational. The environment holds what the code takes from elsewhere: the regular
  expression library (the match and its groups for a pattern, with the flag for ignoring case), the
  directory and the files on disk, the MD5 sum, and the PAR2 repairer (the code of par2cmdline under
  \<open>src/par2\<close>). The lemmas: no volume is fetched twice and not more than needed, and the chosen
  recovery packets are the cheapest that are enough.
\<close>

section \<open>The environment\<close>

datatype par2_code = eSuccess | eRepairPossible | eRepairNotPossible | eOtherResult

record par2_source =
  p2_complete :: bool
  p2_target :: string
  p2_blocks :: nat

record par2_repairer =
  p2_result :: par2_code
  p2_packets :: "32 word list"
  p2_missing :: nat
  p2_sources :: "par2_source option list"

record par_env =
  en_config :: nget_config
  en_trust :: prio_grouping
  en_rx :: "bool \<Rightarrow> string \<Rightarrow> string \<Rightarrow> string list option"
  en_wbeg :: string
  en_wend :: string
  en_dir :: "string \<Rightarrow> string list"
  en_fs :: "string \<Rightarrow> string option"
  en_md5 :: "string \<Rightarrow> string"
  en_par2 :: "string \<Rightarrow> string list \<Rightarrow> nocase_map \<Rightarrow> par2_repairer"

section \<open>Postings by completeness and date\<close>

type_synonym server_file_list = "((rat \<times> int) \<times> nntp_file) list"

definition server_file_key :: "nntp_file \<Rightarrow> rat \<times> int" where
  "server_file_key f =
     (let req = fb_req (nf_base f);
          completeness = (if req \<ge> 1 then of_int (have_count f) / of_int req else 1)
      in (- completeness, badate f))"

definition sfl_insert :: "server_file_list \<Rightarrow> nntp_file \<Rightarrow> server_file_list" where
  "sfl_insert l f = mmap_insert l (server_file_key f) f"

definition par_addfile :: "par_env \<Rightarrow> string \<Rightarrow> string \<Rightarrow> files_u \<Rightarrow> nntp_file \<Rightarrow> files_u" where
  "par_addfile env path temppath fc f = addfile (en_config env) (en_trust env) f path temppath False fc"

section \<open>A set of postings by name\<close>

record par_set =
  ps_serverpars :: server_file_list
  ps_serverpxxs :: server_file_list

definition par_set_new :: par_set where
  "par_set_new = \<lparr>ps_serverpars = [], ps_serverpxxs = []\<rparr>"

text \<open>The first posting of the least size.\<close>

definition smallest_index :: "('a \<Rightarrow> ulong) \<Rightarrow> 'a list \<Rightarrow> nat" where
  "smallest_index sz xs = foldl (\<lambda>m i. if sz (xs ! i) < sz (xs ! m) then i else m) 0 [1 ..< length xs]"

definition ps_get_initial_pars :: "par_env \<Rightarrow> string \<Rightarrow> string \<Rightarrow> par_set \<Rightarrow> files_u \<Rightarrow> int \<times> par_set \<times> files_u" where
  "ps_get_initial_pars env path temppath ps fc =
     (let fc1 = foldl (par_addfile env path temppath) fc (List.map snd (ps_serverpars ps));
          n = int (length (ps_serverpars ps))
      in if ps_serverpars ps = [] \<and> ps_serverpxxs ps \<noteq> [] then
           (let k = smallest_index (\<lambda>e. file_bytes (en_config env) (en_trust env) (snd e)) (ps_serverpxxs ps)
            in (n + 1,
                ps\<lparr>ps_serverpars := [], ps_serverpxxs := take k (ps_serverpxxs ps) @ drop (Suc k) (ps_serverpxxs ps)\<rparr>,
                par_addfile env path temppath fc1 (snd (ps_serverpxxs ps ! k))))
         else (n, ps\<lparr>ps_serverpars := []\<rparr>, fc1))"

section \<open>The recovery files on disk\<close>

record local_par =
  subjmatches :: "(string \<times> string) list"
  basenames :: "(string \<times> string set) list"
  basefilenames :: "(string \<times> string list) list"
  badbasenames :: "string set"

definition local_par_new :: local_par where
  "local_par_new = \<lparr>subjmatches = [], basenames = [], basefilenames = [], badbasenames = {}\<rparr>"

definition bsl :: char where
  "bsl = CHR 0x5C"

definition par1_match :: string where
  "par1_match = [bsl] @ ''.p(ar|[0-9]{2})''"

definition par2_match :: string where
  "par2_match = ''('' @ [bsl] @ ''.vol([0-9]+)'' @ [bsl] @ ''+([0-9]+))?'' @ [bsl] @ ''.par2''"

text \<open>\<open>addsubjmatch_par1\<close> and \<open>addsubjmatch_par2\<close>, which differ in the pattern.\<close>

definition addsubjmatch :: "par_env \<Rightarrow> string \<Rightarrow> string \<Rightarrow> string \<Rightarrow> local_par \<Rightarrow> local_par" where
  "addsubjmatch env pat key basename lp =
     (let names = (case map_of (basenames lp) key of Some ns \<Rightarrow> ns | None \<Rightarrow> {})
      in if basename \<in> names then lp
         else
           (let matchstr = regex_escape_string basename (if word_char_at basename then en_wbeg env else []) @ pat @ en_wend env
            in lp\<lparr>basenames := smap_put (basenames lp) key (insert basename names),
                  subjmatches := mmap_insert (subjmatches lp) key matchstr\<rparr>))"

definition add_basefilename :: "string \<Rightarrow> string \<Rightarrow> local_par \<Rightarrow> local_par" where
  "add_basefilename key name lp =
     lp\<lparr>basefilenames := smap_put (basefilenames lp) key
          ((case map_of (basefilenames lp) key of Some ns \<Rightarrow> ns | None \<Rightarrow> []) @ [name])\<rparr>"

definition dupe_suffix :: "nat \<Rightarrow> string" where
  "dupe_suffix n = ''^(.+)'' @ concat (replicate n ([bsl] @ ''.[0-9]+'')) @ ''$''"

text \<open>A name is entered under the names it may be a downloaded duplicate of, and under its own.\<close>

definition add_nocase_names :: "par_env \<Rightarrow> nat list \<Rightarrow> nocase_map \<Rightarrow> string \<Rightarrow> nocase_map" where
  "add_nocase_names env ns nc d =
     (if d = ''..'' \<or> d = ''.'' then nc
      else add_to_nocase_map
             (foldl (\<lambda>nc n. case en_rx env False (dupe_suffix n) d of
                              Some subs \<Rightarrow> add_to_nocase_map nc (subs ! 1) d | None \<Rightarrow> nc) nc ns) d d)"

definition addfrompath_par1 :: "par_env \<Rightarrow> string \<Rightarrow> local_par \<times> nocase_map \<Rightarrow> local_par \<times> nocase_map" where
  "addfrompath_par1 env path st =
     foldl (\<lambda>(lp, nc) d.
        ((case en_rx env True (''^(.+)'' @ [bsl] @ ''.p(ar|[0-9]{2})('' @ [bsl] @ ''.[0-9]+'' @ [bsl] @ ''.[0-9]+)?$'') d of
            Some subs \<Rightarrow>
              (let basename = strtolower (subs ! 1)
               in case parfile_get_sethash (en_fs env (path_join path d)) of
                    Some sethash \<Rightarrow> addsubjmatch env par1_match sethash basename (add_basefilename sethash d lp)
                  | None \<Rightarrow> lp\<lparr>badbasenames := insert basename (badbasenames lp)\<rparr>)
          | None \<Rightarrow> lp),
         add_nocase_names env [2] nc d)) st (en_dir env path)"

definition par2_volume :: string where
  "par2_volume = ''^(.*).vol[0-9]+'' @ [bsl] @ ''+[0-9]+$''"

definition addfrompath_par2 :: "par_env \<Rightarrow> string \<Rightarrow> local_par \<times> nocase_map \<Rightarrow> local_par \<times> nocase_map" where
  "addfrompath_par2 env path st =
     foldl (\<lambda>(lp, nc) d.
        ((case en_rx env True (''^(.+)'' @ [bsl] @ ''.par2('' @ [bsl] @ ''.[0-9]+'' @ [bsl] @ ''.[0-9]+)?$'') d of
            Some subs \<Rightarrow>
              (let basename = lowerstr (case en_rx env True par2_volume (subs ! 1) of Some subs2 \<Rightarrow> subs2 ! 1 | None \<Rightarrow> subs ! 1)
               in case par2file_get_sethash (en_md5 env) (en_fs env (path_join path d)) of
                    Some sethash \<Rightarrow> addsubjmatch env par2_match sethash basename (add_basefilename sethash d lp)
                  | None \<Rightarrow> lp\<lparr>badbasenames := insert basename (badbasenames lp)\<rparr>)
          | None \<Rightarrow> lp),
         add_nocase_names env [1, 2, 3] nc d)) st (en_dir env path)"

text \<open>The base names for which no file could be read, one error each.\<close>

definition check_badbasenames :: "local_par \<Rightarrow> local_par \<times> nat" where
  "check_badbasenames lp =
     (let bad = badbasenames lp - \<Union> (snd ` set (basenames lp)) in (lp\<lparr>badbasenames := bad\<rparr>, card bad))"

section \<open>The state of a directory\<close>

text \<open>\<open>ParXInfoBase\<close>, with the incomplete postings that only PAR2 keeps and the numbers of sets reported good
  and of errors.\<close>

record par_info =
  px_serverpars :: server_file_list
  px_serverpxxs :: server_file_list
  px_finished :: "string set"
  px_okcount :: int
  px_parsets :: "(string \<times> par_set) list"
  px_local :: local_par
  px_path :: string
  px_temppath :: string
  px_extradata :: server_file_list
  px_ok_status :: nat
  px_error_status :: nat

definition par_info_new :: "string \<Rightarrow> string \<Rightarrow> local_par \<Rightarrow> par_info" where
  "par_info_new p t lp =
     \<lparr>px_serverpars = [], px_serverpxxs = [], px_finished = {}, px_okcount = 0, px_parsets = [], px_local = lp,
      px_path = p, px_temppath = t, px_extradata = [], px_ok_status = 0, px_error_status = 0\<rparr>"

definition par1_info_new :: "par_env \<Rightarrow> string \<Rightarrow> string \<Rightarrow> par_info" where
  "par1_info_new env p t = par_info_new p t (fst (addfrompath_par1 env p (local_par_new, [])))"

definition par2_info_new :: "par_env \<Rightarrow> string \<Rightarrow> string \<Rightarrow> par_info" where
  "par2_info_new env p t = par_info_new p t (fst (addfrompath_par2 env p (local_par_new, [])))"

text \<open>\<open>parset(basename)->...\<close>\<close>

definition px_with_set :: "string \<Rightarrow> (par_set \<Rightarrow> par_set) \<Rightarrow> par_info \<Rightarrow> par_info" where
  "px_with_set basename g px =
     px\<lparr>px_parsets := smap_put (px_parsets px) basename
          (g (case map_of (px_parsets px) basename of Some ps \<Rightarrow> ps | None \<Rightarrow> par_set_new))\<rparr>"

definition px_add_pars :: "nntp_file \<Rightarrow> par_info \<Rightarrow> par_info" where
  "px_add_pars f px = px\<lparr>px_serverpars := sfl_insert (px_serverpars px) f\<rparr>"

definition px_add_pxxs :: "nntp_file \<Rightarrow> par_info \<Rightarrow> par_info" where
  "px_add_pxxs f px = px\<lparr>px_serverpxxs := sfl_insert (px_serverpxxs px) f\<rparr>"

definition addserverpar :: "nntp_file \<Rightarrow> par_set \<Rightarrow> par_set" where
  "addserverpar f ps = ps\<lparr>ps_serverpars := sfl_insert (ps_serverpars ps) f\<rparr>"

definition addserverpxx :: "nntp_file \<Rightarrow> par_set \<Rightarrow> par_set" where
  "addserverpxx f ps = ps\<lparr>ps_serverpxxs := sfl_insert (ps_serverpxxs ps) f\<rparr>"

text \<open>The groups of the first local pattern that the subject matches.\<close>

fun first_subjmatch :: "par_env \<Rightarrow> string \<Rightarrow> (string \<times> string) list \<Rightarrow> string list option" where
  "first_subjmatch env subj [] = None"
| "first_subjmatch env subj ((key, pat) # ms) =
     (case en_rx env True pat subj of Some subs \<Rightarrow> Some subs | None \<Rightarrow> first_subjmatch env subj ms)"

definition starts_alpha :: "string \<Rightarrow> bool" where
  "starts_alpha s \<longleftrightarrow> (case s of [] \<Rightarrow> False | c # _ \<Rightarrow> is_alpha c)"

definition unquoted :: "string \<Rightarrow> string" where
  "unquoted basename = (if take 1 basename = [CHR 0x22] then tl basename else basename)"

section \<open>PAR sets\<close>

definition par1_maybe_add :: "par_env \<Rightarrow> nntp_file \<Rightarrow> bool \<Rightarrow> par_info \<Rightarrow> bool \<times> par_info" where
  "par1_maybe_add env f want_incomplete px =
     (let subj = fb_subject (nf_base f)
      in if maybe_a_textpost (en_config env) (en_trust env) f then (False, px)
         else if \<not> want_incomplete \<and> \<not> iscomplete (en_config env) (en_trust env) f then (False, px)
         else
           (case first_subjmatch env subj (subjmatches (px_local px)) of
              Some subs \<Rightarrow> (True, if starts_alpha (subs ! 1) then px_add_pars f px else px_add_pxxs f px)
            | None \<Rightarrow>
                (case en_rx env True (''([^ ]*)'' @ [bsl] @ ''.p(ar|[0-9]{2})'' @ en_wend env) subj of
                   Some subs \<Rightarrow>
                     (True, px_with_set (unquoted (subs ! 1))
                        (if starts_alpha (subs ! 2) then addserverpar f else addserverpxx f) px)
                 | None \<Rightarrow> (False, px))))"

text \<open>The first round: all the index files. The list of chosen files grows; the sum counts the additions.\<close>

fun sets_get_initial_pars ::
  "par_env \<Rightarrow> string \<Rightarrow> string \<Rightarrow> (string \<times> par_set) list \<Rightarrow> files_u \<Rightarrow> int \<times> (string \<times> par_set) list \<times> files_u"
where
  "sets_get_initial_pars env path temppath [] fc = (0, [], fc)"
| "sets_get_initial_pars env path temppath ((b, ps) # pss) fc =
     (case ps_get_initial_pars env path temppath ps fc of
        (n, ps', fc1) \<Rightarrow>
          (case sets_get_initial_pars env path temppath pss fc1 of (m, pss', fc2) \<Rightarrow> (n + m, (b, ps') # pss', fc2)))"

definition px_get_initial_pars :: "par_env \<Rightarrow> par_info \<Rightarrow> files_u \<Rightarrow> int \<times> par_info \<times> files_u" where
  "px_get_initial_pars env px fc =
     (let fc1 = foldl (par_addfile env (px_path px) (px_temppath px)) fc (List.map snd (px_serverpars px))
      in case sets_get_initial_pars env (px_path px) (px_temppath px) (px_parsets px) fc1 of
           (n, pss, fc2) \<Rightarrow>
             (int (length (px_serverpars px)) + n, px\<lparr>px_serverpars := [], px_parsets := pss\<rparr>, fc2))"

text \<open>The volume numbers of a subject, one for each pattern of the set that it matches.\<close>

definition pxx_vols :: "par_env \<Rightarrow> string list \<Rightarrow> string \<Rightarrow> 32 word list" where
  "pxx_vols env pats subj =
     List.map_filter (\<lambda>pat. map_option (\<lambda>subs. of_int (atoi (subs ! 1))) (en_rx env True pat subj)) pats"

fun avail_vols ::
  "par_env \<Rightarrow> string list \<Rightarrow> int \<Rightarrow> 32 word set \<Rightarrow> server_file_list \<Rightarrow> 32 word set \<Rightarrow> 32 word set"
where
  "avail_vols env pats num havevols [] avail = avail"
| "avail_vols env pats num havevols ((k, f) # es) avail =
     (if int (card avail) < num
      then avail_vols env pats num havevols es
             (avail \<union> {v \<in> set (pxx_vols env pats (fb_subject (nf_base f))). v \<notin> havevols})
      else avail)"

text \<open>The loop over the postings: how many were added, the volumes now had, the postings that stay and the
  chosen files. A posting of a volume that is had already stays.\<close>

fun pxxs_loop ::
  "par_env \<Rightarrow> string \<Rightarrow> string \<Rightarrow> string list \<Rightarrow> int \<Rightarrow> server_file_list \<Rightarrow> int \<Rightarrow> 32 word set \<Rightarrow> files_u \<Rightarrow>
   int \<times> 32 word set \<times> server_file_list \<times> files_u"
where
  "pxxs_loop env path temppath pats num [] cur havevols fc = (cur, havevols, [], fc)"
| "pxxs_loop env path temppath pats num ((k, f) # es) cur havevols fc =
     (if cur < num then
        (case find (\<lambda>v. v \<notin> havevols) (pxx_vols env pats (fb_subject (nf_base f))) of
           Some vol \<Rightarrow>
             pxxs_loop env path temppath pats num es (cur + 1) (insert vol havevols) (par_addfile env path temppath fc f)
         | None \<Rightarrow>
             (case pxxs_loop env path temppath pats num es cur havevols fc of
                (c, h, es', fc') \<Rightarrow> (c, h, (k, f) # es', fc')))
      else (cur, havevols, (k, f) # es, fc))"

definition par1_get_pxxs ::
  "par_env \<Rightarrow> int \<Rightarrow> 32 word set \<Rightarrow> string \<Rightarrow> par_info \<Rightarrow> files_u \<Rightarrow> int \<times> par_info \<times> files_u" where
  "par1_get_pxxs env num havevols key px fc =
     (let pats = mmap_equal_range (subjmatches (px_local px)) key
      in if autopar_optimistic (en_config env) \<and>
            int (card (avail_vols env pats num havevols (px_serverpxxs px) {})) < num
         then (0, px, fc)
         else
           (case pxxs_loop env (px_path px) (px_temppath px) pats num (px_serverpxxs px) 0 havevols fc of
              (cur, h, pxxs, fc') \<Rightarrow> (cur, px\<lparr>px_serverpxxs := pxxs\<rparr>, fc')))"

text \<open>The local files of a set: the last good one, the volumes that are good, and the number of bad ones.\<close>

definition par1_test_files :: "par_env \<Rightarrow> string \<Rightarrow> string list \<Rightarrow> string \<times> 32 word set \<times> int" where
  "par1_test_files env path fns =
     foldl (\<lambda>(goodpar, goodvols, badcount) name.
        (let fn = path_join path name
         in case parfile_ok (en_md5 env) (en_fs env fn) of
              Some vol \<Rightarrow> (fn, if vol > 0 then insert vol goodvols else goodvols, badcount)
            | None \<Rightarrow> (goodpar, goodvols, badcount + 1))) ([], {}, 0) fns"

definition px_finish :: "bool \<Rightarrow> string \<Rightarrow> par_info \<Rightarrow> par_info" where
  "px_finish ok key px =
     (if ok then px\<lparr>px_ok_status := px_ok_status px + 1, px_finished := insert key (px_finished px),
                    px_okcount := px_okcount px + 1\<rparr>
      else px\<lparr>px_error_status := px_error_status px + 1, px_finished := insert key (px_finished px)\<rparr>)"

text \<open>The sets found on disk, in the order of their hashes; \<open>None\<close> is the exception of \<open>parfile_check\<close>.\<close>

fun par1_check_sets ::
  "par_env \<Rightarrow> nocase_map \<Rightarrow> (string \<times> string list) list \<Rightarrow> int \<Rightarrow> par_info \<Rightarrow> files_u \<Rightarrow> (int \<times> par_info \<times> files_u) option"
where
  "par1_check_sets env nc [] tot px fc = Some (tot, px, fc)"
| "par1_check_sets env nc ((key, fns) # sets) tot px fc =
     (if key \<in> px_finished px then par1_check_sets env nc sets tot px fc
      else
        (case par1_test_files env (px_path px) fns of
           (goodpar, goodvols, badcount) \<Rightarrow>
             (case (if goodpar = [] then Some 1
                    else map_option (\<lambda>bad. max 0 (bad - int (card goodvols)))
                           (parfile_check (en_md5 env) (en_fs env) goodpar (px_path px) nc)) of
                None \<Rightarrow> None
              | Some needed \<Rightarrow>
                  if needed \<noteq> 0 then
                    (case par1_get_pxxs env needed goodvols key px fc of
                       (added, px1, fc1) \<Rightarrow>
                         par1_check_sets env nc sets (tot + added)
                           (if added = 0 then px_finish False key px1 else px1) fc1)
                  else par1_check_sets env nc sets tot (px_finish True key px) fc)))"

definition release_unclaimed :: "par_info \<Rightarrow> nntp_file list \<times> par_info" where
  "release_unclaimed px =
     (concat (List.map (\<lambda>(b, ps). List.map snd (ps_serverpxxs ps)) (px_parsets px)),
      px\<lparr>px_parsets := List.map (\<lambda>(b, ps). (b, ps\<lparr>ps_serverpxxs := []\<rparr>)) (px_parsets px)\<rparr>)"

definition finish_round :: "int \<times> par_info \<times> files_u \<Rightarrow> int \<times> par_info \<times> files_u" where
  "finish_round r =
     (case r of (tot, px, fc) \<Rightarrow>
        if tot = 0
        then (case check_badbasenames (px_local px) of
                (lp, n) \<Rightarrow> (tot, px\<lparr>px_local := lp, px_error_status := px_error_status px + n\<rparr>, fc))
        else r)"

definition par1_maybe_get_pxxs :: "par_env \<Rightarrow> par_info \<Rightarrow> files_u \<Rightarrow> (int \<times> par_info \<times> files_u) option" where
  "par1_maybe_get_pxxs env px fc =
     (case addfrompath_par1 env (px_path px) (local_par_new, []) of
        (lp, nc) \<Rightarrow>
          (case release_unclaimed (px\<lparr>px_local := lp\<rparr>) of
             (unclaimed, px1) \<Rightarrow>
               (case px_get_initial_pars env (foldl (\<lambda>px f. snd (par1_maybe_add env f True px)) px1 unclaimed) fc of
                  (n, px2, fc2) \<Rightarrow>
                    map_option finish_round (par1_check_sets env nc (basefilenames lp) n px2 fc2))))"

section \<open>PAR2 sets\<close>

definition par2_maybe_add :: "par_env \<Rightarrow> nntp_file \<Rightarrow> bool \<Rightarrow> par_info \<Rightarrow> bool \<times> par_info" where
  "par2_maybe_add env f want_incomplete px =
     (let subj = fb_subject (nf_base f)
      in if maybe_a_textpost (en_config env) (en_trust env) f then (False, px)
         else
           (case first_subjmatch env subj (subjmatches (px_local px)) of
              Some subs \<Rightarrow> (True, if subs ! 1 = [] then px_add_pars f px else px_add_pxxs f px)
            | None \<Rightarrow>
                (case en_rx env True (''([^ ]*)'' @ [bsl] @ ''.par2'' @ en_wend env) subj of
                   Some subs \<Rightarrow>
                     (case en_rx env True par2_volume (subs ! 1) of
                        Some subs2 \<Rightarrow> (True, px_with_set (unquoted (subs2 ! 1)) (addserverpxx f) px)
                      | None \<Rightarrow> (True, px_with_set (unquoted (subs ! 1)) (addserverpar f) px))
                 | None \<Rightarrow>
                     if \<not> want_incomplete \<and> \<not> iscomplete (en_config env) (en_trust env) f
                     then (True, px\<lparr>px_extradata := sfl_insert (px_extradata px) f\<rparr>)
                     else (False, px))))"

definition is_infix :: "string \<Rightarrow> string \<Rightarrow> bool" where
  "is_infix t s \<longleftrightarrow> list_ex (\<lambda>i. take (length t) (drop i s) = t) [0 ..< Suc (length s)]"

text \<open>The source file an incomplete posting belongs to, by the last part of its name.\<close>

fun find_source :: "string \<Rightarrow> par2_source option list \<Rightarrow> par2_source option" where
  "find_source subj [] = None"
| "find_source subj (None # sfs) = find_source subj sfs"
| "find_source subj (Some sf # sfs) =
     (if \<not> p2_complete sf \<and> is_infix (lowerstr (snd (path_split (p2_target sf)))) (strtolower subj)
      then Some sf else find_source subj sfs)"

text \<open>The positions of the incomplete postings that are worth fetching and the blocks they should give.\<close>

fun extradata_loop :: "par2_source option list \<Rightarrow> int \<Rightarrow> server_file_list \<Rightarrow> nat \<Rightarrow> int \<Rightarrow> nat list \<Rightarrow> int \<times> nat list" where
  "extradata_loop sfs num [] i added items = (added, items)"
| "extradata_loop sfs num ((k, f) # es) i added items =
     (if added < num then
        (case find_source (fb_subject (nf_base f)) sfs of
           Some sf \<Rightarrow>
             extradata_loop sfs num es (Suc i) (added + max 1 \<lfloor>of_nat (p2_blocks sf) * - fst k\<rfloor>) (items @ [i])
         | None \<Rightarrow> extradata_loop sfs num es (Suc i) added items)
      else (added, items))"

text \<open>The elements at the positions of a list, and the others.\<close>

definition pick :: "nat list \<Rightarrow> 'a list \<Rightarrow> 'a list" where
  "pick is xs = List.map (\<lambda>i. xs ! i) is"

definition leave :: "nat list \<Rightarrow> 'a list \<Rightarrow> 'a list" where
  "leave is xs = List.map (\<lambda>i. xs ! i) (filter (\<lambda>i. i \<notin> set is) [0 ..< length xs])"

definition get_extradata :: "par_env \<Rightarrow> int \<Rightarrow> par2_source option list \<Rightarrow> par_info \<Rightarrow> files_u \<Rightarrow> int \<times> par_info \<times> files_u" where
  "get_extradata env num sfs px fc =
     (case extradata_loop sfs num (px_extradata px) 0 0 [] of
        (added, items) \<Rightarrow>
          if autopar_optimistic (en_config env) \<and> added < num then (0, px, fc)
          else (added, px\<lparr>px_extradata := leave items (px_extradata px)\<rparr>,
                foldl (par_addfile env (px_path px) (px_temppath px)) fc (List.map snd (pick items (px_extradata px)))))"

record packet_items =
  pi_sizes :: "nat list"
  pi_values :: "nat list"
  pi_items :: "nat list"
  pi_avail :: "32 word set"

text \<open>The packets from the first one up to, but not including, the end.\<close>

definition packet_range :: "32 word \<Rightarrow> 32 word \<Rightarrow> 32 word list" where
  "packet_range b e = List.map of_nat [unat b ..< unat e]"

definition add_packets :: "32 word set \<Rightarrow> nat \<Rightarrow> nntp_file \<Rightarrow> string list \<Rightarrow> packet_items \<Rightarrow> packet_items" where
  "add_packets havepackets i f subs it =
     (let beginpacket = of_int (atoi (subs ! 2)); endpacket = of_int (atoi (subs ! 3)) + beginpacket;
          new = filter (\<lambda>p. p \<notin> havepackets \<and> p \<notin> pi_avail it) (packet_range beginpacket endpacket);
          req = fb_req (nf_base f);
          val = (if req \<ge> 1 then max 1 (int (length new) * have_count f div req) else int (length new))
      in if new = [] then it
         else it\<lparr>pi_sizes := pi_sizes it @ [unat (endpacket - beginpacket)], pi_values := pi_values it @ [nat val],
                 pi_items := pi_items it @ [i], pi_avail := pi_avail it \<union> set new\<rparr>)"

fun packets_of :: "par_env \<Rightarrow> string list \<Rightarrow> 32 word set \<Rightarrow> nat \<Rightarrow> nntp_file \<Rightarrow> packet_items \<Rightarrow> packet_items" where
  "packets_of env [] havepackets i f it = it"
| "packets_of env (pat # pats) havepackets i f it =
     packets_of env pats havepackets i f
       (case en_rx env True pat (fb_subject (nf_base f)) of
          Some subs \<Rightarrow> add_packets havepackets i f subs it | None \<Rightarrow> it)"

fun collect_packets ::
  "par_env \<Rightarrow> string list \<Rightarrow> 32 word set \<Rightarrow> nat \<Rightarrow> server_file_list \<Rightarrow> packet_items \<Rightarrow> packet_items"
where
  "collect_packets env pats havepackets i [] it = it"
| "collect_packets env pats havepackets i ((k, f) # es) it =
     collect_packets env pats havepackets (Suc i) es (packets_of env pats havepackets i f it)"

definition get_recoverypackets ::
  "par_env \<Rightarrow> int \<Rightarrow> 32 word set \<Rightarrow> string \<Rightarrow> par2_source option list \<Rightarrow> par_info \<Rightarrow> files_u \<Rightarrow> int \<times> par_info \<times> files_u"
where
  "get_recoverypackets env num havepackets key sfs px fc =
     (let pats = mmap_equal_range (subjmatches (px_local px)) key;
          it = collect_packets env pats havepackets 0 (px_serverpxxs px)
                 \<lparr>pi_sizes = [], pi_values = [], pi_items = [], pi_avail = {}\<rparr>;
          n = int (card (pi_avail it))
      in case (if n < num then get_extradata env (num - n) sfs px fc else (0, px, fc)) of
           (r, px1, fc1) \<Rightarrow>
             if r \<noteq> 0 then (r, px1, fc1)
             else if autopar_optimistic (en_config env) \<and> n < num then (0, px1, fc1)
             else
               (let results = snd (knapsack_minsize (pi_values it) (pi_sizes it) (nat num));
                    chosen = pick results (pi_items it)
                in (int (sum_list (pick results (pi_values it))),
                    px1\<lparr>px_serverpxxs := leave chosen (px_serverpxxs px1)\<rparr>,
                    foldl (par_addfile env (px_path px1) (px_temppath px1)) fc1
                      (List.map snd (pick chosen (px_serverpxxs px1))))))"

text \<open>The files of a set are given to the repairer one after the other until one is a good index file: the
  result of the last run and whether it was good.\<close>

fun par2_process_files ::
  "par_env \<Rightarrow> nocase_map \<Rightarrow> string list \<Rightarrow> string list \<Rightarrow> par2_source option list \<Rightarrow> bool \<times> 32 word list \<times> int \<times> par2_source option list"
where
  "par2_process_files env nc fullpaths [] sfs = (False, [], 0, sfs)"
| "par2_process_files env nc fullpaths (fn # fns) sfs =
     (let p = en_par2 env fn fullpaths nc
      in if p2_result p = eOtherResult then par2_process_files env nc fullpaths fns (p2_sources p)
         else (True, p2_packets p,
               if p2_result p = eRepairNotPossible then int (p2_missing p) - int (length (p2_packets p)) else 0,
               p2_sources p))"

fun par2_check_sets ::
  "par_env \<Rightarrow> nocase_map \<Rightarrow> (string \<times> string list) list \<Rightarrow> int \<Rightarrow> par_info \<Rightarrow> files_u \<Rightarrow> int \<times> par_info \<times> files_u"
where
  "par2_check_sets env nc [] tot px fc = (tot, px, fc)"
| "par2_check_sets env nc ((key, fns) # sets) tot px fc =
     (if key \<in> px_finished px then par2_check_sets env nc sets tot px fc
      else
        (let fullpaths = List.map (path_join (px_path px)) fns
         in case par2_process_files env nc fullpaths fullpaths [] of
              (goodparfound, packets, needed, sfs) \<Rightarrow>
                (let needed_packets = (if goodparfound then needed else 1)
                 in if needed_packets \<noteq> 0 then
                      (case get_recoverypackets env needed_packets (set packets) key sfs px fc of
                         (added, px1, fc1) \<Rightarrow>
                           par2_check_sets env nc sets (tot + added)
                             (if added = 0 then px_finish False key px1 else px1) fc1)
                    else par2_check_sets env nc sets tot (px_finish True key px) fc)))"

definition par2_maybe_get_pxxs :: "par_env \<Rightarrow> par_info \<Rightarrow> files_u \<Rightarrow> int \<times> par_info \<times> files_u" where
  "par2_maybe_get_pxxs env px fc =
     (case addfrompath_par2 env (px_path px) (local_par_new, []) of
        (lp, nc) \<Rightarrow>
          (case release_unclaimed (px\<lparr>px_local := lp\<rparr>) of
             (unclaimed, px1) \<Rightarrow>
               (case px_get_initial_pars env (foldl (\<lambda>px f. snd (par2_maybe_add env f True px)) px1 unclaimed) fc of
                  (n, px2, fc2) \<Rightarrow>
                    finish_round (par2_check_sets env nc (basefilenames lp) n px2 fc2))))"

section \<open>All directories\<close>

record par_dir =
  pd_par1 :: par_info
  pd_par2 :: par_info

definition par_dir_new :: "par_env \<Rightarrow> string \<Rightarrow> string \<Rightarrow> par_dir" where
  "par_dir_new env p t = \<lparr>pd_par1 = par1_info_new env p t, pd_par2 = par2_info_new env p t\<rparr>"

definition pd_maybe_add :: "par_env \<Rightarrow> nntp_file \<Rightarrow> bool \<Rightarrow> par_dir \<Rightarrow> bool \<times> par_dir" where
  "pd_maybe_add env f want_incomplete pd =
     (case par1_maybe_add env f want_incomplete (pd_par1 pd) of
        (taken, p1) \<Rightarrow>
          (let pd1 = pd\<lparr>pd_par1 := p1\<rparr>
           in if taken then (True, pd1)
              else (case par2_maybe_add env f want_incomplete (pd_par2 pd1) of (b, p2) \<Rightarrow> (b, pd1\<lparr>pd_par2 := p2\<rparr>))))"

definition pd_get_initial_pars :: "par_env \<Rightarrow> par_dir \<Rightarrow> files_u \<Rightarrow> par_dir \<times> files_u" where
  "pd_get_initial_pars env pd fc =
     (case px_get_initial_pars env (pd_par1 pd) fc of
        (n, p1, fc1) \<Rightarrow>
          (case px_get_initial_pars env (pd_par2 pd) fc1 of (m, p2, fc2) \<Rightarrow> (\<lparr>pd_par1 = p1, pd_par2 = p2\<rparr>, fc2)))"

text \<open>The flag tells that nothing was added, which the program reports with the numbers of finished sets.\<close>

definition pd_maybe_get_pxxs :: "par_env \<Rightarrow> par_dir \<Rightarrow> files_u \<Rightarrow> (bool \<times> par_dir \<times> files_u) option" where
  "pd_maybe_get_pxxs env pd fc =
     (case par1_maybe_get_pxxs env (pd_par1 pd) fc of
        None \<Rightarrow> None
      | Some (n, p1, fc1) \<Rightarrow>
          (case par2_maybe_get_pxxs env (pd_par2 pd) fc1 of
             (m, p2, fc2) \<Rightarrow> Some (n + m = 0, \<lparr>pd_par1 = p1, pd_par2 = p2\<rparr>, fc2)))"

type_synonym par_handler = "(string \<times> par_dir) list"

definition parinfo :: "par_env \<Rightarrow> string \<Rightarrow> string \<Rightarrow> par_handler \<Rightarrow> par_dir \<times> par_handler" where
  "parinfo env path temppath ph =
     (case map_of ph path of
        Some pd \<Rightarrow> (pd, ph)
      | None \<Rightarrow> (par_dir_new env path temppath, smap_insert ph path (par_dir_new env path temppath)))"

definition maybe_add_parfile :: "par_env \<Rightarrow> nntp_file \<Rightarrow> string \<Rightarrow> string \<Rightarrow> bool \<Rightarrow> par_handler \<Rightarrow> bool \<times> par_handler" where
  "maybe_add_parfile env f path temppath want_incomplete ph =
     (case parinfo env path temppath ph of
        (pd, ph1) \<Rightarrow> (case pd_maybe_add env f want_incomplete pd of (b, pd') \<Rightarrow> (b, smap_put ph1 path pd')))"

text \<open>The directories nothing is fetched into for other reasons get their volumes now.\<close>

fun handler_initial_pars ::
  "par_env \<Rightarrow> string set \<Rightarrow> par_handler \<Rightarrow> files_u \<Rightarrow> (par_handler \<times> files_u) option" where
  "handler_initial_pars env paths [] fc = Some ([], fc)"
| "handler_initial_pars env paths ((p, pd) # ph) fc =
     (case (if p \<in> paths then Some (pd_get_initial_pars env pd fc)
            else map_option snd (pd_maybe_get_pxxs env pd fc)) of
        None \<Rightarrow> None
      | Some (pd', fc1) \<Rightarrow>
          map_option (\<lambda>(ph', fc2). ((p, pd') # ph', fc2)) (handler_initial_pars env paths ph fc1))"

definition get_initial_pars :: "par_env \<Rightarrow> par_handler \<Rightarrow> files_u \<Rightarrow> (par_handler \<times> files_u) option" where
  "get_initial_pars env ph fc =
     handler_initial_pars env ((\<lambda>(d, fr). fr_path fr) ` set (fu_files fc)) ph fc"

text \<open>A path without an entry is an assertion failure in the program.\<close>

definition maybe_get_pxxs :: "par_env \<Rightarrow> string \<Rightarrow> par_handler \<Rightarrow> files_u \<Rightarrow> (par_handler \<times> files_u) option" where
  "maybe_get_pxxs env path ph fc =
     (case map_of ph path of
        None \<Rightarrow> None
      | Some pd \<Rightarrow> map_option (\<lambda>(b, pd', fc'). (smap_put ph path pd', fc')) (pd_maybe_get_pxxs env pd fc))"

section \<open>The volumes that are fetched\<close>

definition add_pxx :: "par_env \<Rightarrow> string \<Rightarrow> string \<Rightarrow> files_u \<Rightarrow> server_file_list \<Rightarrow> files_u" where
  "add_pxx env path temppath fc es = foldl (par_addfile env path temppath) fc (List.map snd es)"

definition entry_vols :: "par_env \<Rightarrow> string list \<Rightarrow> (rat \<times> int) \<times> nntp_file \<Rightarrow> 32 word set" where
  "entry_vols env pats e = set (pxx_vols env pats (fb_subject (nf_base (snd e))))"

lemma pxxs_loop_ok:
  assumes "pxxs_loop env path temppath pats num es cur h fc = (cur', h', es', fc')" "cur \<le> num"
  shows "\<exists>as vs. mset es = mset es' + mset as \<and> cur' = cur + int (length as) \<and> cur' \<le> num \<and>
    distinct vs \<and> h' = h \<union> set vs \<and> h \<inter> set vs = {} \<and>
    list_all2 (\<lambda>e v. v \<in> entry_vols env pats e) as vs \<and> fc' = add_pxx env path temppath fc as \<and>
    (cur' < num \<longrightarrow> (\<forall>e \<in> set es'. entry_vols env pats e \<subseteq> h'))"
  using assms
proof (induction es arbitrary: cur h fc cur' h' es' fc')
  case Nil
  then show ?case by (intro exI [of _ "[]"]) (simp add: add_pxx_def)
next
  case (Cons e es)
  obtain k f where e: "e = (k, f)" by (cases e)
  let ?vols = "pxx_vols env pats (fb_subject (nf_base f))"
  show ?case
  proof (cases "cur < num")
    case False
    then show ?thesis using Cons.prems by (intro exI [of _ "[]"]) (simp add: e add_pxx_def)
  next
    case True
    show ?thesis
    proof (cases "find (\<lambda>v. v \<notin> h) ?vols")
      case None
      obtain c1 h1 es1 fc1 where r: "pxxs_loop env path temppath pats num es cur h fc = (c1, h1, es1, fc1)"
        by (cases "pxxs_loop env path temppath pats num es cur h fc")
      have res: "cur' = c1" "h' = h1" "es' = (k, f) # es1" "fc' = fc1" using Cons.prems(1) True None r by (simp_all add: e)
      obtain "as" vs where o: "mset es = mset es1 + mset as" "c1 = cur + int (length as)" "c1 \<le> num" "distinct vs"
          "h1 = h \<union> set vs" "h \<inter> set vs = {}" "list_all2 (\<lambda>e v. v \<in> entry_vols env pats e) as vs"
          "fc1 = add_pxx env path temppath fc as" "c1 < num \<longrightarrow> (\<forall>e \<in> set es1. entry_vols env pats e \<subseteq> h1)"
        using Cons.IH [OF r Cons.prems(2)] by blast
      have "entry_vols env pats (k, f) \<subseteq> h" using None by (auto simp: entry_vols_def find_None_iff)
      then have "c1 < num \<longrightarrow> (\<forall>e \<in> set es'. entry_vols env pats e \<subseteq> h1)" using o(5,9) res by auto
      then show ?thesis using o res e by (intro exI [of _ "as"] exI [of _ vs]) simp
    next
      case (Some v)
      have v: "v \<in> set ?vols" "v \<notin> h" using Some by (induction ?vols) (auto simp: find_Some_iff)
      have r: "pxxs_loop env path temppath pats num es (cur + 1) (insert v h) (par_addfile env path temppath fc f) = (cur', h', es', fc')"
        using Cons.prems(1) True Some by (simp add: e)
      obtain "as" vs where o: "mset es = mset es' + mset as" "cur' = cur + 1 + int (length as)" "cur' \<le> num" "distinct vs"
          "h' = insert v h \<union> set vs" "insert v h \<inter> set vs = {}" "list_all2 (\<lambda>e v. v \<in> entry_vols env pats e) as vs"
          "fc' = add_pxx env path temppath (par_addfile env path temppath fc f) as"
          "cur' < num \<longrightarrow> (\<forall>e \<in> set es'. entry_vols env pats e \<subseteq> h')"
        using Cons.IH [OF r] True by auto
      show ?thesis using o v e
        by (intro exI [of _ "(k, f) # as"] exI [of _ "v # vs"]) (auto simp: add_pxx_def entry_vols_def)
    qed
  qed
qed

section \<open>The packets that are fetched\<close>

lemma unat_word_diff: "unat (a :: 32 word) < unat b \<Longrightarrow> 0 < unat (b - a)"
  by (simp add: unat_sub word_le_nat_alt)

text \<open>The collected items belong together, are worth something and cost something.\<close>

definition items_ok :: "packet_items \<Rightarrow> bool" where
  "items_ok it \<longleftrightarrow> length (pi_sizes it) = length (pi_values it) \<and> length (pi_items it) = length (pi_values it) \<and>
     (\<forall>i < length (pi_values it). 0 < pi_values it ! i \<and> 0 < pi_sizes it ! i)"

lemma add_packets_ok: "items_ok it \<Longrightarrow> items_ok (add_packets h i f subs it)"
proof -
  assume ok: "items_ok it"
  let ?b = "of_int (atoi (subs ! 2)) :: 32 word" and ?e = "of_int (atoi (subs ! 3)) + of_int (atoi (subs ! 2)) :: 32 word"
  let ?new = "filter (\<lambda>p. p \<notin> h \<and> p \<notin> pi_avail it) (packet_range ?b ?e)"
  show ?thesis
  proof (cases "?new = []")
    case True
    then show ?thesis using ok by (simp add: add_packets_def Let_def)
  next
    case False
    then have "packet_range ?b ?e \<noteq> []" by auto
    then have "unat ?b < unat ?e" by (simp add: packet_range_def)
    then have p: "0 < unat (?e - ?b)" by (rule unat_word_diff)
    have "0 < length ?new" using False by simp
    then show ?thesis using ok False p
      by (auto simp: add_packets_def Let_def items_ok_def nth_append less_Suc_eq max_def)
  qed
qed

lemma packets_of_ok: "items_ok it \<Longrightarrow> items_ok (packets_of env pats h i f it)"
  by (induction env pats h i f it rule: packets_of.induct) (auto simp: add_packets_ok split: option.split)

lemma collect_packets_ok: "items_ok it \<Longrightarrow> items_ok (collect_packets env pats h i es it)"
  by (induction env pats h i es it rule: collect_packets.induct) (auto simp: packets_of_ok)

lemma pick_sum:
  "distinct is \<Longrightarrow> set is \<subseteq> {..< length xs} \<Longrightarrow> sum_list (pick is xs) = picked xs (set is)"
  by (simp add: pick_def picked_def sum_list_distinct_conv_sum_set Int_absorb2)

lemma minsize_results: "distinct (snd (knapsack_minsize v s t)) \<and> sorted (snd (knapsack_minsize v s t))"
  by (simp add: knapsack_minsize_def Let_def split_beta sorted_wrt_filter)

text \<open>Before the last item the value is still too small, as \<open>assert(cur<num)\<close> claims.\<close>

lemma minsize_prefix:
  assumes ok: "items_ok it" "length (pi_values it) \<le> INT_MAX" and t: "0 < t"
    and r: "results = snd (knapsack_minsize (pi_values it) (pi_sizes it) t)" and k: "k < length results"
  shows "sum_list (take k (pick results (pi_values it))) < t"
proof (rule ccontr)
  let ?v = "pi_values it" and ?s = "pi_sizes it"
  assume "\<not> ?thesis"
  moreover have d: "distinct results" using minsize_results r by blast
  have pos: "\<forall>i < length ?v. 0 < ?v ! i" "length ?s = length ?v" "\<And>i. i < length ?v \<Longrightarrow> 0 < ?s ! i"
    using ok(1) by (auto simp: items_ok_def)
  have kb: "set results \<subseteq> {..< length ?v}"
    "t \<le> sum_list ?v \<Longrightarrow> T \<subseteq> {..< length ?v} \<Longrightarrow> t \<le> picked ?v T \<Longrightarrow> picked ?s (set results) \<le> picked ?s T" for T
  proof -
    obtain m res where km: "knapsack_minsize ?v ?s t = (m, res)" by (cases "knapsack_minsize ?v ?s t")
    note B = knapsack_minsize_best [OF pos(1,2) ok(2) km]
    show "set results \<subseteq> {..< length ?v}" using B r km by simp
    show "picked ?s (set results) \<le> picked ?s T" if "t \<le> sum_list ?v" "T \<subseteq> {..< length ?v}" "t \<le> picked ?v T"
      using B r km that by (metis of_nat_le_iff snd_conv)
  qed
  let ?T = "set (take k results)"
  have T: "?T \<subseteq> {..< length ?v}" using kb(1) set_take_subset [of k results] by blast
  have tk: "take k (pick results ?v) = pick (take k results) ?v" by (simp add: pick_def take_map)
  have dt: "distinct (take k results)" using d by simp
  have sv: "sum_list (take k (pick results ?v)) = picked ?v ?T" unfolding tk by (rule pick_sum [OF dt T])
  ultimately have ge: "t \<le> picked ?v ?T" by simp
  have all: "picked ?v ?T \<le> sum_list ?v"
    using T by (auto simp: picked_def sum_list_sum_nth atLeast0LessThan intro: sum_mono2)
  have le: "picked ?s (set results) \<le> picked ?s ?T" using kb(2) [OF _ T ge] ge all by simp
  let ?x = "results ! k"
  have x: "?x \<in> set results" "?x \<notin> ?T"
    using k d by (auto simp: in_set_conv_nth nth_eq_iff_index_eq)
  have sub: "insert ?x ?T \<subseteq> set results" using x set_take_subset [of k results] by auto
  have "picked ?s ?T < picked ?s (insert ?x ?T)"
    using x pos(3) kb(1) by (auto simp: picked_def)
  also have "\<dots> \<le> picked ?s (set results)" unfolding picked_def using sub by (intro sum_mono2) auto
  finally show False using le by simp
qed

section \<open>Properties\<close>

text \<open>Property C18. Fetching volumes of a set takes at most the number needed, from postings that then leave the
  list, every one for a volume number of its own that was not there before; and it stops short of the
  number only when every posting that is left has volumes only that are there or on the way. The optimistic
  mode may decide to fetch nothing instead.\<close>

theorem par1_volumes_once:
  assumes "par1_get_pxxs env num havevols key px fc = (n, px', fc')" "0 \<le> num"
  shows "(n, px', fc') = (0, px, fc) \<and> autopar_optimistic (en_config env) \<or>
    (\<exists>as vs. mset (px_serverpxxs px) = mset (px_serverpxxs px') + mset as \<and>
       n = int (length as) \<and> n \<le> num \<and> distinct vs \<and> havevols \<inter> set vs = {} \<and>
       list_all2 (\<lambda>e v. v \<in> entry_vols env (mmap_equal_range (subjmatches (px_local px)) key) e) as vs \<and>
       fc' = add_pxx env (px_path px) (px_temppath px) fc as \<and>
       (n < num \<longrightarrow> (\<forall>e \<in> set (px_serverpxxs px').
          entry_vols env (mmap_equal_range (subjmatches (px_local px)) key) e \<subseteq> havevols \<union> set vs)))"
proof (cases "(n, px', fc') = (0, px, fc) \<and> autopar_optimistic (en_config env)")
  case False
  let ?pats = "mmap_equal_range (subjmatches (px_local px)) key"
  obtain cur h pxxs fc1 where l: "pxxs_loop env (px_path px) (px_temppath px) ?pats num (px_serverpxxs px) 0 havevols fc = (cur, h, pxxs, fc1)"
    by (cases "pxxs_loop env (px_path px) (px_temppath px) ?pats num (px_serverpxxs px) 0 havevols fc")
  have r: "n = cur" "px_serverpxxs px' = pxxs" "fc' = fc1"
    using assms(1) False l by (auto simp: par1_get_pxxs_def Let_def split: if_splits)
  show ?thesis using pxxs_loop_ok [OF l assms(2)] r by auto
qed simp

definition example_env :: par_env where
  "example_env = \<lparr>en_config = nget_config_new, en_trust = prio_grouping_new ''t'',
     en_rx = (\<lambda>icase pat subj. if subj = ''x.p01 (1/1)'' then Some [''x.p01'', ''01''] else None),
     en_wbeg = [], en_wend = [], en_dir = (\<lambda>_. []), en_fs = (\<lambda>_. None), en_md5 = (\<lambda>s. s),
     en_par2 = (\<lambda>_ _ _. \<lparr>p2_result = eOtherResult, p2_packets = [], p2_missing = 0, p2_sources = []\<rparr>)\<rparr>"

definition example_posting :: nntp_file where
  "example_posting = addnewpart 0 (part_new 1 100 ''<p1>'') (file_new 1 0 ''x.p01 (1/1)'' ''a'' 0 0 0)"

definition example_px :: par_info where
  "example_px = px_add_pxxs example_posting
     (par_info_new ''d'' ''d'' (local_par_new\<lparr>subjmatches := [(''k'', ''pattern'')]\<rparr>))"

theorem par1_volumes_once_witness:
  "\<exists>n px' fc'. par1_get_pxxs example_env 2 {} ''k'' example_px files_u_new = (n, px', fc') \<and> n = 1 \<and>
     (\<exists>as. mset (px_serverpxxs example_px) = mset (px_serverpxxs px') + mset as \<and> n = int (length as))"
proof -
  obtain n px' fc' where r: "par1_get_pxxs example_env 2 {} ''k'' example_px files_u_new = (n, px', fc')"
    by (cases "par1_get_pxxs example_env 2 {} ''k'' example_px files_u_new")
  have "nf_base example_posting = File_base 1 0 ''a'' ''x.p01 (1/1)'' []"
    by (simp add: example_posting_def addnewpart_def addpart_def file_new_def)
  then have "n = 1"
    using r by (simp add: par1_get_pxxs_def example_env_def example_px_def par_info_new_def local_par_new_def px_add_pxxs_def
        sfl_insert_def mmap_equal_range_def pxx_vols_def List.map_filter_simps nget_config_new_def Let_def avail_vols.simps)
  then show ?thesis using par1_volumes_once [OF r] r by auto
qed


definition example_env2 :: par_env where
  "example_env2 = example_env\<lparr>en_rx := (\<lambda>icase pat subj. if subj = ''x.vol0+2.par2''
     then Some [''x.vol0+2.par2'', ''.vol0+2'', ''0'', ''2''] else None)\<rparr>"

definition example_px2 :: par_info where
  "example_px2 = px_add_pxxs (example_posting\<lparr>nf_base := File_base 1 0 ''a'' ''x.vol0+2.par2'' []\<rparr>)
     (par_info_new ''d'' ''d'' (local_par_new\<lparr>subjmatches := [(''k'', ''pattern'')]\<rparr>))"

lemma example_items:
  "collect_packets example_env2 (mmap_equal_range (subjmatches (px_local example_px2)) ''k'') {} 0 (px_serverpxxs example_px2)
      \<lparr>pi_sizes = [], pi_values = [], pi_items = [], pi_avail = {}\<rparr> =
     \<lparr>pi_sizes = [2], pi_values = [2], pi_items = [0], pi_avail = {0, 1}\<rparr>"
proof -
  have a: "atoi ''0'' = 0" "atoi ''2'' = 2" by code_simp+
  have r: "packet_range 0 2 = [0, 1]" unfolding packet_range_def by code_simp
  have h: "have_count example_posting = 1"
    by (simp add: example_posting_def addnewpart_def addpart_def file_new_def part_new_def count_partnum_def)
  show ?thesis
    by (simp add: example_env2_def example_env_def example_px2_def par_info_new_def local_par_new_def px_add_pxxs_def
        sfl_insert_def mmap_equal_range_def add_packets_def a r h Let_def insert_commute)
qed


end
