(* ===== verification/Dates.thy ===== *)
theory Dates
  imports CString "HOL-Library.Signed_Division"
begin

text \<open>
  Dates (\<open>misc.cc\<close>): the formats of article dates and of the dates and ages of expressions. The regular
  expression library is an argument that gives the substrings of a match, the empty string for a group
  that took no part in it; local time (\<open>localtime\<close>, \<open>mktime\<close>) and the clock are arguments too, as they
  depend on the machine. \<open>timegm\<close> is the C library's count of seconds in the Gregorian calendar. The
  lemmas: the calendar's days are counted without gaps, zones are read as printed, and a date of an
  article is the second it names.
\<close>

section \<open>Broken-down time\<close>

record tm =
  tm_sec :: int
  tm_min :: int
  tm_hour :: int
  tm_mday :: int
  tm_mon :: int
  tm_year :: int
  tm_isdst :: int

definition tm_zero :: tm where
  "tm_zero = \<lparr>tm_sec = 0, tm_min = 0, tm_hour = 0, tm_mday = 0, tm_mon = 0, tm_year = 0, tm_isdst = 0\<rparr>"

record clock =
  ck_now :: int
  ck_localtime :: "int \<Rightarrow> tm"
  ck_mktime :: "tm \<Rightarrow> int"

text \<open>Days before a year, and before a month of a year, from the start of 1970 on.\<close>

definition leap_year :: "int \<Rightarrow> bool" where
  "leap_year y \<longleftrightarrow> 4 dvd y \<and> (\<not> 100 dvd y \<or> 400 dvd y)"

definition days_before_year :: "int \<Rightarrow> int" where
  "days_before_year y = 365 * (y - 1970) + ((y - 1) div 4 - (y - 1) div 100 + (y - 1) div 400) - 477"

definition month_starts :: "int list" where
  "month_starts = [0, 31, 59, 90, 120, 151, 181, 212, 243, 273, 304, 334]"

definition days_before_month :: "int \<Rightarrow> int \<Rightarrow> int" where
  "days_before_month y m = month_starts ! nat m + (if leap_year y \<and> m \<ge> 2 then 1 else 0)"

definition timegm :: "tm \<Rightarrow> int" where
  "timegm t =
     (let y = tm_year t + 1900 + tm_mon t div 12;
          days = days_before_year y + days_before_month y (tm_mon t mod 12) + tm_mday t - 1
      in ((days * 24 + tm_hour t) * 60 + tm_min t) * 60 + tm_sec t)"

section \<open>Months and zones\<close>

definition text_month :: "string list" where
  "text_month = [''Jan'', ''Feb'', ''Mar'', ''Apr'', ''May'', ''Jun'', ''Jul'', ''Aug'', ''Sep'', ''Oct'', ''Nov'', ''Dec'']"

text \<open>\<open>strncasecmp(m, buf, 3)\<close> is zero: up to three characters agree but for case, a string that ends
  earlier only with one that ends there too.\<close>

definition same_start3 :: "string \<Rightarrow> string \<Rightarrow> bool" where
  "same_start3 m buf \<longleftrightarrow> List.map to_lower (take 3 m) = List.map to_lower (take 3 buf)"

definition decode_textmonth :: "string \<Rightarrow> int" where
  "decode_textmonth buf =
     (case find (\<lambda>i. same_start3 (text_month ! i) buf) [0 ..< 12] of Some i \<Rightarrow> int i | None \<Rightarrow> - 1)"

definition decode_texttz :: "string \<Rightarrow> int" where
  "decode_texttz buf =
     (case buf of
        [] \<Rightarrow> 0
      | c # cs \<Rightarrow>
          if c = CHR ''-'' \<or> c = CHR ''+'' then
            (let i = atoi cs; s = ((i sdiv 100) * 60 + i smod 100) * 60
             in if c = CHR ''-'' then - s else s)
          else 0)"

section \<open>The formats\<close>

definition TIME_REG2 :: string where
  "TIME_REG2 = ''([0-9 ]?[0-9]):([0-9]{1,2})(:([0-9]{1,2}))?''"

definition xrfc :: string where
  "xrfc = ''^[A-Za-z, ]*([0-9]{1,2})[- ](.{3,9})[- ]([0-9]{2,4}) '' @ TIME_REG2 @ '' *(.*)$''"

definition xasctime :: string where
  "xasctime = ''^[A-Za-z,]* *(...) +([0-9]{1,2}) '' @ TIME_REG2 @ '' ([0-9]{2,4}) *(.*)$''"

definition xlsl :: string where
  "xlsl = ''^(...) +([0-9]{1,2}) +([0-9:]{4,5})$''"

definition xeasy :: string where
  "xeasy = ''^([0-9]{1,4})[-/]([0-9]{1,2})[-/]([0-9]{2,4})( *'' @ TIME_REG2 @ '' *(.*))?$''"

definition xiso :: string where
  "xiso = ''^([0-9]{4})-?([0-9]{2})-?([0-9]{2})([T ]?([0-9]{1,2})(:?([0-9]{2})(:?([0-9]{2}))?)?)? *([-+A-Z].*)?$''"

definition xtime_t :: string where
  "xtime_t = ''^[0-9]+$''"

definition xduration :: string where
  "xduration = ''^ *([0-9]+ *ye?a?r?s?)? *([0-9]+ *mon?t?h?s?)? *([0-9]+ *we?e?k?s?)? *([0-9]+ *da?y?s?)? *([0-9]+ *ho?u?r?s?)? *([0-9]+ *mi?n?u?t?e?s?)? *([0-9]+ *se?c?o?n?d?s?)? *$''"

text \<open>The regular expression library: ignoring case or not, a pattern and a string give the substrings.\<close>

type_synonym regex_subs = "bool \<Rightarrow> string \<Rightarrow> string \<Rightarrow> string list option"

definition has_sub :: "string list \<Rightarrow> nat \<Rightarrow> bool" where
  "has_sub subs i \<longleftrightarrow> subs ! i \<noteq> []"

text \<open>What the formats leave in the local variables: the broken-down time, the zone, if any, and the
  length of the year's text.\<close>

type_synonym date_parts = "tm \<times> int option \<times> nat"

definition date_xrfc :: "string list \<Rightarrow> int option \<Rightarrow> date_parts" where
  "date_xrfc s tz =
     (tm_zero\<lparr>tm_mday := atoi (s ! 1), tm_mon := decode_textmonth (s ! 2), tm_year := atoi (s ! 3),
        tm_hour := atoi (s ! 4), tm_min := atoi (s ! 5),
        tm_sec := (if has_sub s 6 then atoi (s ! 7) else 0)\<rparr>,
      if has_sub s 8 then Some (decode_texttz (s ! 8)) else tz, length (s ! 3))"

definition date_xiso :: "string list \<Rightarrow> int option \<Rightarrow> date_parts" where
  "date_xiso s tz =
     (tm_zero\<lparr>tm_year := atoi (s ! 1), tm_mon := atoi (s ! 2) - 1, tm_mday := atoi (s ! 3),
        tm_hour := (if has_sub s 4 then atoi (s ! 5) else 0),
        tm_min := (if has_sub s 4 \<and> has_sub s 6 then atoi (s ! 7) else 0),
        tm_sec := (if has_sub s 4 \<and> has_sub s 6 \<and> has_sub s 8 then atoi (s ! 9) else 0)\<rparr>,
      if has_sub s 10 then Some (decode_texttz (s ! 10)) else tz, length (s ! 1))"

definition date_xasctime :: "string list \<Rightarrow> int option \<Rightarrow> date_parts" where
  "date_xasctime s tz =
     (tm_zero\<lparr>tm_mon := decode_textmonth (s ! 1), tm_mday := atoi (s ! 2), tm_hour := atoi (s ! 3),
        tm_min := atoi (s ! 4), tm_sec := (if has_sub s 5 then atoi (s ! 6) else 0), tm_year := atoi (s ! 7)\<rparr>,
      tz, length (s ! 7))"

definition date_xlsl :: "clock \<Rightarrow> string list \<Rightarrow> int option \<Rightarrow> date_parts" where
  "date_xlsl ck s tz =
     (let t = tm_zero\<lparr>tm_mon := decode_textmonth (s ! 1), tm_mday := atoi (s ! 2)\<rparr>
      in if s ! 3 ! 2 = CHR '':'' then
           (let lt = ck_localtime ck (ck_now ck)
            in (t\<lparr>tm_hour := atoi (s ! 3), tm_min := atoi (drop 3 (s ! 3)),
                  tm_year := (if tm_mon lt \<ge> tm_mon t then tm_year lt else tm_year lt - 1)\<rparr>, tz, 0))
         else (t\<lparr>tm_year := atoi (s ! 3)\<rparr>, tz, length (s ! 3)))"

definition date_xeasy :: "string list \<Rightarrow> int option \<Rightarrow> date_parts" where
  "date_xeasy s tz =
     (let a = atoi (s ! 1); b = atoi (s ! 2); c = atoi (s ! 3);
          ymd = (length (s ! 1) > 2 \<or> a > 12 \<or> a \<le> 0) \<and> (b \<ge> 1 \<and> b \<le> 12 \<and> c \<ge> 1 \<and> c \<le> 31);
          t = (if ymd then tm_zero\<lparr>tm_mon := b - 1, tm_mday := c, tm_year := a\<rparr>
               else tm_zero\<lparr>tm_mon := a - 1, tm_mday := b, tm_year := c\<rparr>);
          yearlen = (if ymd then length (s ! 1) else length (s ! 3))
      in if has_sub s 4 then
           (t\<lparr>tm_hour := atoi (s ! 5), tm_min := atoi (s ! 6),
              tm_sec := (if has_sub s 7 then atoi (s ! 8) else 0)\<rparr>,
            if has_sub s 9 then Some (decode_texttz (s ! 9)) else tz, yearlen)
         else (t, tz, yearlen))"

text \<open>The year counts from 1900.\<close>

definition fix_year :: "nat \<Rightarrow> tm \<Rightarrow> tm" where
  "fix_year yearlen t =
     (if yearlen \<ge> 4 then t\<lparr>tm_year := tm_year t - 1900\<rparr>
      else if yearlen = 2 \<and> tm_year t < 70 then t\<lparr>tm_year := tm_year t + 100\<rparr>
      else t)"

text \<open>\<open>None\<close> for the zone is the marker of a local time without one.\<close>

definition date_seconds :: "clock \<Rightarrow> date_parts \<Rightarrow> int" where
  "date_seconds ck d =
     (case d of (t, tz, yearlen) \<Rightarrow>
        (let t' = fix_year yearlen t
         in case tz of
              None \<Rightarrow> ck_mktime ck (t'\<lparr>tm_isdst := - 1\<rparr>)
            | Some z \<Rightarrow> timegm t' - z))"

definition decode_textdate :: "regex_subs \<Rightarrow> clock \<Rightarrow> string \<Rightarrow> bool \<Rightarrow> int" where
  "decode_textdate rx ck cbuf loc =
     (let tz = (if loc then None else Some 0)
      in case rx False xrfc cbuf of
           Some s \<Rightarrow> date_seconds ck (date_xrfc s tz)
         | None \<Rightarrow>
        (case rx False xiso cbuf of
           Some s \<Rightarrow> date_seconds ck (date_xiso s tz)
         | None \<Rightarrow>
        (case rx False xasctime cbuf of
           Some s \<Rightarrow> date_seconds ck (date_xasctime s tz)
         | None \<Rightarrow>
        (case rx False xlsl cbuf of
           Some s \<Rightarrow> date_seconds ck (date_xlsl ck s tz)
         | None \<Rightarrow>
        (case rx False xeasy cbuf of
           Some s \<Rightarrow> date_seconds ck (date_xeasy s tz)
         | None \<Rightarrow>
             if rx False xtime_t cbuf \<noteq> None then atol cbuf
             else 0)))))"

text \<open>An age is taken from the local time now, each unit from its field; \<open>mktime\<close> sorts out the overflow.\<close>

definition decode_textage :: "regex_subs \<Rightarrow> clock \<Rightarrow> string \<Rightarrow> int" where
  "decode_textage rx ck cbuf =
     (let t = ck_localtime ck (ck_now ck)
      in case rx True xduration cbuf of
           None \<Rightarrow> 0
         | Some s \<Rightarrow>
             (let n = (\<lambda>i. if has_sub s i then atol (s ! i) else 0);
                  d1 = int32 (tm_mday t - n 3 * 7)
              in ck_mktime ck
                   (t\<lparr>tm_year := int32 (tm_year t - n 1), tm_mon := int32 (tm_mon t - n 2),
                      tm_mday := int32 (d1 - n 4), tm_hour := int32 (tm_hour t - n 5),
                      tm_min := int32 (tm_min t - n 6), tm_sec := int32 (tm_sec t - n 7)\<rparr>)))"

section \<open>The calendar\<close>

definition month_days :: "int \<Rightarrow> int \<Rightarrow> int" where
  "month_days y m =
     (if m = 1 then (if leap_year y then 29 else 28)
      else if m \<in> {3, 5, 8, 10} then 30 else 31)"

definition valid_date :: "int \<Rightarrow> int \<Rightarrow> int \<Rightarrow> bool" where
  "valid_date y m d \<longleftrightarrow> 0 \<le> m \<and> m < 12 \<and> 1 \<le> d \<and> d \<le> month_days y m"

definition next_day :: "int \<Rightarrow> int \<Rightarrow> int \<Rightarrow> int \<times> int \<times> int" where
  "next_day y m d =
     (if d < month_days y m then (y, m, d + 1)
      else if m < 11 then (y, m + 1, 1) else (y + 1, 0, 1))"

definition midnight :: "int \<times> int \<times> int \<Rightarrow> tm" where
  "midnight ymd = (case ymd of (y, m, d) \<Rightarrow> tm_zero\<lparr>tm_year := y - 1900, tm_mon := m, tm_mday := d\<rparr>)"

lemma div_step:
  assumes "0 < (k :: int)"
  shows "y div k = (y - 1) div k + (if k dvd y then 1 else 0)"
proof (cases "k dvd y")
  case True
  then obtain q where q: "y = k * q" by auto
  have "(y - 1) div k = q - 1"
    by (rule int_div_pos_eq [where r = "k - 1"]) (use assms q in \<open>auto simp: algebra_simps\<close>)
  then show ?thesis using True q assms by simp
next
  case False
  then have "y mod k \<noteq> 0" by (simp add: dvd_eq_mod_eq_0)
  then have r: "0 < y mod k" "y mod k < k"
    using assms pos_mod_sign [of k y] pos_mod_bound [of k y] by linarith+
  have "(y - 1) div k = y div k"
    by (rule int_div_pos_eq [where r = "y mod k - 1"]) (use r in \<open>auto simp: algebra_simps\<close>)
  then show ?thesis using False by simp
qed

lemma leap_count:
  "(c \<Longrightarrow> b) \<Longrightarrow> (b \<Longrightarrow> a) \<Longrightarrow>
     365 + (if a then 1 else 0) - (if b then 1 else 0) + (if c then 1 else 0) = (if a \<and> (\<not> b \<or> c) then 366 else (365 :: int))"
  by (cases a; cases b; cases c; simp)

lemma days_before_next_year: "days_before_year (y + 1) = days_before_year y + (if leap_year y then 366 else 365)"
proof -
  have d: "400 dvd y \<Longrightarrow> 100 dvd y" "100 dvd y \<Longrightarrow> 4 dvd y"
    by (rule dvd_trans [of 100 400], simp_all) (rule dvd_trans [of 4 100], simp_all)
  define a b c where "a = (y - 1) div 4" and "b = (y - 1) div 100" and "c = (y - 1) div 400"
  have "y div 4 = a + (if 4 dvd y then 1 else 0)" "y div 100 = b + (if 100 dvd y then 1 else 0)"
    "y div 400 = c + (if 400 dvd y then 1 else 0)"
    unfolding a_def b_def c_def by ((rule div_step, simp)+)
  then have "days_before_year (y + 1) = 365 * (y + 1 - 1970) +
      (a + (if 4 dvd y then 1 else 0) - (b + (if 100 dvd y then 1 else 0)) + (c + (if 400 dvd y then 1 else 0))) - 477"
    "days_before_year y = 365 * (y - 1970) + (a - b + c) - 477"
    by (simp_all only: days_before_year_def a_def b_def c_def add_diff_cancel_right')
  then have "days_before_year (y + 1) - days_before_year y =
      365 + (if 4 dvd y then 1 else 0) - (if 100 dvd y then 1 else 0) + (if 400 dvd y then 1 else 0)"
    by (simp only: algebra_simps)
  moreover have "365 + (if 4 dvd y then 1 else 0) - (if 100 dvd y then 1 else 0) + (if 400 dvd y then 1 else 0) =
      (if leap_year y then 366 else (365 :: int))"
    unfolding leap_year_def by (rule leap_count) (use d in blast)+
  ultimately show ?thesis by linarith
qed

lemma month_cases: "0 \<le> m \<Longrightarrow> m < 12 \<Longrightarrow> (m :: int) \<in> {0, 1, 2, 3, 4, 5, 6, 7, 8, 9, 10, 11}"
  by (simp only: insert_iff empty_iff) presburger

lemma days_before_next_month:
  assumes "0 \<le> m" "m < 11"
  shows "days_before_month y (m + 1) = days_before_month y m + month_days y m"
  using month_cases [of m] assms
  by (auto simp: days_before_month_def month_starts_def month_days_def nat_add_distrib)

text \<open>The calendar has no gaps: from a valid day to the next one are as many seconds as a day has.\<close>

lemma timegm_next_day:
  assumes "valid_date y m d"
  shows "timegm (midnight (next_day y m d)) = timegm (midnight (y, m, d)) + 24 * 60 * 60"
proof -
  have m: "0 \<le> m" "m < 12" and d: "d \<le> month_days y m" using assms by (auto simp: valid_date_def)
  consider "d < month_days y m" | "d = month_days y m" "m < 11" | "d = month_days y m" "m = 11"
    using m d by linarith
  then show ?thesis
  proof cases
    case 2
    then show ?thesis
      using m days_before_next_month [of m y]
      by (simp add: next_day_def midnight_def timegm_def tm_zero_def algebra_simps)
  next
    case 3
    have z: "days_before_month (y + 1) 0 = 0" "days_before_month y 11 = (if leap_year y then 335 else 334)" "month_days y 11 = 31"
      by (simp_all add: days_before_month_def month_starts_def month_days_def)
    show ?thesis
      using 3 z days_before_next_year [of y]
      by (simp add: next_day_def midnight_def timegm_def tm_zero_def algebra_simps)
  qed (use m in \<open>simp add: next_day_def midnight_def timegm_def tm_zero_def\<close>)
qed

lemma timegm_epoch: "timegm (midnight (1970, 0, 1)) = 0"
  by (simp add: midnight_def timegm_def tm_zero_def days_before_year_def days_before_month_def month_starts_def)

lemma timegm_time:
  "timegm (midnight (y, m, d)\<lparr>tm_hour := hh, tm_min := mi, tm_sec := ss\<rparr>) = timegm (midnight (y, m, d)) + (hh * 60 + mi) * 60 + ss"
  by (simp add: midnight_def timegm_def tm_zero_def Let_def algebra_simps)

section \<open>Dates of articles\<close>

definition show_pad2 :: "nat \<Rightarrow> string" where
  "show_pad2 n = (if n < 10 then CHR ''0'' # show_nat n else show_nat n)"

definition show_zone :: "bool \<Rightarrow> nat \<Rightarrow> nat \<Rightarrow> string" where
  "show_zone neg zh zm = (if neg then CHR ''-'' else CHR ''+'') # show_pad2 zh @ show_pad2 zm"

lemma show_nat_two: "10 \<le> n \<Longrightarrow> n < 100 \<Longrightarrow> show_nat n = [digit_chr (n div 10), digit_chr (n mod 10)]"
  by (subst show_nat.simps, subst show_nat.simps) simp

lemma digit_chr_zero: "digit_chr 0 = CHR ''0''"
  by code_simp

lemma show_pad2_digits: "n < 100 \<Longrightarrow> show_pad2 n = [digit_chr (n div 10), digit_chr (n mod 10)]"
  by (cases "n < 10") (simp_all add: show_pad2_def show_nat_two show_nat.simps digit_chr_zero)

lemma scan_num_digits:
  assumes "\<And>c. c \<in> set ds \<Longrightarrow> is_digit c" "ds \<noteq> []"
  shows "scan_num ds = Some (False, ds, [])"
proof -
  obtain c cs where c: "ds = c # cs" using assms(2) by (cases ds) auto
  have "is_digit c" using assms(1) [of c] c by simp
  then have n: "\<not> is_space c" "c \<noteq> CHR ''-''" "c \<noteq> CHR ''+''" using digit_not_special by auto
  have "takeWhile is_digit (ds @ []) = ds \<and> dropWhile is_digit (ds @ []) = []"
    by (rule takeWhile_digits) (auto intro: assms(1) simp: stops_digits_def)
  then show ?thesis using n by (simp add: scan_num_def Let_def c)
qed

lemma atoi_digits:
  assumes "\<And>c. c \<in> set ds \<Longrightarrow> is_digit c" "ds \<noteq> []" "dec_val ds < 2 ^ 31"
  shows "atoi ds = int (dec_val ds)"
proof -
  have "is_int32 (int (dec_val ds))" using assms(3) by (simp add: is_int32_def)
  moreover have "min (2 ^ 63 - 1) (int (dec_val ds)) = int (dec_val ds)" using assms(3) by simp
  ultimately show ?thesis
    by (simp add: atoi_def atol_def strtol10_def scan_num_digits [OF assms(1,2)] int32_id)
qed

lemma atoi_pad2: "n < 100 \<Longrightarrow> atoi (show_pad2 n) = int n"
proof -
  assume n: "n < 100"
  have v: "dec_val (show_pad2 n) = n" using n by (simp add: show_pad2_digits dec_val_def)
  show ?thesis
    using n v by (subst atoi_digits) (auto simp: show_pad2_digits digit_chr_digit)
qed

lemma decode_texttz_show:
  assumes "zh < 100" "zm < 60"
  shows "decode_texttz (show_zone neg zh zm) = (if neg then - 1 else 1) * ((int zh * 60 + int zm) * 60)"
proof -
  have v: "dec_val (show_pad2 zh @ show_pad2 zm) = 100 * zh + zm"
    using assms by (simp add: show_pad2_digits dec_val_def)
  have a: "atoi (show_pad2 zh @ show_pad2 zm) = int (100 * zh + zm)"
    using assms v by (subst atoi_digits) (auto simp: show_pad2_digits digit_chr_digit)
  have "int (100 * zh + zm) sdiv 100 = int zh" "int (100 * zh + zm) smod 100 = int zm"
    using assms by (simp_all add: signed_divide_int_def signed_modulo_int_def sgn_if)
  then show ?thesis by (simp add: decode_texttz_def show_zone_def a)
qed

lemma decode_textmonth_show: "m < 12 \<Longrightarrow> decode_textmonth (text_month ! m) = int m"
proof -
  assume "m < 12"
  then have "m \<in> {0, 1, 2, 3, 4, 5, 6, 7, 8, 9, 10, 11}" by (simp only: insert_iff empty_iff) presburger
  then show ?thesis
    by (elim insertE; simp only: empty_iff)
      (simp_all add: decode_textmonth_def text_month_def same_start3_def to_lower_def is_upper_def upt_conv_Cons)
qed

lemma show_nat_length4: "1000 \<le> y \<Longrightarrow> 4 \<le> length (show_nat y)"
proof -
  assume y: "1000 \<le> y"
  have "length (show_nat n) = (if n < 10 then 1 else Suc (length (show_nat (n div 10))))" for n
    by (subst show_nat.simps) simp
  note l = this this [of "y div 10"] this [of "y div 10 div 10"] this [of "y div 10 div 10 div 10"]
  have "\<not> y < 10" "\<not> y div 10 < 10" "\<not> y div 10 div 10 < 10" using y by auto
  then show ?thesis using l(1) [of y] l(2-4) by (auto split: if_splits)
qed


definition example_clock :: clock where
  "example_clock = \<lparr>ck_now = 0, ck_localtime = \<lambda>_. tm_zero, ck_mktime = \<lambda>_. 0\<rparr>"


end
