(* ===== verification/Etree.thy ===== *)
theory Etree
  imports Article Grouplist Dates
begin

text \<open>
  The expressions that select files and groups (\<open>etree.cc\<close>): an expression in postfix order is made into a
  predicate with a stack. A predicate is a tree of \<open>and\<close>s and \<open>or\<close>s over comparisons; the template
  parameter \<open>comparison_maker\<close> is an argument of \<open>make_pred\<close>, and the comparisons of the two classes are
  datatypes of their own. The regular expression library, which also tells whether a pattern can be
  compiled, and the clock are arguments. The lemmas: making a predicate from the postfix form of a tree
  gives that tree back, and every other list of words is one of the three errors.
\<close>

section \<open>Predicates\<close>

datatype 'a pred = predAnd "'a pred" "'a pred" | predOr "'a pred" "'a pred" | Comparison 'a

fun eval_pred :: "('a \<Rightarrow> 'c \<Rightarrow> bool) \<Rightarrow> 'a pred \<Rightarrow> 'c \<Rightarrow> bool" where
  "eval_pred holds (predAnd p1 p2) f = (eval_pred holds p1 f \<and> eval_pred holds p2 f)"
| "eval_pred holds (predOr p1 p2) f = (eval_pred holds p1 f \<or> eval_pred holds p2 f)"
| "eval_pred holds (Comparison c) f = holds c f"

datatype etree_error =
  Invalid_op string
| Not_enough_arguments string
| No_match_type string
| Unfinished_expression
| Empty_expression
| Regex_error string
| Words_error parse_error

datatype cmp_op = Op_eq | Op_ne | Op_lt | Op_le | Op_gt | Op_ge

fun op_holds :: "cmp_op \<Rightarrow> 'a::linorder \<Rightarrow> 'a \<Rightarrow> bool" where
  "op_holds Op_eq a b = (a = b)"
| "op_holds Op_ne a b = (a \<noteq> b)"
| "op_holds Op_lt a b = (a < b)"
| "op_holds Op_le a b = (a \<le> b)"
| "op_holds Op_gt a b = (a > b)"
| "op_holds Op_ge a b = (a \<ge> b)"

definition comparison :: "string \<Rightarrow> etree_error + cmp_op" where
  "comparison opstr =
     (if opstr = ''=='' then Inr Op_eq
      else if opstr = ''!='' then Inr Op_ne
      else if opstr = ''<'' then Inr Op_lt
      else if opstr = ''<='' then Inr Op_le
      else if opstr = ''>'' then Inr Op_gt
      else if opstr = ''>='' then Inr Op_ge
      else Inl (Invalid_op opstr))"

text \<open>The pattern is compiled when the comparison is made.\<close>

definition comparison_re :: "(string \<Rightarrow> bool) \<Rightarrow> string \<Rightarrow> string \<Rightarrow> etree_error + cmp_op" where
  "comparison_re rxcomp opstr pattern =
     (if opstr = ''=='' \<or> opstr = ''=~'' then (if rxcomp pattern then Inr Op_eq else Inl (Regex_error pattern))
      else if opstr = ''!='' \<or> opstr = ''!~'' then (if rxcomp pattern then Inr Op_ne else Inl (Regex_error pattern))
      else Inl (Invalid_op opstr))"

definition invert_op :: "string \<Rightarrow> string" where
  "invert_op opstr =
     (if opstr = ''<'' then ''>''
      else if opstr = ''<='' then ''>=''
      else if opstr = ''>'' then ''<''
      else if opstr = ''>='' then ''<=''
      else opstr)"

section \<open>The stack machine\<close>

definition is_connective :: "string \<Rightarrow> bool" where
  "is_connective x \<longleftrightarrow> x = ''&&'' \<or> x = ''and'' \<or> x = ''||'' \<or> x = ''or''"

text \<open>The words kept in \<open>x\<close> and \<open>y\<close> and the stack, its top first.\<close>

record 'a etree_state =
  es_x :: "string option"
  es_y :: "string option"
  es_stack :: "'a pred list"

type_synonym 'a comparison_maker = "string \<Rightarrow> string \<Rightarrow> string \<Rightarrow> etree_error + 'a option"

definition etree_step :: "'a comparison_maker \<Rightarrow> 'a etree_state \<Rightarrow> string \<Rightarrow> etree_error + 'a etree_state" where
  "etree_step maker st w =
     (case es_x st of
        None \<Rightarrow>
          if is_connective w then
            (case es_stack st of
               py # px # rest \<Rightarrow>
                 Inr (st\<lparr>es_stack := (if w = ''&&'' \<or> w = ''and'' then predAnd px py else predOr px py) # rest\<rparr>)
             | _ \<Rightarrow> Inl (Not_enough_arguments w))
          else Inr (st\<lparr>es_x := Some w\<rparr>)
      | Some x \<Rightarrow>
          (case es_y st of
             None \<Rightarrow> Inr (st\<lparr>es_y := Some w\<rparr>)
           | Some y \<Rightarrow>
               (case maker w x y of
                  Inl e \<Rightarrow> Inl e
                | Inr None \<Rightarrow> Inl (No_match_type x)
                | Inr (Some p) \<Rightarrow> Inr \<lparr>es_x = None, es_y = None, es_stack = Comparison p # es_stack st\<rparr>)))"

fun etree_loop :: "'a comparison_maker \<Rightarrow> string list \<Rightarrow> 'a etree_state \<Rightarrow> etree_error + 'a etree_state" where
  "etree_loop maker [] st = Inr st"
| "etree_loop maker (w # ws) st =
     (case etree_step maker st w of Inl e \<Rightarrow> Inl e | Inr st' \<Rightarrow> etree_loop maker ws st')"

definition etree_start :: "'a etree_state" where
  "etree_start = \<lparr>es_x = None, es_y = None, es_stack = []\<rparr>"

definition make_pred :: "'a comparison_maker \<Rightarrow> string list \<Rightarrow> etree_error + 'a pred" where
  "make_pred maker e_parts =
     (case etree_loop maker e_parts etree_start of
        Inl e \<Rightarrow> Inl e
      | Inr st \<Rightarrow>
          if length (es_stack st) > 1 \<or> es_x st \<noteq> None \<or> es_y st \<noteq> None then Inl Unfinished_expression
          else (case es_stack st of [] \<Rightarrow> Inl Empty_expression | p # _ \<Rightarrow> Inr p))"

section \<open>Comparisons of files\<close>

datatype file_text = FT_subject | FT_author | FT_bamid | FT_references
datatype file_ulong = FU_bytes | FU_lines
datatype file_int = FI_req | FI_have | FI_badate | FI_update

datatype file_cmp =
  Cmp_re cmp_op file_text bool string
| Cmp_ulong cmp_op file_ulong ulong
| Cmp_int cmp_op file_int int

definition strcaseeq :: "string \<Rightarrow> string \<Rightarrow> bool" where
  "strcaseeq a b \<longleftrightarrow> List.map to_lower a = List.map to_lower b"

text \<open>\<open>icase\<close> is set unless files are matched with case, \<open>GETFILES_CASESENSITIVE\<close>.\<close>

definition nntp_file_comparison_maker ::
  "(bool \<Rightarrow> string \<Rightarrow> bool) \<Rightarrow> regex_subs \<Rightarrow> clock \<Rightarrow> bool \<Rightarrow> file_cmp comparison_maker" where
  "nntp_file_comparison_maker rxcomp rx ck icase i x y =
     (let re = (\<lambda>t. map_sum id (\<lambda>op. Some (Cmp_re op t icase y)) (comparison_re (rxcomp icase) i y));
          ul = (\<lambda>t. map_sum id (\<lambda>op. Some (Cmp_ulong op t (atoul y))) (comparison i));
          num = (\<lambda>t opstr v. map_sum id (\<lambda>op. Some (Cmp_int op t v)) (comparison opstr))
      in if strcaseeq x ''subject'' then re FT_subject
         else if strcaseeq x ''author'' then re FT_author
         else if strcaseeq x ''mid'' \<or> strcaseeq x ''messageid'' then re FT_bamid
         else if strcaseeq x ''bytes'' then ul FU_bytes
         else if strcaseeq x ''lines'' then ul FU_lines
         else if strcaseeq x ''req'' then num FI_req i (atoi y)
         else if strcaseeq x ''have'' then num FI_have i (atoi y)
         else if strcaseeq x ''date'' then num FI_badate i (decode_textdate rx ck y True)
         else if strcaseeq x ''age'' then num FI_badate (invert_op i) (decode_textage rx ck y)
         else if strcaseeq x ''update'' then num FI_update i (decode_textdate rx ck y True)
         else if strcaseeq x ''updateage'' then num FI_update (invert_op i) (decode_textage rx ck y)
         else if strcaseeq x ''references'' then re FT_references
         else Inr None)"

text \<open>A file's references match when one of them does.\<close>

fun file_texts :: "file_text \<Rightarrow> nntp_file \<Rightarrow> string list" where
  "file_texts FT_subject f = [fb_subject (nf_base f)]"
| "file_texts FT_author f = [fb_author (nf_base f)]"
| "file_texts FT_bamid f = [bamid f]"
| "file_texts FT_references f = fb_references (nf_base f)"

fun file_ulong_val :: "nget_config \<Rightarrow> prio_grouping \<Rightarrow> file_ulong \<Rightarrow> nntp_file \<Rightarrow> ulong" where
  "file_ulong_val nconfig trust FU_bytes f = file_bytes nconfig trust f"
| "file_ulong_val nconfig trust FU_lines f = file_lines nconfig trust f"

fun file_int_val :: "file_int \<Rightarrow> nntp_file \<Rightarrow> int" where
  "file_int_val FI_req f = fb_req (nf_base f)"
| "file_int_val FI_have f = have_count f"
| "file_int_val FI_badate f = badate f"
| "file_int_val FI_update f = update_time f"

definition re_holds :: "regex_subs \<Rightarrow> cmp_op \<Rightarrow> bool \<Rightarrow> string \<Rightarrow> string list \<Rightarrow> bool" where
  "re_holds rx op icase pattern ts \<longleftrightarrow> (list_ex (\<lambda>t. rx icase pattern t \<noteq> None) ts) = (op = Op_eq)"

fun file_cmp_holds :: "regex_subs \<Rightarrow> nget_config \<Rightarrow> prio_grouping \<Rightarrow> file_cmp \<Rightarrow> nntp_file \<Rightarrow> bool" where
  "file_cmp_holds rx nconfig trust (Cmp_re op t icase pattern) f = re_holds rx op icase pattern (file_texts t f)"
| "file_cmp_holds rx nconfig trust (Cmp_ulong op t v) f = op_holds op (file_ulong_val nconfig trust t f) v"
| "file_cmp_holds rx nconfig trust (Cmp_int op t v) f = op_holds op (file_int_val t f) v"

definition make_nntpfile_pred ::
  "(bool \<Rightarrow> string \<Rightarrow> bool) \<Rightarrow> regex_subs \<Rightarrow> clock \<Rightarrow> string list \<Rightarrow> bool \<Rightarrow> etree_error + file_cmp pred" where
  "make_nntpfile_pred rxcomp rx ck e_parts casesensitive =
     make_pred (nntp_file_comparison_maker rxcomp rx ck (\<not> casesensitive)) e_parts"

text \<open>The form that takes the words apart first.\<close>

definition make_nntpfile_pred_str ::
  "(bool \<Rightarrow> string \<Rightarrow> bool) \<Rightarrow> regex_subs \<Rightarrow> clock \<Rightarrow> string \<Rightarrow> bool \<Rightarrow> etree_error + file_cmp pred" where
  "make_nntpfile_pred_str rxcomp rx ck optarg casesensitive =
     (case parseargs [] optarg False of
        (e_parts, None) \<Rightarrow> make_nntpfile_pred rxcomp rx ck e_parts casesensitive
      | (_, Some e) \<Rightarrow> Inl (Words_error e))"

section \<open>Comparisons of groups\<close>

datatype group_text = GT_group | GT_desc

datatype group_cmp = Gcmp_re cmp_op group_text bool string

definition grouplist_comparison_maker :: "(bool \<Rightarrow> string \<Rightarrow> bool) \<Rightarrow> bool \<Rightarrow> group_cmp comparison_maker" where
  "grouplist_comparison_maker rxcomp icase i x y =
     (let re = (\<lambda>t. map_sum id (\<lambda>op. Some (Gcmp_re op t icase y)) (comparison_re (rxcomp icase) i y))
      in if strcaseeq x ''group'' then re GT_group
         else if strcaseeq x ''desc'' then re GT_desc
         else Inr None)"

fun group_texts :: "group_text \<Rightarrow> group_avail \<Rightarrow> string list" where
  "group_texts GT_group g = [ga_name g]"
| "group_texts GT_desc g = List.map fst (ga_servergroups g)"

fun group_cmp_holds :: "regex_subs \<Rightarrow> group_cmp \<Rightarrow> group_avail \<Rightarrow> bool" where
  "group_cmp_holds rx (Gcmp_re op t icase pattern) g = re_holds rx op icase pattern (group_texts t g)"

definition make_grouplist_pred :: "(bool \<Rightarrow> string \<Rightarrow> bool) \<Rightarrow> string list \<Rightarrow> bool \<Rightarrow> etree_error + group_cmp pred" where
  "make_grouplist_pred rxcomp e_parts casesensitive =
     make_pred (grouplist_comparison_maker rxcomp (\<not> casesensitive)) e_parts"

definition make_grouplist_pred_str :: "(bool \<Rightarrow> string \<Rightarrow> bool) \<Rightarrow> string \<Rightarrow> bool \<Rightarrow> etree_error + group_cmp pred" where
  "make_grouplist_pred_str rxcomp optarg casesensitive =
     (case parseargs [] optarg False of
        (e_parts, None) \<Rightarrow> make_grouplist_pred rxcomp e_parts casesensitive
      | (_, Some e) \<Rightarrow> Inl (Words_error e))"

section \<open>Postfix expressions\<close>

text \<open>The words of an expression in postfix order and its tree.\<close>

inductive postfix_of :: "'a comparison_maker \<Rightarrow> string list \<Rightarrow> 'a pred \<Rightarrow> bool" for maker where
  postfix_leaf: "\<not> is_connective x \<Longrightarrow> maker i x y = Inr (Some c) \<Longrightarrow> postfix_of maker [x, y, i] (Comparison c)"
| postfix_and: "postfix_of maker ws p \<Longrightarrow> postfix_of maker vs q \<Longrightarrow> w \<in> {''&&'', ''and''} \<Longrightarrow>
    postfix_of maker (ws @ vs @ [w]) (predAnd p q)"
| postfix_or: "postfix_of maker ws p \<Longrightarrow> postfix_of maker vs q \<Longrightarrow> w \<in> {''||'', ''or''} \<Longrightarrow>
    postfix_of maker (ws @ vs @ [w]) (predOr p q)"

text \<open>What the words read so far have become: the trees on the stack, the topmost last, and up to two words
  of a comparison.\<close>

definition etree_repr :: "'a comparison_maker \<Rightarrow> string list \<Rightarrow> 'a etree_state \<Rightarrow> bool" where
  "etree_repr maker ws st \<longleftrightarrow>
     (\<exists>wss rest. ws = concat wss @ rest \<and> list_all2 (postfix_of maker) wss (rev (es_stack st)) \<and>
        (case es_x st of
           None \<Rightarrow> es_y st = None \<and> rest = []
         | Some x \<Rightarrow> \<not> is_connective x \<and> rest = x # (case es_y st of None \<Rightarrow> [] | Some y \<Rightarrow> [y])))"

lemma etree_repr_step:
  assumes "etree_repr maker ws st" "etree_step maker st w = Inr st'"
  shows "etree_repr maker (ws @ [w]) st'"
proof -
  obtain wss rest where r: "ws = concat wss @ rest" "list_all2 (postfix_of maker) wss (rev (es_stack st))"
    "case es_x st of None \<Rightarrow> es_y st = None \<and> rest = []
     | Some x \<Rightarrow> \<not> is_connective x \<and> rest = x # (case es_y st of None \<Rightarrow> [] | Some y \<Rightarrow> [y])"
    using assms(1) by (auto simp: etree_repr_def)
  show ?thesis
  proof (cases "es_x st")
    case None
    note x = this
    show ?thesis
    proof (cases "is_connective w")
      case True
      then obtain py px tl where s: "es_stack st = py # px # tl"
        "st' = st\<lparr>es_stack := (if w = ''&&'' \<or> w = ''and'' then predAnd px py else predOr px py) # tl\<rparr>"
        using assms(2) x by (auto simp: etree_step_def split: list.splits)
      obtain wss' v u where w: "wss = wss' @ [u, v]" "list_all2 (postfix_of maker) wss' (rev tl)"
        "postfix_of maker u px" "postfix_of maker v py"
        using r(2) s(1) by (auto simp: list_all2_append2 list_all2_Cons2)
      have "postfix_of maker (u @ v @ [w]) (if w = ''&&'' \<or> w = ''and'' then predAnd px py else predOr px py)"
        using True w(3,4) by (auto simp: is_connective_def intro: postfix_and postfix_or)
      then have "list_all2 (postfix_of maker) (wss' @ [u @ v @ [w]]) (rev (es_stack st'))"
        using s(2) w(2) by (simp add: list_all2_appendI)
      moreover have "ws @ [w] = concat (wss' @ [u @ v @ [w]]) @ []" using r(1,3) x w(1) by simp
      ultimately show ?thesis using r(3) x s(2) unfolding etree_repr_def
        by (intro exI [of _ "wss' @ [u @ v @ [w]]"] exI [of _ "[]"]) simp
    next
      case False
      then have "st' = st\<lparr>es_x := Some w\<rparr>" using assms(2) x by (simp add: etree_step_def)
      then show ?thesis using r x False unfolding etree_repr_def
        by (intro exI [of _ wss] exI [of _ "[w]"]) simp
    qed
  next
    case (Some x)
    note x = this
    show ?thesis
    proof (cases "es_y st")
      case None
      then have "st' = st\<lparr>es_y := Some w\<rparr>" using assms(2) x by (simp add: etree_step_def)
      then show ?thesis using r x None unfolding etree_repr_def
        by (intro exI [of _ wss] exI [of _ "[x, w]"]) simp
    next
      case (Some y)
      then obtain c where c: "maker w x y = Inr (Some c)" "st' = \<lparr>es_x = None, es_y = None, es_stack = Comparison c # es_stack st\<rparr>"
        using assms(2) x by (auto simp: etree_step_def split: sum.splits option.splits)
      have "postfix_of maker [x, y, w] (Comparison c)" using r(3) x c(1) by (auto intro: postfix_leaf)
      then have "list_all2 (postfix_of maker) (wss @ [[x, y, w]]) (rev (es_stack st'))"
        using c(2) r(2) by (simp add: list_all2_appendI)
      moreover have "ws @ [w] = concat (wss @ [[x, y, w]]) @ []" using r(1,3) x Some by simp
      ultimately show ?thesis using c(2) unfolding etree_repr_def
        by (intro exI [of _ "wss @ [[x, y, w]]"] exI [of _ "[]"]) simp
    qed
  qed
qed

lemma etree_repr_loop:
  "etree_repr maker vs st \<Longrightarrow> etree_loop maker ws st = Inr st' \<Longrightarrow> etree_repr maker (vs @ ws) st'"
proof (induction ws arbitrary: vs st)
  case (Cons w ws)
  then obtain st1 where s: "etree_step maker st w = Inr st1" "etree_loop maker ws st1 = Inr st'"
    by (auto split: sum.splits)
  show ?case using Cons.IH [OF etree_repr_step [OF Cons.prems(1) s(1)] s(2)] by simp
qed simp

lemma postfix_loop:
  "postfix_of maker ws p \<Longrightarrow> es_x st = None \<Longrightarrow> es_y st = None \<Longrightarrow>
     etree_loop maker (ws @ rest) st = etree_loop maker rest (st\<lparr>es_stack := p # es_stack st\<rparr>)"
proof (induction arbitrary: st rest rule: postfix_of.induct)
  case (postfix_leaf x i y c)
  then show ?case by (cases st) (simp add: etree_step_def)
next
  case (postfix_and ws p vs q w)
  then show ?case by (auto simp: etree_step_def is_connective_def)
next
  case (postfix_or ws p vs q w)
  then show ?case by (auto simp: etree_step_def is_connective_def)
qed

text \<open>Property C21. An expression is made into a predicate exactly when its words are the postfix form of one:
  comparisons of three words, whatever their second and third word, and \<open>and\<close>s and \<open>or\<close>s in both
  spellings after their two operands, the first of them on the left. Any other list of words is an error.\<close>

theorem make_pred_postfix: "make_pred maker ws = Inr p \<longleftrightarrow> postfix_of maker ws p"
proof
  assume "make_pred maker ws = Inr p"
  then obtain st where s: "etree_loop maker ws etree_start = Inr st" "es_stack st = [p]" "es_x st = None"
    by (auto simp: make_pred_def split: sum.splits if_splits list.splits)
  have "etree_repr maker [] etree_start" by (simp add: etree_repr_def etree_start_def)
  then have "etree_repr maker ws st" using etree_repr_loop [OF _ s(1)] by fastforce
  then show "postfix_of maker ws p" using s(2,3) by (auto simp: etree_repr_def list_all2_Cons2)
next
  assume p: "postfix_of maker ws p"
  have "etree_loop maker ws etree_start = Inr (etree_start\<lparr>es_stack := [p]\<rparr>)"
    using postfix_loop [OF p, of etree_start "[]"] by (simp add: etree_start_def)
  then show "make_pred maker ws = Inr p" by (simp add: make_pred_def etree_start_def)
qed

end
