(* ===== verification/Status.thy ===== *)
theory Status
  imports Server
begin

text \<open>
  What went well and what went wrong (\<open>status.cc\<close>): a counter for every kind of success, warning and
  error, the bits of those that happened, the exit status and the summary that is printed at the end.
  The static counters are functions from the kind, of which each level has its own selection. The
  lemmas: a bit of the exit status is set exactly when something with that bit was reported.
\<close>

datatype status_type =
  ST_decode | ST_autopar | ST_path | ST_user | ST_retrieve | ST_group | ST_grouplist | ST_other | ST_fatal
| ST_total | ST_uu | ST_base64 | ST_xx | ST_binhex | ST_plaintext | ST_qp | ST_yenc | ST_dupe | ST_unknown
| ST_skipped | ST_undecoded | ST_unequal_line_count | ST_cache | ST_xover

record status =
  errorflags :: "32 word"
  warnflags :: "32 word"
  okflags :: "32 word"
  error_count :: "status_type \<Rightarrow> int"
  warn_count :: "status_type \<Rightarrow> int"
  ok_count :: "status_type \<Rightarrow> int"

definition status_new :: status where
  "status_new = \<lparr>errorflags = 0, warnflags = 0, okflags = 0, error_count = (\<lambda>_. 0), warn_count = (\<lambda>_. 0), ok_count = (\<lambda>_. 0)\<rparr>"

text \<open>The bits; a kind without one has no setter at that level.\<close>

definition error_bits :: "(status_type \<times> 32 word) list" where
  "error_bits = [(ST_decode, 1), (ST_autopar, 2), (ST_path, 4), (ST_user, 4), (ST_retrieve, 8), (ST_group, 16),
     (ST_grouplist, 32), (ST_other, 64), (ST_fatal, 128)]"

definition ok_bits :: "(status_type \<times> 32 word) list" where
  "ok_bits = [(ST_total, 1), (ST_uu, 2), (ST_base64, 4), (ST_xx, 8), (ST_binhex, 16), (ST_plaintext, 32), (ST_qp, 64),
     (ST_yenc, 128), (ST_dupe, 256), (ST_unknown, 512), (ST_group, 1024), (ST_skipped, 2048), (ST_grouplist, 4096),
     (ST_autopar, 8192)]"

definition warn_bits :: "(status_type \<times> 32 word) list" where
  "warn_bits = [(ST_retrieve, 1), (ST_undecoded, 2), (ST_unequal_line_count, 8), (ST_dupe, 256), (ST_group, 1024),
     (ST_cache, 2048), (ST_grouplist, 4096), (ST_xover, 8192), (ST_autopar, 16384)]"

definition status_bit :: "(status_type \<times> 32 word) list \<Rightarrow> status_type \<Rightarrow> 32 word" where
  "status_bit bits t = (case map_of bits t of Some b \<Rightarrow> b | None \<Rightarrow> 0)"

definition set_error_status :: "status_type \<Rightarrow> int \<Rightarrow> status \<Rightarrow> status" where
  "set_error_status t incr s =
     s\<lparr>error_count := (error_count s)(t := error_count s t + incr),
       errorflags := (if incr > 0 then or (errorflags s) (status_bit error_bits t) else errorflags s)\<rparr>"

definition set_warn_status :: "status_type \<Rightarrow> int \<Rightarrow> status \<Rightarrow> status" where
  "set_warn_status t incr s =
     s\<lparr>warn_count := (warn_count s)(t := warn_count s t + incr),
       warnflags := (if incr > 0 then or (warnflags s) (status_bit warn_bits t) else warnflags s)\<rparr>"

definition set_ok_status :: "status_type \<Rightarrow> int \<Rightarrow> status \<Rightarrow> status" where
  "set_ok_status t incr s =
     s\<lparr>ok_count := (ok_count s)(t := ok_count s t + incr),
       okflags := (if incr > 0 then or (okflags s) (status_bit ok_bits t) else okflags s)\<rparr>"

definition get_exit_status :: "status \<Rightarrow> 32 word" where
  "get_exit_status s = errorflags s"

definition get_user_error_status :: "status \<Rightarrow> int" where
  "get_user_error_status s = error_count s ST_user"

text \<open>The setters that end the program when user errors are fatal: whether the exception is thrown.\<close>

definition set_path_error_status_and_do_fatal_user_error :: "nget_config \<Rightarrow> int \<Rightarrow> status \<Rightarrow> bool \<times> status" where
  "set_path_error_status_and_do_fatal_user_error nconfig incr s =
     (fatal_user_errors nconfig, set_error_status ST_path incr s)"

definition set_user_error_status_and_do_fatal_user_error :: "nget_config \<Rightarrow> int \<Rightarrow> status \<Rightarrow> bool \<times> status" where
  "set_user_error_status_and_do_fatal_user_error nconfig incr s =
     (fatal_user_errors nconfig, set_error_status ST_user incr s)"

section \<open>The summary\<close>

fun status_name :: "status_type \<Rightarrow> string" where
  "status_name ST_decode = ''decode''"
| "status_name ST_autopar = ''autopar''"
| "status_name ST_path = ''path''"
| "status_name ST_user = ''user''"
| "status_name ST_retrieve = ''retrieve''"
| "status_name ST_group = ''group''"
| "status_name ST_grouplist = ''grouplist''"
| "status_name ST_other = ''other''"
| "status_name ST_fatal = ''fatal''"
| "status_name ST_total = ''total''"
| "status_name ST_uu = ''uu''"
| "status_name ST_base64 = ''base64''"
| "status_name ST_xx = ''xx''"
| "status_name ST_binhex = ''binhex''"
| "status_name ST_plaintext = ''plaintext''"
| "status_name ST_qp = ''qp''"
| "status_name ST_yenc = ''yenc''"
| "status_name ST_dupe = ''dupe''"
| "status_name ST_unknown = ''unknown''"
| "status_name ST_skipped = ''skipped''"
| "status_name ST_undecoded = ''undecoded''"
| "status_name ST_unequal_line_count = ''unequal_line_count''"
| "status_name ST_cache = ''cache''"
| "status_name ST_xover = ''xover''"

text \<open>The counters that are not zero, with a comma before all but the first.\<close>

fun print_counts :: "(status_type \<Rightarrow> int) \<Rightarrow> bool \<Rightarrow> status_type list \<Rightarrow> string" where
  "print_counts counts cf [] = []"
| "print_counts counts cf (t # ts) =
     (if counts t \<noteq> 0
      then (if cf then '','' else []) @ '' '' @ show_int (counts t) @ '' '' @ status_name t @ print_counts counts True ts
      else print_counts counts cf ts)"

definition print_error_status :: "status \<Rightarrow> string" where
  "print_error_status s =
     (let oks = (if okflags s \<noteq> 0 then ''OK:'' @ print_counts (ok_count s) False
            [ST_total, ST_yenc, ST_uu, ST_base64, ST_xx, ST_binhex, ST_plaintext, ST_qp, ST_unknown, ST_group,
             ST_grouplist, ST_dupe, ST_skipped, ST_autopar] else []);
          warns = (if warnflags s \<noteq> 0 then (if okflags s \<noteq> 0 then '' '' else []) @ ''WARNINGS:'' @
            print_counts (warn_count s) False
              [ST_group, ST_xover, ST_retrieve, ST_undecoded, ST_unequal_line_count, ST_dupe, ST_cache, ST_grouplist,
               ST_autopar] else []);
          errors = (if errorflags s \<noteq> 0 then (if okflags s \<noteq> 0 \<or> warnflags s \<noteq> 0 then '' '' else []) @ ''ERRORS:'' @
            print_counts (error_count s) False
              [ST_decode, ST_path, ST_user, ST_retrieve, ST_group, ST_grouplist, ST_autopar, ST_other, ST_fatal] else [])
      in if okflags s \<noteq> 0 \<or> warnflags s \<noteq> 0 \<or> errorflags s \<noteq> 0 then oks @ warns @ errors @ [CHR 0x0A] else [])"

section \<open>The exit status\<close>

lemma exit_status_fold:
  "get_exit_status (foldl (\<lambda>s (t, n). set_error_status t n s) s calls) =
     foldl or (get_exit_status s) (List.map (\<lambda>(t, n). if n > 0 then status_bit error_bits t else 0) calls)"
proof (induction calls arbitrary: s)
  case (Cons c calls)
  obtain t n where c: "c = (t, n)" by (cases c)
  have "get_exit_status (set_error_status t n s) = or (get_exit_status s) (if n > 0 then status_bit error_bits t else 0)"
    by (simp add: get_exit_status_def set_error_status_def)
  then show ?case using Cons.IH [of "set_error_status t n s"] c by simp
qed simp

lemma bit_foldl_or: "bit (foldl or (w :: 32 word) ws) k \<longleftrightarrow> bit w k \<or> (\<exists>v \<in> set ws. bit v k)"
  by (induction ws arbitrary: w) (auto simp: bit_or_iff)

end
