(* ===== verification/Conn.thy ===== *)
theory Conn
  imports Buffy Server Status "HOL-Library.Signed_Division"
begin

text \<open>
  A connection to a news server (\<open>class Connection\<close> of \<open>sockpool.h\<close>, \<open>sockpool.cc\<close>) and the commands and
  replies of the protocol (the first part of \<open>prot_nntp.cc\<close>). The socket is the bytes the server is still
  going to send, whether reading beyond them fails or finds the end, the number of writes until one
  fails, and the lines written so far; the server may send anything, so the bytes are any string. The
  buffered reads act on the byte sequence, as the theory of the buffer shows. Operations return the
  exception they throw and the changed connection. The texts of exceptions are left out. \<open>Crash\<close> is what
  the program does not survive: a null pointer that is read, an exception nothing catches.
\<close>

section \<open>Exceptions\<close>

datatype comm_ex = TransportExError | TransportExFatal | ProtocolExError | ProtocolExFatal | Crash

fun isfatal :: "comm_ex \<Rightarrow> bool" where
  "isfatal TransportExError = False"
| "isfatal TransportExFatal = True"
| "isfatal ProtocolExError = False"
| "isfatal ProtocolExFatal = True"
| "isfatal Crash = True"

type_synonym ('s, 'a) comm = "'s \<Rightarrow> (comm_ex + 'a) \<times> 's"

definition comm_return :: "'a \<Rightarrow> ('s, 'a) comm" where
  "comm_return x s = (Inr x, s)"

definition comm_throw :: "comm_ex \<Rightarrow> ('s, 'a) comm" where
  "comm_throw e s = (Inl e, s)"

definition comm_bind :: "('s, 'a) comm \<Rightarrow> ('a \<Rightarrow> ('s, 'b) comm) \<Rightarrow> ('s, 'b) comm" where
  "comm_bind m f s = (case m s of (Inl e, s') \<Rightarrow> (Inl e, s') | (Inr x, s') \<Rightarrow> f x s')"

definition comm_modify :: "('s \<Rightarrow> 's) \<Rightarrow> ('s, unit) comm" where
  "comm_modify f s = (Inr (), f s)"

definition comm_gets :: "('s \<Rightarrow> 'a) \<Rightarrow> ('s, 'a) comm" where
  "comm_gets f s = (Inr (f s), s)"

section \<open>Connections\<close>

record connection =
  cn_server :: server
  cn_bindaddr :: string
  cn_lastuse :: int
  cn_curgroup :: "group_ptr option"
  cn_fresh :: bool
  cn_server_ok :: bool
  cn_isopen :: bool
  cn_in :: string
  cn_broken :: bool
  cn_wleft :: "nat option"
  cn_out :: "string list"
  cn_cbuf :: string

definition cn_age :: "int \<Rightarrow> connection \<Rightarrow> int" where
  "cn_age now c = now - cn_lastuse c"

definition cn_touch :: "int \<Rightarrow> connection \<Rightarrow> connection" where
  "cn_touch now c = c\<lparr>cn_lastuse := now\<rparr>"

text \<open>\<open>sock.close()\<close> also empties the read buffer.\<close>

definition sock_close :: "connection \<Rightarrow> connection" where
  "sock_close c = c\<lparr>cn_isopen := False, cn_in := []\<rparr>"

text \<open>\<open>close(1)\<close>: without a word.\<close>

definition cn_close_fast :: "connection \<Rightarrow> connection" where
  "cn_close_fast c = (if cn_isopen c then sock_close c else c)"

definition doputline :: "string \<Rightarrow> (connection, unit) comm" where
  "doputline line c =
     (if \<not> cn_isopen c \<or> cn_wleft c = Some 0 then (Inl TransportExError, cn_close_fast c)
      else (Inr (), c\<lparr>cn_out := cn_out c @ [line], cn_wleft := map_option (\<lambda>n. n - 1) (cn_wleft c)\<rparr>))"

text \<open>The bytes of the line with its end; the line is kept in the buffer, which is read up to the first NUL.\<close>

definition getline :: "(connection, nat) comm" where
  "getline c =
     (case s_gets (cn_in c) of
        (n, line, rest) \<Rightarrow>
          if \<not> cn_isopen c \<or> n = 0 \<or> (cn_broken c \<and> CHR 0x0A \<notin> set (cn_in c))
          then (Inl TransportExError, cn_close_fast c)
          else (Inr n, c\<lparr>cn_in := rest, cn_cbuf := takeWhile (\<lambda>ch. ch \<noteq> CHR 0x00) line\<rparr>))"

definition cn_close :: "(connection, unit) comm" where
  "cn_close c =
     (if cn_isopen c
      then comm_bind (doputline ''QUIT'') (\<lambda>_. comm_modify sock_close) c
      else (Inr (), c))"

text \<open>Opening the socket is the argument: it fails, or it gives the bytes, the failure at their end and the
  failure of writing.\<close>

type_synonym sock_data = "string \<times> bool \<times> nat option"

definition connection_new :: "server \<Rightarrow> string \<Rightarrow> sock_data \<Rightarrow> connection" where
  "connection_new s force_bindaddr d =
     (case d of (bs, broken, wleft) \<Rightarrow>
        \<lparr>cn_server = s, cn_bindaddr = get_bindaddr s force_bindaddr, cn_lastuse = 0, cn_curgroup = None,
         cn_fresh = True, cn_server_ok = False, cn_isopen = True, cn_in = bs, cn_broken = broken, cn_wleft = wleft,
         cn_out = [], cn_cbuf = []\<rparr>)"

section \<open>Commands and replies\<close>

definition getreply :: "(connection, int) comm" where
  "getreply = comm_bind getline (\<lambda>_. comm_gets (\<lambda>c. atoi (cn_cbuf c)))"

definition reply_class :: "int \<Rightarrow> int" where
  "reply_class reply = reply sdiv 100"

definition chkreply :: "int \<Rightarrow> (connection, int) comm" where
  "chkreply reply =
     (if reply = 400 then comm_bind (comm_modify cn_close_fast) (\<lambda>_. comm_throw ProtocolExError)
      else if reply_class reply \<noteq> 2 then comm_throw ProtocolExFatal
      else comm_return reply)"

definition chkreply_setok :: "int \<Rightarrow> (connection, int) comm" where
  "chkreply_setok reply =
     comm_bind (comm_modify (\<lambda>c. if reply_class reply = 4 \<and> reply \<noteq> 400 then c\<lparr>cn_server_ok := True\<rparr> else c))
       (\<lambda>_. chkreply reply)"

definition nntp_doauth :: "string \<Rightarrow> string \<Rightarrow> (connection, unit) comm" where
  "nntp_doauth user pass =
     (if user = [] then comm_throw TransportExFatal
      else
        comm_bind (doputline (''AUTHINFO USER '' @ user)) (\<lambda>_.
        comm_bind getreply (\<lambda>i.
        comm_bind
          (if i = 350 \<or> i = 381 then
             (if pass = [] then comm_throw TransportExFatal
              else comm_bind (doputline (''AUTHINFO PASS '' @ pass)) (\<lambda>_. getreply))
           else comm_return i) (\<lambda>j.
        comm_bind (chkreply j) (\<lambda>_. comm_return ())))))"

definition nntp_auth :: "(connection, unit) comm" where
  "nntp_auth c = nntp_doauth (sv_user (cn_server c)) (sv_pass (cn_server c)) c"

definition stdputline :: "string \<Rightarrow> (connection, int) comm" where
  "stdputline line =
     comm_bind (doputline line) (\<lambda>_.
     comm_bind getreply (\<lambda>i.
     if i = 450 \<or> i = 480 then
       comm_bind nntp_auth (\<lambda>_.
       comm_bind (doputline line) (\<lambda>_. getreply))
     else comm_return i))"

definition nntp_doopen :: "(connection, unit) comm" where
  "nntp_doopen =
     comm_bind (comm_gets cn_fresh) (\<lambda>fresh.
     if fresh then
       comm_bind getreply (\<lambda>i.
       comm_bind (chkreply i) (\<lambda>_.
       comm_bind (doputline ''MODE READER'') (\<lambda>_.
       comm_bind getline (\<lambda>_.
       comm_modify (\<lambda>c. c\<lparr>cn_fresh := False\<rparr>)))))
     else comm_return ())"

section \<open>Lines up to a dot\<close>

text \<open>The loops that read a list of lines: \<open>stop\<close> recognises the last line, the body takes a line and its
  length and may abandon the loop.\<close>

datatype 'y loop_end = Ended | Abandoned 'y | Threw comm_ex

lemma s_gets_length: "length (snd (snd (s_gets s))) + fst (s_gets s) = length s"
proof (induction s)
  case (Cons c s)
  then show ?case by (cases "s_gets s") (auto split: prod.splits)
qed simp

lemma getline_consumes:
  "getline c = (Inr n, c') \<Longrightarrow> length (cn_in c') < length (cn_in c)"
  using s_gets_length [of "cn_in c"] by (auto simp: getline_def split: prod.splits if_splits)

function line_loop ::
  "(string \<Rightarrow> bool) \<Rightarrow> (nat \<Rightarrow> string \<Rightarrow> 'x \<Rightarrow> 'y + 'x) \<Rightarrow> 'x \<Rightarrow> connection \<Rightarrow> 'y loop_end \<times> 'x \<times> connection"
where
  "line_loop stop body x c =
     (case getline c of
        (Inl e, c') \<Rightarrow> (Threw e, x, c')
      | (Inr n, c') \<Rightarrow>
          if stop (cn_cbuf c') then (Ended, x, c')
          else (case body n (cn_cbuf c') x of
                  Inl y \<Rightarrow> (Abandoned y, x, c')
                | Inr x' \<Rightarrow> line_loop stop body x' c'))"
  by pat_completeness auto
termination
  by (relation "measure (\<lambda>(stop, body, x, c). length (cn_in c))") (auto dest: getline_consumes [OF sym])

declare line_loop.simps [simp del]

section \<open>Lines on the wire\<close>

definition crlf :: string where
  "crlf = [CHR 0x0D, CHR 0x0A]"

definition clean_line :: "string \<Rightarrow> bool" where
  "clean_line l \<longleftrightarrow> CHR 0x0D \<notin> set l \<and> CHR 0x0A \<notin> set l \<and> CHR 0x00 \<notin> set l"

definition wire :: "string list \<Rightarrow> string" where
  "wire ls = concat (List.map (\<lambda>l. l @ crlf) ls)"

lemma wire_simps [simp]: "wire [] = []" "wire (l # ls) = l @ crlf @ wire ls" "wire (ls @ ls') = wire ls @ wire ls'"
  by (simp_all add: wire_def)

lemma s_gets_crlf: "clean_line l \<Longrightarrow> s_gets (l @ crlf @ r) = (length l + 2, l, r)"
  by (induction l) (auto simp: clean_line_def crlf_def)

lemma getline_line:
  "cn_isopen c \<Longrightarrow> cn_in c = l @ crlf @ r \<Longrightarrow> clean_line l \<Longrightarrow>
     getline c = (Inr (length l + 2), c\<lparr>cn_in := r, cn_cbuf := l\<rparr>)"
proof -
  assume a: "cn_isopen c" "cn_in c = l @ crlf @ r" "clean_line l"
  have "takeWhile (\<lambda>ch. ch \<noteq> CHR 0x00) l = l" using a(3) unfolding clean_line_def takeWhile_eq_all_conv by blast
  then show ?thesis using a s_gets_crlf [of l r] by (simp add: getline_def) (simp add: crlf_def)
qed

lemma getreply_line:
  "cn_isopen c \<Longrightarrow> cn_in c = l @ crlf @ r \<Longrightarrow> clean_line l \<Longrightarrow>
     getreply c = (Inr (atoi l), c\<lparr>cn_in := r, cn_cbuf := l\<rparr>)"
  by (simp add: getreply_def comm_bind_def getline_line comm_gets_def)

lemma doputline_ok:
  "cn_isopen c \<Longrightarrow> cn_wleft c = None \<Longrightarrow> doputline l c = (Inr (), c\<lparr>cn_out := cn_out c @ [l]\<rparr>)"
  by (simp add: doputline_def)

text \<open>A list of lines that is ended by a line that stops the loop is read as a whole.\<close>

fun body_fold :: "(nat \<Rightarrow> string \<Rightarrow> 'x \<Rightarrow> 'y + 'x) \<Rightarrow> string list \<Rightarrow> 'x \<Rightarrow> 'x option" where
  "body_fold body [] x = Some x"
| "body_fold body (l # ls) x = (case body (length l + 2) l x of Inl _ \<Rightarrow> None | Inr x' \<Rightarrow> body_fold body ls x')"

lemma line_loop_lines:
  assumes "cn_isopen c" "cn_in c = wire ls @ endl @ crlf @ r" "\<forall>l \<in> set ls. clean_line l \<and> \<not> stop l"
    "clean_line endl" "stop endl" "body_fold body ls x = Some x'"
  shows "line_loop stop body x c = (Ended, x', c\<lparr>cn_in := r, cn_cbuf := endl\<rparr>)"
  using assms
proof (induction ls arbitrary: c x)
  case Nil
  then have "getline c = (Inr (length endl + 2), c\<lparr>cn_in := r, cn_cbuf := endl\<rparr>)" by (simp add: getline_line)
  then show ?case using Nil by (subst line_loop.simps) simp
next
  case (Cons l ls)
  let ?c = "c\<lparr>cn_in := wire ls @ endl @ crlf @ r, cn_cbuf := l\<rparr>"
  have g: "getline c = (Inr (length l + 2), ?c)" using Cons.prems by (simp add: getline_line)
  obtain x1 where x: "body (length l + 2) l x = Inr x1" "body_fold body ls x1 = Some x'"
    using Cons.prems(6) by (auto split: sum.splits)
  have "line_loop stop body x1 ?c = (Ended, x', ?c\<lparr>cn_in := r, cn_cbuf := endl\<rparr>)"
    by (rule Cons.IH) (use Cons.prems x in auto)
  then show ?case using g x Cons.prems(3) by (subst line_loop.simps) simp
qed

text \<open>A connection that is open stays open or an exception is thrown, and what was sent stays sent.\<close>

lemma comm_bind_Inr: "m s = (Inr x, s') \<Longrightarrow> comm_bind m f s = f x s'"
  by (simp add: comm_bind_def)

lemma comm_bind_Inl: "m s = (Inl e, s') \<Longrightarrow> comm_bind m f s = (Inl e, s')"
  by (simp add: comm_bind_def)

lemmas comm_defs = comm_return_def comm_throw_def comm_modify_def comm_gets_def

lemma line_loop_inv:
  assumes "P x" "\<And>n l x x'. P x \<Longrightarrow> body n l x = Inr x' \<Longrightarrow> P x'"
    and "line_loop stop body x c = (r, x', c')"
  shows "P x'"
  using assms
proof (induction stop body x c rule: line_loop.induct)
  case (1 stop body x c)
  show ?case
  proof (cases "getline c")
    case (Pair m c1)
    show ?thesis
    proof (cases m)
      case (Inl e)
      then show ?thesis using 1(2,4) Pair by (subst (asm) line_loop.simps) auto
    next
      case (Inr n)
      show ?thesis
      proof (cases "stop (cn_cbuf c1)")
        case True
        then show ?thesis using 1(2,4) Pair Inr by (subst (asm) line_loop.simps) auto
      next
        case False
        show ?thesis
        proof (cases "body n (cn_cbuf c1) x")
          case (Inl y)
          then show ?thesis using 1(2,4) Pair Inr False by (subst (asm) line_loop.simps) auto
        next
          case x1: (Inr x1)
          have "line_loop stop body x1 c1 = (r, x', c')"
            using 1(4) Pair Inr False x1 by (subst (asm) line_loop.simps) auto
          note l = this
          have p: "P x1" by (rule 1(3) [OF 1(2) x1])
          show ?thesis by (rule 1(1) [OF Pair [symmetric] Inr False x1 p 1(3) l])
        qed
      qed
    qed
  qed
qed

text \<open>What a loop does to the connection besides reading: nothing, unless the connection breaks.\<close>

definition reads_only :: "connection \<Rightarrow> connection \<Rightarrow> bool" where
  "reads_only c c' \<longleftrightarrow>
     cn_server c' = cn_server c \<and> cn_bindaddr c' = cn_bindaddr c \<and> cn_lastuse c' = cn_lastuse c \<and>
     cn_curgroup c' = cn_curgroup c \<and> cn_fresh c' = cn_fresh c \<and> cn_server_ok c' = cn_server_ok c \<and>
     cn_out c' = cn_out c \<and> (cn_isopen c' \<longrightarrow> cn_isopen c)"

lemma reads_only_refl [simp]: "reads_only c c"
  by (simp add: reads_only_def)

lemma reads_only_trans: "reads_only a b \<Longrightarrow> reads_only b c \<Longrightarrow> reads_only a c"
  by (auto simp: reads_only_def)

lemma getline_reads: "reads_only c (snd (getline c))"
  by (auto simp: getline_def reads_only_def cn_close_fast_def sock_close_def split: prod.splits)

lemma line_loop_reads: "line_loop stop body x c = (r, x', c') \<Longrightarrow> reads_only c c'"
proof (induction stop body x c rule: line_loop.induct)
  case (1 stop body x c)
  obtain m c1 where g: "getline c = (m, c1)" by (cases "getline c")
  have r: "reads_only c c1" using getline_reads [of c] g by simp
  show ?case
  proof (cases "\<exists>n x1. m = Inr n \<and> \<not> stop (cn_cbuf c1) \<and> body n (cn_cbuf c1) x = Inr x1")
    case True
    then obtain n x1 where n: "m = Inr n" "\<not> stop (cn_cbuf c1)" "body n (cn_cbuf c1) x = Inr x1" by blast
    have "line_loop stop body x1 c1 = (r, x', c')" using 1(2) g n by (subst (asm) line_loop.simps) auto
    then have "reads_only c1 c'" using 1(1) [OF g [symmetric] n] by blast
    then show ?thesis using r reads_only_trans by blast
  next
    case False
    then show ?thesis using 1(2) g r
      by (subst (asm) line_loop.simps) (auto split: sum.splits if_splits)
  qed
qed

end
