(* ===== verification/Nntp.thy ===== *)
theory Nntp
  imports Conn Cache Grouplist Dates
begin

text \<open>
  Fetching headers and lists of groups (\<open>prot_nntp.cc\<close>): selecting a group, the pipelined requests for
  overview lines, lists of article numbers, the update of a group's cache from one server, and the lists
  of groups and their descriptions. The session is the connection with what the commands work on. The
  clock does not move within one update; progress displays are left out. The lemmas: pipelining reads what
  one request after the other would read, and each range is asked for once and in order.
\<close>

section \<open>Sessions\<close>

record session =
  ns_conn :: connection
  ns_cache :: cache
  ns_midinfo :: meta_mid_info
  ns_status :: status

definition on_conn :: "(connection, 'a) comm \<Rightarrow> (session, 'a) comm" where
  "on_conn m s = (case m (ns_conn s) of (r, c) \<Rightarrow> (r, s\<lparr>ns_conn := c\<rparr>))"

section \<open>Selecting a group\<close>

text \<open>\<open>strchr(p, ' ') + 1\<close>; without a space the null pointer plus one is read next.\<close>

definition after_space :: "string \<Rightarrow> string option" where
  "after_space p = (case dropWhile (\<lambda>c. c \<noteq> CHR '' '') p of [] \<Rightarrow> None | _ # r \<Rightarrow> Some r)"

definition group_numbers :: "string \<Rightarrow> (ulong \<times> ulong \<times> ulong) option" where
  "group_numbers cbuf =
     Option.bind (after_space cbuf) (\<lambda>p1.
     Option.bind (after_space p1) (\<lambda>p2.
     Option.bind (after_space p2) (\<lambda>p3.
     Some (atoul p1, atoul p2, atoul p3))))"

text \<open>The number of articles, the lowest and the highest number.\<close>

definition select_group :: "nget_config \<Rightarrow> group_ptr \<Rightarrow> (connection, ulong \<times> ulong \<times> ulong) comm" where
  "select_group nconfig g =
     comm_bind (comm_modify (\<lambda>c. c\<lparr>cn_curgroup := None\<rparr>)) (\<lambda>_.
     comm_bind (stdputline (''GROUP '' @ gi_group (ginfos nconfig ! g))) (\<lambda>reply.
     comm_bind (if reply_class reply = 4 then chkreply_setok reply else chkreply reply) (\<lambda>_.
     comm_bind (comm_modify (\<lambda>c. c\<lparr>cn_curgroup := Some g\<rparr>)) (\<lambda>_.
     comm_bind (comm_gets cn_cbuf) (\<lambda>cbuf.
     case group_numbers cbuf of Some n \<Rightarrow> comm_return n | None \<Rightarrow> comm_throw Crash)))))"

section \<open>Overview lines\<close>

definition TAB :: char where
  "TAB = CHR 0x09"

text \<open>The test of a numeric field: it stops at a character that is no digit and no space, which counts only
  when it is not the first one.\<close>

definition not_numeric :: "string \<Rightarrow> bool" where
  "not_numeric x \<longleftrightarrow> (let tp = dropWhile (\<lambda>c. is_digit c \<or> is_space c) x in tp \<noteq> [] \<and> tp \<noteq> x)"

text \<open>The fields of a line, at most ten: the counter of the loop when it ends, and the fields read.\<close>

fun xover_scan :: "nat \<Rightarrow> nat \<Rightarrow> string option \<Rightarrow> string list \<Rightarrow> nat \<times> string list" where
  "xover_scan 0 i p t = (i, t)"
| "xover_scan (Suc k) i p t =
     (case goodstrtok p TAB of
        (None, _) \<Rightarrow> (i, t)
      | (Some x, p') \<Rightarrow>
          if (i = 0 \<or> i = 6 \<or> i = 7) \<and> not_numeric x then (i, t @ [x])
          else xover_scan k (Suc i) p' (t @ [x]))"

definition xover_fields :: "string \<Rightarrow> nat \<times> string list" where
  "xover_fields line = xover_scan 10 0 (Some line) []"

definition header_new :: "group_ptr \<Rightarrow> header" where
  "header_new g =
     \<lparr>h_base = File_base 0 0 [] [] [], h_serverid = 0, h_group = g, h_partnum = 0, h_tailoff = 0, h_articlenum = 0,
      h_date = 0, h_bytes = 0, h_lines = 0, h_messageid = []\<rparr>"

definition xover_header :: "regex_subs \<Rightarrow> clock \<Rightarrow> ulong \<Rightarrow> group_ptr \<Rightarrow> string list \<Rightarrow> header" where
  "xover_header rx ck sid g t =
     (header_set (header_new g) (t ! 1) (t ! 2) (atoul (t ! 0)) (decode_textdate rx ck (t ! 3) True)
        (atoul (t ! 6)) (atoul (t ! 7)) (t ! 4) (Some (t ! 5)))\<lparr>h_serverid := sid\<rparr>"

text \<open>What the lines of one range change: the cache, the warnings, the next article number expected.\<close>

record xover_state =
  xs_cache :: cache
  xs_status :: status
  xs_next :: ulong

text \<open>A line is abandoned when it is the reply to the next request, which only one without an end of its own
  can be: \<open>streamed\<close> tells that there is such a request.\<close>

definition xover_line ::
  "regex_subs \<Rightarrow> clock \<Rightarrow> ulong \<Rightarrow> group_ptr \<Rightarrow> bool \<Rightarrow> ulong \<Rightarrow> ulong \<Rightarrow> nat \<Rightarrow> string \<Rightarrow> xover_state \<Rightarrow> unit + xover_state"
where
  "xover_line rx ck sid g streamed low high n line x =
     (case xover_fields line of
        (i, t) \<Rightarrow>
          if i \<le> 1 \<and> streamed \<and> atoul (takeWhile (\<lambda>c. c \<noteq> TAB) line) = 224 then Inl ()
          else if i > 7 then
            (let an = atoul (t ! 0);
                 x1 = x\<lparr>xs_cache := snd (additem (ck_now ck) (xover_header rx ck sid g t) (xs_cache x))\<rparr>
             in Inr (if an < low \<or> an > high \<or> an < xs_next x
                     then x1\<lparr>xs_status := set_warn_status ST_xover 1 (xs_status x1)\<rparr>
                     else x1\<lparr>xs_next := an + 1\<rparr>))
          else Inr (x\<lparr>xs_status := set_warn_status ST_xover 1 (xs_status x)\<rparr>))"

definition dot_first :: "string \<Rightarrow> bool" where
  "dot_first l \<longleftrightarrow> take 1 l = ''.''"

text \<open>The lines of the range from \<open>low\<close> to \<open>high\<close>.\<close>

definition xover_read :: "regex_subs \<Rightarrow> clock \<Rightarrow> group_ptr \<Rightarrow> bool \<Rightarrow> ulong \<Rightarrow> ulong \<Rightarrow> (session, unit) comm" where
  "xover_read rx ck g streamed low high s =
     (case line_loop dot_first (xover_line rx ck (sv_serverid (cn_server (ns_conn s))) g streamed low high)
            \<lparr>xs_cache = ns_cache s, xs_status = ns_status s, xs_next = low\<rparr> (ns_conn s) of
        (r, x, c) \<Rightarrow>
          (let s' = s\<lparr>ns_conn := c, ns_cache := xs_cache x, ns_status := xs_status x\<rparr>
           in case r of
                Ended \<Rightarrow> (Inr (), s')
              | Threw e \<Rightarrow> (Inl e, s')
              | Abandoned _ \<Rightarrow>
                  (Inl ProtocolExError,
                   s'\<lparr>ns_conn := cn_close_fast (c\<lparr>cn_server := (cn_server c)\<lparr>sv_maxstreaming := 0\<rparr>\<rparr>),
                      ns_status := set_warn_status ST_xover 1 (xs_status x)\<rparr>)))"

definition xover_request :: "ulong \<Rightarrow> ulong \<Rightarrow> string" where
  "xover_request low high =
     (if low = high then ''XOVER '' @ show_ulong low
      else ''XOVER '' @ show_ulong low @ ''-'' @ show_ulong high)"

text \<open>Requests are sent as long as no more than \<open>maxstreaming\<close> are under way: those left and the number.\<close>

fun xover_send :: "rlist \<Rightarrow> int \<Rightarrow> (connection, rlist \<times> int) comm" where
  "xover_send [] streamed c = (Inr ([], streamed), c)"
| "xover_send ((high, low) # w) streamed c =
     (if streamed \<le> sv_maxstreaming (cn_server c) then
        comm_bind (doputline (xover_request low high)) (\<lambda>_. xover_send w (streamed + 1)) c
      else (Inr ((high, low) # w, streamed), c))"

fun xover_ranges :: "regex_subs \<Rightarrow> clock \<Rightarrow> group_ptr \<Rightarrow> rlist \<Rightarrow> rlist \<Rightarrow> int \<Rightarrow> (session, unit) comm" where
  "xover_ranges rx ck g [] w streamed = comm_return ()"
| "xover_ranges rx ck g ((high, low) # r) w streamed =
     comm_bind (on_conn (xover_send w streamed)) (\<lambda>(w', streamed').
     comm_bind (on_conn (comm_bind getreply chkreply_setok)) (\<lambda>_.
     comm_bind (xover_read rx ck g (streamed' - 1 \<noteq> 0) low high) (\<lambda>_.
     xover_ranges rx ck g r w' (streamed' - 1))))"

definition doxover :: "regex_subs \<Rightarrow> clock \<Rightarrow> group_ptr \<Rightarrow> rlist \<Rightarrow> (session, unit) comm" where
  "doxover rx ck g r = (if nr_empty r then comm_return () else xover_ranges rx ck g r r 0)"

section \<open>Lists of article numbers\<close>

definition listgroup_line :: "nat \<Rightarrow> string \<Rightarrow> rlist \<Rightarrow> unit + rlist" where
  "listgroup_line n line existing =
     (case strtoul10 line of
        (an, eptr) \<Rightarrow> Inr (if line = [] \<or> eptr \<noteq> [] then existing else nr_insert1 existing an))"

text \<open>The loop's result for the callers that have no body to abandon it.\<close>

definition loop_result :: "'y loop_end \<times> 'x \<times> connection \<Rightarrow> (comm_ex + 'x) \<times> connection" where
  "loop_result r = (case r of (Threw e, x, c) \<Rightarrow> (Inl e, c) | (_, x, c) \<Rightarrow> (Inr x, c))"

definition dolistgroup :: "rlist \<Rightarrow> (connection, rlist) comm" where
  "dolistgroup existing =
     comm_bind (comm_bind (stdputline ''LISTGROUP'') chkreply) (\<lambda>_ c.
     loop_result (line_loop dot_first listgroup_line existing c))"

definition xpat_line :: "nat \<Rightarrow> string \<Rightarrow> rlist \<Rightarrow> unit + rlist" where
  "xpat_line n line r =
     (case strtoul10 line of
        (an, eptr) \<Rightarrow> Inr (if line = [] \<or> \<not> (take 1 eptr = '' '' \<or> take 1 eptr = [TAB]) then r else nr_insert1 r an))"

text \<open>Numbers read before an exception are lost with the set they were put in.\<close>

definition doxpat :: "rlist \<Rightarrow> string \<Rightarrow> string \<Rightarrow> ulong \<Rightarrow> ulong \<Rightarrow> (connection, rlist) comm" where
  "doxpat r field wildmat lowest highest =
     comm_bind (comm_bind (stdputline (''XPAT '' @ field @ '' '' @ show_ulong lowest @ ''-'' @ show_ulong highest @ '' '' @ wildmat))
       chkreply_setok) (\<lambda>_ c.
     loop_result (line_loop dot_first xpat_line r c))"

section \<open>Updating a group from a server\<close>

definition session_info :: "session \<Rightarrow> server_info \<times> session" where
  "session_info s =
     (case getserverinfo (sv_serverid (cn_server (ns_conn s))) (ns_cache s) of
        (si, c) \<Rightarrow> (si, s\<lparr>ns_cache := c\<rparr>))"

text \<open>What \<open>LISTGROUP\<close> found, the newest \<open>maxheaders\<close> of it: the rest is flushed, what is missing fetched.\<close>

definition update_listed :: "regex_subs \<Rightarrow> clock \<Rightarrow> nget_config \<Rightarrow> group_ptr \<Rightarrow> server_info \<Rightarrow> ulong \<Rightarrow> (session, unit) comm" where
  "update_listed rx ck nconfig g servinfo low =
     comm_bind (on_conn (dolistgroup [])) (\<lambda>listed s.
       let existing = (if maxheaders nconfig \<noteq> - 1 then nr_clip_to_max_total listed (of_int (maxheaders nconfig)) else listed);
           nonexistant = nr_invert [] existing
       in case flush (ck_now ck) servinfo nonexistant (ns_midinfo s) (ns_cache s) of
            (_, midinfo', cache') \<Rightarrow>
              (let si = fst (getserverinfo (si_serverid servinfo) cache');
                   si' = si\<lparr>si_low := (case nr_low existing of None \<Rightarrow> low | Some l \<Rightarrow> l)\<rparr>;
                   cache'' = put_server_info si' cache'
               in doxover rx ck g (getxrange_have si' cache'' existing)
                    (s\<lparr>ns_midinfo := midinfo', ns_cache := cache''\<rparr>)))"

text \<open>The numbers above and below the ones seen before.\<close>

definition unseen_range :: "server_info \<Rightarrow> ulong \<Rightarrow> ulong \<Rightarrow> rlist" where
  "unseen_range si low high =
     (if si_high si = 0 then nr_insert2 [] low high
      else
        (let r = (if si_high si < high then nr_insert2 [] (si_high si + 1) high else [])
         in if si_low si > low then nr_insert2 r low (si_low si - 1) else r))"

definition clip_low :: "nget_config \<Rightarrow> ulong \<Rightarrow> ulong \<Rightarrow> ulong" where
  "clip_low nconfig low high =
     (if maxheaders nconfig \<noteq> - 1 \<and> high \<ge> of_int (maxheaders nconfig) \<and> low < high - of_int (maxheaders nconfig) + 1
      then high - of_int (maxheaders nconfig) + 1 else low)"

definition update_range :: "regex_subs \<Rightarrow> clock \<Rightarrow> nget_config \<Rightarrow> group_ptr \<Rightarrow> bool \<Rightarrow> ulong \<Rightarrow> ulong \<Rightarrow> (session, unit) comm" where
  "update_range rx ck nconfig g fullxover low0 high s =
     (let low = clip_low nconfig low0 high;
          (si, s1) = session_info s;
          s2 = (if low > si_low si then
                  (case flushlow (ck_now ck) si low (ns_midinfo s1) (ns_cache s1) of
                     (_, midinfo', cache') \<Rightarrow> s1\<lparr>ns_midinfo := midinfo', ns_cache := cache'\<rparr>)
                else s1);
          si2 = fst (session_info s2)
      in if fullxover then doxover rx ck g (getxrange si2 low high (ns_cache s2)) s2
         else doxover rx ck g (unseen_range si2 low high) s2)"

definition nntp_dogroup ::
  "regex_subs \<Rightarrow> clock \<Rightarrow> nget_config \<Rightarrow> group_ptr \<Rightarrow> bool \<Rightarrow> int \<Rightarrow> (session, unit) comm" where
  "nntp_dogroup rx ck nconfig g getheaders forcefullxover =
     comm_bind (\<lambda>s. if cn_curgroup (ns_conn s) \<noteq> Some g \<or> getheaders then on_conn (select_group nconfig g) s
                    else (Inr (0, 0, 0), s)) (\<lambda>(num, low, high) s.
     if \<not> getheaders then (Inr (), s)
     else
       (let fullxover = (if forcefullxover = - 1 then sv_fullxover (cn_server (ns_conn s)) else forcefullxover);
            (si, s1) = session_info s
        in if si_high si \<noteq> 0 \<and> si_high si \<ge> low \<and> fullxover = 2
           then update_listed rx ck nconfig g si low s1
           else update_range rx ck nconfig g (fullxover \<noteq> 0) low high s1))"

section \<open>Whatever the server sends\<close>

text \<open>How a cache may grow while a server is read: the invariant holds, what was there is still there, and
  what has come is the server's, in the group.\<close>

definition cache_grows :: "bool \<Rightarrow> ulong \<Rightarrow> group_ptr \<Rightarrow> cache \<Rightarrow> cache \<Rightarrow> bool" where
  "cache_grows bd sid g c c' \<longleftrightarrow>
     cache_inv bd c' \<and>
     (\<exists>new. mset (cache_articles c') = mset (cache_articles c) + mset new \<and>
        (\<forall>sa \<in> set new. sa_serverid sa = sid \<and> sa_group sa = g))"

lemma cache_grows_refl: "cache_inv bd c \<Longrightarrow> cache_grows bd sid g c c"
  unfolding cache_grows_def by (intro conjI exI [of _ "[]"]) auto

lemma cache_grows_trans: "cache_grows bd sid g a b \<Longrightarrow> cache_grows bd sid g b c \<Longrightarrow> cache_grows bd sid g a c"
proof -
  assume a: "cache_grows bd sid g a b" "cache_grows bd sid g b c"
  then obtain m n where "mset (cache_articles b) = mset (cache_articles a) + mset m"
    "mset (cache_articles c) = mset (cache_articles b) + mset n"
    "\<forall>sa \<in> set m \<union> set n. sa_serverid sa = sid \<and> sa_group sa = g"
    unfolding cache_grows_def by blast
  then show ?thesis using a(2) unfolding cache_grows_def by (intro conjI exI [of _ "m @ n"]) auto
qed

lemma header_set_group: "h_group (header_set h str a an d b l mid refstr) = h_group h"
  by (auto simp: header_set_def Let_def split: option.splits prod.splits)

lemma xover_header_article:
  "sa_serverid (article_of (xover_header rx ck sid g t)) = sid \<and> sa_group (article_of (xover_header rx ck sid g t)) = g"
  by (simp add: article_of_def xover_header_def header_set_group header_new_def)

lemma additem_grows:
  assumes "cache_inv bd c" "sa_serverid (article_of h) = sid" "sa_group (article_of h) = g"
  shows "cache_grows bd sid g c (snd (additem now h c))"
  using additem_ok [OF assms(1), of now h] assms(2,3) unfolding cache_grows_def
  by (intro conjI exI [of _ "[article_of h]"]) auto

lemma xover_line_grows:
  assumes "cache_grows bd sid g c (xs_cache x)" "xover_line rx ck sid g streamed low high n line x = Inr x'"
  shows "cache_grows bd sid g c (xs_cache x')"
proof -
  obtain i t where f: "xover_fields line = (i, t)" by (cases "xover_fields line")
  have "cache_grows bd sid g (xs_cache x) (snd (additem (ck_now ck) (xover_header rx ck sid g t) (xs_cache x)))"
    using assms(1) by (intro additem_grows) (simp_all add: cache_grows_def xover_header_article)
  then have "cache_grows bd sid g c (snd (additem (ck_now ck) (xover_header rx ck sid g t) (xs_cache x)))"
    using assms(1) cache_grows_trans by blast
  then show ?thesis using assms f
    by (auto simp: xover_line_def Let_def split: if_splits)
qed

lemma xover_read_grows:
  assumes "cache_inv bd (ns_cache s)" "xover_read rx ck g streamed low high s = (r, s')"
  shows "cache_grows bd (sv_serverid (cn_server (ns_conn s))) g (ns_cache s) (ns_cache s') \<and>
    sv_serverid (cn_server (ns_conn s')) = sv_serverid (cn_server (ns_conn s)) \<and> ns_midinfo s' = ns_midinfo s"
proof -
  let ?sid = "sv_serverid (cn_server (ns_conn s))"
  obtain e x c where l: "line_loop dot_first (xover_line rx ck ?sid g streamed low high)
      \<lparr>xs_cache = ns_cache s, xs_status = ns_status s, xs_next = low\<rparr> (ns_conn s) = (e, x, c)"
    by (metis prod_cases3)
  have g: "cache_grows bd ?sid g (ns_cache s) (xs_cache x)"
    by (rule line_loop_inv [OF _ _ l]) (auto intro: xover_line_grows cache_grows_refl assms(1))
  have c: "cn_server c = cn_server (ns_conn s)" using line_loop_reads [OF l] by (simp add: reads_only_def)
  show ?thesis
    using assms(2) g c l
    by (auto simp: xover_read_def Let_def cn_close_fast_def sock_close_def split: loop_end.splits)
qed

text \<open>Commands leave the server and the group's files alone.\<close>

lemma doputline_server: "cn_server (snd (doputline l c)) = cn_server c"
  by (simp add: doputline_def cn_close_fast_def sock_close_def)

lemma xover_send_server: "cn_server (snd (xover_send w st c)) = cn_server c"
proof (induction w st c rule: xover_send.induct)
  case (2 high low w st c)
  show ?case
  proof (cases "doputline (xover_request low high) c")
    case (Pair m c1)
    then have "cn_server c1 = cn_server c" using doputline_server [of "xover_request low high" c] by simp
    then show ?thesis using 2 Pair by (cases m) (auto simp: comm_bind_def)
  qed
qed simp

lemma reply_server: "cn_server (snd (comm_bind getreply chkreply_setok c)) = cn_server c"
proof -
  have "cn_server (snd (chkreply_setok i c1)) = cn_server c1" for i c1
    by (auto simp: chkreply_setok_def chkreply_def comm_bind_def comm_defs cn_close_fast_def sock_close_def)
  moreover have "cn_server (snd (getline c)) = cn_server c" using getline_reads [of c] by (simp add: reads_only_def)
  ultimately show ?thesis
    by (auto simp: comm_bind_def getreply_def comm_gets_def split: prod.splits sum.splits)
qed

lemma on_conn_fields: "on_conn m s = (r, s') \<Longrightarrow>
    ns_cache s' = ns_cache s \<and> ns_midinfo s' = ns_midinfo s \<and> ns_status s' = ns_status s \<and> (r, ns_conn s') = m (ns_conn s)"
  by (auto simp: on_conn_def split: prod.splits)

lemma xover_ranges_grows:
  "cache_inv bd (ns_cache s) \<Longrightarrow> xover_ranges rx ck g r w st s = (res, s') \<Longrightarrow>
     cache_grows bd (sv_serverid (cn_server (ns_conn s))) g (ns_cache s) (ns_cache s') \<and> ns_midinfo s' = ns_midinfo s"
proof (induction rx ck g r w st arbitrary: s rule: xover_ranges.induct)
  case (1 rx ck g w st)
  then show ?case by (auto simp: comm_return_def cache_grows_refl)
next
  case (2 rx ck g high low r w st)
  let ?sid = "sv_serverid (cn_server (ns_conn s))"
  obtain m1 s1 where 1: "on_conn (xover_send w st) s = (m1, s1)" by (cases "on_conn (xover_send w st) s")
  have k1: "ns_cache s1 = ns_cache s" "ns_midinfo s1 = ns_midinfo s" "sv_serverid (cn_server (ns_conn s1)) = ?sid"
    using on_conn_fields [OF 1] xover_send_server [of w st "ns_conn s"] by (auto simp: prod_eq_iff)
  show ?case
  proof (cases m1)
    case (Inl e)
    then show ?thesis using 2 1 k1 by (auto simp: comm_bind_def cache_grows_refl)
  next
    case (Inr ws)
    obtain m2 s2 where s2: "on_conn (comm_bind getreply chkreply_setok) s1 = (m2, s2)"
      by (cases "on_conn (comm_bind getreply chkreply_setok) s1")
    have k2: "ns_cache s2 = ns_cache s" "ns_midinfo s2 = ns_midinfo s" "sv_serverid (cn_server (ns_conn s2)) = ?sid"
      using on_conn_fields [OF s2] reply_server [of "ns_conn s1"] k1 by (auto simp: prod_eq_iff)
    show ?thesis
    proof (cases m2)
      case (Inl e)
      then show ?thesis using 2 1 s2 k2 Inr by (auto simp: comm_bind_def cache_grows_refl split: prod.splits)
    next
      case n2: (Inr n)
      obtain m3 s3 where s3: "xover_read rx ck g (snd ws - 1 \<noteq> 0) low high s2 = (m3, s3)"
        by (cases "xover_read rx ck g (snd ws - 1 \<noteq> 0) low high s2")
      have k3: "cache_grows bd ?sid g (ns_cache s) (ns_cache s3)" "ns_midinfo s3 = ns_midinfo s"
        "sv_serverid (cn_server (ns_conn s3)) = ?sid"
        using xover_read_grows [OF _ s3] k2 2(2) by auto
      show ?thesis
      proof (cases m3)
        case (Inl e)
        then show ?thesis using 2 1 s2 s3 k3 Inr n2 by (auto simp: comm_bind_def split: prod.splits)
      next
        case n3: (Inr u)
        then have l: "xover_ranges rx ck g r (fst ws) (snd ws - 1) s3 = (res, s')"
          using 2(3) 1 s2 s3 Inr n2 by (auto simp: comm_bind_def split: prod.splits)
        have "cache_inv bd (ns_cache s3)" using k3(1) by (simp add: cache_grows_def)
        then have "cache_grows bd ?sid g (ns_cache s3) (ns_cache s')" "ns_midinfo s' = ns_midinfo s"
          using 2(1) [OF _ l] k3 by auto
        then show ?thesis using cache_grows_trans [OF k3(1)] by blast
      qed
    qed
  qed
qed

lemma doxover_grows:
  assumes "cache_inv bd (ns_cache s)" "doxover rx ck g r s = (res, s')"
  shows "cache_grows bd (sv_serverid (cn_server (ns_conn s))) g (ns_cache s) (ns_cache s')"
  using assms xover_ranges_grows by (auto simp: doxover_def comm_return_def cache_grows_refl split: if_splits)

section \<open>Pipelining\<close>

text \<open>What the lines of one range do when they end as they should, as one request after the other would read
  them: no line is taken for the reply to a later request.\<close>

definition xover_plain :: "string \<Rightarrow> bool" where
  "xover_plain line \<longleftrightarrow> clean_line line \<and> \<not> dot_first line \<and>
     \<not> (fst (xover_fields line) \<le> 1 \<and> atoul (takeWhile (\<lambda>c. c \<noteq> TAB) line) = 224)"

definition xover_lines ::
  "regex_subs \<Rightarrow> clock \<Rightarrow> ulong \<Rightarrow> group_ptr \<Rightarrow> ulong \<Rightarrow> ulong \<Rightarrow> string list \<Rightarrow> cache \<times> status \<Rightarrow> cache \<times> status" where
  "xover_lines rx ck sid g low high ls cs =
     (let x = foldl (\<lambda>x l. projr (xover_line rx ck sid g False low high (length l + 2) l x))
        \<lparr>xs_cache = fst cs, xs_status = snd cs, xs_next = low\<rparr> ls
      in (xs_cache x, xs_status x))"

fun xover_sequential ::
  "regex_subs \<Rightarrow> clock \<Rightarrow> ulong \<Rightarrow> group_ptr \<Rightarrow> rlist \<Rightarrow> string list list \<Rightarrow> cache \<times> status \<Rightarrow> cache \<times> status" where
  "xover_sequential rx ck sid g ((high, low) # r) (ls # lss) cs =
     xover_sequential rx ck sid g r lss (xover_lines rx ck sid g low high ls cs)"
| "xover_sequential rx ck sid g _ _ cs = cs"

lemma xover_line_plain:
  "xover_plain l \<Longrightarrow> xover_line rx ck sid g streamed low high n l x =
     Inr (projr (xover_line rx ck sid g False low high n l x))"
  by (cases "xover_fields l") (auto simp: xover_plain_def xover_line_def Let_def)

lemma xover_body_fold:
  "\<forall>l \<in> set ls. xover_plain l \<Longrightarrow>
     body_fold (xover_line rx ck sid g streamed low high) ls x =
     Some (foldl (\<lambda>x l. projr (xover_line rx ck sid g False low high (length l + 2) l x)) x ls)"
proof (induction ls arbitrary: x)
  case (Cons l ls)
  then show ?case using xover_line_plain [of l rx ck sid g streamed low high "length l + 2" x] by simp
qed simp

text \<open>One range's answer: the reply and the lines.\<close>

definition answer_ok :: "string \<times> string list \<Rightarrow> bool" where
  "answer_ok a \<longleftrightarrow> clean_line (fst a) \<and> reply_class (atoi (fst a)) = 2 \<and> (\<forall>l \<in> set (snd a). xover_plain l)"

definition answer_lines :: "string \<times> string list \<Rightarrow> string list" where
  "answer_lines a = fst a # snd a @ [''.'']"

lemma xover_read_answer:
  assumes "cn_isopen (ns_conn s)" "cn_in (ns_conn s) = wire (ls @ [''.'']) @ rest" "\<forall>l \<in> set ls. xover_plain l"
  shows "xover_read rx ck g streamed low high s =
    (Inr (), s\<lparr>ns_conn := (ns_conn s)\<lparr>cn_in := rest, cn_cbuf := ''.''\<rparr>,
       ns_cache := fst (xover_lines rx ck (sv_serverid (cn_server (ns_conn s))) g low high ls (ns_cache s, ns_status s)),
       ns_status := snd (xover_lines rx ck (sv_serverid (cn_server (ns_conn s))) g low high ls (ns_cache s, ns_status s))\<rparr>)"
proof -
  have "line_loop dot_first (xover_line rx ck (sv_serverid (cn_server (ns_conn s))) g streamed low high)
      \<lparr>xs_cache = ns_cache s, xs_status = ns_status s, xs_next = low\<rparr> (ns_conn s) =
    (Ended, foldl (\<lambda>x l. projr (xover_line rx ck (sv_serverid (cn_server (ns_conn s))) g False low high (length l + 2) l x))
       \<lparr>xs_cache = ns_cache s, xs_status = ns_status s, xs_next = low\<rparr> ls,
     (ns_conn s)\<lparr>cn_in := rest, cn_cbuf := ''.''\<rparr>)"
    by (rule line_loop_lines)
      (use assms xover_body_fold in \<open>auto simp: xover_plain_def dot_first_def clean_line_def\<close>)
  then show ?thesis by (simp add: xover_read_def xover_lines_def Let_def)
qed

lemma xover_send_ok:
  "cn_isopen c \<Longrightarrow> cn_wleft c = None \<Longrightarrow> n = min (length w) (nat (sv_maxstreaming (cn_server c) + 1 - st)) \<Longrightarrow>
     xover_send w st c = (Inr (drop n w, st + int n),
       c\<lparr>cn_out := cn_out c @ List.map (\<lambda>(high, low). xover_request low high) (take n w)\<rparr>)"
proof (induction w st c arbitrary: n rule: xover_send.induct)
  case (2 high low w st c)
  show ?case
  proof (cases "st \<le> sv_maxstreaming (cn_server c)")
    case True
    define m where "m = min (length w) (nat (sv_maxstreaming (cn_server c) + 1 - (st + 1)))"
    have n: "n = Suc m" using 2(4) True by (simp add: m_def min_def) linarith
    let ?c = "c\<lparr>cn_out := cn_out c @ [xover_request low high]\<rparr>"
    have d: "doputline (xover_request low high) c = (Inr (), ?c)" using 2(2,3) by (simp add: doputline_ok)
    have "xover_send w (st + 1) ?c = (Inr (drop m w, st + 1 + int m),
       ?c\<lparr>cn_out := cn_out ?c @ List.map (\<lambda>(high, low). xover_request low high) (take m w)\<rparr>)"
      by (rule 2(1)) (use True 2(2,3) m_def in auto)
    then show ?thesis using True d n by (simp add: comm_bind_def)
  next
    case False
    then show ?thesis using 2(4) by simp
  qed
qed simp

lemma reply_ok:
  "cn_isopen c \<Longrightarrow> cn_in c = a @ crlf @ rest \<Longrightarrow> clean_line a \<Longrightarrow> reply_class (atoi a) = 2 \<Longrightarrow>
     comm_bind getreply chkreply_setok c = (Inr (atoi a), c\<lparr>cn_in := rest, cn_cbuf := a\<rparr>)"
  by (auto simp: comm_bind_def getreply_line chkreply_setok_def chkreply_def comm_defs reply_class_def
      signed_divide_int_def)

lemma xover_ranges_ok:
  assumes "cn_isopen (ns_conn s)" "cn_wleft (ns_conn s) = None" "0 \<le> sv_maxstreaming (cn_server (ns_conn s))"
    and "length as = length r" "\<forall>a \<in> set as. answer_ok a"
    and "cn_in (ns_conn s) = wire (concat (List.map answer_lines as)) @ rest"
    and "k \<le> length r" "sid = sv_serverid (cn_server (ns_conn s))"
  shows "xover_ranges rx ck g r (drop k r) (int k) s =
    (Inr (), s\<lparr>ns_conn := (ns_conn s)\<lparr>cn_in := rest, cn_cbuf := (if r = [] then cn_cbuf (ns_conn s) else ''.''),
         cn_out := cn_out (ns_conn s) @ List.map (\<lambda>(high, low). xover_request low high) (drop k r)\<rparr>,
       ns_cache := fst (xover_sequential rx ck sid g r (List.map snd as) (ns_cache s, ns_status s)),
       ns_status := snd (xover_sequential rx ck sid g r (List.map snd as) (ns_cache s, ns_status s))\<rparr>)"
  using assms
proof (induction r arbitrary: as k s)
  case Nil
  then show ?case by (simp add: comm_return_def)
next
  case (Cons hl r)
  obtain high low where hl: "hl = (high, low)" by (cases hl)
  obtain a ls as' where as: "as = (a, ls) # as'" using Cons.prems(4) by (cases as) auto
  let ?c = "ns_conn s" and ?w = "drop k (hl # r)"
  define n where "n = min (length ?w) (nat (sv_maxstreaming (cn_server ?c) + 1 - int k))"
  define k' where "k' = k + n - 1"
  have k1: "1 \<le> k + n" using Cons.prems(3,7) by (auto simp: n_def min_def)
  have "n \<le> length ?w" by (simp add: n_def)
  then have "k + n \<le> Suc (length r)" using Cons.prems(7) by simp
  then have k': "drop n ?w = drop k' r" "int k + int n - 1 = int k'" "k' \<le> length r"
    using k1 by (simp_all add: k'_def drop_Cons' add.commute of_nat_diff)
  have out: "take n ?w @ drop k' r = ?w" using k'(1) by (metis append_take_drop_id)
  let ?c1 = "?c\<lparr>cn_out := cn_out ?c @ List.map (\<lambda>(high, low). xover_request low high) (take n ?w)\<rparr>"
  have s1: "on_conn (xover_send ?w (int k)) s = (Inr (drop k' r, int k + int n), s\<lparr>ns_conn := ?c1\<rparr>)"
    using xover_send_ok [OF Cons.prems(1,2) n_def] k'(1) by (simp add: on_conn_def)
  let ?rest = "wire (concat (List.map answer_lines as')) @ rest"
  have a: "answer_ok (a, ls)" "cn_in ?c = a @ crlf @ wire (ls @ [''.'']) @ ?rest"
    using Cons.prems(5,6) as by (simp_all add: answer_lines_def [of "(a, ls)"])
  let ?c2 = "?c1\<lparr>cn_in := wire (ls @ [''.'']) @ ?rest, cn_cbuf := a\<rparr>"
  have s2: "on_conn (comm_bind getreply chkreply_setok) (s\<lparr>ns_conn := ?c1\<rparr>) = (Inr (atoi a), s\<lparr>ns_conn := ?c2\<rparr>)"
    using reply_ok [of ?c1 a "wire (ls @ [''.'']) @ ?rest"] a Cons.prems(1) by (simp add: on_conn_def answer_ok_def)
  let ?R = "xover_lines rx ck sid g low high ls (ns_cache s, ns_status s)"
  let ?s3 = "s\<lparr>ns_conn := ?c2\<lparr>cn_in := ?rest, cn_cbuf := ''.''\<rparr>, ns_cache := fst ?R, ns_status := snd ?R\<rparr>"
  have s3: "xover_read rx ck g (int k + int n - 1 \<noteq> 0) low high (s\<lparr>ns_conn := ?c2\<rparr>) = (Inr (), ?s3)"
    using xover_read_answer [of "s\<lparr>ns_conn := ?c2\<rparr>" ls ?rest] a Cons.prems(1,8) by (simp add: answer_ok_def)
  have s4: "xover_ranges rx ck g r (drop k' r) (int k') ?s3 =
    (Inr (), ?s3\<lparr>ns_conn := (ns_conn ?s3)\<lparr>cn_in := rest, cn_cbuf := (if r = [] then cn_cbuf (ns_conn ?s3) else ''.''),
         cn_out := cn_out (ns_conn ?s3) @ List.map (\<lambda>(high, low). xover_request low high) (drop k' r)\<rparr>,
       ns_cache := fst (xover_sequential rx ck sid g r (List.map snd as') (ns_cache ?s3, ns_status ?s3)),
       ns_status := snd (xover_sequential rx ck sid g r (List.map snd as') (ns_cache ?s3, ns_status ?s3))\<rparr>)"
    by (rule Cons.IH) (use Cons.prems as k' in auto)
  have o: "cn_out ?c @ List.map (\<lambda>(high, low). xover_request low high) (take n ?w) @
      List.map (\<lambda>(high, low). xover_request low high) (drop k' r) =
    cn_out ?c @ List.map (\<lambda>(high, low). xover_request low high) ?w"
    by (simp only: map_append [symmetric] out)
  have b: "comm_bind (on_conn (xover_send ?w (int k))) F s = F (drop k' r, int k + int n) (s\<lparr>ns_conn := ?c1\<rparr>)"
    "comm_bind (on_conn (comm_bind getreply chkreply_setok)) G (s\<lparr>ns_conn := ?c1\<rparr>) = G (atoi a) (s\<lparr>ns_conn := ?c2\<rparr>)"
    "comm_bind (xover_read rx ck g (int k + int n - 1 \<noteq> 0) low high) H (s\<lparr>ns_conn := ?c2\<rparr>) = H () ?s3" for F G H
    by (simp_all only: comm_bind_def s1 s2 s3 prod.case sum.case)
  have "xover_ranges rx ck g (hl # r) ?w (int k) s = xover_ranges rx ck g r (drop k' r) (int k') ?s3"
    unfolding hl xover_ranges.simps
    by (simp only: b [unfolded hl] prod.case) (simp only: k'(2))
  then show ?case using s4 o as hl by simp
qed

section \<open>Properties\<close>

text \<open>Whatever bytes the server sends and wherever reading or writing fails, fetching overview lines
  keeps the invariant of the cache: what was there stays, and everything that is added is an article of
  this server in the group that was asked for.\<close>

theorem doxover_any_server:
  assumes "cache_ok (ns_cache s)" "doxover rx ck g r s = (res, s')"
  shows "cache_ok (ns_cache s') \<and>
    (\<exists>new. mset (cache_articles (ns_cache s')) = mset (cache_articles (ns_cache s)) + mset new \<and>
       (\<forall>sa \<in> set new. sa_serverid sa = sv_serverid (cn_server (ns_conn s)) \<and> sa_group sa = g))"
  using doxover_grows [OF assms] by (simp add: cache_grows_def)

definition example_conn :: "int \<Rightarrow> string \<Rightarrow> connection" where
  "example_conn streaming bs = connection_new
     \<lparr>sv_serverid = 1, sv_alias = ''h'', sv_shortname = ''h'', sv_addr = ''h'', sv_user = [], sv_pass = [], sv_bindaddr = [],
      sv_fullxover = 0, sv_maxstreaming = streaming, lineleniencelow = 0, lineleniencehigh = 0, sv_idletimeout = 300,
      last_penalty = 0, penalty_time = 0, penalty_count = 0\<rparr> [] (bs, False, None)"

definition example_session :: "int \<Rightarrow> string \<Rightarrow> session" where
  "example_session streaming bs =
     \<lparr>ns_conn = example_conn streaming bs, ns_cache = cache_new, ns_midinfo = [], ns_status = status_new\<rparr>"

theorem doxover_any_server_witness:
  "cache_ok (ns_cache (snd (doxover (\<lambda>_ _ _. None) example_clock 0 [(9, 5)]
     (example_session 1 ''224 x''))))"
proof -
  let ?r = "doxover (\<lambda>_ _ _. None) example_clock 0 [(9, 5)] (example_session 1 ''224 x'')"
  have "cache_ok (ns_cache (example_session 1 ''224 x''))" by (simp add: example_session_def cache_new_ok)
  from doxover_any_server [OF this, of _ _ _ _ "fst ?r" "snd ?r"] show ?thesis by simp
qed

text \<open>Property C22. Requests for overview lines are pipelined, up to \<open>maxstreaming\<close> and one more before the first
  answer is read. With answers that end as they should the outcome does not depend on it: every range is
  asked for exactly once and in order, all answers are read to their ends and no byte further, and the
  cache and the warnings are what one request after the other gives.\<close>

theorem doxover_pipelined:
  assumes "cn_isopen (ns_conn s)" "cn_wleft (ns_conn s) = None" "0 \<le> sv_maxstreaming (cn_server (ns_conn s))"
    and "length as = length r" "\<forall>a \<in> set as. answer_ok a"
    and "cn_in (ns_conn s) = wire (concat (List.map answer_lines as)) @ rest"
  shows "\<exists>c'. doxover rx ck g r s = (Inr (), s\<lparr>ns_conn := c',
       ns_cache := fst (xover_sequential rx ck (sv_serverid (cn_server (ns_conn s))) g r (List.map snd as) (ns_cache s, ns_status s)),
       ns_status := snd (xover_sequential rx ck (sv_serverid (cn_server (ns_conn s))) g r (List.map snd as) (ns_cache s, ns_status s))\<rparr>) \<and>
     cn_isopen c' \<and> cn_in c' = rest \<and>
     cn_out c' = cn_out (ns_conn s) @ List.map (\<lambda>(high, low). xover_request low high) r"
proof (cases "r = []")
  case True
  then show ?thesis using assms by (intro exI [of _ "ns_conn s"]) (simp add: doxover_def nr_empty_def comm_return_def)
next
  case False
  note e = xover_ranges_ok [OF assms, of 0, OF _ refl, of rx ck g]
  show ?thesis
    by (rule exI [of _ "(ns_conn s)\<lparr>cn_in := rest, cn_cbuf := ''.'',
          cn_out := cn_out (ns_conn s) @ List.map (\<lambda>(high, low). xover_request low high) r\<rparr>"])
      (use e False assms(1) in \<open>simp add: doxover_def nr_empty_def\<close>)
qed

theorem doxover_pipelined_witness:
  "\<exists>c'. doxover (\<lambda>_ _ _. None) example_clock 0 [(9, 5), (12, 11)]
       (example_session 5 (wire [''224 ok'', ''junk'', ''.'', ''224 ok'', ''.''] @ ''rest'')) =
     (Inr (), (example_session 5 (wire [''224 ok'', ''junk'', ''.'', ''224 ok'', ''.''] @ ''rest''))
       \<lparr>ns_conn := c', ns_status := set_warn_status ST_xover 1 status_new\<rparr>) \<and>
     cn_in c' = ''rest'' \<and> cn_out c' = [''XOVER 5-9'', ''XOVER 11-12'']"
proof -
  let ?s = "example_session 5 (wire [''224 ok'', ''junk'', ''.'', ''224 ok'', ''.''] @ ''rest'')"
  have f: "xover_fields ''junk'' = (1, [''junk''])"
    by (simp add: xover_fields_def numeral_eq_Suc goodstrtok_def not_numeric_def Let_def is_digit_def is_space_def TAB_def)
  have a: "atoi ''224 ok'' = 224" "atoul ''junk'' = 0" by (code_simp, code_simp)
  have ok: "\<forall>a \<in> set [(''224 ok'', [''junk'']), (''224 ok'', [])]. answer_ok a"
    using f a by (simp add: answer_ok_def xover_plain_def clean_line_def dot_first_def reply_class_def signed_divide_int_def TAB_def)
  have r: "show_ulong 5 = ''5''" "show_ulong 9 = ''9''" "show_ulong 11 = ''11''" "show_ulong 12 = ''12''"
    by (code_simp)+
  show ?thesis
    using doxover_pipelined [of ?s "[(''224 ok'', [''junk'']), (''224 ok'', [])]" "[(9, 5), (12, 11)]" "''rest''" "\<lambda>_ _ _. None" example_clock 0, OF _ _ _ _ ok] f r
    by (auto simp: example_session_def example_conn_def connection_new_def answer_lines_def xover_lines_def xover_line_def Let_def
        xover_request_def)
qed

text \<open>When the server refuses a range while later ranges have been asked for already, the
  exception leaves the connection open and marked as good, with the answers to the later requests still
  to come: the next command on the connection takes one of them for its own reply.\<close>

theorem doxover_refused_range:
  assumes "cn_isopen (ns_conn s)" "cn_wleft (ns_conn s) = None" "1 \<le> sv_maxstreaming (cn_server (ns_conn s))"
    and "cn_in (ns_conn s) = a @ crlf @ rest" "clean_line a" "reply_class (atoi a) = 4" "atoi a \<noteq> 400"
  shows "\<exists>s' n. doxover rx ck g (p1 # p2 # r) s = (Inl ProtocolExFatal, s') \<and> 2 \<le> n \<and>
    cn_out (ns_conn s') = cn_out (ns_conn s) @ List.map (\<lambda>(high, low). xover_request low high) (take n (p1 # p2 # r)) \<and>
    cn_in (ns_conn s') = rest \<and> cn_isopen (ns_conn s') \<and> cn_server_ok (ns_conn s')"
proof -
  let ?c = "ns_conn s" and ?r = "p1 # p2 # r"
  define n where "n = min (length ?r) (nat (sv_maxstreaming (cn_server ?c) + 1 - 0))"
  have n: "2 \<le> n" using assms(3) by (simp add: n_def)
  let ?c1 = "?c\<lparr>cn_out := cn_out ?c @ List.map (\<lambda>(high, low). xover_request low high) (take n ?r)\<rparr>"
  have s1: "on_conn (xover_send ?r 0) s = (Inr (drop n ?r, 0 + int n), s\<lparr>ns_conn := ?c1\<rparr>)"
    by (simp only: on_conn_def xover_send_ok [OF assms(1,2) n_def] prod.case)
  let ?c2 = "?c1\<lparr>cn_in := rest, cn_cbuf := a, cn_server_ok := True\<rparr>"
  have "comm_bind getreply chkreply_setok ?c1 = (Inl ProtocolExFatal, ?c2)"
    using getreply_line [of ?c1 a rest] assms by (auto simp: comm_bind_def chkreply_setok_def chkreply_def comm_defs)
  then have s2: "on_conn (comm_bind getreply chkreply_setok) (s\<lparr>ns_conn := ?c1\<rparr>) = (Inl ProtocolExFatal, s\<lparr>ns_conn := ?c2\<rparr>)"
    by (simp add: on_conn_def)
  have b: "comm_bind (on_conn (xover_send ?r 0)) F s = F (drop n ?r, 0 + int n) (s\<lparr>ns_conn := ?c1\<rparr>)"
    "comm_bind (on_conn (comm_bind getreply chkreply_setok)) G (s\<lparr>ns_conn := ?c1\<rparr>) = (Inl ProtocolExFatal, s\<lparr>ns_conn := ?c2\<rparr>)"
    for F :: "rlist \<times> int \<Rightarrow> (session, unit) comm" and G :: "int \<Rightarrow> (session, unit) comm"
    by (simp_all only: comm_bind_def s1 s2 prod.case sum.case)
  obtain h l where p1: "p1 = (h, l)" by (cases p1)
  have "doxover rx ck g ?r s = (Inl ProtocolExFatal, s\<lparr>ns_conn := ?c2\<rparr>)"
    unfolding doxover_def nr_empty_def p1 xover_ranges.simps
    by (simp only: list.distinct if_False b [unfolded p1] prod.case)
  then show ?thesis using n assms(1) by (intro exI [of _ "s\<lparr>ns_conn := ?c2\<rparr>"] exI [of _ n]) simp
qed

theorem doxover_refused_range_witness:
  "\<exists>s'. doxover (\<lambda>_ _ _. None) example_clock 0 [(9, 5), (12, 11)] (example_session 5 (wire [''423 empty'', ''224 ok'', ''.''])) =
     (Inl ProtocolExFatal, s') \<and> cn_in (ns_conn s') = wire [''224 ok'', ''.''] \<and> cn_server_ok (ns_conn s')"
proof -
  have a: "atoi ''423 empty'' = 423" by code_simp
  have "\<exists>s' n. doxover (\<lambda>_ _ _. None) example_clock 0 [(9, 5), (12, 11)] (example_session 5 (wire [''423 empty'', ''224 ok'', ''.''])) =
      (Inl ProtocolExFatal, s') \<and> 2 \<le> n \<and>
    cn_out (ns_conn s') = cn_out (ns_conn (example_session 5 (wire [''423 empty'', ''224 ok'', ''.'']))) @
      List.map (\<lambda>(high, low). xover_request low high) (take n [(9, 5), (12, 11)]) \<and>
    cn_in (ns_conn s') = wire [''224 ok'', ''.''] \<and> cn_isopen (ns_conn s') \<and> cn_server_ok (ns_conn s')"
    by (rule doxover_refused_range [of _ "''423 empty''"])
      (simp_all add: a example_session_def example_conn_def connection_new_def clean_line_def reply_class_def signed_divide_int_def)
  then show ?thesis by blast
qed

section \<open>Numbers to ask for\<close>

lemma listgroup_fold:
  "\<forall>l \<in> set ls. \<exists>w. l = show_ulong w \<Longrightarrow>
     body_fold listgroup_line ls x = Some (fold (\<lambda>n s. nr_insert1 s n) (List.map atoul ls) x)"
proof (induction ls arbitrary: x)
  case (Cons l ls)
  then obtain w where "l = show_ulong w" by auto
  then have "listgroup_line (length l + 2) l x = Inr (nr_insert1 x (atoul l))"
    using strtoul10_show [of "[]" w] by (simp add: listgroup_line_def stops_digits_def)
  then show ?case using Cons by simp
qed simp

lemma show_ulong_clean: "clean_line (show_ulong w) \<and> \<not> dot_first (show_ulong w)"
proof -
  have d: "\<forall>c \<in> set (show_ulong w). is_digit c" using show_ulong_chars by blast
  have "hd (show_ulong w) \<in> set (show_ulong w)" by simp
  then have "is_digit (hd (show_ulong w))" using d by blast
  then have "hd (show_ulong w) \<noteq> CHR ''.''" by (auto simp: is_digit_def)
  moreover have "take 1 (show_ulong w) = [hd (show_ulong w)]" by (cases "show_ulong w") simp_all
  moreover have "\<not> is_digit (CHR ''.'')" "\<not> is_digit (CHR 0x0D)" "\<not> is_digit (CHR 0x0A)" "\<not> is_digit (CHR 0x00)"
    by (simp_all add: is_digit_def)
  ultimately show ?thesis using d by (auto simp: clean_line_def dot_first_def)
qed

text \<open>A list of article numbers is read as the set of these numbers, in sorted ranges.\<close>

theorem listgroup_numbers:
  assumes "cn_isopen c" "cn_wleft c = None" "cn_in c = wire (a # List.map show_ulong ns @ [''.'']) @ rest"
    and "clean_line a" "reply_class (atoi a) = 2"
  shows "\<exists>r c'. dolistgroup [] c = (Inr r, c') \<and> nr_ok r \<and> nr_set r = set ns \<and> cn_in c' = rest \<and> cn_isopen c'"
proof -
  let ?c1 = "c\<lparr>cn_out := cn_out c @ [''LISTGROUP'']\<rparr>"
  let ?c2 = "?c1\<lparr>cn_in := wire (List.map show_ulong ns) @ ''.'' @ crlf @ rest, cn_cbuf := a\<rparr>"
  have "getreply ?c1 = (Inr (atoi a), ?c2)"
    using getreply_line [of ?c1 a "wire (List.map show_ulong ns) @ ''.'' @ crlf @ rest"] assms by simp
  moreover have "atoi a \<noteq> 450" "atoi a \<noteq> 480" "atoi a \<noteq> 400"
    using assms(5) by (auto simp: reply_class_def signed_divide_int_def)
  ultimately have "comm_bind (stdputline ''LISTGROUP'') chkreply c = (Inr (atoi a), ?c2)"
    using doputline_ok [OF assms(1,2), of "''LISTGROUP''"] assms(5)
    by (simp add: stdputline_def comm_bind_def chkreply_def comm_defs)
  moreover have "line_loop dot_first listgroup_line [] ?c2 =
      (Ended, fold (\<lambda>n s. nr_insert1 s n) (List.map atoul (List.map show_ulong ns)) [], ?c2\<lparr>cn_in := rest, cn_cbuf := ''.''\<rparr>)"
    by (rule line_loop_lines)
      (use assms(1) listgroup_fold [of "List.map show_ulong ns" "[]"] show_ulong_clean in
        \<open>auto simp: dot_first_def clean_line_def\<close>)
  ultimately have "dolistgroup [] c = (Inr (fold (\<lambda>n s. nr_insert1 s n) ns []), ?c2\<lparr>cn_in := rest, cn_cbuf := ''.''\<rparr>)"
    by (simp add: dolistgroup_def comm_bind_def loop_result_def comp_def)
  then show ?thesis using nrs.ins_many [of "[]" ns] assms(1)
    by (intro exI [of _ "fold (\<lambda>n s. nr_insert1 s n) ns []"] exI [of _ "?c2\<lparr>cn_in := rest, cn_cbuf := ''.''\<rparr>"]) simp
qed

theorem listgroup_numbers_witness:
  "\<exists>r c'. dolistgroup [] (example_conn 0 (wire [''211 ok'', show_ulong 7, show_ulong 3, ''.''])) = (Inr r, c') \<and>
     nr_ok r \<and> nr_set r = {3, 7}"
proof -
  have a: "reply_class (atoi ''211 ok'') = 2" by code_simp
  have "\<exists>r c'. dolistgroup [] (example_conn 0 (wire [''211 ok'', show_ulong 7, show_ulong 3, ''.''])) = (Inr r, c') \<and>
      nr_ok r \<and> nr_set r = set [7, 3] \<and> cn_in c' = [] \<and> cn_isopen c'"
    by (rule listgroup_numbers [OF _ _ _ _ a]) (simp_all add: example_conn_def connection_new_def clean_line_def)
  then show ?thesis by auto
qed

text \<open>The numbers asked for without the full overview: with what the cache has seen of the server,
  from \<open>low\<close> to \<open>high\<close>, every number that is on the server and was not seen, and none that was seen.\<close>

theorem unseen_range_numbers:
  assumes "low \<le> high"
  shows "nr_ok (unseen_range si low high) \<and> {low..high} - {si_low si..si_high si} \<subseteq> nr_set (unseen_range si low high) \<and>
    (si_high si \<noteq> 0 \<and> si_low si \<le> si_high si \<longrightarrow> nr_set (unseen_range si low high) \<inter> {si_low si..si_high si} = {})"
proof (cases "si_high si = 0")
  case True
  then show ?thesis using nr_insert2_correct [OF nr_set_Nil(2) assms] by (auto simp: unseen_range_def)
next
  case False
  define r where "r = (if si_high si < high then nr_insert2 [] (si_high si + 1) high else [])"
  have r: "nr_ok r" "nr_set r = (if si_high si < high then {si_high si + 1..high} else {})"
    using nr_insert2_correct [OF nr_set_Nil(2), of "si_high si + 1" high] word_plus_one_le_iff [of "si_high si" high]
      word_less_imp_not_max [of "si_high si" high]
    by (cases "si_high si < high"; simp add: r_def)+
  have above: "x \<in> nr_set r \<longleftrightarrow> si_high si < x \<and> x \<le> high" for x
    using r(2) word_plus_one_le_iff [of "si_high si" x] word_less_imp_not_max [of "si_high si" high]
    by (cases "si_high si < high") auto
  show ?thesis
  proof (cases "low < si_low si")
    case True
    then have "0 < si_low si" by (metis le_less_trans word_zero_le)
    then have p: "0 < si_low si" "low \<le> si_low si - 1"
      using True word_le_minus_one_iff [of "si_low si" low] by auto
    have i: "nr_ok (unseen_range si low high)" "nr_set (unseen_range si low high) = {low..si_low si - 1} \<union> nr_set r"
      using nr_insert2_correct [OF r(1) p(2)] False True by (simp_all add: unseen_range_def r_def)
    have "x \<in> nr_set (unseen_range si low high) \<longleftrightarrow> low \<le> x \<and> x < si_low si \<or> si_high si < x \<and> x \<le> high" for x
      using i(2) above word_le_minus_one_iff [OF p(1), of x] by auto
    note mem = this
    have "{low..high} - {si_low si..si_high si} \<subseteq> nr_set (unseen_range si low high)"
      unfolding subset_iff Diff_iff atLeastAtMost_iff mem by (metis not_le)
    moreover have "nr_set (unseen_range si low high) \<inter> {si_low si..si_high si} = {}"
      unfolding disjoint_iff atLeastAtMost_iff mem by (metis not_le)
    ultimately show ?thesis using i(1) by blast
  next
    case False
    then have "unseen_range si low high = r" using \<open>si_high si \<noteq> 0\<close> by (simp add: unseen_range_def r_def)
    note e = this
    have "{low..high} - {si_low si..si_high si} \<subseteq> nr_set r"
      unfolding subset_iff Diff_iff atLeastAtMost_iff above using False by (metis not_le order_trans)
    moreover have "nr_set r \<inter> {si_low si..si_high si} = {}"
      unfolding disjoint_iff atLeastAtMost_iff above by (metis not_le)
    ultimately show ?thesis using r(1) unfolding e by blast
  qed
qed

theorem unseen_range_numbers_witness:
  "{5..20} - {8..12} \<subseteq> nr_set (unseen_range \<lparr>si_serverid = 1, si_high = 12, si_low = 8, si_num = 3\<rparr> 5 20)"
  using unseen_range_numbers [of 5 20 "\<lparr>si_serverid = 1, si_high = 12, si_low = 8, si_num = 3\<rparr>"] by simp

section \<open>Overview lines are read back\<close>

fun tab_fields :: "string list \<Rightarrow> string" where
  "tab_fields [] = []"
| "tab_fields [x] = x"
| "tab_fields (x # y # xs) = x @ TAB # tab_fields (y # xs)"

lemma goodstrtok_before_tab: "TAB \<notin> set x \<Longrightarrow> goodstrtok (Some (x @ TAB # rest)) TAB = (Some x, Some rest)"
proof -
  assume x: "TAB \<notin> set x"
  then have "dropWhile (\<lambda>c. c \<noteq> TAB) (x @ TAB # rest) = TAB # rest" "takeWhile (\<lambda>c. c \<noteq> TAB) (x @ TAB # rest) = x"
    by (induction x) auto
  then show ?thesis by (simp only: goodstrtok_def option.case list.case)
qed

lemma goodstrtok_final: "TAB \<notin> set x \<Longrightarrow> goodstrtok (Some x) TAB = (Some x, None)"
proof -
  assume "TAB \<notin> set x"
  then have "dropWhile (\<lambda>c. c \<noteq> TAB) x = []" by (auto simp: dropWhile_eq_Nil_conv)
  then show ?thesis by (simp only: goodstrtok_def option.case list.case)
qed

lemma xover_scan_fields:
  assumes "fs \<noteq> []" "length fs \<le> k" "\<forall>f \<in> set fs. TAB \<notin> set f"
    and "\<And>j. j < length fs \<Longrightarrow> i + j \<in> {0, 6, 7} \<Longrightarrow> \<not> not_numeric (fs ! j)"
  shows "xover_scan k i (Some (tab_fields fs)) t = (i + length fs, t @ fs)"
  using assms
proof (induction fs arbitrary: k i t rule: tab_fields.induct)
  case (2 x)
  obtain k' where k: "k = Suc k'" using 2(2) by (cases k) auto
  have "xover_scan k' (Suc i) None (t @ [x]) = (Suc i, t @ [x])" by (cases k') (simp_all add: goodstrtok_def)
  then show ?case using 2(3) 2(4) [of 0] k by (cases "i = 0 \<or> i = 6 \<or> i = 7") (auto simp: goodstrtok_final)
next
  case (3 x y xs)
  obtain k' where k: "k = Suc k'" using 3(3) by (cases k) auto
  have "xover_scan k' (Suc i) (Some (tab_fields (y # xs))) (t @ [x]) = (Suc i + length (y # xs), (t @ [x]) @ y # xs)"
  proof (rule 3(1))
    show "\<not> not_numeric ((y # xs) ! j)" if "j < length (y # xs)" "Suc i + j \<in> {0, 6, 7}" for j
      using 3(5) [of "Suc j"] that by simp
  qed (use 3(3,4) k in auto)
  then show ?case using 3(4) 3(5) [of 0] k by (cases "i = 0 \<or> i = 6 \<or> i = 7") (auto simp: goodstrtok_before_tab)
qed simp

lemma show_ulong_numeric: "\<not> not_numeric (show_ulong w)" "TAB \<notin> set (show_ulong w)"
proof -
  have d: "\<forall>c \<in> set (show_ulong w). is_digit c" using show_ulong_chars by blast
  then have "dropWhile (\<lambda>c. is_digit c \<or> is_space c) (show_ulong w) = []" by (simp add: dropWhile_eq_Nil_conv)
  then show "\<not> not_numeric (show_ulong w)" by (simp add: not_numeric_def)
  have "\<not> is_digit TAB" by (simp add: TAB_def is_digit_def)
  then show "TAB \<notin> set (show_ulong w)" using d by blast
qed

text \<open>An overview line with the fields in the order of the protocol, further fields or none after
  them, adds the article with these fields to the cache, its numbers read back as printed; a number
  in the range that was asked for, in ascending order, gives no warning.\<close>

theorem overview_line_added:
  assumes "\<forall>f \<in> {subj, auth, date, mid, refs} \<union> set more_fields. TAB \<notin> set f" "length more_fields \<le> 2"
    and "low \<le> an" "an \<le> high" "xs_next x \<le> an"
  shows "xover_line rx ck sid g streamed low high n
      (tab_fields ([show_ulong an, subj, auth, date, mid, refs, show_ulong b, show_ulong l] @ more_fields)) x =
    Inr (x\<lparr>xs_next := an + 1, xs_cache := snd (additem (ck_now ck)
      ((header_set (header_new g) subj auth an (decode_textdate rx ck date True) b l mid (Some refs))\<lparr>h_serverid := sid\<rparr>)
      (xs_cache x))\<rparr>)"
proof -
  let ?fs = "[show_ulong an, subj, auth, date, mid, refs, show_ulong b, show_ulong l] @ more_fields"
  have "xover_fields (tab_fields ?fs) = (0 + length ?fs, [] @ ?fs)"
    unfolding xover_fields_def
  proof (rule xover_scan_fields)
    show "\<not> not_numeric (?fs ! j)" if "j < length ?fs" "0 + j \<in> {0, 6, 7}" for j
      using that show_ulong_numeric by (auto simp: nth_append)
  qed (use assms(1,2) show_ulong_numeric in auto)
  then have "xover_fields (tab_fields ?fs) = (8 + length more_fields, ?fs)" by simp
  then show ?thesis using assms(3-5)
    by (simp add: xover_line_def Let_def xover_header_def not_less)
qed

theorem overview_line_added_witness:
  "xover_line (\<lambda>_ _ _. None) example_clock 1 0 True 5 9 60
      (tab_fields [show_ulong 7, ''a subject'', ''me'', ''?'', ''<1@x>'', [], show_ulong 1145, show_ulong 9])
      \<lparr>xs_cache = cache_new, xs_status = status_new, xs_next = 5\<rparr> =
    Inr \<lparr>xs_cache = snd (additem (ck_now example_clock)
      ((header_set (header_new 0) ''a subject'' ''me'' 7 0 1145 9 ''<1@x>'' (Some []))\<lparr>h_serverid := 1\<rparr>) cache_new),
      xs_status = status_new, xs_next = 8\<rparr>"
  using overview_line_added [of "''a subject''" "''me''" "''?''" "''<1@x>''" "[]" "[]" 5 7 9
      "\<lparr>xs_cache = cache_new, xs_status = status_new, xs_next = 5\<rparr>" "\<lambda>_ _ _. None" example_clock 1 0 True 60 1145 9]
  by (simp add: TAB_def decode_textdate_def)

section \<open>A whole update\<close>

lemma nr_set_UNIV:
  assumes "nr_ok r" "nr_set r = UNIV"
  shows "r = [(ULONG_MAX, 0)]"
proof (cases r)
  case (Cons p rs)
  obtain h l where p: "p = (h, l)" by (cases p)
  have ok: "l \<le> h" "nr_ok rs" "\<forall>(h', l') \<in> set rs. nr_gap h l'" using assms(1) by (auto simp: Cons p nr_ok_Cons)
  have all: "x \<in> {l..h} \<union> nr_set rs" for x using assms(2) by (simp add: Cons p nr_set_Cons)
  have above: "h + 1 < x" if x: "x \<in> nr_set rs" for x
  proof -
    obtain h' l' where e: "(h', l') \<in> set rs" "l' \<le> x" using x by (metis mem_nr_set prod.collapse)
    then have g: "h < l'" "h + 1 \<noteq> l'" using ok(3) by (auto simp: nr_gap_def)
    have "h + 1 \<le> l'" using g(1) by (metis word_plus_one_le_iff word_less_imp_not_max)
    then show ?thesis using g(2) e(2) by (metis order.not_eq_order_implies_strict order.strict_trans2)
  qed
  have "h = ULONG_MAX"
  proof (rule ccontr)
    assume "h \<noteq> ULONG_MAX"
    then have "h < h + 1" by (rule word_less_plus_one)
    then have "h + 1 \<in> nr_set rs" using all [of "h + 1"] by auto
    then show False using above by blast
  qed
  moreover from this have "rs = []" using ok(2,3) by (cases rs) (force simp: nr_gap_def)+
  moreover have "l = 0" using all [of 0] above [of 0] by (auto simp: word_le_0_iff)
  ultimately show ?thesis by (simp add: Cons p)
qed (use assms(2) in simp)

lemma nr_clip_ok:
  assumes "nr_ok r" "0 < num"
  shows "nr_ok (nr_clip_to_max_total r num)"
proof (cases "card (nr_set r) < 2 ^ 64")
  case True
  show ?thesis using nr_clip_loop_correct [OF assms(1) True, of "rev r" "[]" 0 num] assms(2)
    by (simp add: nr_clip_to_max_total_def)
next
  case False
  have "card (UNIV :: ulong set) = 2 ^ 64" by (simp add: card_word)
  then have "nr_set r = UNIV" using False by (metis card_mono card_seteq finite not_less subset_UNIV)
  then have "r = [(ULONG_MAX, 0)]" by (rule nr_set_UNIV [OF assms(1)])
  then show ?thesis using assms by (cases "num = 0") (simp_all add: nr_clip_to_max_total_def)
qed

text \<open>No command changes which server a connection is for, apart from the number of requests under way.\<close>

definition same_server :: "(connection, 'a) comm \<Rightarrow> bool" where
  "same_server m \<longleftrightarrow> (\<forall>c. cn_server (snd (m c)) = cn_server c)"

lemma same_server_bind: "same_server m \<Longrightarrow> (\<And>x. same_server (f x)) \<Longrightarrow> same_server (comm_bind m f)"
  by (auto simp: same_server_def comm_bind_def split: prod.splits sum.splits) (metis snd_conv)+

lemma same_server_basic:
  "same_server (comm_return x)" "same_server (comm_throw e)" "same_server (comm_gets g)" "same_server getline"
  "same_server (doputline l)" "same_server (comm_modify cn_close_fast)"
  using getline_reads doputline_server
  by (auto simp: same_server_def comm_defs reads_only_def cn_close_fast_def sock_close_def)

lemma same_server_modify: "(\<And>c. cn_server (f c) = cn_server c) \<Longrightarrow> same_server (comm_modify f)"
  by (simp add: same_server_def comm_defs)

lemma same_server_if: "same_server a \<Longrightarrow> same_server b \<Longrightarrow> same_server (if P then a else b)"
  by simp

lemmas same_server_rules = same_server_bind same_server_basic same_server_if

lemma same_server_replies: "same_server getreply" "same_server (chkreply r)" "same_server (chkreply_setok r)"
proof -
  show "same_server getreply" unfolding getreply_def by (intro same_server_rules)
  show c: "same_server (chkreply r)" for r unfolding chkreply_def by (intro same_server_rules)
  show "same_server (chkreply_setok r)" unfolding chkreply_setok_def
    by (intro same_server_rules same_server_modify c) simp
qed

lemma same_server_stdputline: "same_server (stdputline l)"
proof -
  have "same_server (nntp_doauth u p)" for u p
    unfolding nntp_doauth_def by (intro same_server_rules same_server_replies)
  then have "same_server nntp_auth" by (simp add: same_server_def nntp_auth_def)
  then show ?thesis unfolding stdputline_def by (intro same_server_rules same_server_replies) simp
qed

lemma same_server_doopen: "same_server nntp_doopen"
proof -
  have "same_server (if fresh then comm_bind getreply (\<lambda>i. comm_bind (chkreply i) (\<lambda>_. comm_bind (doputline ''MODE READER'')
      (\<lambda>_. comm_bind getline (\<lambda>_. comm_modify (\<lambda>c. c\<lparr>cn_fresh := False\<rparr>))))) else comm_return ())" for fresh
    by (intro same_server_rules same_server_replies same_server_modify) simp
  then show ?thesis unfolding nntp_doopen_def by (intro same_server_bind same_server_basic)
qed

lemma loop_result_server: "same_server (\<lambda>c. loop_result (line_loop stop body x c))"
proof -
  have "cn_server c' = cn_server c" if "line_loop stop body x c = (r, x', c')" for c r x' c'
    using line_loop_reads [OF that] by (simp add: reads_only_def)
  then show ?thesis by (auto simp: same_server_def loop_result_def split: prod.splits loop_end.splits)
qed

lemma same_server_select: "same_server (select_group nconfig g)"
proof -
  have "same_server (if reply_class r = 4 then chkreply_setok r else chkreply r)" for r
    by (intro same_server_rules same_server_replies)
  moreover have "same_server (case n of Some m \<Rightarrow> comm_return m | None \<Rightarrow> comm_throw Crash)" for n :: "'a option"
    by (cases n) (simp_all add: same_server_basic)
  ultimately show ?thesis unfolding select_group_def
    by (intro same_server_rules same_server_replies same_server_stdputline same_server_modify) simp_all
qed

lemma dolistgroup_ok:
  assumes "dolistgroup existing c = (r, c')" "nr_ok existing"
  shows "cn_server c' = cn_server c \<and> (\<forall>listed. r = Inr listed \<longrightarrow> nr_ok listed)"
proof -
  have "same_server (dolistgroup existing)"
    unfolding dolistgroup_def by (intro same_server_bind same_server_stdputline same_server_replies loop_result_server)
  then have "cn_server c' = cn_server c" using assms(1) by (metis same_server_def snd_conv)
  moreover have "nr_ok listed" if i: "r = Inr listed" for listed
  proof -
    obtain n c1 where "loop_result (line_loop dot_first listgroup_line existing c1) = (r, c')"
      using assms(1) i by (auto simp: dolistgroup_def comm_bind_def split: prod.splits sum.splits)
    then obtain e where l: "line_loop dot_first listgroup_line existing c1 = (e, listed, c')"
      using i by (auto simp: loop_result_def split: prod.splits loop_end.splits)
    show ?thesis
      by (rule line_loop_inv [where P = nr_ok, OF assms(2) _ l]) (auto simp: listgroup_line_def nr_insert1_ok split: prod.splits if_splits)
  qed
  ultimately show ?thesis by blast
qed

text \<open>What an update from a server may do to a cache: its articles come and go, those of others stay.\<close>

definition only_server :: "ulong \<Rightarrow> cache \<Rightarrow> cache \<Rightarrow> bool" where
  "only_server sid c c' \<longleftrightarrow>
     cache_inv False c' \<and>
     mset (filter (\<lambda>sa. sa_serverid sa \<noteq> sid) (cache_articles c')) =
       mset (filter (\<lambda>sa. sa_serverid sa \<noteq> sid) (cache_articles c))"

lemma only_server_refl: "cache_inv False c \<Longrightarrow> only_server sid c c"
  by (simp add: only_server_def)

lemma only_server_trans: "only_server sid a b \<Longrightarrow> only_server sid b c \<Longrightarrow> only_server sid a c"
  by (simp add: only_server_def)

lemma only_server_inv: "only_server sid a b \<Longrightarrow> cache_inv False b"
  by (simp add: only_server_def)

lemma grows_only: "cache_grows False sid g c c' \<Longrightarrow> only_server sid c c'"
proof -
  assume "cache_grows False sid g c c'"
  then obtain new where n: "cache_inv False c'" "mset (cache_articles c') = mset (cache_articles c) + mset new"
    "\<forall>sa \<in> set new. sa_serverid sa = sid" unfolding cache_grows_def by blast
  have "filter (\<lambda>sa. sa_serverid sa \<noteq> sid) new = []" using n(3) by (auto simp: filter_empty_conv)
  then have "filter_mset (\<lambda>sa. sa_serverid sa \<noteq> sid) (mset new) = {#}" by (metis mset.simps(1) mset_filter)
  then show ?thesis using n(1,2) by (simp add: only_server_def)
qed

lemma infos_only:
  assumes "cache_inv False c" "cfiles c' = cfiles c" "totalnum c' = totalnum c" "smap_ok (server_infos c')"
    "\<And>s. info_ok False s (map_of (server_infos c') s) (cache_articles c)"
  shows "only_server sid c c'"
  using assms by (simp add: only_server_def cache_inv_def cache_parts_def cache_articles_def)

lemma getserverinfo_only:
  assumes "cache_inv False c" "getserverinfo s c = (si, c')"
  shows "only_server sid c c' \<and> map_of (server_infos c') s = Some si \<and> si_serverid si = s"
proof -
  have i: "smap_ok (server_infos c)" "\<forall>s. info_ok False s (map_of (server_infos c) s) (cache_articles c)"
    using assms(1) by (simp_all add: cache_inv_def)
  note G = getserverinfo_info [OF i(1) assms(2) i(2)]
  have m: "map_of (server_infos c') s = Some si"
    using assms(2) i(1) by (auto simp: getserverinfo_def map_of_smap_insert split: option.splits)
  have "info_ok False t (map_of (server_infos c') t) (cache_articles c)" for t
    using G m i(2) by (cases "t = s") auto
  then show ?thesis using infos_only [OF assms(1)] G m by (auto simp: info_ok_def)
qed

lemma put_info_only:
  assumes "cache_inv False c" "map_of (server_infos c) s = Some si" "si_serverid si' = s" "si_num si' = si_num si"
  shows "only_server sid c (put_server_info si' c)"
proof (rule infos_only [OF assms(1)])
  have i: "smap_ok (server_infos c)" "info_ok False t (map_of (server_infos c) t) (cache_articles c)" for t
    using assms(1) by (simp_all add: cache_inv_def)
  then show "smap_ok (server_infos (put_server_info si' c))" by (simp add: put_server_info_def smap_ok_put)
  show "info_ok False t (map_of (server_infos (put_server_info si' c)) t) (cache_articles c)" for t
    using i(2) [of t] i(1) assms(2-4) by (auto simp: put_server_info_def map_of_smap_put info_ok_def)
qed (simp_all add: put_server_info_def)

lemma info_sid:
  assumes "cache_inv bd c" "map_of (server_infos c) sid = Some si"
  shows "si_serverid si = sid"
proof -
  have "info_ok bd sid (map_of (server_infos c) sid) (cache_articles c)" using assms(1) unfolding cache_inv_def by blast
  then show ?thesis using assms(2) by (simp add: info_ok_def)
qed

lemma flush_only:
  assumes "cache_inv False c" "map_of (server_infos c) sid = Some si" "nr_ok r" "flush now si r mm c = (n, mm', c')"
  shows "only_server sid c c' \<and> (\<exists>si'. map_of (server_infos c') sid = Some si' \<and> si_serverid si' = sid)"
proof -
  note F = flush_ok [OF assms]
  have "filter (\<lambda>sa. sa_serverid sa \<noteq> sid) (filter (\<lambda>sa. \<not> flushed sid R sa) sas) = filter (\<lambda>sa. sa_serverid sa \<noteq> sid) sas"
    for R sas by (induction sas) (auto simp: flushed_def)
  moreover have "si_serverid si = sid" by (rule info_sid [OF assms(1,2)])
  ultimately show ?thesis using F by (simp add: only_server_def)
qed

lemma flushlow_only:
  assumes "cache_inv False c" "map_of (server_infos c) sid = Some si" "flushlow now si low mm c = (n, mm', c')"
  shows "only_server sid c c'"
proof -
  have sid: "si_serverid si = sid" by (rule info_sid [OF assms(1,2)])
  obtain n1 mm1 c1 where f: "flush now si (nr_insert2 [] 0 (low - 1)) mm c = (n1, mm1, c1)" by (metis prod_cases3)
  have "nr_ok (nr_insert2 [] 0 (low - 1))" using nr_insert2_correct [of "[]" 0 "low - 1"] by (simp add: nr_ok_def smap_ok_def)
  then obtain si1 where o: "only_server sid c c1" "map_of (server_infos c1) sid = Some si1" "si_serverid si1 = sid"
    using flush_only [OF assms(1,2) _ f] by blast
  have "c' = put_server_info (si1\<lparr>si_low := low\<rparr>) c1" using assms(3) f o(2) sid by (simp add: flushlow_def)
  then show ?thesis using put_info_only [OF only_server_inv [OF o(1)] o(2)] o(1,3) only_server_trans by simp
qed

lemma session_info_only:
  assumes "cache_inv False (ns_cache s)" "session_info s = (si, s1)" "sid = sv_serverid (cn_server (ns_conn s))"
  shows "only_server sid (ns_cache s) (ns_cache s1) \<and> map_of (server_infos (ns_cache s1)) sid = Some si \<and>
    si_serverid si = sid \<and> ns_conn s1 = ns_conn s \<and> ns_midinfo s1 = ns_midinfo s"
proof -
  obtain si0 c where g: "getserverinfo sid (ns_cache s) = (si0, c)" by (cases "getserverinfo sid (ns_cache s)")
  then have "si = si0" "s1 = s\<lparr>ns_cache := c\<rparr>" using assms(2,3) by (auto simp: session_info_def)
  then show ?thesis using getserverinfo_only [OF assms(1) g] by simp
qed

lemma doxover_only:
  assumes "cache_inv False (ns_cache s)" "doxover rx ck g r s = (res, s')" "sid = sv_serverid (cn_server (ns_conn s))"
  shows "only_server sid (ns_cache s) (ns_cache s')"
  using grows_only [OF doxover_grows [OF assms(1,2)]] assms(3) by simp

lemma update_range_only:
  assumes inv: "cache_inv False (ns_cache s)" and u: "update_range rx ck nconfig g fx low0 high s = (res, s')"
    and sid: "sid = sv_serverid (cn_server (ns_conn s))"
  shows "only_server sid (ns_cache s) (ns_cache s')"
proof -
  define low where "low = clip_low nconfig low0 high"
  obtain si s1 where i: "session_info s = (si, s1)" by (cases "session_info s")
  note I = session_info_only [OF inv i sid]
  define s2 where "s2 = (if low > si_low si then
      (case flushlow (ck_now ck) si low (ns_midinfo s1) (ns_cache s1) of
         (_, midinfo', cache') \<Rightarrow> s1\<lparr>ns_midinfo := midinfo', ns_cache := cache'\<rparr>) else s1)"
  have s2: "only_server sid (ns_cache s1) (ns_cache s2)" "ns_conn s2 = ns_conn s"
  proof -
    obtain n mm c where f: "flushlow (ck_now ck) si low (ns_midinfo s1) (ns_cache s1) = (n, mm, c)" by (metis prod_cases3)
    have a: "cache_inv False (ns_cache s1)" using I by (blast intro: only_server_inv)
    have "only_server sid (ns_cache s1) c" using flushlow_only [OF a _ f] I by blast
    then show "only_server sid (ns_cache s1) (ns_cache s2)" using a only_server_refl by (simp add: s2_def f)
    show "ns_conn s2 = ns_conn s" using I f by (simp add: s2_def split: prod.split)
  qed
  have o: "only_server sid (ns_cache s) (ns_cache s2)" using I s2(1) only_server_trans by blast
  obtain r where "doxover rx ck g r s2 = (res, s')"
    using u i unfolding update_range_def s2_def low_def Let_def by (auto split: if_splits)
  then show ?thesis using doxover_only [OF only_server_inv [OF o]] o only_server_trans s2(2) sid by metis
qed

lemma update_listed_only:
  assumes inv: "cache_inv False (ns_cache s)" and u: "update_listed rx ck nconfig g si low s = (res, s')"
    and sid: "sid = sv_serverid (cn_server (ns_conn s))" and si: "map_of (server_infos (ns_cache s)) sid = Some si"
    and mx: "maxheaders nconfig = - 1 \<or> (0 :: ulong) < of_int (maxheaders nconfig)"
  shows "only_server sid (ns_cache s) (ns_cache s')"
proof -
  obtain r c where d: "dolistgroup [] (ns_conn s) = (r, c)" by (cases "dolistgroup [] (ns_conn s)")
  have D: "cn_server c = cn_server (ns_conn s)" "\<And>l. r = Inr l \<Longrightarrow> nr_ok l"
    using dolistgroup_ok [OF d] by (auto simp: nr_ok_def smap_ok_def)
  let ?s1 = "s\<lparr>ns_conn := c\<rparr>"
  show ?thesis
  proof (cases r)
    case (Inl e)
    then have "s' = ?s1" using u d by (auto simp: update_listed_def comm_bind_def on_conn_def)
    then show ?thesis using only_server_refl [OF inv] by simp
  next
    case (Inr listed)
    define ex where "ex = (if maxheaders nconfig \<noteq> - 1 then nr_clip_to_max_total listed (of_int (maxheaders nconfig)) else listed)"
    have ex: "nr_ok ex" using D(2) [OF Inr] mx nr_clip_ok [OF D(2) [OF Inr]] unfolding ex_def by (metis (full_types))
    obtain n mm c1 where f: "flush (ck_now ck) si (nr_invert [] ex) (ns_midinfo s) (ns_cache s) = (n, mm, c1)" by (metis prod_cases3)
    have "nr_ok (nr_invert [] ex)" using nr_invert_correct [OF _ ex, of "[]"] by (simp add: nr_ok_def smap_ok_def)
    then obtain si1 where o: "only_server sid (ns_cache s) c1" "map_of (server_infos c1) sid = Some si1" "si_serverid si1 = sid"
      using flush_only [OF inv si _ f] by blast
    have sisid: "si_serverid si = sid" by (rule info_sid [OF inv si])
    have g: "fst (getserverinfo sid c1) = si1" using o(2) by (simp add: getserverinfo_def)
    let ?low = "case nr_low ex of None \<Rightarrow> low | Some l \<Rightarrow> l"
    let ?c2 = "put_server_info (si1\<lparr>si_low := ?low\<rparr>) c1"
    have o2: "only_server sid (ns_cache s) ?c2"
      using put_info_only [OF only_server_inv [OF o(1)] o(2)] o(1,3) only_server_trans by simp
    have "doxover rx ck g (getxrange_have (si1\<lparr>si_low := ?low\<rparr>) ?c2 ex) (?s1\<lparr>ns_midinfo := mm, ns_cache := ?c2\<rparr>) = (res, s')"
      using u d Inr f g sisid unfolding update_listed_def comm_bind_def on_conn_def ex_def Let_def by simp
    from doxover_only [OF _ this] show ?thesis
      using only_server_inv [OF o2] o2 only_server_trans D(1) sid by simp
  qed
qed

lemma dogroup_only:
  assumes inv: "cache_inv False (ns_cache s)" and u: "nntp_dogroup rx ck nconfig g getheaders fx s = (res, s')"
    and sid: "sid = sv_serverid (cn_server (ns_conn s))"
    and mx: "maxheaders nconfig = - 1 \<or> (0 :: ulong) < of_int (maxheaders nconfig)"
  shows "only_server sid (ns_cache s) (ns_cache s')"
proof -
  obtain r s1 where g: "(if cn_curgroup (ns_conn s) \<noteq> Some g \<or> getheaders then on_conn (select_group nconfig g) s
      else (Inr (0, 0, 0), s)) = (r, s1)" by (metis surj_pair)
  have k: "ns_cache s1 = ns_cache s" "sv_serverid (cn_server (ns_conn s1)) = sid"
  proof -
    have "cn_server (snd (select_group nconfig g (ns_conn s))) = cn_server (ns_conn s)"
      using same_server_select by (simp add: same_server_def)
    then show "ns_cache s1 = ns_cache s" "sv_serverid (cn_server (ns_conn s1)) = sid"
      using g sid by (auto simp: on_conn_def split: if_splits prod.splits)
  qed
  show ?thesis
  proof (cases "(\<exists>e. r = Inl e) \<or> \<not> getheaders")
    case True
    then have "s' = s1" using u g by (cases r) (auto simp: nntp_dogroup_def comm_bind_def split: prod.splits if_splits)
    then show ?thesis using only_server_refl [OF inv] k(1) by simp
  next
    case False
    then obtain num low high where r: "r = Inr (num, low, high)" and h: getheaders by (cases r) auto
    obtain si s2 where i: "session_info s1 = (si, s2)" by (cases "session_info s1")
    have inv1: "cache_inv False (ns_cache s1)" using inv k(1) by simp
    note I = session_info_only [OF inv1 i k(2) [symmetric]]
    have c2: "sid = sv_serverid (cn_server (ns_conn s2))" using I k(2) by simp
    have inv2: "cache_inv False (ns_cache s2)" using I by (blast intro: only_server_inv)
    have "update_listed rx ck nconfig g si low s2 = (res, s') \<or>
        (\<exists>fx. update_range rx ck nconfig g fx low high s2 = (res, s'))"
      using u g r h i by (auto simp: nntp_dogroup_def comm_bind_def Let_def split: if_splits)
    then have "only_server sid (ns_cache s2) (ns_cache s')"
      using update_listed_only [OF inv2 _ c2 _ mx] update_range_only [OF inv2 _ c2] I by blast
    then show ?thesis using I k(1) only_server_trans by metis
  qed
qed


text \<open>Whatever the server sends during an update of a group, and however the update ends: every
  file, part and count of the cache stays in order, and the articles of other servers stay as they are.\<close>

theorem update_any_server:
  assumes "cache_inv False (ns_cache s)" "nntp_dogroup rx ck nconfig g getheaders forcefullxover s = (res, s')"
    and "maxheaders nconfig = - 1 \<or> (0 :: ulong) < of_int (maxheaders nconfig)"
  shows "cache_inv False (ns_cache s') \<and>
    mset (filter (\<lambda>sa. sa_serverid sa \<noteq> sv_serverid (cn_server (ns_conn s))) (cache_articles (ns_cache s'))) =
    mset (filter (\<lambda>sa. sa_serverid sa \<noteq> sv_serverid (cn_server (ns_conn s))) (cache_articles (ns_cache s)))"
  using dogroup_only [OF assms(1,2) refl assms(3)] by (simp add: only_server_def)

theorem update_any_server_witness:
  "cache_inv False (ns_cache (snd (nntp_dogroup (\<lambda>_ _ _. None) example_clock
     (nget_config_new\<lparr>ginfos := [\<lparr>gi_alias = [], gi_group = ''a.b'', gi_prio = [], gi_usegz = 0\<rparr>]\<rparr>) 0 True (- 1)
     (example_session 1 (wire [''211 2 1 2 a.b'', ''224 x'', ''junk'']))))) "
proof -
  let ?cfg = "nget_config_new\<lparr>ginfos := [\<lparr>gi_alias = [], gi_group = ''a.b'', gi_prio = [], gi_usegz = 0\<rparr>]\<rparr>"
  let ?s = "example_session 1 (wire [''211 2 1 2 a.b'', ''224 x'', ''junk''])"
  let ?r = "nntp_dogroup (\<lambda>_ _ _. None) example_clock ?cfg 0 True (- 1) ?s"
  have "cache_inv False (ns_cache ?s)" by (simp add: example_session_def cache_new_ok)
  moreover have "maxheaders ?cfg = - 1 \<or> (0 :: ulong) < of_int (maxheaders ?cfg)" by (simp add: nget_config_new_def)
  ultimately show ?thesis using update_any_server [of ?s "\<lambda>_ _ _. None" example_clock ?cfg 0 True "- 1" "fst ?r" "snd ?r"] by simp
qed

end
