(* ===== verification/NntpList.thy ===== *)
theory NntpList
  imports Nntp
begin

text \<open>
  Fetching the list of newsgroups from a server (\<open>prot_nntp.cc\<close>): the groups themselves, only the new ones
  when the server was asked before, and their descriptions. The lemmas: which commands are sent, and
  that the answers end up in the list with the server's date.
\<close>

record list_session =
  ls_conn :: connection
  ls_list :: grouplist

definition on_list_conn :: "(connection, 'a) comm \<Rightarrow> (list_session, 'a) comm" where
  "on_list_conn m s = (case m (ls_conn s) of (r, c) \<Rightarrow> (r, s\<lparr>ls_conn := c\<rparr>))"

definition is_blank :: "char \<Rightarrow> bool" where
  "is_blank c \<longleftrightarrow> c = CHR '' '' \<or> c = TAB"

definition only_dot :: "string \<Rightarrow> bool" where
  "only_dot l \<longleftrightarrow> l = ''.''"

definition group_line :: "ulong \<Rightarrow> nat \<Rightarrow> string \<Rightarrow> grouplist \<Rightarrow> unit + grouplist" where
  "group_line sid n line gl = Inr (gl_addgroup sid (takeWhile (\<lambda>c. \<not> is_blank c) line) gl)"

text \<open>The description starts at the first character after the blanks that follow the name.\<close>

definition desc_line :: "ulong \<Rightarrow> nat \<Rightarrow> string \<Rightarrow> grouplist \<Rightarrow> unit + grouplist" where
  "desc_line sid n line gl =
     Inr (gl_addgroupdesc sid (takeWhile (\<lambda>c. \<not> is_blank c) line)
       (dropWhile is_blank (dropWhile (\<lambda>c. \<not> is_blank c) line)) gl)"

definition list_lines :: "(ulong \<Rightarrow> nat \<Rightarrow> string \<Rightarrow> grouplist \<Rightarrow> unit + grouplist) \<Rightarrow> (list_session, unit) comm" where
  "list_lines body s =
     (case line_loop only_dot (body (sv_serverid (cn_server (ls_conn s)))) (ls_list s) (ls_conn s) of
        (r, gl, c) \<Rightarrow> (case r of Threw e \<Rightarrow> Inl e | _ \<Rightarrow> Inr (), s\<lparr>ls_conn := c, ls_list := gl\<rparr>))"

definition nntp_dogetgrouplist :: "(list_session, unit) comm" where
  "nntp_dogetgrouplist = list_lines group_line"

text \<open>The server's date, or the local one, which is an argument. The characters after the code 111 are read
  whether they are there or not.\<close>

definition server_date :: "string \<Rightarrow> (connection, string) comm" where
  "server_date local_date =
     comm_bind (stdputline ''DATE'') (\<lambda>r c.
     if r = 111 then (if length (cn_cbuf c) < 4 then (Inl Crash, c) else (Inr (drop 4 (cn_cbuf c)), c))
     else (Inr local_date, c))"

text \<open>A date of less than six characters makes \<open>substr\<close> throw what nothing catches.\<close>

definition newgroups_command :: "string \<Rightarrow> string option" where
  "newgroups_command date =
     (if length date < 6 then None
      else Some (''NEWGROUPS '' @ take (length date - 6) date @ '' '' @ drop (length date - 6) date @ '' GMT''))"

definition nntp_dogrouplist :: "string \<Rightarrow> (list_session, unit) comm" where
  "nntp_dogrouplist local_date s =
     (let sid = sv_serverid (cn_server (ls_conn s)); (date, gl) = gl_getserverinfo sid (ls_list s)
      in comm_bind (on_list_conn (server_date local_date)) (\<lambda>newdate.
         comm_bind
           (if date \<noteq> [] then
              (case newgroups_command date of
                 None \<Rightarrow> comm_throw Crash
               | Some cmd \<Rightarrow> on_list_conn (comm_bind (stdputline cmd) chkreply))
            else on_list_conn (comm_bind (stdputline ''LIST'') chkreply)) (\<lambda>_.
         comm_bind nntp_dogetgrouplist (\<lambda>_.
         comm_modify (\<lambda>s. s\<lparr>ls_list := (ls_list s)\<lparr>gl_server_info := smap_put (gl_server_info (ls_list s)) sid newdate\<rparr>\<rparr>))))
         (s\<lparr>ls_list := gl\<rparr>))"

definition nntp_dogrouplist_wildmat :: "string \<Rightarrow> (list_session, unit) comm" where
  "nntp_dogrouplist_wildmat wildmat =
     comm_bind (on_list_conn (comm_bind (stdputline (''LIST ACTIVE '' @ wildmat)) chkreply)) (\<lambda>_. nntp_dogetgrouplist)"

definition nntp_dogroupdescriptions :: "string option \<Rightarrow> (list_session, unit) comm" where
  "nntp_dogroupdescriptions wildmat =
     comm_bind (on_list_conn (stdputline (''LIST NEWSGROUPS'' @ (case wildmat of Some w \<Rightarrow> '' '' @ w | None \<Rightarrow> [])))) (\<lambda>r.
     if reply_class r \<noteq> 2 then comm_return () else list_lines desc_line)"

section \<open>Commands and answers\<close>

text \<open>A command that is not answered by a request for authentication: one line out, one line in.\<close>

lemma stdputline_ok:
  assumes "cn_isopen c" "cn_wleft c = None" "cn_in c = a @ crlf @ rest" "clean_line a" "atoi a \<noteq> 450" "atoi a \<noteq> 480"
  shows "stdputline cmd c = (Inr (atoi a), c\<lparr>cn_out := cn_out c @ [cmd], cn_in := rest, cn_cbuf := a\<rparr>)"
  using getreply_line [of "c\<lparr>cn_out := cn_out c @ [cmd]\<rparr>" a rest] assms
  by (simp add: stdputline_def comm_bind_def doputline_ok comm_defs)

lemma stdputline_chkreply_ok:
  assumes "cn_isopen c" "cn_wleft c = None" "cn_in c = a @ crlf @ rest" "clean_line a" "reply_class (atoi a) = 2"
  shows "comm_bind (stdputline cmd) chkreply c = (Inr (atoi a), c\<lparr>cn_out := cn_out c @ [cmd], cn_in := rest, cn_cbuf := a\<rparr>)"
proof -
  have "atoi a \<noteq> 450" "atoi a \<noteq> 480" "atoi a \<noteq> 400"
    using assms(5) by (auto simp: reply_class_def signed_divide_int_def)
  then show ?thesis using stdputline_ok [OF assms(1-4)] assms(5) by (simp add: comm_bind_def chkreply_def comm_defs)
qed

text \<open>A line of the list: a name, and what may follow it.\<close>

definition group_line_ok :: "string \<times> string \<Rightarrow> bool" where
  "group_line_ok l \<longleftrightarrow> fst l \<noteq> [] \<and> (\<forall>c \<in> set (fst l). \<not> is_blank c) \<and> clean_line (fst l @ snd l) \<and>
     fst l @ snd l \<noteq> ''.'' \<and> (snd l = [] \<or> is_blank (hd (snd l)))"

lemma takeWhile_name: "group_line_ok l \<Longrightarrow> takeWhile (\<lambda>c. \<not> is_blank c) (fst l @ snd l) = fst l"
  by (cases "snd l") (auto simp: group_line_ok_def)

lemma group_lines_fold:
  "\<forall>l \<in> set ls. group_line_ok l \<Longrightarrow>
     body_fold (group_line sid) (List.map (\<lambda>l. fst l @ snd l) ls) gl = Some (foldl (\<lambda>gl l. gl_addgroup sid (fst l) gl) gl ls)"
  by (induction ls arbitrary: gl) (auto simp: group_line_def takeWhile_name)

lemma dogetgrouplist_ok:
  assumes "cn_isopen (ls_conn s)" "cn_in (ls_conn s) = wire (List.map (\<lambda>l. fst l @ snd l) ls @ [''.'']) @ rest"
    "\<forall>l \<in> set ls. group_line_ok l"
  shows "nntp_dogetgrouplist s = (Inr (), s\<lparr>ls_conn := (ls_conn s)\<lparr>cn_in := rest, cn_cbuf := ''.''\<rparr>,
    ls_list := foldl (\<lambda>gl l. gl_addgroup (sv_serverid (cn_server (ls_conn s))) (fst l) gl) (ls_list s) ls\<rparr>)"
proof -
  have lines: "\<forall>l \<in> set (List.map (\<lambda>l. fst l @ snd l) ls). clean_line l \<and> \<not> only_dot l"
    using assms(3) by (simp add: group_line_ok_def only_dot_def)
  have "line_loop only_dot (group_line (sv_serverid (cn_server (ls_conn s)))) (ls_list s) (ls_conn s) =
    (Ended, foldl (\<lambda>gl l. gl_addgroup (sv_serverid (cn_server (ls_conn s))) (fst l) gl) (ls_list s) ls,
     (ls_conn s)\<lparr>cn_in := rest, cn_cbuf := ''.''\<rparr>)"
    by (rule line_loop_lines [OF assms(1) _ lines])
      (simp_all add: assms(2) group_lines_fold [OF assms(3)] clean_line_def only_dot_def)
  then show ?thesis by (simp add: nntp_dogetgrouplist_def list_lines_def)
qed


text \<open>Property C26. Asking a server for its groups: the server's date is asked for first; a server that was never
  asked is asked for all groups, one that was for the groups that are new since then, with the date cut
  into day and time. Every group of the answer is entered for the server, and the new date is kept.\<close>

theorem grouplist_update:
  assumes "cn_isopen (ls_conn s)" "cn_wleft (ls_conn s) = None"
    and "cn_in (ls_conn s) = wire ((''111 '' @ newdate) # a # List.map (\<lambda>l. fst l @ snd l) ls @ [''.'']) @ rest"
    and "clean_line newdate" "clean_line a" "reply_class (atoi a) = 2" "\<forall>l \<in> set ls. group_line_ok l"
    and "sid = sv_serverid (cn_server (ls_conn s))"
    and "gl_getserverinfo sid (ls_list s) = (date, gl)" "date = [] \<or> 6 \<le> length date"
  shows "\<exists>s'. nntp_dogrouplist local_date s = (Inr (), s') \<and>
    cn_out (ls_conn s') = cn_out (ls_conn s) @ [''DATE'', if date = [] then ''LIST''
      else ''NEWGROUPS '' @ take (length date - 6) date @ '' '' @ drop (length date - 6) date @ '' GMT''] \<and>
    cn_in (ls_conn s') = rest \<and>
    ls_list s' = (let gl' = foldl (\<lambda>gl l. gl_addgroup sid (fst l) gl) gl ls
      in gl'\<lparr>gl_server_info := smap_put (gl_server_info gl') sid newdate\<rparr>)"
proof -
  let ?c = "ls_conn s" and ?s = "s\<lparr>ls_list := gl\<rparr>"
  let ?body = "wire (List.map (\<lambda>l. fst l @ snd l) ls @ [''.'']) @ rest"
  let ?c1 = "?c\<lparr>cn_out := cn_out ?c @ [''DATE''], cn_in := a @ crlf @ ?body, cn_cbuf := ''111 '' @ newdate\<rparr>"
  have d: "atoi (''111 '' @ newdate) = 111"
    by (simp add: atoi_def atol_def strtol10_def scan_num_def Let_def is_space_def is_digit_def dec_val_def digit_val_def int32_def)
  have "stdputline ''DATE'' ?c = (Inr (atoi (''111 '' @ newdate)), ?c1)"
    by (rule stdputline_ok) (use assms d in \<open>simp_all add: clean_line_def\<close>)
  then have 1: "on_list_conn (server_date local_date) ?s = (Inr newdate, ?s\<lparr>ls_conn := ?c1\<rparr>)"
    using d by (simp add: on_list_conn_def server_date_def comm_bind_def)
  define cmd where "cmd = (if date = [] then ''LIST''
      else ''NEWGROUPS '' @ take (length date - 6) date @ '' '' @ drop (length date - 6) date @ '' GMT'')"
  let ?c2 = "?c1\<lparr>cn_out := cn_out ?c1 @ [cmd], cn_in := ?body, cn_cbuf := a\<rparr>"
  have "comm_bind (stdputline cmd) chkreply ?c1 = (Inr (atoi a), ?c2)"
    by (rule stdputline_chkreply_ok) (use assms in simp_all)
  then have 2: "(if date \<noteq> [] then
              (case newgroups_command date of
                 None \<Rightarrow> comm_throw Crash
               | Some cmd \<Rightarrow> on_list_conn (comm_bind (stdputline cmd) chkreply))
            else on_list_conn (comm_bind (stdputline ''LIST'') chkreply)) (?s\<lparr>ls_conn := ?c1\<rparr>) =
      (Inr (atoi a), ?s\<lparr>ls_conn := ?c2\<rparr>)"
    using assms(10) by (auto simp: on_list_conn_def newgroups_command_def cmd_def)
  have 3: "nntp_dogetgrouplist (?s\<lparr>ls_conn := ?c2\<rparr>) = (Inr (), ?s\<lparr>ls_conn := ?c2\<lparr>cn_in := rest, cn_cbuf := ''.''\<rparr>,
      ls_list := foldl (\<lambda>gl l. gl_addgroup sid (fst l) gl) gl ls\<rparr>)"
    using dogetgrouplist_ok [of "?s\<lparr>ls_conn := ?c2\<rparr>" ls rest] assms(1,7,8) by simp
  have "nntp_dogrouplist local_date s = (Inr (), ?s\<lparr>ls_conn := ?c2\<lparr>cn_in := rest, cn_cbuf := ''.''\<rparr>,
      ls_list := (let gl' = foldl (\<lambda>gl l. gl_addgroup sid (fst l) gl) gl ls
        in gl'\<lparr>gl_server_info := smap_put (gl_server_info gl') sid newdate\<rparr>)\<rparr>)"
    unfolding nntp_dogrouplist_def Let_def assms(8) [symmetric] assms(9) prod.case
    by (simp only: comm_bind_def 1 2 3 prod.case sum.case) (simp add: comm_modify_def)
  then show ?thesis by (simp add: cmd_def)
qed

theorem grouplist_update_witness:
  "\<exists>s'. nntp_dogrouplist []
      \<lparr>ls_conn = example_conn 0 (wire [''111 20040101120000'', ''215 list'', ''a.b 9 1 y'', ''c'', ''.'']),
       ls_list = \<lparr>gl_filename = [], gl_saveit = False, gl_server_info = [(1, ''20031231235959'')], gl_groups = []\<rparr>\<rparr> = (Inr (), s') \<and>
    cn_out (ls_conn s') = [''DATE'', ''NEWGROUPS 20031231 235959 GMT''] \<and>
    gl_server_info (ls_list s') = [(1, ''20040101120000'')] \<and>
    List.map fst (gl_groups (ls_list s')) = [''a.b'', ''c'']"
proof -
  let ?gl = "\<lparr>gl_filename = [], gl_saveit = False, gl_server_info = [(1, ''20031231235959'')], gl_groups = []\<rparr>"
  let ?s = "\<lparr>ls_conn = example_conn 0 (wire [''111 20040101120000'', ''215 list'', ''a.b 9 1 y'', ''c'', ''.'']), ls_list = ?gl\<rparr>"
  have a: "reply_class (atoi ''215 list'') = 2" by code_simp
  have "\<exists>s'. nntp_dogrouplist [] ?s = (Inr (), s') \<and>
    cn_out (ls_conn s') = cn_out (ls_conn ?s) @ [''DATE'', if ''20031231235959'' = [] then ''LIST''
      else ''NEWGROUPS '' @ take (length ''20031231235959'' - 6) ''20031231235959'' @ '' '' @
        drop (length ''20031231235959'' - 6) ''20031231235959'' @ '' GMT''] \<and>
    cn_in (ls_conn s') = [] \<and>
    ls_list s' = (let gl' = foldl (\<lambda>gl l. gl_addgroup 1 (fst l) gl) ?gl [(''a.b'', '' 9 1 y''), (''c'', [])]
      in gl'\<lparr>gl_server_info := smap_put (gl_server_info gl') 1 ''20040101120000''\<rparr>)"
    by (rule grouplist_update [OF _ _ _ _ _ a])
      (simp_all add: example_conn_def connection_new_def clean_line_def group_line_ok_def is_blank_def TAB_def gl_getserverinfo_def)
  then show ?thesis
    by (auto simp: example_conn_def connection_new_def Let_def gl_addgroup_def gl_group_def group_avail_new_def numeral_eq_Suc)
qed

end
