(* ===== verification/Pool.thy ===== *)
theory Pool
  imports Conn
begin

text \<open>
  The pool of connections (\<open>class SockPool\<close>, \<open>class ConnectionHolder\<close>; \<open>sockpool.h\<close>, \<open>sockpool.cc\<close>): at most one
  connection for each server, kept for reuse, closed when idle or when another server needs the place. The
  map's keys are server pointers, that is indices. What the world does is an argument: the clock, what
  opening a socket gives and how many lines are waiting, all by the number of the use. A server is
  shared between the configuration and its connection; the configuration holds it, and the connection
  has a copy while it is in use. The lemmas: the bound on the number of connections is an invariant of all
  that can happen to the pool, and what using a connection does to the server's penalties.
\<close>

record pool =
  po_conns :: "(server_ptr \<times> connection) list"
  po_config :: nget_config
  po_uses :: nat

record world =
  w_now :: "nat \<Rightarrow> int"
  w_open :: "nat \<Rightarrow> server_ptr \<Rightarrow> sock_data option"
  w_waiting :: "nat \<Rightarrow> nat"

definition the_server :: "server_ptr \<Rightarrow> pool \<Rightarrow> server" where
  "the_server p st = servers (po_config st) ! p"

definition put_server :: "server_ptr \<Rightarrow> server \<Rightarrow> pool \<Rightarrow> pool" where
  "put_server p s st = st\<lparr>po_config := (po_config st)\<lparr>servers := (servers (po_config st))[p := s]\<rparr>\<rparr>"

definition put_conn :: "server_ptr \<Rightarrow> connection \<Rightarrow> pool \<Rightarrow> pool" where
  "put_conn p c st = st\<lparr>po_conns := smap_put (po_conns st) p c\<rparr>"

definition is_connected :: "pool \<Rightarrow> server_ptr \<Rightarrow> bool" where
  "is_connected st p \<longleftrightarrow> map_of (po_conns st) p \<noteq> None"

text \<open>Only a failure of the socket's own \<open>close\<close> is caught here. When \<open>QUIT\<close> cannot be written, the exception
  passes through and the entry stays, closed.\<close>

definition connection_erase :: "server_ptr \<Rightarrow> (pool, unit) comm" where
  "connection_erase p st =
     (case map_of (po_conns st) p of
        None \<Rightarrow> (Inl Crash, st)
      | Some c \<Rightarrow>
          (case cn_close c of
             (Inl e, c') \<Rightarrow> (Inl e, put_conn p c' st)
           | (Inr _, c') \<Rightarrow> (Inr (), st\<lparr>po_conns := smap_erase (po_conns st) p\<rparr>)))"

text \<open>The connection that makes place: the first that is closed, else the oldest, the first of equals.\<close>

fun oldest_connection :: "int \<Rightarrow> (server_ptr \<times> connection) option \<Rightarrow> (server_ptr \<times> connection) list \<Rightarrow> (server_ptr \<times> connection) option" where
  "oldest_connection now old [] = old"
| "oldest_connection now old ((p, c) # cs) =
     (if \<not> cn_isopen c then Some (p, c)
      else (case old of
              None \<Rightarrow> oldest_connection now (Some (p, c)) cs
            | Some (q, d) \<Rightarrow> oldest_connection now (if cn_age now c > cn_age now d then Some (p, c) else old) cs))"

definition expire_old_connection :: "int \<Rightarrow> (pool, unit) comm" where
  "expire_old_connection now st =
     (case oldest_connection now None (po_conns st) of
        None \<Rightarrow> (Inl Crash, st)
      | Some (p, c) \<Rightarrow> connection_erase p st)"

fun expire_loop :: "int \<Rightarrow> bool \<Rightarrow> server_ptr list \<Rightarrow> (pool, unit) comm" where
  "expire_loop now closeall [] st = (Inr (), st)"
| "expire_loop now closeall (p # ps) st =
     (case map_of (po_conns st) p of
        None \<Rightarrow> expire_loop now closeall ps st
      | Some c \<Rightarrow>
          if closeall \<or> \<not> cn_isopen c \<or> cn_age now c \<ge> sv_idletimeout (the_server p st)
          then comm_bind (connection_erase p) (\<lambda>_. expire_loop now closeall ps) st
          else expire_loop now closeall ps st)"

definition expire_connections :: "int \<Rightarrow> bool \<Rightarrow> (pool, unit) comm" where
  "expire_connections now closeall st = expire_loop now closeall (List.map fst (po_conns st)) st"

text \<open>Lines that are waiting on a connection that is to be reused are read and dropped.\<close>

fun drain :: "nat \<Rightarrow> connection \<Rightarrow> connection" where
  "drain 0 c = c"
| "drain (Suc n) c = (case getline c of (Inl _, c') \<Rightarrow> c' | (Inr _, c') \<Rightarrow> drain n c')"

definition open_connection :: "int \<Rightarrow> server_ptr \<Rightarrow> string \<Rightarrow> sock_data option \<Rightarrow> (pool, unit) comm" where
  "open_connection now p bindaddr sock st =
     (case sock of
        None \<Rightarrow> (Inl TransportExError, put_server p (snd (penalize (po_config st) now (the_server p st))) st)
      | Some d \<Rightarrow>
          (Inr (), st\<lparr>po_conns := smap_insert (po_conns st) p (cn_touch now (connection_new (the_server p st) bindaddr d))\<rparr>))"

text \<open>A new connection, after the server's penalty and the number of connections have been looked at.\<close>

definition fresh_connection :: "world \<Rightarrow> nat \<Rightarrow> server_ptr \<Rightarrow> string \<Rightarrow> (pool, unit) comm" where
  "fresh_connection w n p bindaddr st =
     (if check_penalized (po_config st) (w_now w n) (the_server p st) \<noteq> None then (Inl TransportExFatal, st)
      else
        comm_bind
          (\<lambda>st. if maxconnections (po_config st) > 0 \<and> int (length (po_conns st)) \<ge> maxconnections (po_config st)
                then expire_old_connection (w_now w n) st else (Inr (), st))
          (\<lambda>_. open_connection (w_now w n) p bindaddr (w_open w n p)) st)"

definition pool_connect :: "world \<Rightarrow> server_ptr \<Rightarrow> string \<Rightarrow> (pool, unit) comm" where
  "pool_connect w p bindaddr st0 =
     (let n = po_uses st0; st = st0\<lparr>po_uses := n + 1\<rparr>
      in case map_of (po_conns st0) p of
           None \<Rightarrow> fresh_connection w n p bindaddr st
         | Some c \<Rightarrow>
             (let c' = (if cn_isopen c then drain (w_waiting w n) c else c)
              in if cn_isopen c' \<and> cn_bindaddr c' = get_bindaddr (the_server p st) bindaddr
                 then (Inr (), put_conn p (cn_touch (w_now w n) c') st)
                 else comm_bind (connection_erase p) (\<lambda>_. fresh_connection w n p bindaddr) (put_conn p c' st)))"

definition pool_release :: "int \<Rightarrow> server_ptr \<Rightarrow> (pool, unit) comm" where
  "pool_release now p st =
     (case map_of (po_conns st) p of
        None \<Rightarrow> (Inl Crash, st)
      | Some c \<Rightarrow>
          (case (if cn_server_ok c then
                   (cn_isopen c, put_conn p (c\<lparr>cn_server_ok := False\<rparr>) (put_server p (unpenalize (the_server p st)) st))
                 else
                   (case penalize (po_config st) now (the_server p st) of
                      (b, s) \<Rightarrow> (cn_isopen c \<and> \<not> b, put_server p s st))) of
             (keepopen, st') \<Rightarrow>
               if keepopen then (Inr (), put_conn p (cn_touch now (the (map_of (po_conns st') p))) st')
               else connection_erase p st'))"

text \<open>A connection as \<open>ConnectionHolder\<close> holds it: it is acquired, idle ones are closed, the body runs, and it is
  released, whatever the body does. An exception of the release while another one is under way ends the
  program.\<close>

definition with_connection ::
  "world \<Rightarrow> server_ptr \<Rightarrow> string \<Rightarrow> (connection \<Rightarrow> 'x \<Rightarrow> (comm_ex + 'r) \<times> connection \<times> 'x) \<Rightarrow> 'x \<Rightarrow> pool \<Rightarrow>
   (comm_ex + 'r) \<times> 'x \<times> pool"
where
  "with_connection w p bindaddr body x st =
     (let now = w_now w (po_uses st)
      in case comm_bind (pool_connect w p bindaddr) (\<lambda>_. expire_connections now False) st of
           (Inl e, st1) \<Rightarrow> (Inl e, x, st1)
         | (Inr _, st1) \<Rightarrow>
             (case map_of (po_conns st1) p of
                None \<Rightarrow> (Inl Crash, x, st1)
              | Some c \<Rightarrow>
                  (case body (c\<lparr>cn_server := the_server p st1\<rparr>) x of
                     (r, c', x') \<Rightarrow>
                       (case pool_release (w_now w (po_uses st1)) p (put_conn p c' (put_server p (cn_server c') st1)) of
                          (Inl e, st2) \<Rightarrow> (case r of Inl _ \<Rightarrow> Inl Crash | Inr _ \<Rightarrow> Inl e, x', st2)
                        | (Inr _, st2) \<Rightarrow> (r, x', st2)))))"

section \<open>The bound on the number of connections\<close>

lemma length_smap_put:
  "smap_ok m \<Longrightarrow> length (smap_put m k v) = (if map_of m k = None then Suc (length m) else length m)"
  by (induction m k v rule: smap_put.induct) (auto simp: smap_ok_Cons map_of_eq_None_iff)

lemma length_smap_erase:
  "smap_ok m \<Longrightarrow> length (smap_erase m k) = (if map_of m k = None then length m else length m - 1)"
proof (induction m)
  case (Cons p m)
  then show ?case
    by (cases "m = []") (auto simp: smap_erase_def smap_ok_Cons map_of_eq_None_iff filter_id_conv neq_Nil_conv
        dest!: less_imp_neq split: if_splits)
qed (simp add: smap_erase_def)

definition pool_ok :: "pool \<Rightarrow> bool" where
  "pool_ok st \<longleftrightarrow> smap_ok (po_conns st) \<and>
     (0 < maxconnections (po_config st) \<longrightarrow> int (length (po_conns st)) \<le> maxconnections (po_config st))"

text \<open>What every operation keeps.\<close>

definition pool_keeps :: "pool \<Rightarrow> pool \<Rightarrow> bool" where
  "pool_keeps st st' \<longleftrightarrow> pool_ok st' \<and> maxconnections (po_config st') = maxconnections (po_config st)"

lemma pool_keeps_refl: "pool_ok st \<Longrightarrow> pool_keeps st st"
  by (simp add: pool_keeps_def)

lemma pool_keeps_trans: "pool_keeps a b \<Longrightarrow> pool_keeps b c \<Longrightarrow> pool_keeps a c"
  by (simp add: pool_keeps_def)

lemma pool_keeps_ok: "pool_keeps a b \<Longrightarrow> pool_ok b"
  by (simp add: pool_keeps_def)

lemma put_conn_keeps: "pool_ok st \<Longrightarrow> is_connected st p \<Longrightarrow> pool_keeps st (put_conn p c st)"
  by (auto simp: pool_keeps_def pool_ok_def put_conn_def is_connected_def length_smap_put smap_ok_put)

lemma put_server_keeps: "pool_ok st \<Longrightarrow> pool_keeps st (put_server p s st)"
  by (simp add: pool_keeps_def pool_ok_def put_server_def)

lemma put_server_connected: "is_connected (put_server p s st) = is_connected st"
  by (simp add: is_connected_def put_server_def fun_eq_iff)

lemma erase_keeps:
  assumes "pool_ok st" "connection_erase p st = (r, st')"
  shows "pool_keeps st st' \<and> length (po_conns st') \<le> length (po_conns st) \<and>
    (r = Inr () \<longrightarrow> length (po_conns st') < length (po_conns st) \<and> \<not> is_connected st' p)"
proof (cases "map_of (po_conns st) p")
  case None
  then show ?thesis using assms by (auto simp: connection_erase_def pool_keeps_refl)
next
  case (Some c)
  obtain m c' where m: "cn_close c = (m, c')" by (cases "cn_close c")
  have ok: "smap_ok (po_conns st)" using assms(1) by (simp add: pool_ok_def)
  show ?thesis
  proof (cases m)
    case (Inl e)
    then have "r = Inl e" "st' = put_conn p c' st" using assms(2) Some m by (auto simp: connection_erase_def)
    then show ?thesis using put_conn_keeps [OF assms(1), of p c'] Some ok
      by (simp add: is_connected_def) (simp add: put_conn_def length_smap_put)
  next
    case (Inr u)
    then have s: "st' = st\<lparr>po_conns := smap_erase (po_conns st) p\<rparr>" using assms(2) Some m by (auto simp: connection_erase_def)
    have "po_conns st \<noteq> []" using Some by auto
    then have l: "length (smap_erase (po_conns st) p) < length (po_conns st)"
      using length_smap_erase [OF ok, of p] Some by simp
    then show ?thesis using s ok assms(1)
      by (auto simp: pool_keeps_def pool_ok_def smap_ok_erase is_connected_def map_of_smap_erase)
  qed
qed

lemma expire_old_keeps:
  assumes "pool_ok st" "expire_old_connection now st = (r, st')"
  shows "pool_keeps st st' \<and> (r = Inr () \<longrightarrow> length (po_conns st') < length (po_conns st))"
  using assms erase_keeps [OF assms(1)]
  by (auto simp: expire_old_connection_def pool_keeps_refl split: option.splits)

lemma expire_loop_keeps:
  "pool_ok st \<Longrightarrow> expire_loop now closeall ps st = (r, st') \<Longrightarrow> pool_keeps st st'"
proof (induction now closeall ps st rule: expire_loop.induct)
  case (1 now closeall st)
  then show ?case by (simp add: pool_keeps_refl)
next
  case (2 now closeall p ps st)
  show ?case
  proof (cases "\<exists>c. map_of (po_conns st) p = Some c \<and> (closeall \<or> \<not> cn_isopen c \<or> cn_age now c \<ge> sv_idletimeout (the_server p st))")
    case False
    then show ?thesis using 2 by (auto split: option.splits if_splits)
  next
    case True
    then obtain c where c: "map_of (po_conns st) p = Some c" "closeall \<or> \<not> cn_isopen c \<or> cn_age now c \<ge> sv_idletimeout (the_server p st)"
      by blast
    obtain m st1 where e: "connection_erase p st = (m, st1)" by (cases "connection_erase p st")
    have k: "pool_keeps st st1" using erase_keeps [OF 2(4) e] by blast
    show ?thesis
    proof (cases m)
      case (Inl x)
      then show ?thesis using 2(5) c e k by (simp add: comm_bind_def)
    next
      case (Inr u)
      then have l: "expire_loop now closeall ps st1 = (r, st')" using 2(5) c e by (simp add: comm_bind_def)
      have "pool_keeps st1 st'" by (rule 2(2) [OF c pool_keeps_ok [OF k] l])
      then show ?thesis using k pool_keeps_trans by blast
    qed
  qed
qed

lemma open_keeps:
  assumes "pool_ok st" "0 < maxconnections (po_config st) \<Longrightarrow> int (length (po_conns st)) < maxconnections (po_config st)"
    "open_connection now p bindaddr sock st = (r, st')"
  shows "pool_keeps st st'"
proof (cases sock)
  case None
  then show ?thesis using assms(1,3) put_server_keeps by (auto simp: open_connection_def)
next
  case (Some d)
  have s: "smap_ok (po_conns st)" using assms(1) by (simp add: pool_ok_def)
  have "int (length (smap_insert (po_conns st) p c)) \<le> int (length (po_conns st)) + 1" for c
    by (simp add: smap_insert_def length_smap_put [OF s])
  moreover have "st' = st\<lparr>po_conns := smap_insert (po_conns st) p (cn_touch now (connection_new (the_server p st) bindaddr d))\<rparr>"
    using assms(3) Some by (auto simp: open_connection_def)
  ultimately show ?thesis
    using assms(2) s smap_ok_insert [OF s]
    by (auto simp: pool_keeps_def pool_ok_def) (smt (verit))
qed

lemma uses_keeps: "pool_ok st \<Longrightarrow> pool_keeps st (st\<lparr>po_uses := n\<rparr>)"
  by (simp add: pool_keeps_def pool_ok_def)

text \<open>Binding keeps what its parts keep.\<close>

lemma bind_keeps:
  assumes "comm_bind m f st = (r, st')" "\<And>x st1. m st = (x, st1) \<Longrightarrow> pool_keeps st st1"
    "\<And>x st1. m st = (Inr x, st1) \<Longrightarrow> f x st1 = (r, st') \<Longrightarrow> pool_keeps st1 st'"
  shows "pool_keeps st st'"
proof (cases "m st")
  case (Pair x st1)
  then show ?thesis using assms pool_keeps_trans by (cases x) (auto simp: comm_bind_def)
qed

lemma fresh_keeps:
  assumes "pool_ok st" "fresh_connection w n p bindaddr st = (r, st')"
  shows "pool_keeps st st'"
proof (cases "check_penalized (po_config st) (w_now w n) (the_server p st) \<noteq> None")
  case True
  then show ?thesis using assms by (auto simp: fresh_connection_def pool_keeps_refl)
next
  case False
  let ?m = "\<lambda>st. if maxconnections (po_config st) > 0 \<and> int (length (po_conns st)) \<ge> maxconnections (po_config st)
                then expire_old_connection (w_now w n) st else (Inr (), st)"
  have b: "comm_bind ?m (\<lambda>_. open_connection (w_now w n) p bindaddr (w_open w n p)) st = (r, st')"
    using assms(2) False by (simp add: fresh_connection_def)
  have k: "pool_keeps st st1" if "?m st = (x, st1)" for x st1
    using that expire_old_keeps [OF assms(1)] assms(1) by (auto simp: pool_keeps_refl split: if_splits)
  show ?thesis
  proof (rule bind_keeps [OF b])
    show "pool_keeps st st1" if "?m st = (x, st1)" for x st1 by (rule k [OF that])
    show "pool_keeps st1 st'" if m: "?m st = (Inr x, st1)"
      and o: "open_connection (w_now w n) p bindaddr (w_open w n p) st1 = (r, st')" for x st1
    proof (rule open_keeps [OF pool_keeps_ok [OF k [OF m]] _ o])
      assume mx: "0 < maxconnections (po_config st1)"
      have "maxconnections (po_config st1) = maxconnections (po_config st)" using k [OF m] by (simp add: pool_keeps_def)
      then show "int (length (po_conns st1)) < maxconnections (po_config st1)"
        using m mx expire_old_keeps [OF assms(1)] assms(1)
        by (auto simp: pool_ok_def not_le split: if_splits dest: order_less_le_trans)
    qed
  qed
qed

lemma connect_keeps:
  assumes "pool_ok st" "pool_connect w p bindaddr st = (r, st')"
  shows "pool_keeps st st'"
proof -
  let ?n = "po_uses st" and ?st = "st\<lparr>po_uses := po_uses st + 1\<rparr>"
  have u: "pool_keeps st ?st" by (rule uses_keeps [OF assms(1)])
  note ok = pool_keeps_ok [OF u]
  show ?thesis
  proof (cases "map_of (po_conns st) p")
    case None
    then have "fresh_connection w ?n p bindaddr ?st = (r, st')"
      using assms(2) by (simp add: pool_connect_def Let_def)
    then show ?thesis using fresh_keeps [OF ok] u pool_keeps_trans by blast
  next
    case (Some c)
    define c' where "c' = (if cn_isopen c then drain (w_waiting w ?n) c else c)"
    have i: "is_connected ?st p" using Some by (simp add: is_connected_def)
    have k: "pool_keeps st (put_conn p d ?st)" for d
      using put_conn_keeps [OF ok i] u pool_keeps_trans by blast
    show ?thesis
    proof (cases "cn_isopen c' \<and> cn_bindaddr c' = get_bindaddr (the_server p ?st) bindaddr")
      case True
      then show ?thesis using assms(2) Some k by (auto simp: pool_connect_def Let_def c'_def)
    next
      case False
      then have b: "comm_bind (connection_erase p) (\<lambda>_. fresh_connection w ?n p bindaddr) (put_conn p c' ?st) = (r, st')"
        using assms(2) Some by (auto simp: pool_connect_def Let_def c'_def)
      have "pool_keeps (put_conn p c' ?st) st'"
      proof (rule bind_keeps [OF b])
        show e: "pool_keeps (put_conn p c' ?st) st1" if "connection_erase p (put_conn p c' ?st) = (x, st1)" for x st1
          using erase_keeps [OF pool_keeps_ok [OF k] that] by blast
        show "pool_keeps st1 st'" if "connection_erase p (put_conn p c' ?st) = (Inr x, st1)"
          and f: "fresh_connection w ?n p bindaddr st1 = (r, st')" for x st1
          by (rule fresh_keeps [OF pool_keeps_ok [OF e [OF that(1)]] f])
      qed
      then show ?thesis using k pool_keeps_trans by blast
    qed
  qed
qed

lemma release_keeps:
  assumes "pool_ok st" "pool_release now p st = (r, st')"
  shows "pool_keeps st st'"
proof (cases "map_of (po_conns st) p")
  case None
  then show ?thesis using assms by (simp add: pool_release_def pool_keeps_refl)
next
  case (Some c)
  obtain keepopen st1 where s1: "(if cn_server_ok c then
       (cn_isopen c, put_conn p (c\<lparr>cn_server_ok := False\<rparr>) (put_server p (unpenalize (the_server p st)) st))
     else (case penalize (po_config st) now (the_server p st) of (b, s) \<Rightarrow> (cn_isopen c \<and> \<not> b, put_server p s st))) = (keepopen, st1)"
    by (metis surj_pair)
  have i: "is_connected st p" using Some by (simp add: is_connected_def)
  have k: "pool_keeps st (put_server p s st)" for s by (rule put_server_keeps [OF assms(1)])
  have kk: "pool_keeps st (put_conn p d (put_server p s st))" for d s
    using put_conn_keeps [OF pool_keeps_ok [OF k]] i k pool_keeps_trans by (metis put_server_connected)
  have k1: "pool_keeps st st1 \<and> is_connected st1 p"
    using s1 k kk i assms(1)
    by (auto simp: put_server_connected is_connected_def put_conn_def map_of_smap_put pool_ok_def put_server_def
        split: if_splits prod.splits)
  show ?thesis
  proof (cases keepopen)
    case True
    then have "st' = put_conn p (cn_touch now (the (map_of (po_conns st1) p))) st1"
      using assms(2) Some s1 by (simp add: pool_release_def)
    then show ?thesis using put_conn_keeps [OF pool_keeps_ok] k1 pool_keeps_trans by metis
  next
    case False
    then have "connection_erase p st1 = (r, st')" using assms(2) Some s1 by (simp add: pool_release_def)
    then show ?thesis using erase_keeps [OF pool_keeps_ok] k1 pool_keeps_trans by metis
  qed
qed

section \<open>What can happen to the pool\<close>

text \<open>The steps: the operations, what a user does to a connection it holds, and to the server behind it.\<close>

inductive pool_step :: "world \<Rightarrow> pool \<Rightarrow> pool \<Rightarrow> bool" for w where
  step_connect: "pool_connect w p bindaddr st = (r, st') \<Longrightarrow> pool_step w st st'"
| step_use: "is_connected st p \<Longrightarrow> pool_step w st (put_conn p c st)"
| step_server: "pool_step w st (put_server p s st)"
| step_release: "pool_release now p st = (r, st') \<Longrightarrow> pool_step w st st'"
| step_expire: "expire_connections now closeall st = (r, st') \<Longrightarrow> pool_step w st st'"

lemma step_keeps: "pool_step w st st' \<Longrightarrow> pool_ok st \<Longrightarrow> pool_keeps st st'"
  by (induction rule: pool_step.induct)
    (auto simp: expire_connections_def intro: connect_keeps put_conn_keeps put_server_keeps release_keeps expire_loop_keeps)

lemma steps_keep: "(pool_step w)\<^sup>*\<^sup>* st st' \<Longrightarrow> pool_ok st \<Longrightarrow> pool_keeps st st'"
proof (induction rule: rtranclp_induct)
  case base
  then show ?case by (rule pool_keeps_refl)
next
  case (step a b)
  then show ?case using step_keeps pool_keeps_ok pool_keeps_trans by metis
qed

text \<open>Holding a connection is a sequence of steps.\<close>

lemma with_connection_steps:
  assumes "with_connection w p bindaddr body x st = (r, x', st')"
  shows "(pool_step w)\<^sup>*\<^sup>* st st'"
proof -
  obtain m st1 where m: "comm_bind (pool_connect w p bindaddr) (\<lambda>_. expire_connections (w_now w (po_uses st)) False) st = (m, st1)"
    by (cases "comm_bind (pool_connect w p bindaddr) (\<lambda>_. expire_connections (w_now w (po_uses st)) False) st")
  have 1: "(pool_step w)\<^sup>*\<^sup>* st st1"
  proof (cases "pool_connect w p bindaddr st")
    case (Pair a st0)
    then have "pool_step w st st0" by (rule step_connect)
    moreover have "st0 = st1 \<or> pool_step w st0 st1"
      using m Pair by (cases a) (auto simp: comm_bind_def intro: step_expire)
    ultimately show ?thesis by auto
  qed
  show ?thesis
  proof (cases "\<exists>u c. m = Inr u \<and> map_of (po_conns st1) p = Some c")
    case False
    then show ?thesis using assms m 1 by (cases m) (auto simp: with_connection_def Let_def split: option.splits)
  next
    case True
    then obtain u c where c: "m = Inr u" "map_of (po_conns st1) p = Some c" by blast
    obtain r1 c1 x1 where b: "body (c\<lparr>cn_server := the_server p st1\<rparr>) x = (r1, c1, x1)" by (metis prod_cases3)
    let ?st2 = "put_server p (cn_server c1) st1"
    obtain q st3 where q: "pool_release (w_now w (po_uses st1)) p (put_conn p c1 ?st2) = (q, st3)"
      by (cases "pool_release (w_now w (po_uses st1)) p (put_conn p c1 ?st2)")
    have "pool_step w st1 ?st2" by (rule step_server)
    moreover have "pool_step w ?st2 (put_conn p c1 ?st2)"
      using c(2) by (intro step_use) (simp add: put_server_connected is_connected_def)
    moreover have "pool_step w (put_conn p c1 ?st2) st3" using q by (rule step_release)
    moreover have "st' = st3"
      using assms m c b q by (auto simp: with_connection_def Let_def split: sum.splits)
    ultimately show ?thesis using 1 by auto
  qed
qed

section \<open>Properties\<close>

text \<open>Property C27. From an empty pool on, whatever the servers send and whenever sockets fail: no server has more
  than one connection, and there are never more connections than \<open>maxconnections\<close> allows. Holding a
  connection while a command sequence runs on it is such a course of events.\<close>

theorem pool_bounded:
  assumes "po_conns st0 = []" "(pool_step w)\<^sup>*\<^sup>* st0 st" "with_connection w p bindaddr body x st = (r, x', st')"
  shows "(pool_step w)\<^sup>*\<^sup>* st0 st' \<and> distinct (List.map fst (po_conns st')) \<and>
    (0 < maxconnections (po_config st0) \<longrightarrow> int (length (po_conns st')) \<le> maxconnections (po_config st0))"
proof -
  have s: "(pool_step w)\<^sup>*\<^sup>* st0 st'" using assms(2) with_connection_steps [OF assms(3)] by (rule rtranclp_trans)
  have "pool_keeps st0 st'" by (rule steps_keep [OF s]) (simp add: pool_ok_def assms(1))
  then show ?thesis using s by (auto simp: pool_keeps_def pool_ok_def smap_ok_distinct)
qed

text \<open>Once the connection is there, its release settles the server's account: a command sequence
  that succeeded, or failed in a way a good server may fail, clears the server's failures; any other
  counts as a failure, whether an exception was thrown or not. The connection is kept exactly when it is
  still open and the server is not penalized for it.\<close>

theorem release_settles:
  assumes "map_of (po_conns st) p = Some c" "smap_ok (po_conns st)" "p < length (servers (po_config st))"
    and "pool_release now p st = (Inr (), st')"
  shows "(the_server p st' = (if cn_server_ok c then unpenalize (the_server p st)
       else snd (penalize (po_config st) now (the_server p st)))) \<and>
    (is_connected st' p \<longleftrightarrow> cn_isopen c \<and> (cn_server_ok c \<or> \<not> fst (penalize (po_config st) now (the_server p st)))) \<and>
    (\<forall>d. map_of (po_conns st') p = Some d \<longrightarrow> \<not> cn_server_ok d \<and> cn_age now d = 0)"
proof -
  obtain b s where pen: "penalize (po_config st) now (the_server p st) = (b, s)" by fastforce
  have erased: "\<not> is_connected st' p \<and> po_config st' = po_config st1"
    if "connection_erase p st1 = (Inr (), st')" for st1
    using that by (auto simp: connection_erase_def is_connected_def map_of_smap_erase split: option.splits prod.splits sum.splits)
  show ?thesis
  proof (cases "cn_server_ok c")
    case True
    let ?st1 = "put_conn p (c\<lparr>cn_server_ok := False\<rparr>) (put_server p (unpenalize (the_server p st)) st)"
    show ?thesis
    proof (cases "cn_isopen c")
      case o: True
      have "st' = put_conn p (cn_touch now (the (map_of (po_conns ?st1) p))) ?st1"
        using assms(1,4) True o by (simp add: pool_release_def)
      then show ?thesis using True o assms(2,3)
        by (auto simp: put_conn_def put_server_def the_server_def is_connected_def map_of_smap_put smap_ok_put
            cn_touch_def cn_age_def)
    next
      case o: False
      then have "connection_erase p ?st1 = (Inr (), st')" using assms(1,4) True by (simp add: pool_release_def)
      then show ?thesis using erased True o assms(3)
        by (auto simp: the_server_def put_conn_def put_server_def is_connected_def)
    qed
  next
    case False
    let ?st1 = "put_server p s st"
    show ?thesis
    proof (cases "cn_isopen c \<and> \<not> b")
      case o: True
      have "st' = put_conn p (cn_touch now c) ?st1"
        using assms(1,4) False o pen by (simp add: pool_release_def put_server_def)
      then show ?thesis using False o assms(2,3) pen
        by (auto simp: put_conn_def put_server_def the_server_def is_connected_def map_of_smap_put cn_touch_def cn_age_def)
    next
      case o: False
      then have "connection_erase p ?st1 = (Inr (), st')" using assms(1,4) False pen by (auto simp: pool_release_def)
      then show ?thesis using erased False o assms(3) pen
        by (auto simp: the_server_def put_server_def is_connected_def)
    qed
  qed
qed

text \<open>When a command sequence fails on a connection that is still open and the server is to be
  penalized for it, and \<open>QUIT\<close> cannot be written any more, the exception of the write escapes from the
  release while the first one is under way, which ends the program.\<close>

theorem failed_quit_crashes:
  assumes "comm_bind (pool_connect w p bindaddr) (\<lambda>_. expire_connections (w_now w (po_uses st)) False) st = (Inr (), st1)"
    and "map_of (po_conns st1) p = Some c" "body (c\<lparr>cn_server := the_server p st1\<rparr>) x = (Inl e, c', x')"
    and "cn_isopen c'" "cn_wleft c' = Some 0" "\<not> cn_server_ok c'" "smap_ok (po_conns st1)" "p < length (servers (po_config st1))"
    and "0 < penaltystrikes (po_config st1)" "penaltystrikes (po_config st1) \<le> penalty_count (cn_server c') + 1"
  shows "fst (with_connection w p bindaddr body x st) = Inl Crash"
proof -
  let ?st2 = "put_conn p c' (put_server p (cn_server c') st1)"
  have m: "map_of (po_conns ?st2) p = Some c'"
    using assms(7) by (simp add: put_conn_def put_server_def map_of_smap_put)
  have sp: "the_server p ?st2 = cn_server c'" using assms(8) by (simp add: the_server_def put_conn_def put_server_def)
  have cl: "cn_close c' = (Inl TransportExError, cn_close_fast c')"
    using assms(4,5) by (simp add: cn_close_def comm_bind_def doputline_def)
  have rel: "\<exists>st3. pool_release now p ?st2 = (Inl TransportExError, st3)" for now
  proof -
    obtain b s where pen: "penalize (po_config ?st2) now (cn_server c') = (b, s)" by fastforce
    have b: "b" using pen assms(9,10) by (auto simp: penalize_def Let_def put_conn_def put_server_def split: if_splits)
    have "map_of (po_conns (put_server p s ?st2)) p = Some c'" using m by (simp add: put_server_def)
    then have "connection_erase p (put_server p s ?st2) = (Inl TransportExError, put_conn p (cn_close_fast c') (put_server p s ?st2))"
      by (simp add: connection_erase_def cl)
    then show ?thesis using m assms(6) pen b by (simp add: pool_release_def sp)
  qed
  obtain st3 where "pool_release (w_now w (po_uses st1)) p ?st2 = (Inl TransportExError, st3)" using rel by blast
  then show ?thesis using assms(1-3) by (simp add: with_connection_def Let_def)
qed

section \<open>Examples\<close>

definition example_pool :: pool where
  "example_pool =
     \<lparr>po_conns = [], po_config = nget_config_new\<lparr>servers := [example_server], maxconnections := 1, penaltystrikes := 1\<rparr>, po_uses = 0\<rparr>"

text \<open>A world in which a socket can be opened once, sends one line, and can be written to \<open>n\<close> times.\<close>

definition example_world :: "nat \<Rightarrow> world" where
  "example_world n =
     \<lparr>w_now = \<lambda>k. 1000 + 100 * int k, w_open = \<lambda>k p. if k = 0 then Some (''200 hi'' @ [CHR 0x0A], False, Some n) else None,
      w_waiting = \<lambda>_. 0\<rparr>"

definition read_greeting :: "connection \<Rightarrow> nat \<Rightarrow> (comm_ex + unit) \<times> connection \<times> nat" where
  "read_greeting c n = (case getline c of (Inl e, c') \<Rightarrow> (Inl e, c', n) | (Inr k, c') \<Rightarrow> (Inl ProtocolExError, c', k))"

lemmas pool_eval = with_connection_def Let_def comm_bind_def pool_connect_def fresh_connection_def check_penalized_def
  open_connection_def expire_connections_def example_pool_def example_world_def connection_new_def smap_insert_def
  the_server_def cn_touch_def cn_age_def

lemma example_acquired:
  "comm_bind (pool_connect (example_world n) 0 []) (\<lambda>_. expire_connections 1000 False) example_pool =
     (Inr (), example_pool\<lparr>po_uses := 1, po_conns := [(0, cn_touch 1000 (connection_new example_server [] (''200 hi'' @ [CHR 0x0A], False, Some n)))]\<rparr>)"
  by (simp add: pool_eval example_server_def)

theorem pool_bounded_witness:
  "length (po_conns (snd (snd (with_connection (example_world 0) 0 [] read_greeting 0 example_pool)))) \<le> 1"
proof -
  obtain r x' st' where w: "with_connection (example_world 0) 0 [] read_greeting 0 example_pool = (r, x', st')"
    by (metis prod_cases3)
  have "po_conns example_pool = []" by (simp add: example_pool_def)
  from pool_bounded [OF this rtranclp.rtrancl_refl w] have "int (length (po_conns st')) \<le> 1" by (auto simp: example_pool_def)
  then show ?thesis using w by simp
qed

definition example_held :: "bool \<Rightarrow> pool" where
  "example_held ok = example_pool\<lparr>po_conns :=
     [(0, (connection_new (example_server\<lparr>penalty_count := 1\<rparr>) [] ([], False, None))\<lparr>cn_server_ok := ok\<rparr>)]\<rparr>"

theorem release_settles_witness:
  "penalty_count (the_server 0 (snd (pool_release 1700 0 (example_held True)))) = 0 \<and>
   is_connected (snd (pool_release 1700 0 (example_held True))) 0"
proof -
  obtain st' where r: "pool_release 1700 0 (example_held True) = (Inr (), st')"
    by (auto simp: pool_release_def example_held_def connection_new_def)
  have "map_of (po_conns (example_held True)) 0 =
      Some ((connection_new (example_server\<lparr>penalty_count := 1\<rparr>) [] ([], False, None))\<lparr>cn_server_ok := True\<rparr>)"
    "smap_ok (po_conns (example_held True))" "0 < length (servers (po_config (example_held True)))"
    by (simp_all add: example_held_def example_pool_def smap_ok_Cons)
  from release_settles [OF this r] show ?thesis by (simp add: r unpenalize_def connection_new_def)
qed

theorem failed_quit_crashes_witness:
  "fst (with_connection (example_world 0) 0 [] read_greeting 0 example_pool) = Inl Crash"
proof -
  let ?c = "cn_touch 1000 (connection_new example_server [] (''200 hi'' @ [CHR 0x0A], False, Some 0))"
  let ?st1 = "example_pool\<lparr>po_uses := 1, po_conns := [(0, ?c)]\<rparr>"
  have a: "comm_bind (pool_connect (example_world 0) 0 [])
      (\<lambda>_. expire_connections (w_now (example_world 0) (po_uses example_pool)) False) example_pool = (Inr (), ?st1)"
    using example_acquired [of 0] by (simp add: example_pool_def example_world_def)
  have b: "map_of (po_conns ?st1) 0 = Some ?c" by simp
  have c: "read_greeting (?c\<lparr>cn_server := the_server 0 ?st1\<rparr>) 0 =
      (Inl ProtocolExError, ?c\<lparr>cn_server := the_server 0 ?st1, cn_in := [], cn_cbuf := ''200 hi''\<rparr>, 7)"
    by (simp add: read_greeting_def getline_def cn_touch_def connection_new_def)
  show ?thesis
    by (rule failed_quit_crashes [where body = read_greeting and x = 0, OF a b c])
      (simp_all add: cn_touch_def connection_new_def smap_ok_Cons the_server_def example_pool_def nget_config_new_def example_server_def)
qed

end
