(* ===== verification/Retry.thy ===== *)
theory Retry
  imports NntpList Pool CacheIO
begin

text \<open>
  Asking the servers (\<open>prot_nntp.cc\<close>): which servers, in which order, how often, and what is reported; the
  update of a group's cache, the search in a group, the update of the list of groups and the search in it.
  The state is the one of \<open>class c_prot_nntp\<close> with the pool of connections, the status counters and the
  files. One clock reading serves a whole command; the pauses between the rounds are left out. The lemmas:
  how often each server is asked, for any way of asking, and what is kept of the cache, the pool and the
  status whatever the servers answer.
\<close>

section \<open>Servers in turn\<close>

text \<open>Connected servers first: each is put before those found so far.\<close>

definition nntp_simple_prioritize :: "pool \<Rightarrow> server_ptr option \<Rightarrow> prio_grouping \<Rightarrow> server_ptr list" where
  "nntp_simple_prioritize st force_host priogroup =
     (case force_host of
        Some p \<Rightarrow> [p]
      | None \<Rightarrow>
          foldl (\<lambda>doservers (sid, p).
             if getserverpriority priogroup p \<ge> defglevel priogroup
             then (if is_connected st p then p # doservers else doservers @ [p]) else doservers)
            [] (serv (po_config st)))"

text \<open>One round: a server that answered, and one that failed fatally, is taken from the list.\<close>

fun servers_pass :: "(server_ptr \<Rightarrow> ('s, unit) comm) \<Rightarrow> server_ptr list \<Rightarrow> ('s, server_ptr list) comm" where
  "servers_pass ask [] st = (Inr [], st)"
| "servers_pass ask (p # ps) st =
     (case ask p st of
        (Inr _, st') \<Rightarrow> servers_pass ask ps st'
      | (Inl e, st') \<Rightarrow>
          if e = Crash then (Inl Crash, st')
          else if isfatal e then servers_pass ask ps st'
          else (case servers_pass ask ps st' of
                  (Inr left, st'') \<Rightarrow> (Inr (p # left), st'')
                | (Inl e', st'') \<Rightarrow> (Inl e', st'')))"

text \<open>The rounds: the number is \<open>maxretry - redone\<close>.\<close>

fun servers_rounds :: "(server_ptr \<Rightarrow> ('s, unit) comm) \<Rightarrow> nat \<Rightarrow> server_ptr list \<Rightarrow> ('s, server_ptr list) comm" where
  "servers_rounds ask 0 doservers = comm_return doservers"
| "servers_rounds ask (Suc n) doservers =
     (if doservers = [] then comm_return [] else comm_bind (servers_pass ask doservers) (servers_rounds ask n))"

definition on_server ::
  "world \<Rightarrow> string \<Rightarrow> (connection \<Rightarrow> 'x \<Rightarrow> (comm_ex + unit) \<times> connection \<times> 'x) \<Rightarrow> server_ptr \<Rightarrow> (pool \<times> 'x, unit) comm" where
  "on_server w bindaddr body p s =
     (case with_connection w p bindaddr body (snd s) (fst s) of (r, x, st) \<Rightarrow> (r, (st, x)))"

definition report_servers :: "status_type \<Rightarrow> int \<Rightarrow> int \<Rightarrow> status \<Rightarrow> status" where
  "report_servers ty attempted succeeded st =
     (if succeeded \<noteq> 0 then set_ok_status ty 1 (set_warn_status ty (attempted - succeeded) st)
      else set_error_status ty 1 st)"

section \<open>The state of the protocol handler\<close>

record nntp =
  nn_pool :: pool
  nn_force_host :: "server_ptr option"
  nn_group :: "group_ptr option"
  nn_midinfo :: "meta_mid_info option"
  nn_cache :: "cache option"
  nn_multiserver :: bool
  nn_glist :: "grouplist option"
  nn_status :: status
  nn_files :: "string \<Rightarrow> string option"

text \<open>The options the handler looks at.\<close>

record nntp_options =
  no_maxretry :: int
  no_bindaddr :: string
  no_fullxover :: int
  no_cachehome :: string

text \<open>All records of fetched messages are saved, each merged with its file first: the warnings and the files.\<close>

definition mmi_save :: "meta_mid_info \<Rightarrow> nat \<times> (string \<Rightarrow> string option) \<Rightarrow> nat \<times> (string \<Rightarrow> string option)" where
  "mmi_save mm acc =
     foldl (\<lambda>(w, fs) (g, m). (w + (if changed m \<and> mi_file m \<noteq> [] then fst (mi_merge fs m) else 0), snd (mi_save fs m)))
       acc mm"

definition mmi_warnings :: "bool \<Rightarrow> string \<Rightarrow> (string \<Rightarrow> string option) \<Rightarrow> string list \<Rightarrow> nat" where
  "mmi_warnings gz path fs gs =
     (\<Sum>g \<leftarrow> gs. fst (mi_load gz (path @ g @ '',midinfo'') fs \<lparr>mi_file = [], changed = False, states = []\<rparr>))"

definition cache_warnings :: "nat \<Rightarrow> status \<Rightarrow> status" where
  "cache_warnings n st = set_warn_status ST_cache (int n) st"

definition cleanupcache :: "nntp \<Rightarrow> nntp" where
  "cleanupcache s =
     (let fs1 = (case nn_cache s of None \<Rightarrow> nn_files s | Some c \<Rightarrow> cache_save c (nn_files s));
          (n, fs2) = (case nn_midinfo s of None \<Rightarrow> (0, fs1) | Some mm \<Rightarrow> mmi_save mm (0, fs1))
      in s\<lparr>nn_cache := None, nn_midinfo := None, nn_files := fs2, nn_status := cache_warnings n (nn_status s)\<rparr>)"

definition use_midinfo :: "nntp_options \<Rightarrow> group_ptr list \<Rightarrow> nntp \<Rightarrow> nntp" where
  "use_midinfo opts gs s =
     (let cfg = po_config (nn_pool s); names = List.map (\<lambda>g. gi_group (ginfos cfg ! g)) gs; gz = (usegz cfg \<noteq> 0)
      in s\<lparr>nn_midinfo := Some (mmi_new gz (no_cachehome opts) (nn_files s) names),
           nn_status := cache_warnings (mmi_warnings gz (no_cachehome opts) (nn_files s) names) (nn_status s)\<rparr>)"

definition use_cache :: "nntp_options \<Rightarrow> int \<Rightarrow> group_ptr \<Rightarrow> nntp \<Rightarrow> nntp" where
  "use_cache opts now g s =
     (case cache_load (po_config (nn_pool s)) now (no_cachehome opts) g (nn_files s) (the (nn_midinfo s)) of
        (c, n, mm) \<Rightarrow>
          s\<lparr>nn_cache := Some c, nn_midinfo := Some mm, nn_status := cache_warnings n (nn_status s)\<rparr>)"

section \<open>Groups\<close>

text \<open>What the commands on a group change.\<close>

record group_work =
  gw_cache :: cache
  gw_midinfo :: meta_mid_info
  gw_status :: status
  gw_succeeded :: int

text \<open>A command sequence in the block of a \<open>ConnectionHolder\<close>: when it gets through it is counted, and the
  server is found to work.\<close>

definition in_session :: "(session, unit) comm \<Rightarrow> connection \<Rightarrow> group_work \<Rightarrow> (comm_ex + unit) \<times> connection \<times> group_work" where
  "in_session m c x =
     (case m \<lparr>ns_conn = c, ns_cache = gw_cache x, ns_midinfo = gw_midinfo x, ns_status = gw_status x\<rparr> of
        (r, s) \<Rightarrow>
          (let x' = \<lparr>gw_cache = ns_cache s, gw_midinfo = ns_midinfo s, gw_status = ns_status s, gw_succeeded = gw_succeeded x\<rparr>
           in case r of
                Inl e \<Rightarrow> (Inl e, ns_conn s, x')
              | Inr _ \<Rightarrow> (Inr (), (ns_conn s)\<lparr>cn_server_ok := True\<rparr>, x'\<lparr>gw_succeeded := gw_succeeded x + 1\<rparr>)))"

definition update_group ::
  "regex_subs \<Rightarrow> clock \<Rightarrow> nget_config \<Rightarrow> group_ptr \<Rightarrow> int \<Rightarrow> (session, unit) comm" where
  "update_group rx ck nconfig g fullxover =
     comm_bind (on_conn nntp_doopen) (\<lambda>_. nntp_dogroup rx ck nconfig g True fullxover)"

fun doxpats :: "(string \<times> string) list \<Rightarrow> rlist \<Rightarrow> ulong \<Rightarrow> ulong \<Rightarrow> (connection, rlist) comm" where
  "doxpats [] r low high = comm_return r"
| "doxpats ((field, wildmat) # pats) r low high =
     comm_bind (doxpat r field wildmat low high) (\<lambda>r'. doxpats pats r' low high)"

definition search_group ::
  "regex_subs \<Rightarrow> clock \<Rightarrow> nget_config \<Rightarrow> group_ptr \<Rightarrow> (string \<times> string) list \<Rightarrow> (session, unit) comm" where
  "search_group rx ck nconfig g pats =
     comm_bind (on_conn (comm_bind nntp_doopen (\<lambda>_. comm_bind (select_group nconfig g) (\<lambda>(num, low, high).
       doxpats pats [] low high)))) (doxover rx ck g)"

definition group_from_servers :: "world \<Rightarrow> nntp_options \<Rightarrow> group_ptr \<Rightarrow> (session, unit) comm \<Rightarrow> (nntp, unit) comm" where
  "group_from_servers w opts g m s =
     (case (getpriogrouping (po_config (nn_pool s)) (gi_prio (ginfos (po_config (nn_pool s)) ! g)), nn_cache s, nn_midinfo s) of
        (Some pg, Some c, Some mm) \<Rightarrow>
          (let doservers = nntp_simple_prioritize (nn_pool s) (nn_force_host s) pg
           in case servers_rounds (on_server w (no_bindaddr opts) (in_session m)) (nat (no_maxretry opts)) doservers
                     (nn_pool s, \<lparr>gw_cache = c, gw_midinfo = mm, gw_status = nn_status s, gw_succeeded = 0\<rparr>) of
                (r, (st, x)) \<Rightarrow>
                  (let s' = s\<lparr>nn_pool := st, nn_cache := Some (gw_cache x), nn_midinfo := Some (gw_midinfo x),
                              nn_status := gw_status x\<rparr>
                   in case r of
                        Inl e \<Rightarrow> (Inl e, s')
                      | Inr _ \<Rightarrow>
                          (Inr (), s'\<lparr>nn_status := report_servers ST_group (int (length doservers)) (gw_succeeded x) (gw_status x),
                                      nn_multiserver := ismultiserver (gw_cache x)\<rparr>)))
      | _ \<Rightarrow> (Inl Crash, s))"

definition nntp_xgroup ::
  "world \<Rightarrow> regex_subs \<Rightarrow> clock \<Rightarrow> nntp_options \<Rightarrow> group_ptr \<Rightarrow> (string \<times> string) list \<Rightarrow> (nntp, unit) comm" where
  "nntp_xgroup w rx ck opts g pats s =
     group_from_servers w opts g (search_group rx ck (po_config (nn_pool s)) g pats) s"

definition nntp_group ::
  "world \<Rightarrow> regex_subs \<Rightarrow> clock \<Rightarrow> nntp_options \<Rightarrow> group_ptr \<Rightarrow> bool \<Rightarrow> (nntp, unit) comm" where
  "nntp_group w rx ck opts g getheaders s =
     (if nn_group s = Some g \<and> nn_cache s \<noteq> None \<and> \<not> getheaders then (Inr (), s)
      else
        (let s1 = use_cache opts (ck_now ck) g (use_midinfo opts [g] (cleanupcache (s\<lparr>nn_group := Some g\<rparr>)))
         in if getheaders
            then group_from_servers w opts g (update_group rx ck (po_config (nn_pool s1)) g (no_fullxover opts)) s1
            else (Inr (), s1\<lparr>nn_multiserver := ismultiserver (the (nn_cache s1))\<rparr>)))"

section \<open>The list of groups\<close>

record list_work =
  lw_list :: grouplist
  lw_succeeded :: int

definition in_list_session ::
  "(list_session, unit) comm \<Rightarrow> connection \<Rightarrow> list_work \<Rightarrow> (comm_ex + unit) \<times> connection \<times> list_work" where
  "in_list_session m c x =
     (case m \<lparr>ls_conn = c, ls_list = lw_list x\<rparr> of
        (Inl e, s) \<Rightarrow> (Inl e, ls_conn s, x\<lparr>lw_list := ls_list s\<rparr>)
      | (Inr _, s) \<Rightarrow>
          (Inr (), (ls_conn s)\<lparr>cn_server_ok := True\<rparr>, x\<lparr>lw_list := ls_list s, lw_succeeded := lw_succeeded x + 1\<rparr>))"

definition update_list :: "string \<Rightarrow> (list_session, unit) comm" where
  "update_list local_date =
     comm_bind (on_list_conn nntp_doopen) (\<lambda>_.
     comm_bind (nntp_dogrouplist local_date) (\<lambda>_. nntp_dogroupdescriptions None))"

fun search_list :: "string list \<Rightarrow> (list_session, unit) comm" where
  "search_list [] = comm_return ()"
| "search_list (wildmat # pats) =
     comm_bind (nntp_dogrouplist_wildmat wildmat) (\<lambda>_.
     comm_bind (nntp_dogroupdescriptions (Some wildmat)) (\<lambda>_. search_list pats))"

definition list_priogrouping :: "nget_config \<Rightarrow> prio_grouping option" where
  "list_priogrouping nconfig =
     (case getpriogrouping nconfig ''_grouplist'' of
        Some pg \<Rightarrow> Some pg | None \<Rightarrow> getpriogrouping nconfig ''default'')"

definition list_from_servers :: "world \<Rightarrow> nntp_options \<Rightarrow> (list_session, unit) comm \<Rightarrow> (nntp, unit) comm" where
  "list_from_servers w opts m s =
     (case (list_priogrouping (po_config (nn_pool s)), nn_glist s) of
        (Some pg, Some gl) \<Rightarrow>
          (let doservers = nntp_simple_prioritize (nn_pool s) (nn_force_host s) pg
           in case servers_rounds (on_server w (no_bindaddr opts) (in_list_session m)) (nat (no_maxretry opts)) doservers
                     (nn_pool s, \<lparr>lw_list = gl, lw_succeeded = 0\<rparr>) of
                (r, (st, x)) \<Rightarrow>
                  (let s' = s\<lparr>nn_pool := st, nn_glist := Some (lw_list x)\<rparr>
                   in case r of
                        Inl e \<Rightarrow> (Inl e, s')
                      | Inr _ \<Rightarrow>
                          (Inr (), s'\<lparr>nn_status :=
                             report_servers ST_grouplist (int (length doservers)) (lw_succeeded x) (nn_status s)\<rparr>)))
      | _ \<Rightarrow> (Inl Crash, s))"

text \<open>A list that is replaced is saved.\<close>

definition drop_list :: "nntp \<Rightarrow> nntp" where
  "drop_list s =
     (case nn_glist s of None \<Rightarrow> s | Some gl \<Rightarrow> s\<lparr>nn_glist := None, nn_files := gl_save gl (nn_files s)\<rparr>)"

definition load_list :: "nntp_options \<Rightarrow> nntp \<Rightarrow> nntp" where
  "load_list opts s =
     (case nn_glist s of
        Some _ \<Rightarrow> s
      | None \<Rightarrow>
          (case gl_load (po_config (nn_pool s)) (no_cachehome opts @ ''newsgroups'') (nn_files s) of
             (gl, n) \<Rightarrow> s\<lparr>nn_glist := Some gl, nn_status := cache_warnings n (nn_status s)\<rparr>))"

definition nntp_grouplist :: "world \<Rightarrow> string \<Rightarrow> nntp_options \<Rightarrow> bool \<Rightarrow> (nntp, unit) comm" where
  "nntp_grouplist w local_date opts update s =
     (let s1 = load_list opts s
      in if update then list_from_servers w opts (update_list local_date) s1 else (Inr (), s1))"

definition nntp_xgrouplist :: "world \<Rightarrow> nntp_options \<Rightarrow> string list \<Rightarrow> (nntp, unit) comm" where
  "nntp_xgrouplist w opts wildmats s =
     list_from_servers w opts (comm_bind (on_list_conn nntp_doopen) (\<lambda>_. search_list wildmats))
       ((drop_list s)\<lparr>nn_glist := Some \<lparr>gl_filename = [], gl_saveit = False, gl_server_info = [], gl_groups = []\<rparr>\<rparr>)"

text \<open>The output of the searches.\<close>

definition nntp_grouplist_search ::
  "nntp_options \<Rightarrow> (group_avail \<Rightarrow> bool) list \<Rightarrow> nntp \<Rightarrow> string \<times> nntp" where
  "nntp_grouplist_search opts getinfos s =
     (case nn_glist s of
        Some gl \<Rightarrow> (gl_printinfos (po_config (nn_pool s)) getinfos gl, s)
      | None \<Rightarrow>
          (case nntp_grouplist_printinfos (po_config (nn_pool s)) (no_cachehome opts) (nn_files s) getinfos of
             (out, n) \<Rightarrow> (out, s\<lparr>nn_status := cache_warnings n (nn_status s)\<rparr>)))"

definition nntp_grouplist_xsearch ::
  "world \<Rightarrow> nntp_options \<Rightarrow> (group_avail \<Rightarrow> bool) list \<Rightarrow> string list \<Rightarrow> (nntp, string) comm" where
  "nntp_grouplist_xsearch w opts getinfos wildmats =
     comm_bind (nntp_xgrouplist w opts wildmats) (\<lambda>_.
     comm_gets (\<lambda>s. gl_printinfos (po_config (nn_pool s)) getinfos (the (nn_glist s))))"

section \<open>How often each server is asked\<close>

text \<open>The same way of asking, which also writes down who was asked and what came of it.\<close>

definition logged ::
  "(server_ptr \<Rightarrow> ('s, unit) comm) \<Rightarrow> server_ptr \<Rightarrow> ('s \<times> (server_ptr \<times> (comm_ex + unit)) list, unit) comm" where
  "logged ask p st = (case ask p (fst st) of (r, s) \<Rightarrow> (r, (s, snd st @ [(p, r)])))"

definition outcomes :: "server_ptr \<Rightarrow> (server_ptr \<times> (comm_ex + unit)) list \<Rightarrow> (comm_ex + unit) list" where
  "outcomes p lg = List.map snd (filter (\<lambda>e. fst e = p) lg)"

definition settled :: "comm_ex + unit \<Rightarrow> bool" where
  "settled r \<longleftrightarrow> (case r of Inl e \<Rightarrow> isfatal e | Inr _ \<Rightarrow> True)"

text \<open>Outcomes of a server asked at most \<open>n\<close> times: all but the last are failures that may pass, and when
  the last is one too, there were \<open>n\<close>.\<close>

definition tried :: "nat \<Rightarrow> (comm_ex + unit) list \<Rightarrow> bool" where
  "tried n rs \<longleftrightarrow> rs \<noteq> [] \<and> length rs \<le> n \<and> (\<forall>r \<in> set (butlast rs). \<not> settled r) \<and> (settled (last rs) \<or> length rs = n)"

lemma outcomes_append: "outcomes p (a @ b) = outcomes p a @ outcomes p b"
  by (simp add: outcomes_def)

lemma outcomes_none: "p \<notin> fst ` set l \<Longrightarrow> outcomes p l = []"
  by (induction l) (auto simp: outcomes_def)

lemma pass_logged:
  "servers_pass (logged ask) ps (s, lg) = (Inr left, (s', lg')) \<Longrightarrow> distinct ps \<Longrightarrow>
     \<exists>l. lg' = lg @ l \<and> fst ` set l = set ps \<and> set left \<subseteq> set ps \<and> distinct left \<and>
       (\<forall>p \<in> set ps. \<exists>r. outcomes p l = [r] \<and> (p \<in> set left \<longleftrightarrow> \<not> settled r))"
proof (induction ps arbitrary: s lg left)
  case Nil
  then show ?case by simp
next
  case (Cons q ps)
  obtain r s1 where a: "ask q s = (r, s1)" by (cases "ask q s")
  then have lq: "logged ask q (s, lg) = (r, (s1, lg @ [(q, r)]))" by (simp add: logged_def)
  have "\<exists>left1. servers_pass (logged ask) ps (s1, lg @ [(q, r)]) = (Inr left1, (s', lg')) \<and>
      left = (if settled r then left1 else q # left1)"
    using Cons.prems(1) lq by (auto simp: settled_def split: sum.splits if_splits prod.splits)
  then obtain left1 where l1: "servers_pass (logged ask) ps (s1, lg @ [(q, r)]) = (Inr left1, (s', lg'))"
    "left = (if settled r then left1 else q # left1)" by blast
  obtain l where l: "lg' = (lg @ [(q, r)]) @ l" "fst ` set l = set ps" "set left1 \<subseteq> set ps" "distinct left1"
    "\<forall>p \<in> set ps. \<exists>r. outcomes p l = [r] \<and> (p \<in> set left1 \<longleftrightarrow> \<not> settled r)"
    using Cons.IH [OF l1(1)] Cons.prems(2) by auto
  have q: "outcomes q ((q, r) # l) = [r]" using outcomes_none [of q l] l(2) Cons.prems(2) by (simp add: outcomes_def)
  have p: "outcomes p ((q, r) # l) = outcomes p l" if "p \<in> set ps" for p
    using that Cons.prems(2) by (auto simp: outcomes_def)
  show ?case
  proof (intro exI [of _ "(q, r) # l"] conjI ballI)
    show "\<exists>r'. outcomes p ((q, r) # l) = [r'] \<and> (p \<in> set left \<longleftrightarrow> \<not> settled r')" if "p \<in> set (q # ps)" for p
    proof (cases "p = q")
      case True
      then show ?thesis using q l(3) l1(2) Cons.prems(2) by (intro exI [of _ r]) auto
    next
      case False
      then have "p \<in> set ps" using that by simp
      then show ?thesis using p l(5) l1(2) False by auto
    qed
  qed (use l l1(2) Cons.prems(2) in auto)
qed

lemma rounds_logged:
  "servers_rounds (logged ask) n ps (s, lg) = (Inr left, (s', lg')) \<Longrightarrow> distinct ps \<Longrightarrow>
     \<exists>l. lg' = lg @ l \<and> fst ` set l \<subseteq> set ps \<and> set left \<subseteq> set ps \<and>
       (0 < n \<longrightarrow> (\<forall>p \<in> set ps. tried n (outcomes p l) \<and> (p \<in> set left \<longleftrightarrow> \<not> settled (last (outcomes p l)))))"
proof (induction n arbitrary: ps s lg)
  case 0
  then show ?case by (auto simp: comm_return_def)
next
  case (Suc n)
  show ?case
  proof (cases "ps = []")
    case True
    then show ?thesis using Suc.prems by (auto simp: comm_return_def)
  next
    case False
    then obtain left1 s1 lg1 where p1: "servers_pass (logged ask) ps (s, lg) = (Inr left1, (s1, lg1))"
      and r1: "servers_rounds (logged ask) n left1 (s1, lg1) = (Inr left, (s', lg'))"
      using Suc.prems(1) by (auto simp: comm_bind_def split: prod.splits sum.splits)
    obtain l1 where l1: "lg1 = lg @ l1" "fst ` set l1 = set ps" "set left1 \<subseteq> set ps" "distinct left1"
      "\<forall>p \<in> set ps. \<exists>r. outcomes p l1 = [r] \<and> (p \<in> set left1 \<longleftrightarrow> \<not> settled r)"
      using pass_logged [OF p1 Suc.prems(2)] by blast
    obtain l where l: "lg' = lg1 @ l" "fst ` set l \<subseteq> set left1" "set left \<subseteq> set left1"
      "0 < n \<longrightarrow> (\<forall>p \<in> set left1. tried n (outcomes p l) \<and> (p \<in> set left \<longleftrightarrow> \<not> settled (last (outcomes p l))))"
      using Suc.IH [OF r1 l1(4)] by blast
    have "tried (Suc n) (outcomes p (l1 @ l)) \<and> (p \<in> set left \<longleftrightarrow> \<not> settled (last (outcomes p (l1 @ l))))"
      if p: "p \<in> set ps" for p
    proof -
      obtain r where r: "outcomes p l1 = [r]" "p \<in> set left1 \<longleftrightarrow> \<not> settled r" using l1(5) p by blast
      show ?thesis
      proof (cases "p \<in> set left1")
        case False
        then have "outcomes p l = []" using outcomes_none l(2) by blast
        then show ?thesis using r False l(3) by (auto simp: outcomes_append tried_def)
      next
        case True
        show ?thesis
        proof (cases "n = 0")
          case True
          then have "left = left1" "l = []" using r1 l(1) by (auto simp: comm_return_def)
          then show ?thesis using r True \<open>p \<in> set left1\<close> by (simp add: outcomes_append tried_def outcomes_def)
        next
          case n: False
          then have t: "tried n (outcomes p l)" "p \<in> set left \<longleftrightarrow> \<not> settled (last (outcomes p l))" using l(4) True by auto
          then have "outcomes p l \<noteq> []" by (simp add: tried_def)
          then show ?thesis using t r True by (auto simp: outcomes_append tried_def)
        qed
      qed
    qed
    then show ?thesis using l1 l by (intro exI [of _ "l1 @ l"]) auto
  qed
qed

section \<open>The order of the servers\<close>

lemma prioritize_fold:
  "foldl (\<lambda>ds (sid, p). if Q p then (if C p then p # ds else ds @ [p]) else ds) ds sps =
     rev (filter (\<lambda>p. Q p \<and> C p) (List.map snd sps)) @ ds @ filter (\<lambda>p. Q p \<and> \<not> C p) (List.map snd sps)"
  by (induction sps arbitrary: ds) auto

section \<open>Properties\<close>

text \<open>Property C23. Whatever asking a server does: no other than the given servers are asked; each is asked until
  it has answered or has failed fatally, after that never again, and at most \<open>maxretry\<close> times; those that
  are left at the end are the ones that failed every time.\<close>

theorem servers_asked:
  assumes "servers_rounds (logged ask) n doservers (s, []) = (Inr left, (s', lg))" "distinct doservers" "0 < n"
  shows "fst ` set lg \<subseteq> set doservers \<and> set left \<subseteq> set doservers \<and>
    (\<forall>p \<in> set doservers. tried n (outcomes p lg) \<and> (p \<in> set left \<longleftrightarrow> \<not> settled (last (outcomes p lg))))"
  using rounds_logged [OF assms(1,2)] assms(3) by auto

theorem servers_asked_witness:
  "\<exists>left s' lg. servers_rounds (logged (\<lambda>p k. (if p = 0 then Inl TransportExError else if p = 1 then Inl ProtocolExFatal
      else if k < (3 :: nat) then Inl ProtocolExError else Inr (), k + 1))) 3 [0, 1, 2] (0, []) = (Inr left, (s', lg)) \<and>
    left = [0] \<and> tried 3 (outcomes 2 lg) \<and> settled (last (outcomes 2 lg))"
proof -
  let ?ask = "\<lambda>p k. (if p = 0 then Inl TransportExError else if p = 1 then Inl ProtocolExFatal
      else if k < (3 :: nat) then Inl ProtocolExError else Inr (), k + 1)"
  obtain s' lg where r: "servers_rounds (logged ?ask) 3 [0, 1, 2] (0, []) = (Inr [0 :: nat], (s', lg))"
    by (simp add: logged_def numeral_3_eq_3 comm_bind_def comm_return_def)
  from servers_asked [OF r] have "tried 3 (outcomes 2 lg)" "settled (last (outcomes 2 lg))" by auto
  then show ?thesis using r by blast
qed

text \<open>Without a forced server, the servers asked are those of the configuration whose priority for
  the group is at least the group's level, each as often as it is configured; the connected ones come
  first, in reverse order, then the others in the order of the configuration.\<close>

theorem prioritized_servers:
  "nntp_simple_prioritize st None pg =
     rev (filter (\<lambda>p. getserverpriority pg p \<ge> defglevel pg \<and> is_connected st p) (List.map snd (serv (po_config st)))) @
     filter (\<lambda>p. getserverpriority pg p \<ge> defglevel pg \<and> \<not> is_connected st p) (List.map snd (serv (po_config st)))"
  unfolding nntp_simple_prioritize_def option.case
  using prioritize_fold [of "\<lambda>p. getserverpriority pg p \<ge> defglevel pg" "is_connected st" "[]" "serv (po_config st)"]
  by simp

text \<open>What a command on several servers reports: with at least one success the error flags stay as
  they are, and the servers that did not answer are counted as warnings; without any, the error flag of
  the command is set, in the exit status, too.\<close>

theorem servers_reported:
  "get_exit_status (report_servers ty attempted succeeded st) =
     (if succeeded \<noteq> 0 then get_exit_status st else or (get_exit_status st) (status_bit error_bits ty))"
  by (simp add: report_servers_def get_exit_status_def set_error_status_def set_ok_status_def set_warn_status_def)

section \<open>What every server keeps\<close>

text \<open>What one attempt keeps, whatever comes of it, all the attempts keep.\<close>

locale server_command =
  fixes ask :: "server_ptr \<Rightarrow> ('s, unit) comm" and inv :: "'s \<Rightarrow> bool"
  assumes ask_keeps: "inv s \<Longrightarrow> ask p s = (r, s') \<Longrightarrow> inv s'"
begin

lemma pass_keeps: "inv s \<Longrightarrow> servers_pass ask ps s = (r, s') \<Longrightarrow> inv s'"
proof (induction ps arbitrary: s r s')
  case (Cons p ps)
  obtain m s1 where a: "ask p s = (m, s1)" by (cases "ask p s")
  have i: "inv s1" by (rule ask_keeps [OF Cons.prems(1) a])
  obtain m2 s2 where p: "servers_pass ask ps s1 = (m2, s2)" by (cases "servers_pass ask ps s1")
  have "inv s2" by (rule Cons.IH [OF i p])
  then show ?case using Cons.prems(2) a p i by (auto split: sum.splits if_splits)
qed simp

lemma rounds_keep: "inv s \<Longrightarrow> servers_rounds ask n ps s = (r, s') \<Longrightarrow> inv s'"
proof (induction n arbitrary: ps s r s')
  case (Suc n)
  obtain m s1 where p: "servers_pass ask ps s = (m, s1)" by (cases "servers_pass ask ps s")
  have "inv s1" by (rule pass_keeps [OF Suc.prems(1) p])
  then show ?case using Suc p by (cases m) (auto simp: comm_bind_def comm_return_def split: if_splits)
qed (simp add: comm_return_def)

end

text \<open>Holding a connection keeps the bound of the pool and what the command sequence keeps.\<close>

lemma with_connection_keeps:
  assumes "pool_ok st" "Q x" "\<And>c x r c' x'. Q x \<Longrightarrow> body c x = (r, c', x') \<Longrightarrow> Q x'"
    and "with_connection w p bindaddr body x st = (r, x', st')"
  shows "pool_ok st' \<and> Q x'"
proof -
  have "pool_ok st'" using steps_keep [OF with_connection_steps [OF assms(4)] assms(1)] pool_keeps_ok by blast
  moreover have "x' = x \<or> (\<exists>c m c'. body c x = (m, c', x'))"
    using assms(4) by (auto simp: with_connection_def Let_def split: prod.splits sum.splits option.splits)
  ultimately show ?thesis using assms(2,3) by metis
qed

definition maxheaders_ok :: "nget_config \<Rightarrow> bool" where
  "maxheaders_ok nconfig \<longleftrightarrow> maxheaders nconfig = - 1 \<or> (0 :: ulong) < of_int (maxheaders nconfig)"

text \<open>The cache stays in order when the limit on headers makes sense.\<close>

definition group_inv :: "nget_config \<Rightarrow> pool \<times> group_work \<Rightarrow> bool" where
  "group_inv nconfig s \<longleftrightarrow> pool_ok (fst s) \<and> (maxheaders_ok nconfig \<longrightarrow> cache_inv False (gw_cache (snd s)))"

lemma on_server_group:
  assumes "\<And>s r s'. maxheaders_ok nconfig \<Longrightarrow> cache_inv False (ns_cache s) \<Longrightarrow> m s = (r, s') \<Longrightarrow> cache_inv False (ns_cache s')"
    and "group_inv nconfig s" "on_server w bindaddr (in_session m) p s = (r, s')"
  shows "group_inv nconfig s'"
proof -
  obtain x' st' where w: "with_connection w p bindaddr (in_session m) (snd s) (fst s) = (r, x', st')" "s' = (st', x')"
    using assms(3) by (auto simp: on_server_def split: prod.splits)
  let ?Q = "\<lambda>x. maxheaders_ok nconfig \<longrightarrow> cache_inv False (gw_cache x)"
  have q: "?Q x1" if x: "?Q x" "in_session m c x = (r1, c1, x1)" for c x r1 c1 x1
  proof -
    let ?s = "\<lparr>ns_conn = c, ns_cache = gw_cache x, ns_midinfo = gw_midinfo x, ns_status = gw_status x\<rparr>"
    obtain r2 s2 where m: "m ?s = (r2, s2)" by (cases "m ?s")
    then have "gw_cache x1 = ns_cache s2" using x(2) by (cases r2) (auto simp: in_session_def Let_def)
    then show ?thesis using assms(1) [OF _ _ m] x(1) by simp
  qed
  have "pool_ok (fst s)" "?Q (snd s)" using assms(2) by (simp_all add: group_inv_def)
  then show ?thesis using with_connection_keeps [where Q = ?Q, OF _ _ q w(1)] w(2) by (simp add: group_inv_def)
qed

lemma on_conn_then:
  assumes "comm_bind (on_conn m) f s = (r, s')" "P (ns_cache s)"
    and "\<And>x s1 r s'. P (ns_cache s1) \<Longrightarrow> f x s1 = (r, s') \<Longrightarrow> P (ns_cache s')"
  shows "P (ns_cache s')"
proof -
  obtain r1 c where m: "m (ns_conn s) = (r1, c)" by (cases "m (ns_conn s)")
  show ?thesis
  proof (cases r1)
    case (Inl e)
    then show ?thesis using assms(1,2) m by (auto simp: comm_bind_def on_conn_def)
  next
    case (Inr x)
    then have "f x (s\<lparr>ns_conn := c\<rparr>) = (r, s')" using assms(1) m by (simp add: comm_bind_def on_conn_def)
    then show ?thesis by (rule assms(3) [rotated]) (simp add: assms(2))
  qed
qed

interpretation updates: server_command "on_server w bindaddr (in_session (update_group rx ck nconfig g fullxover))" "group_inv nconfig"
  for w bindaddr rx ck nconfig g fullxover
proof
  have "cache_inv False (ns_cache s')"
    if "maxheaders_ok nconfig" "cache_inv False (ns_cache s)" "update_group rx ck nconfig g fullxover s = (r, s')" for s r s'
    using that(3) unfolding update_group_def
    by (rule on_conn_then [where P = "cache_inv False", OF _ that(2)])
      (use that(1) dogroup_only only_server_inv in \<open>unfold maxheaders_ok_def, blast\<close>)
  then show "group_inv nconfig s'" if "group_inv nconfig s"
    "on_server w bindaddr (in_session (update_group rx ck nconfig g fullxover)) p s = (r, s')" for p s r s'
    using on_server_group that by blast
qed

interpretation searches: server_command "on_server w bindaddr (in_session (search_group rx ck nconfig g pats))" "group_inv nconfig"
  for w bindaddr rx ck nconfig g pats
proof
  have "cache_inv False (ns_cache s')"
    if "cache_inv False (ns_cache s)" "search_group rx ck nconfig g pats s = (r, s')" for s r s'
    using that(2) unfolding search_group_def
    by (rule on_conn_then [where P = "cache_inv False", OF _ that(1)])
      (use doxover_grows cache_grows_def in blast)
  then show "group_inv nconfig s'" if "group_inv nconfig s"
    "on_server w bindaddr (in_session (search_group rx ck nconfig g pats)) p s = (r, s')" for p s r s'
    using on_server_group that by blast
qed

text \<open>Property C24. A group is updated from all its servers, with any number of retries: whatever sockets open
  and whatever the servers send, the files, parts and counts of the cache stay in order when they were in
  order after loading, the pool stays within its bounds, and the group is selected.\<close>

theorem group_any_servers:
  assumes "nntp_group w rx ck opts g True s = (r, s')" "pool_ok (nn_pool s)" "maxheaders_ok (po_config (nn_pool s))"
    and "nn_cache (use_cache opts (ck_now ck) g (use_midinfo opts [g] (cleanupcache (s\<lparr>nn_group := Some g\<rparr>)))) = Some c"
      "cache_inv False c"
  shows "nn_group s' = Some g \<and> pool_ok (nn_pool s') \<and> (\<exists>c'. nn_cache s' = Some c' \<and> cache_inv False c')"
proof -
  let ?s1 = "use_cache opts (ck_now ck) g (use_midinfo opts [g] (cleanupcache (s\<lparr>nn_group := Some g\<rparr>)))"
  let ?cfg = "po_config (nn_pool s)"
  have pool: "nn_pool ?s1 = nn_pool s" and grp: "nn_group ?s1 = Some g"
    by (simp_all add: use_cache_def use_midinfo_def cleanupcache_def Let_def split: prod.splits)
  have u: "group_from_servers w opts g (update_group rx ck ?cfg g (no_fullxover opts)) ?s1 = (r, s')"
    using assms(1) pool by (simp add: nntp_group_def Let_def)
  show ?thesis
  proof (cases "\<exists>pg mm. getpriogrouping ?cfg (gi_prio (ginfos ?cfg ! g)) = Some pg \<and> nn_midinfo ?s1 = Some mm")
    case False
    then have "s' = ?s1" using u pool assms(4) by (auto simp: group_from_servers_def split: option.splits)
    then show ?thesis using assms(2,4,5) pool grp by simp
  next
    case True
    then obtain pg mm where pm: "getpriogrouping ?cfg (gi_prio (ginfos ?cfg ! g)) = Some pg" "nn_midinfo ?s1 = Some mm" by blast
    let ?x = "\<lparr>gw_cache = c, gw_midinfo = mm, gw_status = nn_status ?s1, gw_succeeded = 0\<rparr>"
    let ?ds = "nntp_simple_prioritize (nn_pool s) (nn_force_host ?s1) pg"
    obtain m st x where R: "servers_rounds (on_server w (no_bindaddr opts) (in_session (update_group rx ck ?cfg g (no_fullxover opts))))
        (nat (no_maxretry opts)) ?ds (nn_pool s, ?x) = (m, (st, x))" by (metis prod_cases3)
    have "group_inv ?cfg (nn_pool s, ?x)" using assms(2,5) by (simp add: group_inv_def)
    from updates.rounds_keep [OF this R] have k: "pool_ok st" "cache_inv False (gw_cache x)"
      using assms(3) by (simp_all add: group_inv_def)
    have "nn_pool s' = st" "nn_cache s' = Some (gw_cache x)" "nn_group s' = Some g"
      using u R pm assms(4) grp pool by (cases m; auto simp: group_from_servers_def Let_def)+
    then show ?thesis using k by simp
  qed
qed

definition example_nntp :: nntp where
  "example_nntp =
     \<lparr>nn_pool = example_pool\<lparr>po_config := nget_config_new\<lparr>servers := [example_server], serv := [(1, 0)],
        prioritygroupings := [(''default'', prio_grouping_new ''default'')],
        ginfos := [\<lparr>gi_alias = [], gi_group = ''a.b'', gi_prio = ''default'', gi_usegz = 0\<rparr>]\<rparr>\<rparr>,
      nn_force_host = None, nn_group = None, nn_midinfo = None, nn_cache = None, nn_multiserver = False, nn_glist = None,
      nn_status = status_new, nn_files = (\<lambda>_. None)\<rparr>"

definition example_options :: nntp_options where
  "example_options = \<lparr>no_maxretry = 2, no_bindaddr = [], no_fullxover = - 1, no_cachehome = ''/c/''\<rparr>"

theorem group_any_servers_witness:
  "\<exists>c'. nn_cache (snd (nntp_group (example_world 9) (\<lambda>_ _ _. None) example_clock example_options 0 True example_nntp)) = Some c' \<and>
     cache_inv False c'"
proof -
  let ?r = "nntp_group (example_world 9) (\<lambda>_ _ _. None) example_clock example_options 0 True example_nntp"
  have p: "pool_ok (nn_pool example_nntp)" "maxheaders_ok (po_config (nn_pool example_nntp))"
    by (simp_all add: example_nntp_def example_pool_def pool_ok_def maxheaders_ok_def nget_config_new_def)
  obtain c where c: "nn_cache (use_cache example_options (ck_now example_clock) 0 (use_midinfo example_options [0]
      (cleanupcache (example_nntp\<lparr>nn_group := Some 0\<rparr>)))) = Some c" "cache_inv False c"
    by (simp add: example_nntp_def use_cache_def use_midinfo_def cleanupcache_def cache_load_def Let_def
        cache_inv_def cache_lists info_ok_def of_server_def)
  show ?thesis using group_any_servers [OF prod.collapse [symmetric] p c] by blast
qed

end
