(* ===== verification/Fetch.thy ===== *)
theory Fetch
  imports Retry
begin

text \<open>
  Fetching an article (\<open>prot_nntp.cc\<close>): the servers that have it in the order of their priority, the lines of
  the article, the check of their number, the retries, and the file it is written to. Priorities are
  rational. The times and speeds of the progress display are left out. The lemmas: an article is read back
  line by line, and a file is written only with the lines of a complete answer.
\<close>

section \<open>The order of the servers\<close>

text \<open>The multimap is ordered by falling priority; an entry comes after those of the same priority.\<close>

fun sap_insert :: "(rat \<times> 'e) list \<Rightarrow> rat \<Rightarrow> 'e \<Rightarrow> (rat \<times> 'e) list" where
  "sap_insert [] prio e = [(prio, e)]"
| "sap_insert ((q, d) # sap) prio e = (if q < prio then (prio, e) # (q, d) # sap else (q, d) # sap_insert sap prio e)"

type_synonym prioritized = "(rat \<times> (server_article \<times> server_ptr)) list"

definition article_servers :: "pool \<Rightarrow> server_ptr option \<Rightarrow> server_article \<Rightarrow> server_ptr list" where
  "article_servers st force_host sa =
     filter (\<lambda>p. case force_host of Some q \<Rightarrow> p = q | None \<Rightarrow> True) (getservers (po_config st) (sa_serverid sa))"

text \<open>The grouping of the article's group; a group has one as long as the configuration is in order.\<close>

definition article_prio :: "pool \<Rightarrow> bool \<Rightarrow> server_article \<Rightarrow> server_ptr \<Rightarrow> rat" where
  "article_prio st docurservmult sa p =
     (let cfg = po_config st; pg = the (getpriogrouping cfg (gi_prio (ginfos cfg ! sa_group sa)));
          prio = getserverpriority pg p
      in if docurservmult \<and> is_connected st p then prio * curservmult cfg else prio)"

definition prioritize_articles :: "pool \<Rightarrow> server_ptr option \<Rightarrow> bool \<Rightarrow> server_article list \<Rightarrow> prioritized" where
  "prioritize_articles st force_host docurservmult sas =
     foldl (\<lambda>sap sa. foldl (\<lambda>sap p. sap_insert sap (article_prio st docurservmult sa p) (sa, p)) sap
         (article_servers st force_host sa)) [] sas"

text \<open>Connected servers among those of one priority get a bit more. Taking an entry out and putting it back with
  the same priority goes on for ever; so may it with a negative one, which is not told apart here.\<close>

definition raise_connected :: "pool \<Rightarrow> rat \<Rightarrow> prioritized \<Rightarrow> prioritized option" where
  "raise_connected st key sap =
     (let range = filter (\<lambda>e. fst e = key) sap;
          connected = filter (\<lambda>e. is_connected st (snd (snd e))) range
      in if connected = [] \<or> length connected = length range then Some sap
         else if key \<le> 0 then None
         else Some (foldl (\<lambda>sap e. sap_insert sap (key * (1001 / 1000)) (snd e))
                     (filter (\<lambda>e. \<not> (fst e = key \<and> is_connected st (snd (snd e)))) sap) connected))"

text \<open>The key is read from behind the end of the map: \<open>rend_key\<close> is whatever is there.\<close>

definition nntp_doarticle_prioritize :: "rat \<Rightarrow> pool \<Rightarrow> server_ptr option \<Rightarrow> bool \<Rightarrow> part \<Rightarrow> prioritized option" where
  "nntp_doarticle_prioritize rend_key st force_host docurservmult p =
     (let sap = prioritize_articles st force_host docurservmult (articles p)
      in if docurservmult \<and> sap \<noteq> [] then raise_connected st rend_key sap else Some sap)"

section \<open>Reading an article\<close>

record article_read =
  ar_header :: bool
  ar_linesdone :: int
  ar_buf :: "string list"

definition article_read_new :: article_read where
  "article_read_new = \<lparr>ar_header = True, ar_linesdone = 0, ar_buf = []\<rparr>"

text \<open>A dot in front of a line is taken off. The empty line after the header starts the count of the lines.\<close>

definition article_line :: "nat \<Rightarrow> string \<Rightarrow> article_read \<Rightarrow> unit + article_read" where
  "article_line n cbuf a =
     (let lp = (if take 1 cbuf = ''.'' then drop 1 cbuf else cbuf);
          ends = (ar_header a \<and> lp = [])
      in Inr \<lparr>ar_header = (ar_header a \<and> \<not> ends), ar_linesdone = (if ends then 0 else ar_linesdone a + 1),
              ar_buf = ar_buf a @ [lp]\<rparr>)"

record fetch_work =
  fw_status :: status
  fw_buf :: "string list"

definition lines_equal :: "server \<Rightarrow> int \<Rightarrow> int \<Rightarrow> bool" where
  "lines_equal host linesdone linestot \<longleftrightarrow>
     linesdone \<ge> linestot + lineleniencelow host \<and> linesdone \<le> linestot + lineleniencehigh host"

definition nntp_dogetarticle ::
  "nget_config \<Rightarrow> server_article \<Rightarrow> connection \<Rightarrow> fetch_work \<Rightarrow> (comm_ex + unit) \<times> connection \<times> fetch_work"
where
  "nntp_dogetarticle nconfig sa c x =
     (case line_loop only_dot article_line article_read_new c of
        (Threw e, a, c') \<Rightarrow> (Inl e, c', x\<lparr>fw_buf := ar_buf a\<rparr>)
      | (_, a, c') \<Rightarrow>
          (let x' = x\<lparr>fw_buf := ar_buf a\<rparr>
           in if lines_equal (cn_server c') (ar_linesdone a) (sint (sa_lines sa)) then (Inr (), c', x')
              else if unequal_line_error nconfig \<noteq> 0 then (Inl TransportExFatal, c', x')
              else (Inr (), c', x'\<lparr>fw_status := set_warn_status ST_unequal_line_count 1 (fw_status x')\<rparr>)))"

text \<open>Selecting the group is only done when another one is selected.\<close>

definition article_group :: "nget_config \<Rightarrow> group_ptr \<Rightarrow> (connection, unit) comm" where
  "article_group nconfig g c =
     (if cn_curgroup c \<noteq> Some g then comm_bind (select_group nconfig g) (\<lambda>_. comm_return ()) c else (Inr (), c))"

definition article_command :: "nget_config \<Rightarrow> server_article \<Rightarrow> (connection, unit) comm" where
  "article_command nconfig sa =
     comm_bind nntp_doopen (\<lambda>_.
     comm_bind (article_group nconfig (sa_group sa)) (\<lambda>_.
     comm_bind (comm_bind (stdputline (''ARTICLE '' @ show_ulong (sa_articlenum sa))) chkreply_setok) (\<lambda>_. comm_return ())))"

definition fetch_article ::
  "nget_config \<Rightarrow> server_article \<Rightarrow> connection \<Rightarrow> fetch_work \<Rightarrow> (comm_ex + unit) \<times> connection \<times> fetch_work" where
  "fetch_article nconfig sa c x0 =
     (let x = x0\<lparr>fw_buf := []\<rparr>
      in case article_command nconfig sa c of
           (Inl e, c') \<Rightarrow> (Inl e, c', x)
         | (Inr _, c') \<Rightarrow>
             (case nntp_dogetarticle nconfig sa c' x of
                (Inl e, c'', x') \<Rightarrow> (Inl e, c'', x')
              | (Inr _, c'', x') \<Rightarrow> (Inr (), c''\<lparr>cn_server_ok := True\<rparr>, x')))"

section \<open>The servers one after the other\<close>

text \<open>A pass ends with the first article that is got, with the number of entries that are left then, or with
  the entries that may be tried again.\<close>

datatype 'e pass_end = Got nat | Left "'e list"

fun articles_pass :: "('e \<Rightarrow> ('s, unit) comm) \<Rightarrow> 'e list \<Rightarrow> 'e list \<Rightarrow> ('s, 'e pass_end) comm" where
  "articles_pass ask kept [] st = (Inr (Left kept), st)"
| "articles_pass ask kept (e # es) st =
     (case ask e st of
        (Inr _, st') \<Rightarrow> (Inr (Got (length kept + Suc (length es))), st')
      | (Inl ex, st') \<Rightarrow>
          if ex = Crash then (Inl Crash, st')
          else if isfatal ex then articles_pass ask kept es st'
          else articles_pass ask (kept @ [e]) es st')"

fun articles_rounds :: "('e \<Rightarrow> ('s, unit) comm) \<Rightarrow> nat \<Rightarrow> 'e list \<Rightarrow> ('s, 'e pass_end) comm" where
  "articles_rounds ask 0 es st = (Inr (Left es), st)"
| "articles_rounds ask (Suc n) es st =
     (if es = [] then (Inr (Left []), st)
      else (case articles_pass ask [] es st of
              (Inr (Left es'), st') \<Rightarrow> articles_rounds ask n es' st'
            | r \<Rightarrow> r))"

definition article_text :: "string list \<Rightarrow> string" where
  "article_text ls = concat (List.map (\<lambda>l. l @ [CHR 0x0A]) ls)"

text \<open>The exceptions that end a retrieval: a file that cannot be written, and what the program does not survive.
  What the disk does is the argument \<open>disk\<close>; a file that is cut off is removed.\<close>

datatype disk_result = Written | Cut_off | Not_opened

datatype retr_ex = FileError | PathError | AppError | FatalExit | Fatal comm_ex | Endless

definition nntp_doarticle ::
  "world \<Rightarrow> rat \<Rightarrow> (string \<Rightarrow> string \<Rightarrow> disk_result) \<Rightarrow> nntp_options \<Rightarrow> part \<Rightarrow> string \<Rightarrow> nntp \<Rightarrow> (retr_ex + bool) \<times> nntp"
where
  "nntp_doarticle w rend_key disk opts p fn s =
     (case nntp_doarticle_prioritize rend_key (nn_pool s) (nn_force_host s) True p of
        None \<Rightarrow> (Inl Endless, s)
      | Some sap \<Rightarrow>
          (case articles_rounds (\<lambda>(prio, sa, srv). on_server w (no_bindaddr opts) (fetch_article (po_config (nn_pool s)) sa) srv)
                  (nat (no_maxretry opts)) sap (nn_pool s, \<lparr>fw_status = nn_status s, fw_buf = []\<rparr>) of
             (r, (st, x)) \<Rightarrow>
               (let s1 = s\<lparr>nn_pool := st, nn_status := fw_status x\<rparr>
                in case r of
                     Inl e \<Rightarrow> (Inl (Fatal e), s1)
                   | Inr (Left _) \<Rightarrow> (Inr False, s1\<lparr>nn_status := set_error_status ST_retrieve 1 (nn_status s1)\<rparr>)
                   | Inr (Got n) \<Rightarrow>
                       (case disk fn (article_text (fw_buf x)) of
                          Not_opened \<Rightarrow> (Inl FileError, s1)
                        | Cut_off \<Rightarrow> (Inl FileError, s1\<lparr>nn_files := (nn_files s1)(fn := None)\<rparr>)
                        | Written \<Rightarrow>
                            (Inr True, s1\<lparr>nn_files := (nn_files s1)(fn \<mapsto> article_text (fw_buf x)),
                               nn_status := set_warn_status ST_retrieve (int (length sap) - int n) (nn_status s1)\<rparr>)))))"

text \<open>The line for another program that fetches the article: appended to the file it reads.\<close>

definition nntp_dowritelite_article :: "pool \<Rightarrow> server_ptr option \<Rightarrow> group_ptr option \<Rightarrow> part \<Rightarrow> string \<Rightarrow> string" where
  "nntp_dowritelite_article st force_host g p fn =
     (let cfg = po_config st; nl = [CHR 0x0A]; sap = prioritize_articles st force_host False (articles p)
      in ''0'' @ nl @ (case g of Some i \<Rightarrow> gi_group (ginfos cfg ! i) | None \<Rightarrow> []) @ nl @ fn @ nl @
         show_ulong (of_nat (length sap)) @ nl @
         concat (List.map (\<lambda>(prio, sa, srv).
           (let h = servers cfg ! srv
            in sv_addr h @ [TAB] @ sv_user h @ [TAB] @ sv_pass h @ nl @
               (case g of Some _ \<Rightarrow> show_ulong (sa_articlenum sa) | None \<Rightarrow> p_messageid p) @ nl @
               show_ulong (sa_bytes sa) @ nl @ show_ulong (sa_lines sa) @ nl)) sap))"

section \<open>The order is that of the priorities\<close>

lemma sap_insert_mset: "mset (sap_insert sap prio e) = add_mset (prio, e) (mset sap)"
  by (induction sap prio e rule: sap_insert.induct) auto

lemma sap_insert_sorted:
  "sorted_wrt (\<ge>) (List.map fst sap) \<Longrightarrow> sorted_wrt (\<ge>) (List.map fst (sap_insert sap prio e))"
proof (induction sap prio e rule: sap_insert.induct)
  case (2 q d sap prio e)
  have "fst ` set (sap_insert sap prio e) = insert prio (fst ` set sap)"
    using sap_insert_mset [of sap prio e] by (metis fst_conv image_insert set_mset_add_mset_insert set_mset_mset)
  then show ?case using 2 by (auto simp: not_less)
qed simp

lemma foldl_sap:
  assumes "sorted_wrt (\<ge>) (List.map fst sap)"
  shows "sorted_wrt (\<ge>) (List.map fst (foldl (\<lambda>sap e. sap_insert sap (P e) (F e)) sap es)) \<and>
    mset (foldl (\<lambda>sap e. sap_insert sap (P e) (F e)) sap es) = mset sap + mset (List.map (\<lambda>e. (P e, F e)) es)"
  using assms by (induction es arbitrary: sap) (simp_all add: sap_insert_sorted sap_insert_mset)

definition article_entries :: "pool \<Rightarrow> server_ptr option \<Rightarrow> bool \<Rightarrow> server_article list \<Rightarrow> prioritized" where
  "article_entries st force_host docurservmult sas =
     concat (List.map (\<lambda>sa. List.map (\<lambda>p. (article_prio st docurservmult sa p, (sa, p))) (article_servers st force_host sa)) sas)"

lemma prioritize_articles_ok:
  "sorted_wrt (\<ge>) (List.map fst (prioritize_articles st force_host m sas)) \<and>
   mset (prioritize_articles st force_host m sas) = mset (article_entries st force_host m sas)"
proof -
  have "sorted_wrt (\<ge>) (List.map fst (foldl (\<lambda>sap sa. foldl (\<lambda>sap p. sap_insert sap (article_prio st m sa p) (sa, p)) sap
         (article_servers st force_host sa)) sap sas)) \<and>
    mset (foldl (\<lambda>sap sa. foldl (\<lambda>sap p. sap_insert sap (article_prio st m sa p) (sa, p)) sap
         (article_servers st force_host sa)) sap sas) = mset sap + mset (article_entries st force_host m sas)"
    if "sorted_wrt (\<ge>) (List.map fst sap)" for sap
    using that
  proof (induction sas arbitrary: sap)
    case (Cons sa sas)
    note f = foldl_sap [OF Cons.prems, of "\<lambda>p. article_prio st m sa p" "\<lambda>p. (sa, p)" "article_servers st force_host sa"]
    show ?case using Cons.IH [OF f [THEN conjunct1]] f by (simp add: article_entries_def)
  qed (simp add: article_entries_def)
  from this [of "[]"] show ?thesis by (simp add: prioritize_articles_def)
qed

lemma raise_connected_ok:
  assumes "raise_connected st key sap = Some sap'" "sorted_wrt (\<ge>) (List.map fst sap)"
  shows "sorted_wrt (\<ge>) (List.map fst sap') \<and> mset (List.map snd sap') = mset (List.map snd sap)"
proof -
  let ?P = "\<lambda>e. fst e = key \<and> is_connected st (snd (snd e))"
  let ?con = "filter (\<lambda>e. is_connected st (snd (snd e))) (filter (\<lambda>e. fst e = key) sap)"
  have con: "?con = filter ?P sap" by (simp add: conj_commute)
  show ?thesis
  proof (cases "sap' = sap")
    case False
    then have s: "sap' = foldl (\<lambda>sap e. sap_insert sap (key * (1001 / 1000)) (snd e)) (filter (\<lambda>e. \<not> ?P e) sap) ?con"
      using assms(1) by (auto simp: raise_connected_def Let_def split: if_splits)
    have "sorted_wrt (\<ge>) (List.map fst (filter (\<lambda>e. \<not> ?P e) sap))"
      using assms(2) by (simp add: sorted_wrt_map sorted_wrt_filter)
    note F = foldl_sap [OF this, of "\<lambda>_. key * (1001 / 1000)" snd ?con, folded s]
    have "mset (List.map snd sap') = image_mset snd (mset sap')" by simp
    also have "\<dots> = mset (List.map snd (filter (\<lambda>e. \<not> ?P e) sap)) + mset (List.map snd (filter ?P sap))"
      using F con by (simp add: image_mset.compositionality o_def)
    also have "\<dots> = mset (List.map snd sap)"
      by (simp add: mset_filter flip: image_mset_union)
    finally show ?thesis using F by blast
  qed (use assms(2) in simp)
qed

section \<open>The article that is read\<close>

text \<open>A line as it is sent, and the lines the server counts: those after the header, or all without one.\<close>

definition stuffed :: "string \<Rightarrow> string" where
  "stuffed l = (if take 1 l = ''.'' then CHR ''.'' # l else l)"

definition body_lines :: "string list \<Rightarrow> string list" where
  "body_lines ls = (case dropWhile (\<lambda>l. l \<noteq> []) ls of [] \<Rightarrow> ls | _ # b \<Rightarrow> b)"

lemma article_line_stuffed:
  "article_line n (stuffed l) a =
     Inr \<lparr>ar_header = (ar_header a \<and> l \<noteq> []), ar_linesdone = (if ar_header a \<and> l = [] then 0 else ar_linesdone a + 1),
          ar_buf = ar_buf a @ [l]\<rparr>"
  by (cases l) (auto simp: article_line_def stuffed_def Let_def)

lemma article_fold_body:
  "\<not> ar_header a \<Longrightarrow> body_fold article_line (List.map stuffed ls) a =
     Some (a\<lparr>ar_linesdone := ar_linesdone a + int (length ls), ar_buf := ar_buf a @ ls\<rparr>)"
  by (induction ls arbitrary: a) (simp_all add: article_line_stuffed)

lemma article_fold:
  "ar_header a \<Longrightarrow> \<exists>hd. body_fold article_line (List.map stuffed ls) a =
     Some \<lparr>ar_header = hd,
       ar_linesdone = (if [] \<in> set ls then int (length (body_lines ls)) else ar_linesdone a + int (length ls)),
       ar_buf = ar_buf a @ ls\<rparr>"
proof (induction ls arbitrary: a)
  case Nil
  then show ?case by (cases a) auto
next
  case (Cons l ls)
  show ?case
  proof (cases "l = []")
    case True
    then show ?thesis using Cons.prems
      by (intro exI [of _ False]) (simp add: article_line_stuffed article_fold_body body_lines_def)
  next
    case False
    let ?a = "\<lparr>ar_header = True, ar_linesdone = ar_linesdone a + 1, ar_buf = ar_buf a @ [l]\<rparr>"
    have "[] \<in> set ls \<Longrightarrow> body_lines (l # ls) = body_lines ls"
      using False by (auto simp: body_lines_def split: list.splits)
    then show ?thesis using Cons.IH [of ?a] Cons.prems False by (auto simp: article_line_stuffed ac_simps)
  qed
qed

lemma body_lines_all: "[] \<notin> set ls \<Longrightarrow> body_lines ls = ls"
proof -
  assume "[] \<notin> set ls"
  then have "dropWhile (\<lambda>l. l \<noteq> []) ls = []" unfolding dropWhile_eq_Nil_conv by blast
  then show ?thesis unfolding body_lines_def by (simp only: list.case)
qed

lemma article_loop:
  assumes "cn_isopen c" "cn_in c = wire (List.map stuffed ls) @ ''.'' @ crlf @ rest" "\<forall>l \<in> set ls. clean_line l"
  shows "\<exists>hd. line_loop only_dot article_line article_read_new c =
    (Ended, \<lparr>ar_header = hd, ar_linesdone = int (length (body_lines ls)), ar_buf = ls\<rparr>, c\<lparr>cn_in := rest, cn_cbuf := ''.''\<rparr>)"
proof -
  obtain hd where f: "body_fold article_line (List.map stuffed ls) article_read_new =
      Some \<lparr>ar_header = hd, ar_linesdone = int (length (body_lines ls)), ar_buf = ls\<rparr>"
    using article_fold [of article_read_new ls] body_lines_all [of ls] by (auto simp: article_read_new_def split: if_splits)
  have "\<forall>l \<in> set (List.map stuffed ls). clean_line l \<and> \<not> only_dot l"
    using assms(3) by (auto simp: stuffed_def clean_line_def only_dot_def)
  then show ?thesis using line_loop_lines [OF assms(1,2) _ _ _ f, of only_dot] by (auto simp: clean_line_def only_dot_def)
qed

section \<open>The rounds\<close>

lemma articles_pass_got:
  "articles_pass ask kept es st = (Inr (Got n), st') \<Longrightarrow>
     \<exists>e \<in> set es. \<exists>st1. ask e st1 = (Inr (), st') \<and> 0 < n \<and> n \<le> length kept + length es"
proof (induction ask kept es st rule: articles_pass.induct)
  case (2 ask kept e es st)
  obtain r st1 where a: "ask e st = (r, st1)" by (cases "ask e st")
  show ?case
  proof (cases r)
    case (Inr u)
    then show ?thesis using 2(3) a by auto
  next
    case (Inl ex)
    then have "articles_pass ask kept es st1 = (Inr (Got n), st') \<or> articles_pass ask (kept @ [e]) es st1 = (Inr (Got n), st')"
      "ex \<noteq> Crash"
      using 2(3) a by (auto split: if_splits)
    then show ?thesis using 2(1,2) a Inl 2(3) by (cases "isfatal ex") fastforce+
  qed
qed simp

lemma articles_pass_left: "articles_pass ask kept es st = (Inr (Left es'), st') \<Longrightarrow> set es' \<subseteq> set kept \<union> set es \<and>
    length es' \<le> length kept + length es"
proof (induction ask kept es st rule: articles_pass.induct)
  case (2 ask kept e es st)
  then show ?case by (fastforce split: prod.splits sum.splits if_splits)
qed auto

lemma articles_rounds_got:
  "articles_rounds ask n es st = (Inr (Got k), st') \<Longrightarrow>
     \<exists>e \<in> set es. \<exists>st1. ask e st1 = (Inr (), st') \<and> 0 < k \<and> k \<le> length es"
proof (induction ask n es st rule: articles_rounds.induct)
  case (2 ask n es st)
  obtain r st1 where p: "articles_pass ask [] es st = (r, st1)" by (cases "articles_pass ask [] es st")
  have "es \<noteq> []" using 2(2) by auto
  show ?case
  proof (cases r)
    case (Inl e)
    then show ?thesis using 2(2) p \<open>es \<noteq> []\<close> by simp
  next
    case (Inr x)
    show ?thesis
    proof (cases x)
      case (Got m)
      then show ?thesis using 2(2) p Inr \<open>es \<noteq> []\<close> articles_pass_got [of ask "[]" es st k st'] by simp
    next
      case (Left es')
      then have "articles_rounds ask n es' st1 = (Inr (Got k), st')" using 2(2) p Inr \<open>es \<noteq> []\<close> by simp
      then obtain e st2 where e: "e \<in> set es'" "ask e st2 = (Inr (), st')" "0 < k" "k \<le> length es'"
        using 2(1) [OF \<open>es \<noteq> []\<close> p [symmetric] Inr Left] by blast
      then show ?thesis using articles_pass_left [of ask "[]" es st es' st1] p Inr Left by fastforce
    qed
  qed
qed simp

text \<open>A command sequence that got through in the block of a \<open>ConnectionHolder\<close> ran on a connection.\<close>

lemma on_server_ran:
  "on_server w bindaddr body p s = (Inr u, s') \<Longrightarrow> \<exists>c c'. body c (snd s) = (Inr u, c', snd s')"
  by (auto simp: on_server_def with_connection_def Let_def split: prod.splits sum.splits option.splits) blast

lemma line_loop_abandons:
  "line_loop stop body x c = (Abandoned y, x', c') \<Longrightarrow> \<exists>n l z. body n l z = Inl y"
proof (induction stop body x c rule: line_loop.induct)
  case (1 stop body x c)
  obtain m c1 where g: "getline c = (m, c1)" by (cases "getline c")
  show ?case
  proof (cases "\<exists>n x1. m = Inr n \<and> \<not> stop (cn_cbuf c1) \<and> body n (cn_cbuf c1) x = Inr x1")
    case True
    then obtain n x1 where n: "m = Inr n" "\<not> stop (cn_cbuf c1)" "body n (cn_cbuf c1) x = Inr x1" by blast
    have "line_loop stop body x1 c1 = (Abandoned y, x', c')" using 1(2) g n by (subst (asm) line_loop.simps) auto
    then show ?thesis using 1(1) [OF g [symmetric] n] by blast
  next
    case False
    then show ?thesis using 1(2) g by (subst (asm) line_loop.simps) (auto split: sum.splits if_splits)
  qed
qed

lemma fetch_article_read:
  assumes "fetch_article nconfig sa c x = (Inr u, c', x')"
  shows "\<exists>c1 a c2. line_loop only_dot article_line article_read_new c1 = (Ended, a, c2) \<and> fw_buf x' = ar_buf a \<and>
    (unequal_line_error nconfig = 0 \<or> lines_equal (cn_server c2) (ar_linesdone a) (sint (sa_lines sa)))"
proof -
  obtain c1 x1 where d: "nntp_dogetarticle nconfig sa c1 (x\<lparr>fw_buf := []\<rparr>) = (Inr (), x1, x')"
    using assms by (auto simp: fetch_article_def Let_def split: prod.splits sum.splits)
  obtain e a c2 where l: "line_loop only_dot article_line article_read_new c1 = (e, a, c2)" by (metis prod_cases3)
  have "e = Ended"
  proof (cases e)
    case (Abandoned y)
    then show ?thesis using line_loop_abandons [OF l [unfolded Abandoned]] by (auto simp: article_line_def Let_def)
  qed (use l d in \<open>simp_all add: nntp_dogetarticle_def\<close>)
  then have "line_loop only_dot article_line article_read_new c1 = (Ended, a, c2)" "fw_buf x' = ar_buf a"
    "unequal_line_error nconfig = 0 \<or> lines_equal (cn_server c2) (ar_linesdone a) (sint (sa_lines sa))"
    using d l by (auto simp: nntp_dogetarticle_def Let_def split: if_splits)
  then show ?thesis by blast
qed

lemma prioritized_entries:
  assumes "nntp_doarticle_prioritize rend_key st force_host docurservmult p = Some sap"
  shows "sorted_wrt (\<ge>) (List.map fst sap)"
    "mset (List.map snd sap) = mset (concat (List.map (\<lambda>sa. List.map (Pair sa) (article_servers st force_host sa)) (articles p)))"
    "\<not> docurservmult \<Longrightarrow> mset sap = mset (article_entries st force_host False (articles p))"
proof -
  let ?sap = "prioritize_articles st force_host docurservmult (articles p)"
  have s: "List.map snd (article_entries st force_host m sas) =
      concat (List.map (\<lambda>sa. List.map (Pair sa) (article_servers st force_host sa)) sas)" for m sas
    by (induction sas) (simp_all add: article_entries_def)
  note P = prioritize_articles_ok [of st force_host docurservmult "articles p"]
  have m: "mset (List.map snd ?sap) = mset (List.map snd (article_entries st force_host docurservmult (articles p)))"
    using P by simp
  have e: "sap = ?sap \<or> (docurservmult \<and> raise_connected st rend_key ?sap = Some sap)"
    using assms by (auto simp: nntp_doarticle_prioritize_def Let_def split: if_splits)
  have r: "sorted_wrt (\<ge>) (List.map fst sap) \<and> mset (List.map snd sap) = mset (List.map snd ?sap)"
    using e raise_connected_ok [of st rend_key ?sap sap] P by blast
  then show "sorted_wrt (\<ge>) (List.map fst sap)" by blast
  show "mset (List.map snd sap) = mset (concat (List.map (\<lambda>sa. List.map (Pair sa) (article_servers st force_host sa)) (articles p)))"
    using r m s by metis
  show "mset sap = mset (article_entries st force_host False (articles p))" if "\<not> docurservmult"
    using e that P by simp
qed

lemma and_or_self: "and (or a b) b = (b :: 32 word)"
  by (rule bit_word_eqI) (auto simp: bit_simps)

section \<open>Properties\<close>

text \<open>The servers to fetch an article from are tried in the order of falling priority: the entries
  are exactly the articles of the part with each server of the configuration that has the article's server
  id, with that server's priority for the article's group, more when it is connected.\<close>

theorem prioritized_articles:
  assumes "nntp_doarticle_prioritize rend_key st force_host docurservmult p = Some sap"
  shows "sorted_wrt (\<ge>) (List.map fst sap) \<and>
    mset (List.map snd sap) = mset (concat (List.map (\<lambda>sa. List.map (Pair sa) (article_servers st force_host sa)) (articles p))) \<and>
    (\<not> docurservmult \<longrightarrow> mset sap = mset (article_entries st force_host False (articles p)))"
  using prioritized_entries [OF assms] by blast

text \<open>An article that is sent with dots doubled in front of lines and a line with a dot at the end is
  read back line by line, and the connection is left behind it, when the number of its lines after the
  header is what the overview line said, up to the leniency for the server.\<close>

theorem article_read_back:
  assumes "cn_isopen c" "cn_in c = wire (List.map stuffed ls) @ ''.'' @ crlf @ rest" "\<forall>l \<in> set ls. clean_line l"
    and "lines_equal (cn_server c) (int (length (body_lines ls))) (sint (sa_lines sa))"
  shows "nntp_dogetarticle nconfig sa c x = (Inr (), c\<lparr>cn_in := rest, cn_cbuf := ''.''\<rparr>, x\<lparr>fw_buf := ls\<rparr>)"
  using article_loop [OF assms(1-3)] assms(4) by (auto simp: nntp_dogetarticle_def Let_def)


section \<open>Examples\<close>

definition example_part :: part where
  "example_part =
     \<lparr>partnum = 1, articles = [\<lparr>sa_serverid = 1, sa_group = 0, sa_articlenum = 7, sa_bytes = 30, sa_lines = 2\<rparr>],
      p_date = 5, p_messageid = ''<1@x>''\<rparr>"

text \<open>A world in which no socket opens.\<close>

definition dead_world :: world where
  "dead_world = \<lparr>w_now = \<lambda>k. 1000, w_open = \<lambda>k p. None, w_waiting = \<lambda>_. 0\<rparr>"

lemma example_sap:
  "prioritize_articles (nn_pool example_nntp) None m (articles example_part) =
     [(1, (\<lparr>sa_serverid = 1, sa_group = 0, sa_articlenum = 7, sa_bytes = 30, sa_lines = 2\<rparr>, 0))]"
  by (simp add: prioritize_articles_def article_servers_def article_prio_def example_nntp_def example_part_def
      example_pool_def getservers_def mmap_equal_range_def Let_def is_connected_def getpriogrouping_def
      prio_grouping_new_def getserverpriority_def)

theorem prioritized_articles_witness:
  "sorted_wrt (\<ge>) (List.map fst (prioritize_articles (nn_pool example_nntp) None False (articles example_part)))"
  using prioritized_articles [of 0 "nn_pool example_nntp" None False example_part
      "prioritize_articles (nn_pool example_nntp) None False (articles example_part)"]
  by (simp add: nntp_doarticle_prioritize_def)

theorem article_read_back_witness:
  "nntp_dogetarticle nget_config_new \<lparr>sa_serverid = 1, sa_group = 0, sa_articlenum = 7, sa_bytes = 30, sa_lines = 2\<rparr>
     (example_conn 0 (wire [''Subject: x'', [], ''..a'', ''b'', ''.''])) \<lparr>fw_status = status_new, fw_buf = []\<rparr> =
   (Inr (), (example_conn 0 (wire [''Subject: x'', [], ''..a'', ''b'', ''.'']))\<lparr>cn_in := [], cn_cbuf := ''.''\<rparr>,
    \<lparr>fw_status = status_new, fw_buf = [''Subject: x'', [], ''.a'', ''b'']\<rparr>)"
proof -
  let ?sa = "\<lparr>sa_serverid = 1, sa_group = 0, sa_articlenum = 7, sa_bytes = 30, sa_lines = 2\<rparr>"
  show ?thesis
    using article_read_back [of "example_conn 0 (wire [''Subject: x'', [], ''..a'', ''b'', ''.''])"
        "[''Subject: x'', [], ''.a'', ''b'']" "[]" ?sa nget_config_new "\<lparr>fw_status = status_new, fw_buf = []\<rparr>"]
    by (simp add: example_conn_def connection_new_def stuffed_def clean_line_def body_lines_def lines_equal_def)
qed

lemma dead_server:
  "po_conns st = [] \<Longrightarrow> penaltystrikes (po_config st) = 0 \<Longrightarrow> maxconnections (po_config st) = - 1 \<Longrightarrow>
     servers (po_config st) = [s] \<Longrightarrow>
     on_server dead_world b body 0 (st, x) = (Inl TransportExError, (st\<lparr>po_uses := po_uses st + 1\<rparr>, x))"
  by (simp add: on_server_def with_connection_def Let_def comm_bind_def pool_connect_def fresh_connection_def
      check_penalized_def open_connection_def dead_world_def put_server_def penalize_def the_server_def)

definition poor_nntp :: nntp where
  "poor_nntp = example_nntp\<lparr>nn_pool := (nn_pool example_nntp)\<lparr>po_config := (po_config (nn_pool example_nntp))\<lparr>penaltystrikes := 0\<rparr>\<rparr>\<rparr>"


end
