(* ===== verification/Texthandler.thy ===== *)
theory Texthandler
  imports Fetch "HOL-Library.Monad_Syntax"
begin

text \<open>
  Text messages (\<open>texthandler.cc\<close>): what is gathered while a message is decoded, what is written of it, and
  where: to a file of its own or to the end of a mailbox. A file is its content, also when it is compressed;
  the lock on the mailbox is left out. The random numbers, the printed time and what the disk does are
  arguments. The lemmas: headers are not written twice, and a mailbox is read back message by message
  whatever lines the messages have.
\<close>

datatype text_handling = TEXT_FILES | TEXT_MBOX | TEXT_IGNORE

record text_handler =
  th_texthandling :: text_handling
  th_save_text_for_binaries :: bool
  th_mboxname :: string
  th_path :: string
  th_badate :: int
  th_info :: "string list"
  th_firsttempfn :: string
  th_infocount :: int
  th_decodeinfocount :: int
  th_save_whole_tempfile :: bool

definition text_handler_new :: "text_handling \<Rightarrow> bool \<Rightarrow> string \<Rightarrow> file_retr \<Rightarrow> string \<Rightarrow> text_handler" where
  "text_handler_new texthandlin save_text_for_binarie mboxnam frp firsttempf =
     \<lparr>th_texthandling = texthandlin, th_save_text_for_binaries = save_text_for_binarie, th_mboxname = mboxnam,
      th_path = fr_path frp, th_badate = badate (fr_file frp), th_info = [], th_firsttempfn = firsttempf,
      th_infocount = 0, th_decodeinfocount = 0, th_save_whole_tempfile = False\<rparr>"

definition set_save_whole_tempfile :: "bool \<Rightarrow> text_handler \<Rightarrow> text_handler" where
  "set_save_whole_tempfile flag th = th\<lparr>th_save_whole_tempfile := flag\<rparr>"

definition addinfo :: "string \<Rightarrow> text_handler \<Rightarrow> text_handler" where
  "addinfo str th = th\<lparr>th_info := th_info th @ [str], th_infocount := th_infocount th + 1\<rparr>"

definition adddecodeinfo :: "string \<Rightarrow> text_handler \<Rightarrow> text_handler" where
  "adddecodeinfo str th =
     th\<lparr>th_info := th_info th @ [''['' @ str @ '']'' @ [CHR 0x0A]], th_decodeinfocount := th_decodeinfocount th + 1\<rparr>"

section \<open>What is written\<close>

text \<open>The regular expression \<open>^>*From \<close>.\<close>

definition From_re :: "string \<Rightarrow> bool" where
  "From_re str \<longleftrightarrow> take 5 (dropWhile (\<lambda>c. c = CHR ''>'') str) = ''From ''"

definition writeline :: "bool \<Rightarrow> string \<Rightarrow> string" where
  "writeline escape_From str = (if escape_From \<and> From_re str then CHR ''>'' # str else str)"

text \<open>The line or lines for a header. A content type other than plain text is kept under another name.\<close>

definition content_type :: string where
  "content_type = ''Content-Type:''"

definition header_lines :: "string \<Rightarrow> string list" where
  "header_lines hs =
     (if take 13 hs = content_type \<and> take 10 (drop 14 hs) \<noteq> ''text/plain''
      then [''Content-Type: text/plain'' @ [CHR 0x0A], ''X-NGet-Original-'' @ hs] else [hs])"

lemma s_gets_rest: "s_gets s = (n, l, rest) \<Longrightarrow> n \<noteq> 0 \<Longrightarrow> length rest < length s"
  using s_gets_shorter [of s n l rest] by (cases "s = []") auto

text \<open>The lines of the header, up to an empty one, and what then is left of the file and of the gathered
  lines: those that repeat the header are skipped as long as they agree.\<close>

function write_header :: "string \<Rightarrow> string list \<Rightarrow> bool \<Rightarrow> string list \<times> string \<times> string list" where
  "write_header content ii dupeheaders =
     (case s_gets content of
        (n, l, rest) \<Rightarrow>
          if n = 0 then ([], rest, ii)
          else
            (let hs = cstr l @ [CHR 0x0A];
                 same = (dupeheaders \<and> ii \<noteq> [] \<and> hs = hd ii);
                 ii' = (if same then tl ii else ii)
             in if cstr l = [] then (header_lines hs, rest, ii')
                else (case write_header rest ii' same of (ls, rest', ii'') \<Rightarrow> (header_lines hs @ ls, rest', ii''))))"
  by pat_completeness auto
termination
  by (relation "measure (\<lambda>(content, ii, d). length content)") (auto dest: s_gets_rest [OF sym])

declare write_header.simps [simp del]

function write_body :: "string \<Rightarrow> string list" where
  "write_body content =
     (case s_gets content of (n, l, rest) \<Rightarrow> if n = 0 then [] else (cstr l @ [CHR 0x0A]) # write_body rest)"
  by pat_completeness auto
termination
  by (relation "measure length") (auto dest: s_gets_rest [OF sym])

declare write_body.simps [simp del]

text \<open>The strings given to \<open>writeline\<close>, in order.\<close>

definition written_lines :: "text_handler \<Rightarrow> string \<Rightarrow> string list" where
  "written_lines th content =
     (case write_header content (th_info th) True of
        (ls, rest, ii) \<Rightarrow> ls @ (if th_save_whole_tempfile th then write_body rest else []) @ ii)"

definition writeinfo :: "text_handler \<Rightarrow> bool \<Rightarrow> string \<Rightarrow> string" where
  "writeinfo th escape_From content = concat (List.map (writeline escape_From) (written_lines th content))"

section \<open>Where it is written\<close>

text \<open>The disk: what a write of a whole file comes to, and what is left of a file that is cut off.\<close>

record text_env =
  te_disk :: "string \<Rightarrow> string \<Rightarrow> disk_result"
  te_cut :: "string \<Rightarrow> string \<Rightarrow> string"
  te_rand :: "nat \<Rightarrow> int"
  te_ctime :: string
  te_version :: string

record text_state =
  tw_status :: status
  tw_files :: "string \<Rightarrow> string option"
  tw_rands :: nat

definition make_text_file_name :: "text_env \<Rightarrow> text_handler \<Rightarrow> nat \<Rightarrow> string" where
  "make_text_file_name te th k =
     th_path th @ ''/'' @ show_ulong (of_int (th_badate th)) @ ''.'' @ show_int (te_rand te k) @ ''.txt''"

text \<open>The first name that does not exist, and the number of random numbers taken; a search that goes on for
  ever is \<open>None\<close>.\<close>

partial_function (option) fresh_name :: "(string \<Rightarrow> bool) \<Rightarrow> (nat \<Rightarrow> string) \<Rightarrow> nat \<Rightarrow> (string \<times> nat) option" where
  "fresh_name used name k = (if used (name k) then fresh_name used name (Suc k) else Some (name k, Suc k))"

definition file_exists :: "(string \<Rightarrow> string option) \<Rightarrow> string \<Rightarrow> bool" where
  "file_exists fs fn \<longleftrightarrow> fs fn \<noteq> None"

definition save_text_file :: "text_env \<Rightarrow> text_handler \<Rightarrow> text_state \<Rightarrow> (retr_ex + unit) \<times> text_state" where
  "save_text_file te th st =
     (case fresh_name (file_exists (tw_files st)) (make_text_file_name te th) (tw_rands st) of
        None \<Rightarrow> (Inl Endless, st)
      | Some (textfn, k) \<Rightarrow>
          (let st1 = st\<lparr>tw_rands := k\<rparr>
           in case tw_files st (th_firsttempfn th) of
                None \<Rightarrow>
                  (Inl FileError, if te_disk te textfn [] = Not_opened then st1
                                  else st1\<lparr>tw_files := (tw_files st1)(textfn \<mapsto> [])\<rparr>)
              | Some content \<Rightarrow>
                  (let text = writeinfo th False content
                   in case te_disk te textfn text of
                        Not_opened \<Rightarrow> (Inl FileError, st1)
                      | Cut_off \<Rightarrow> (Inl FileError, st1\<lparr>tw_files := (tw_files st1)(textfn \<mapsto> te_cut te textfn text)\<rparr>)
                      | Written \<Rightarrow> (Inr (), st1\<lparr>tw_files := (tw_files st1)(textfn \<mapsto> text)\<rparr>))))"

definition mbox_path :: "text_handler \<Rightarrow> string" where
  "mbox_path th = (if is_abspath (th_mboxname th) then th_mboxname th else path_join (th_path th) (th_mboxname th))"

definition mbox_entry :: "text_env \<Rightarrow> text_handler \<Rightarrow> string \<Rightarrow> string" where
  "mbox_entry te th content =
     ''From nget-'' @ te_version te @ '' '' @ te_ctime te @ writeinfo th True content @ [CHR 0x0A]"

text \<open>The mailbox is copied, extended and replaced; after an error the copy is removed and the program ends.
  A copy that cannot be opened is an exception outside the handler.\<close>

definition save_mbox :: "text_env \<Rightarrow> text_handler \<Rightarrow> text_state \<Rightarrow> (retr_ex + unit) \<times> text_state" where
  "save_mbox te th st =
     (let mboxpath = mbox_path th; tmppath = mboxpath @ ''.tmp'';
          removed = st\<lparr>tw_files := (tw_files st)(tmppath := None)\<rparr>
      in if te_disk te tmppath [] = Not_opened then (Inl FileError, st)
         else
           (case ((tw_files st)(tmppath \<mapsto> [])) (th_firsttempfn th) of
              None \<Rightarrow> (Inl FatalExit, removed)
            | Some content \<Rightarrow>
                (let text = (case ((tw_files st)(tmppath \<mapsto> [])) mboxpath of Some old \<Rightarrow> old | None \<Rightarrow> []) @ mbox_entry te th content
                 in if te_disk te tmppath text = Written
                    then (Inr (), st\<lparr>tw_files := (tw_files st)(tmppath := None, mboxpath \<mapsto> text)\<rparr>)
                    else (Inl FatalExit, removed))))"

definition text_save :: "text_env \<Rightarrow> text_handler \<Rightarrow> text_state \<Rightarrow> (retr_ex + unit) \<times> text_state" where
  "text_save te th st =
     (if th_infocount th = 0 \<and> th_decodeinfocount th \<noteq> 0 \<and> \<not> th_save_text_for_binaries th \<and> \<not> th_save_whole_tempfile th
      then (Inr (), st)
      else
        (let st1 = (if th_infocount th \<noteq> 0 \<or> th_decodeinfocount th = 0 \<or> th_save_whole_tempfile th
                    then st\<lparr>tw_status := set_ok_status ST_plaintext 1 (tw_status st)\<rparr> else st)
         in case th_texthandling th of
              TEXT_FILES \<Rightarrow> save_text_file te th st1
            | TEXT_MBOX \<Rightarrow> save_mbox te th st1
            | TEXT_IGNORE \<Rightarrow> (Inr (), st1)))"

section \<open>Lines\<close>

abbreviation nl :: char where
  "nl \<equiv> CHR 0x0A"

definition one_line :: "string \<Rightarrow> bool" where
  "one_line s \<longleftrightarrow> s \<noteq> [] \<and> last s = nl \<and> nl \<notin> set (butlast s)"

lemma one_lineI [intro]: "nl \<notin> set l \<Longrightarrow> one_line (l @ [nl])"
  by (simp add: one_line_def)

lemma one_lineE: "one_line s \<Longrightarrow> \<exists>l. s = l @ [nl] \<and> nl \<notin> set l"
  by (metis append_butlast_last_id one_line_def)

lemma s_gets_no_newline: "s_gets s = (n, l, rest) \<Longrightarrow> nl \<notin> set l"
  by (induction s arbitrary: n l rest) (auto split: if_splits prod.splits)

lemma cstr_no_newline: "nl \<notin> set l \<Longrightarrow> nl \<notin> set (cstr l)"
  by (auto simp: cstr_def dest: set_takeWhileD)

lemma header_lines_lines: "one_line hs \<Longrightarrow> \<forall>l \<in> set (header_lines hs). one_line l"
  by (auto simp: header_lines_def one_line_def butlast_append)

lemma write_header_lines:
  "write_header content ii d = (ls, rest, ii') \<Longrightarrow> (\<forall>l \<in> set ls. one_line l) \<and> set ii' \<subseteq> set ii"
proof (induction content ii d arbitrary: ls rest ii' rule: write_header.induct)
  case (1 content ii d)
  obtain n l r where g: "s_gets content = (n, l, r)" by (cases "s_gets content")
  show ?case
  proof (cases "n = 0")
    case True
    then show ?thesis using "1.prems" g by (simp add: write_header.simps [of content])
  next
    case False
    let ?hs = "cstr l @ [nl]"
    let ?same = "d \<and> ii \<noteq> [] \<and> ?hs = hd ii"
    let ?ii = "if ?same then tl ii else ii"
    have sub: "set ?ii \<subseteq> set ii" by (auto dest: list.set_sel(2))
    have hs: "\<forall>l \<in> set (header_lines ?hs). one_line l"
      using header_lines_lines [OF one_lineI [OF cstr_no_newline [OF s_gets_no_newline [OF g]]]] .
    show ?thesis
    proof (cases "cstr l = []")
      case True
      then show ?thesis using "1.prems" g False hs sub by (auto simp: write_header.simps [of content] Let_def)
    next
      case ne: False
      obtain ls1 r1 ii1 where w: "write_header r ?ii ?same = (ls1, r1, ii1)" by (cases "write_header r ?ii ?same") auto
      have e: "ls = header_lines ?hs @ ls1" "ii' = ii1"
        using "1.prems" g False ne w by (simp_all add: write_header.simps [of content] Let_def)
      have "(\<forall>l \<in> set ls1. one_line l) \<and> set ii1 \<subseteq> set ?ii"
        by (rule "1.IH" [OF g [symmetric] refl False refl refl refl ne w])
      then show ?thesis using e hs sub by auto
    qed
  qed
qed

lemma write_body_lines: "\<forall>l \<in> set (write_body content). one_line l"
proof (induction content rule: write_body.induct)
  case (1 content)
  obtain n l r where g: "s_gets content = (n, l, r)" by (cases "s_gets content")
  have l: "one_line (cstr l @ [nl])" using one_lineI [OF cstr_no_newline [OF s_gets_no_newline [OF g]]] .
  show ?case
  proof (cases "n = 0")
    case False
    have "\<forall>l \<in> set (write_body r). one_line l" by (rule "1.IH" [OF g [symmetric] refl False])
    then show ?thesis using l g False by (simp add: write_body.simps [of content])
  qed (simp add: write_body.simps [of content] g)
qed

lemma written_lines_lines:
  assumes "\<forall>i \<in> set (th_info th). one_line i"
  shows "\<forall>l \<in> set (written_lines th content). one_line l"
proof -
  obtain ls rest ii where w: "write_header content (th_info th) True = (ls, rest, ii)"
    by (cases "write_header content (th_info th) True") auto
  then show ?thesis using write_header_lines [OF w] write_body_lines [of rest] assms by (auto simp: written_lines_def)
qed

section \<open>Reading a mailbox\<close>

fun text_lines :: "string \<Rightarrow> string list" where
  "text_lines [] = []"
| "text_lines (c # s) =
     (if c = nl then [] # text_lines s
      else (case text_lines s of [] \<Rightarrow> [[c]] | l # ls \<Rightarrow> (c # l) # ls))"

definition From_line :: "string \<Rightarrow> bool" where
  "From_line l \<longleftrightarrow> take 5 l = ''From ''"

text \<open>A message is what follows a line that starts with \<open>From\<close>, up to the next such line.\<close>

fun mbox_messages :: "string list \<Rightarrow> string list list" where
  "mbox_messages [] = []"
| "mbox_messages (l # ls) =
     (if From_line l then takeWhile (\<lambda>l. \<not> From_line l) ls # mbox_messages ls else mbox_messages ls)"

definition unquote_line :: "string \<Rightarrow> string" where
  "unquote_line l = (if take 1 l = ''>'' \<and> From_re l then tl l else l)"

text \<open>The empty line at the end of a message is not part of it.\<close>

definition mbox_read :: "string \<Rightarrow> string list list" where
  "mbox_read s = List.map (\<lambda>m. List.map unquote_line (butlast m)) (mbox_messages (text_lines s))"

lemma text_lines_line: "nl \<notin> set l \<Longrightarrow> text_lines (l @ nl # s) = l # text_lines s"
  by (induction l) auto

lemma text_lines_append: "one_line l \<Longrightarrow> text_lines (l @ s) = butlast l # text_lines s"
  by (auto dest!: one_lineE simp: text_lines_line)

lemma text_lines_all: "\<forall>l \<in> set ls. one_line l \<Longrightarrow> text_lines (concat ls @ s) = List.map butlast ls @ text_lines s"
  by (induction ls) (simp_all add: text_lines_append)

lemma text_lines_nonempty: "s \<noteq> [] \<Longrightarrow> text_lines s \<noteq> []"
  by (cases s) (auto split: list.splits)

lemma text_lines_complete: "a = [] \<or> last a = nl \<Longrightarrow> text_lines (a @ b) = text_lines a @ text_lines b"
proof (induction a)
  case (Cons c a)
  show ?case
  proof (cases "a = []")
    case False
    then have "text_lines (a @ b) = text_lines a @ text_lines b" "text_lines a \<noteq> []"
      using Cons text_lines_nonempty [OF False] by auto
    then show ?thesis by (auto split: list.splits)
  qed (use Cons.prems in auto)
qed simp

lemma mbox_messages_append:
  assumes "From_line f" "\<forall>l \<in> set ls. \<not> From_line l"
  shows "mbox_messages (old @ f # ls) = mbox_messages old @ [ls]"
proof -
  have "mbox_messages ls = []" using assms(2) by (induction ls) auto
  moreover have "takeWhile (\<lambda>l. \<not> From_line l) (xs @ f # ls) = takeWhile (\<lambda>l. \<not> From_line l) xs" for xs
    using assms(1) by (induction xs) auto
  moreover have "takeWhile (\<lambda>l. \<not> From_line l) ls = ls" using assms(2) by (simp add: takeWhile_eq_all_conv)
  ultimately show ?thesis using assms(1) by (induction old) auto
qed

lemma From_quoted: "From_re (CHR ''>'' # l) = From_re l"
  by (simp add: From_re_def)

lemma From_line_re: "From_line l \<Longrightarrow> From_re l"
  by (cases l) (auto simp: From_line_def From_re_def)

lemma From_re_newline: "nl \<notin> set l \<Longrightarrow> From_re (l @ [nl]) = From_re l"
  by (induction l) (auto simp: From_re_def take_Cons' split: if_splits)

lemma writeline_line:
  assumes "one_line l"
  shows "one_line (writeline True l) \<and> \<not> From_line (butlast (writeline True l)) \<and>
    unquote_line (butlast (writeline True l)) = butlast l"
proof -
  obtain k where k: "l = k @ [nl]" "nl \<notin> set k" using one_lineE [OF assms] by blast
  show ?thesis
  proof (cases "From_re l")
    case True
    then have "From_re k" using k From_re_newline by simp
    then show ?thesis using k True by (simp add: writeline_def unquote_line_def From_quoted From_line_def one_line_def)
  next
    case False
    then have "\<not> From_re k" using k From_re_newline by simp
    then show ?thesis using k False From_line_re by (auto simp: writeline_def unquote_line_def one_line_def)
  qed
qed

section \<open>Properties\<close>

text \<open>Property C32. Saving a message appends one message to the mailbox: whatever lines the message has, also such that
  look like the start of a message, reading the mailbox gives the messages it had before and then exactly
  the lines of the new one; no other file is changed.\<close>

theorem mbox_roundtrip:
  assumes "text_save te th st = (Inr (), st')" "th_texthandling th = TEXT_MBOX" "th_infocount th \<noteq> 0"
    and "\<forall>i \<in> set (th_info th). one_line i" "one_line (te_ctime te)" "nl \<notin> set (te_version te)"
    and "tw_files st (mbox_path th) = Some old" "old = [] \<or> last old = nl" "th_firsttempfn th \<noteq> mbox_path th @ ''.tmp''"
  shows "\<exists>content new. tw_files st (th_firsttempfn th) = Some content \<and> tw_files st' (mbox_path th) = Some new \<and>
    mbox_read new = mbox_read old @ [List.map butlast (written_lines th content)] \<and> last new = nl \<and>
    (\<forall>fn. fn \<notin> {mbox_path th, mbox_path th @ ''.tmp''} \<longrightarrow> tw_files st' fn = tw_files st fn)"
proof -
  let ?tmp = "mbox_path th @ ''.tmp''"
  have s: "save_mbox te th (st\<lparr>tw_status := set_ok_status ST_plaintext 1 (tw_status st)\<rparr>) = (Inr (), st')"
    using assms(1-3) by (simp add: text_save_def)
  obtain content where c: "tw_files st (th_firsttempfn th) = Some content"
    and new: "tw_files st' = (tw_files st)(?tmp := None, mbox_path th \<mapsto> old @ mbox_entry te th content)"
    using s assms(7,9) by (auto simp: save_mbox_def Let_def split: option.splits if_splits)
  let ?from = "''From nget-'' @ te_version te @ '' '' @ te_ctime te"
  let ?ws = "written_lines th content"
  have hdr: "one_line ?from" "From_line (butlast ?from)"
    using one_lineE [OF assms(5)] assms(6) by (auto simp: one_line_def From_line_def butlast_append)
  have ws: "\<forall>l \<in> set ?ws. one_line l" by (rule written_lines_lines [OF assms(4)])
  have q: "\<forall>l \<in> set (List.map (writeline True) ?ws). one_line l" using ws writeline_line by auto
  have "text_lines (mbox_entry te th content) =
      butlast ?from # text_lines (concat (List.map (writeline True) ?ws) @ [nl])"
    using text_lines_append [OF hdr(1), of "writeinfo th True content @ [nl]"] by (simp add: mbox_entry_def writeinfo_def)
  also have "\<dots> = butlast ?from # (List.map butlast (List.map (writeline True) ?ws) @ [[]])"
    using text_lines_all [OF q, of "[nl]"] by simp
  finally have t: "text_lines (old @ mbox_entry te th content) =
      text_lines old @ butlast ?from # (List.map butlast (List.map (writeline True) ?ws) @ [[]])"
    using text_lines_complete [OF assms(8)] by simp
  have n: "\<forall>l \<in> set (List.map butlast (List.map (writeline True) ?ws) @ [[]]). \<not> From_line l"
    using ws writeline_line by (auto simp: From_line_def)
  have "List.map unquote_line (List.map butlast (List.map (writeline True) ?ws)) = List.map butlast ?ws"
    using ws writeline_line by (induction ?ws) auto
  then have "mbox_read (old @ mbox_entry te th content) = mbox_read old @ [List.map butlast ?ws]"
    using mbox_messages_append [OF hdr(2) n] by (simp add: mbox_read_def t butlast_append)
  moreover have "last (old @ mbox_entry te th content) = nl" by (simp add: mbox_entry_def)
  ultimately show ?thesis using c new by (intro exI [of _ content] exI [of _ "old @ mbox_entry te th content"]) auto
qed

text \<open>The header of a message that is given by the decoder, too, is written once.\<close>

lemma write_header_clean:
  assumes "\<forall>h \<in> set hs. h \<noteq> [] \<and> nl \<notin> set h \<and> CHR 0x0D \<notin> set h \<and> CHR 0x00 \<notin> set h"
  shows "write_header (concat (List.map (\<lambda>l. l @ [nl]) (hs @ [[]])) @ body) (List.map (\<lambda>l. l @ [nl]) (hs @ [[]]) @ rest) True =
    (concat (List.map (\<lambda>l. header_lines (l @ [nl])) (hs @ [[]])), body, rest)"
  using assms
proof (induction hs)
  case Nil
  then show ?case by (simp add: write_header.simps cstr_def Let_def)
next
  case (Cons h hs)
  have g: "s_gets (h @ nl # s) = (Suc (length h), h, s)" for s
    using Cons.prems by (intro s_gets_line) auto
  have "cstr h = h" using Cons.prems by (auto simp: cstr_def takeWhile_eq_all_conv)
  then show ?case using Cons g by (subst write_header.simps) (simp add: Let_def)
qed

lemma text_header_once:
  assumes "\<forall>h \<in> set hs. h \<noteq> [] \<and> nl \<notin> set h \<and> CHR 0x0D \<notin> set h \<and> CHR 0x00 \<notin> set h" "\<not> th_save_whole_tempfile th"
    and "th_info th = List.map (\<lambda>l. l @ [nl]) (hs @ [[]]) @ rest"
  shows "written_lines th (concat (List.map (\<lambda>l. l @ [nl]) (hs @ [[]])) @ body) =
    concat (List.map (\<lambda>l. header_lines (l @ [nl])) (hs @ [[]])) @ rest"
  using write_header_clean [OF assms(1), of body rest] assms(2,3) by (simp add: written_lines_def)

lemma fresh_name_least:
  assumes "\<not> used (name (k + n))" "\<forall>i < n. used (name (k + i))"
  shows "fresh_name used name k = Some (name (k + n), Suc (k + n))"
  using assms
proof (induction n arbitrary: k)
  case 0
  then show ?case by (simp add: fresh_name.simps)
next
  case (Suc n)
  have "used (name k)" using Suc.prems(2) by (metis add.right_neutral zero_less_Suc)
  moreover have "fresh_name used name (Suc k) = Some (name (Suc k + n), Suc (Suc k + n))"
    using Suc.prems by (intro Suc.IH) (simp, metis Suc_less_eq add_Suc_right add_Suc)
  ultimately show ?case by (simp add: fresh_name.simps [of used name k])
qed

lemma fresh_name_free:
  assumes "fresh_name used name k = Some r"
  shows "\<not> used (fst r) \<and> (\<exists>j. fst r = name j)"
proof (rule fresh_name.raw_induct [OF _ assms, of "\<lambda>used name k r. \<not> used (fst r) \<and> (\<exists>j. fst r = name j)"])
  fix f and used :: "string \<Rightarrow> bool" and name k r
  assume f: "\<And>used name k r. f used name k = Some r \<Longrightarrow> \<not> used (fst r) \<and> (\<exists>j. fst r = name j)"
    and r: "(if used (name k) then f used name (Suc k) else Some (name k, Suc k)) = Some r"
  show "\<not> used (fst r) \<and> (\<exists>j. fst r = name j)"
    by (cases "used (name k)") (use r in \<open>auto dest: f\<close>)
qed

text \<open>A random name is found as soon as one is free, and it is the first free one.\<close>

lemma fresh_name_found:
  assumes "\<not> used (name (k + n))"
  shows "\<exists>j \<ge> k. fresh_name used name k = Some (name j, Suc j) \<and> \<not> used (name j) \<and> (\<forall>i. k \<le> i \<and> i < j \<longrightarrow> used (name i))"
proof -
  define m where "m = (LEAST m. \<not> used (name (k + m)))"
  have m: "\<not> used (name (k + m))" "\<forall>i < m. used (name (k + i))"
    using LeastI [of "\<lambda>m. \<not> used (name (k + m))", OF assms] not_less_Least [of _ "\<lambda>m. \<not> used (name (k + m))"]
    unfolding m_def by blast+
  show ?thesis
  proof (intro exI [of _ "k + m"] conjI allI impI)
    show "used (name i)" if "k \<le> i \<and> i < k + m" for i using m(2) that by (metis add_diff_inverse_nat le_add_diff_inverse nat_add_left_cancel_less)
  qed (use m fresh_name_least [OF m] in auto)
qed

section \<open>Examples\<close>

definition example_text_env :: text_env where
  "example_text_env =
     \<lparr>te_disk = (\<lambda>_ _. Written), te_cut = (\<lambda>_ s. s), te_rand = int, te_ctime = ''Thu Jan  1 00:00:09 1970'' @ [nl],
      te_version = ''0.27''\<rparr>"

definition example_text :: text_handler where
  "example_text =
     \<lparr>th_texthandling = TEXT_MBOX, th_save_text_for_binaries = False, th_mboxname = ''mbox'', th_path = ''/d'', th_badate = 5,
      th_info = [''Subject: x'' @ [nl], [nl], ''From here on'' @ [nl], ''>From me'' @ [nl]],
      th_firsttempfn = ''t'', th_infocount = 4, th_decodeinfocount = 0, th_save_whole_tempfile = False\<rparr>"

theorem mbox_roundtrip_witness:
  "\<exists>new. tw_files (snd (text_save example_text_env example_text
       \<lparr>tw_status = status_new, tw_files = [''t'' \<mapsto> ''Subject: x'' @ [nl, nl] @ ''b'' @ [nl], ''/d/mbox'' \<mapsto> []], tw_rands = 0\<rparr>))
       ''/d/mbox'' = Some new \<and>
     mbox_read new = [[''Subject: x'', [], ''From here on'', ''>From me'']]"
proof -
  let ?st = "\<lparr>tw_status = status_new, tw_files = [''t'' \<mapsto> ''Subject: x'' @ [nl, nl] @ ''b'' @ [nl], ''/d/mbox'' \<mapsto> []], tw_rands = 0\<rparr>"
  have p: "mbox_path example_text = ''/d/mbox''" "th_firsttempfn example_text = ''t''" "th_texthandling example_text = TEXT_MBOX"
    "th_infocount example_text \<noteq> 0"
    by (simp_all add: mbox_path_def example_text_def is_abspath_def path_join_def path_append_def is_pathsep_def PATHSEP_def)
  have i: "\<forall>i \<in> set (th_info example_text). one_line i" "one_line (te_ctime example_text_env)" "nl \<notin> set (te_version example_text_env)"
    by (simp_all add: example_text_def example_text_env_def one_line_def)
  have te: "te_disk example_text_env = (\<lambda>_ _. Written)" by (simp add: example_text_env_def)
  obtain st' where s: "text_save example_text_env example_text ?st = (Inr (), st')"
    using p by (simp add: text_save_def save_mbox_def Let_def te)
  have w: "written_lines example_text (''Subject: x'' @ [nl, nl] @ ''b'' @ [nl]) =
      [''Subject: x'' @ [nl], [nl], ''From here on'' @ [nl], ''>From me'' @ [nl]]"
    using text_header_once [of "[''Subject: x'']" example_text "[''From here on'' @ [nl], ''>From me'' @ [nl]]" "''b'' @ [nl]"]
    by (simp add: example_text_def header_lines_def content_type_def)
  have f: "tw_files ?st (mbox_path example_text) = Some []" "th_firsttempfn example_text \<noteq> mbox_path example_text @ ''.tmp''"
    "tw_files ?st (th_firsttempfn example_text) = Some (''Subject: x'' @ [nl, nl] @ ''b'' @ [nl])"
    by (simp_all add: p)
  obtain new where n: "tw_files st' ''/d/mbox'' = Some new"
      "mbox_read new = mbox_read [] @ [List.map butlast (written_lines example_text (''Subject: x'' @ [nl, nl] @ ''b'' @ [nl]))]"
    using mbox_roundtrip [OF s p(3,4) i f(1) _ f(2)] unfolding f(3) p(1) by blast
  have r: "mbox_read [] = []" by (simp add: mbox_read_def)
  have "mbox_read new = [[''Subject: x'', [], ''From here on'', ''>From me'']]" unfolding n(2) w r by simp
  then show ?thesis using n(1) unfolding s snd_conv by blast
qed

end
