(* ===== verification/Decode.thy ===== *)
theory Decode
  imports Texthandler
begin

text \<open>
  Decoding (\<open>decode.cc\<close>): the parts of a posting are given to the decoder library, its files are written under
  names that are still free, duplicates of files that were decoded before are removed, text goes to the text
  handler, and what came of it is counted. The library (uulib) is not part of the program: what each of its
  calls reports and does to the files is an argument. The lemmas: a duplicate is only removed when another
  file has its content, and temporary files go only after a decoding without an error.
\<close>

section \<open>The decoder library\<close>

datatype uu_encoding = UU_ENCODED | B64ENCODED | XX_ENCODED | BH_ENCODED | PT_ENCODED | QP_ENCODED | YENC_ENCODED | UU_other

text \<open>The callbacks a call makes: messages, of a kind, and lines of information.\<close>

datatype uu_severity = UUMSG_MESSAGE | UUMSG_NOTE | UUMSG_WARNING | UUMSG_ERROR

datatype uu_event = UU_msg uu_severity string | UU_info string

record uulist =
  uu_filename :: "string option"
  uu_file_ok :: bool
  uu_uudet :: uu_encoding

text \<open>The library has a state \<open>'u\<close>. A file of its list is its number; the number of files is fixed when the
  parts are loaded. \<open>UUDecodeFile\<close> writes to the name that the filter of the program gives.\<close>

record 'u uulib =
  uu_initialize :: "'u option"
  uu_load :: "(string \<Rightarrow> string option) \<Rightarrow> string \<Rightarrow> int \<Rightarrow> 'u \<Rightarrow> uu_event list \<times> 'u"
  uu_count :: "'u \<Rightarrow> nat"
  uu_item :: "'u \<Rightarrow> nat \<Rightarrow> uulist"
  uu_rename :: "nat \<Rightarrow> string \<Rightarrow> 'u \<Rightarrow> 'u"
  uu_infofile :: "nat \<Rightarrow> 'u \<Rightarrow> uu_event list \<times> 'u"
  uu_decodefile :: "(string \<Rightarrow> string) \<Rightarrow> nat \<Rightarrow> (string \<Rightarrow> string option) \<Rightarrow> 'u \<Rightarrow>
    (string option \<times> uu_event list) \<times> (string \<Rightarrow> string option) \<times> 'u"

definition uutypetoa :: "uu_encoding \<Rightarrow> string" where
  "uutypetoa uudet =
     (case uudet of YENC_ENCODED \<Rightarrow> ''yEnc'' | UU_ENCODED \<Rightarrow> ''UUdata'' | B64ENCODED \<Rightarrow> ''Base64'' | XX_ENCODED \<Rightarrow> ''XXdata''
      | BH_ENCODED \<Rightarrow> ''BinHex'' | PT_ENCODED \<Rightarrow> ''plaintext'' | QP_ENCODED \<Rightarrow> ''qptext'' | UU_other \<Rightarrow> ''unknown'')"

section \<open>Names\<close>

text \<open>A name loses a quote on either side; the empty name has none. The program reads the byte in front of it.\<close>

definition fname_filter :: "string option \<Rightarrow> string \<Rightarrow> string" where
  "fname_filter path fn =
     (let fnp = (if take 1 fn = [CHR 0x22] then tl fn else fn);
          name = (if fnp \<noteq> [] \<and> last fnp = CHR 0x22 then butlast fnp else fnp)
      in case path of Some p \<Rightarrow> path_join p name | None \<Rightarrow> name)"

definition make_dupe_name ::
  "text_env \<Rightarrow> (string \<Rightarrow> string option) \<Rightarrow> string \<Rightarrow> string \<Rightarrow> nntp_file \<Rightarrow> nat \<Rightarrow> (string \<times> nat) option" where
  "make_dupe_name te fs path fn f k =
     fresh_name (\<lambda>s. file_exists fs (if is_abspath s then s else path_join path s))
       (\<lambda>j. fn @ ''.'' @ show_int (badate f) @ ''.'' @ show_int (te_rand te j)) k"

section \<open>Duplicates\<close>

text \<open>The comparison of two files block by block, each of 4096 bytes except for the last one.\<close>

function compare_blocks :: "string \<Rightarrow> string \<Rightarrow> bool" where
  "compare_blocks old new =
     (let old_buf = take 4096 old; new_buf = take 4096 new
      in if length old_buf = length new_buf
         then (if old_buf = [] then True else if old_buf \<noteq> new_buf then False
               else compare_blocks (drop 4096 old) (drop 4096 new))
         else False)"
  by pat_completeness auto
termination
  by (relation "measure (\<lambda>(old, new). length old)") auto

declare compare_blocks.simps [simp del]

text \<open>\<open>None\<close> when a file cannot be opened.\<close>

definition filecompare :: "(string \<Rightarrow> string option) \<Rightarrow> string \<Rightarrow> string \<Rightarrow> bool option" where
  "filecompare fs old_fn nfn =
     (case (fs old_fn, fs nfn) of
        (Some old, Some new) \<Rightarrow> if length old \<noteq> length new then Some False else Some (compare_blocks old new)
      | _ \<Rightarrow> None)"

text \<open>The search in a directory: the entries in order up to the first file of the same content.\<close>

fun dup_search :: "(string \<Rightarrow> string option) \<Rightarrow> string \<Rightarrow> string \<Rightarrow> string \<Rightarrow> string list \<Rightarrow> retr_ex + bool" where
  "dup_search fs path nfn orgfn [] = Inr False"
| "dup_search fs path nfn orgfn (d # ds) =
     (if d = ''..'' \<or> d = ''.'' then dup_search fs path nfn orgfn ds
      else
        (let de_fnp = path_join path d
         in if de_fnp = nfn \<or> \<not> strstartswith de_fnp orgfn then dup_search fs path nfn orgfn ds
            else (case filecompare fs nfn de_fnp of
                    None \<Rightarrow> Inl FileError
                  | Some True \<Rightarrow> Inr True
                  | Some False \<Rightarrow> dup_search fs path nfn orgfn ds)))"

definition find_duplicate ::
  "(string \<Rightarrow> string list option) \<Rightarrow> (string \<Rightarrow> string option) \<Rightarrow> string \<Rightarrow> string \<Rightarrow> retr_ex + bool" where
  "find_duplicate dir fs nfn orgfn =
     (let path = fst (path_split orgfn)
      in case dir path of None \<Rightarrow> Inl PathError | Some entries \<Rightarrow> dup_search fs path nfn orgfn entries)"

section \<open>The state of a decoding\<close>

text \<open>What the program takes from elsewhere: the library, the directories, and the environment of texts.\<close>

record 'u decode_env =
  de_uulib :: "'u uulib"
  de_dir :: "(string \<Rightarrow> string option) \<Rightarrow> string \<Rightarrow> string list option"
  de_text :: text_env
  de_wbeg :: string
  de_wend :: string

record 'u decoding =
  dc_uu :: 'u
  dc_text :: text_state
  dc_th :: text_handler
  dc_derr :: int
  dc_last_t :: "uu_severity option"
  dc_flist :: dupe_checker

definition uu_callback :: "uu_event \<Rightarrow> 'u decoding \<Rightarrow> 'u decoding" where
  "uu_callback e s =
     (case e of
        UU_info i \<Rightarrow> s\<lparr>dc_th := addinfo i (dc_th s)\<rparr>
      | UU_msg t m \<Rightarrow>
          if t = UUMSG_MESSAGE then s
          else s\<lparr>dc_derr := dc_derr s + 1, dc_last_t := Some t,
                 dc_th := (if t \<noteq> UUMSG_NOTE then adddecodeinfo m (dc_th s) else dc_th s)\<rparr>)"

definition uu_callbacks :: "uu_event list \<Rightarrow> 'u decoding \<Rightarrow> 'u decoding" where
  "uu_callbacks es s = foldl (\<lambda>s e. uu_callback e s) s es"

definition on_status :: "(status \<Rightarrow> status) \<Rightarrow> 'u decoding \<Rightarrow> 'u decoding" where
  "on_status g s = s\<lparr>dc_text := (dc_text s)\<lparr>tw_status := g (tw_status (dc_text s))\<rparr>\<rparr>"

definition on_files :: "((string \<Rightarrow> string option) \<Rightarrow> string \<Rightarrow> string option) \<Rightarrow> 'u decoding \<Rightarrow> 'u decoding" where
  "on_files g s = s\<lparr>dc_text := (dc_text s)\<lparr>tw_files := g (tw_files (dc_text s))\<rparr>\<rparr>"

abbreviation dc_files :: "'u decoding \<Rightarrow> string \<Rightarrow> string option" where
  "dc_files s \<equiv> tw_files (dc_text s)"

definition decode_info :: "string \<Rightarrow> 'u decoding \<Rightarrow> 'u decoding" where
  "decode_info str s = s\<lparr>dc_th := adddecodeinfo str (dc_th s)\<rparr>"

definition decode_error :: "string \<Rightarrow> 'u decoding \<Rightarrow> 'u decoding" where
  "decode_error str s = decode_info str (s\<lparr>dc_derr := dc_derr s + 1\<rparr>)"

text \<open>The file, and whether it was removed.\<close>

definition remove_if_duplicate :: "'u decode_env \<Rightarrow> string \<Rightarrow> string \<Rightarrow> 'u decoding \<Rightarrow> (retr_ex + bool) \<times> 'u decoding" where
  "remove_if_duplicate env nfn orgfn s =
     (case find_duplicate (de_dir env (dc_files s)) (dc_files s) nfn orgfn of
        Inl e \<Rightarrow> (Inl e, s)
      | Inr True \<Rightarrow> (Inr True, on_status (set_ok_status ST_dupe 1) (on_files (\<lambda>fs. fs(nfn := None)) s))
      | Inr False \<Rightarrow> (Inr False, s))"

text \<open>\<open>UUDecodeFile\<close>: \<open>None\<close> is success, otherwise the text of the error.\<close>

definition uu_decode :: "'u decode_env \<Rightarrow> string \<Rightarrow> nat \<Rightarrow> 'u decoding \<Rightarrow> string option \<times> 'u decoding" where
  "uu_decode env path un s =
     (case uu_decodefile (de_uulib env) (fname_filter (Some path)) un (dc_files s) (dc_uu s) of
        ((r, es), fs, u) \<Rightarrow> (r, uu_callbacks es (on_files (\<lambda>_. fs) (s\<lparr>dc_uu := u\<rparr>))))"

section \<open>One file of the library's list\<close>

text \<open>The options of the user that matter here.\<close>

record decode_options =
  do_keeptemp :: bool
  do_nodupefilecheck :: bool
  do_texthandling :: text_handling
  do_save_text_for_binaries :: bool
  do_mboxfname :: string

text \<open>The regular expression \<open>^[0-9][0-9][0-9][0-9]+\\.txt$\<close>.\<close>

definition uulib_textfn :: "string \<Rightarrow> bool" where
  "uulib_textfn name \<longleftrightarrow> length (takeWhile is_digit name) \<ge> 4 \<and> dropWhile is_digit name = ''.txt''"

text \<open>The name in the list; \<open>UURenameFile\<close> is taken to have given one to a file without.\<close>

definition item_name :: "'u uulib \<Rightarrow> 'u \<Rightarrow> nat \<Rightarrow> string" where
  "item_name lib u un = (case uu_filename (uu_item lib u un) of Some name \<Rightarrow> name | None \<Rightarrow> ''noname'')"

definition set_uu :: "'u \<Rightarrow> 'u decoding \<Rightarrow> 'u decoding" where
  "set_uu u s = s\<lparr>dc_uu := u\<rparr>"

definition check_item :: "'u decode_env \<Rightarrow> nat \<Rightarrow> 'u decoding \<Rightarrow> 'u decoding" where
  "check_item env un s =
     (let lib = de_uulib env;
          s1 = (if uu_filename (uu_item lib (dc_uu s) un) = None
                then set_uu (uu_rename lib un ''noname'' (dc_uu s)) (s\<lparr>dc_derr := dc_derr s + 1\<rparr>) else s);
          s2 = (if \<not> uu_file_ok (uu_item lib (dc_uu s1) un)
                then decode_error (item_name lib (dc_uu s1) un @ '' not ok'') s1 else s1)
      in case uu_infofile lib un (dc_uu s2) of (es, u) \<Rightarrow> uu_callbacks es (set_uu u s2))"

text \<open>The file is good and its name is free: after an error what was written is renamed. The result is the
  error of the library, if any.\<close>

definition decode_free ::
  "'u decode_env \<Rightarrow> file_retr \<Rightarrow> nat \<Rightarrow> string \<Rightarrow> 'u decoding \<Rightarrow> (retr_ex + string option) \<times> 'u decoding" where
  "decode_free env fr un orig_fnp s =
     (case uu_decode env (fr_path fr) un s of
        (r, s1) \<Rightarrow>
          if (r \<noteq> None \<or> dc_derr s1 \<noteq> dc_derr s) \<and> file_exists (dc_files s1) orig_fnp
          then (case make_dupe_name (de_text env) (dc_files s1) (fr_path fr) orig_fnp (fr_file fr) (tw_rands (dc_text s1)) of
                  None \<Rightarrow> (Inl Endless, s1)
                | Some (nfnp, k) \<Rightarrow>
                    (let s2 = on_files (\<lambda>fs. fs(orig_fnp := None, nfnp := fs orig_fnp)) (s1\<lparr>dc_text := (dc_text s1)\<lparr>tw_rands := k\<rparr>\<rparr>)
                     in case remove_if_duplicate env nfnp orig_fnp s2 of
                          (Inl e, s3) \<Rightarrow> (Inl e, s3)
                        | (Inr _, s3) \<Rightarrow> (Inr r, s3)))
          else (Inr r, s1))"

text \<open>Otherwise it is decoded under a new name.\<close>

definition decode_renamed ::
  "'u decode_env \<Rightarrow> file_retr \<Rightarrow> nat \<Rightarrow> string \<Rightarrow> 'u decoding \<Rightarrow> (retr_ex + string option) \<times> 'u decoding" where
  "decode_renamed env fr un orig_fnp s =
     (case make_dupe_name (de_text env) (dc_files s) (fr_path fr)
              (fname_filter None (item_name (de_uulib env) (dc_uu s) un)) (fr_file fr) (tw_rands (dc_text s)) of
        None \<Rightarrow> (Inl Endless, s)
      | Some (nfn, k) \<Rightarrow>
          (case uu_decode env (fr_path fr) un
                  (set_uu (uu_rename (de_uulib env) un nfn (dc_uu s)) (s\<lparr>dc_text := (dc_text s)\<lparr>tw_rands := k\<rparr>\<rparr>)) of
             (Some err, s1) \<Rightarrow> (Inr (Some err), s1)
           | (None, s1) \<Rightarrow>
               (case remove_if_duplicate env (path_join (fr_path fr) nfn) orig_fnp s1 of
                  (Inl e, s2) \<Rightarrow> (Inl e, s2)
                | (Inr removed_dup, s2) \<Rightarrow>
                    (Inr None, if file_exists (dc_files s2) orig_fnp \<and> \<not> removed_dup
                               then on_status (set_warn_status ST_dupe 1) s2 else s2))))"

definition uu_status :: "uu_encoding \<Rightarrow> status_type" where
  "uu_status uudet =
     (case uudet of YENC_ENCODED \<Rightarrow> ST_yenc | UU_ENCODED \<Rightarrow> ST_uu | B64ENCODED \<Rightarrow> ST_base64 | XX_ENCODED \<Rightarrow> ST_xx
      | BH_ENCODED \<Rightarrow> ST_binhex | PT_ENCODED \<Rightarrow> ST_plaintext | QP_ENCODED \<Rightarrow> ST_qp | UU_other \<Rightarrow> ST_unknown)"

definition report_item ::
  "'u decode_env \<Rightarrow> decode_options \<Rightarrow> file_retr \<Rightarrow> nat \<Rightarrow> int \<Rightarrow> string option \<Rightarrow> 'u decoding \<Rightarrow> 'u decoding" where
  "report_item env opts fr un pre_decode_derr r s =
     (let det = uu_uudet (uu_item (de_uulib env) (dc_uu s) un);
          name = item_name (de_uulib env) (dc_uu s) un;
          what = uutypetoa det @ '' '' @ name
      in case r of
           Some err \<Rightarrow> decode_error (''error decoding '' @ what @ '': '' @ err) s
         | None \<Rightarrow>
             if pre_decode_derr \<noteq> dc_derr s
             then decode_info (''error decoding '' @ what @ '': '' @ show_int (dc_derr s - pre_decode_derr) @ ''derr(s)'') s
             else
               (let s1 = decode_info what s
                in on_status (set_ok_status (uu_status det) 1)
                     (if do_nodupefilecheck opts then s1
                      else s1\<lparr>dc_flist := dupe_addfile (de_wbeg env) (de_wend env)
                                 (\<lambda>p. map_option (\<lambda>c. of_nat (length c)) (dc_files s1 p)) (dc_flist s1) (fr_path fr) name\<rparr>)))"

definition decode_item ::
  "'u decode_env \<Rightarrow> decode_options \<Rightarrow> file_retr \<Rightarrow> nat \<Rightarrow> 'u decoding \<Rightarrow> (retr_ex + unit) \<times> 'u decoding" where
  "decode_item env opts fr un s0 =
     (let lib = de_uulib env; s = check_item env un s0; it = uu_item lib (dc_uu s) un; name = item_name lib (dc_uu s) un;
          orig_fnp = fname_filter (Some (fr_path fr)) name
      in if (uu_uudet it = PT_ENCODED \<or> uu_uudet it = QP_ENCODED) \<and> uulib_textfn name then (Inr (), s)
         else
           (case (if uu_file_ok it \<and> \<not> file_exists (dc_files s) orig_fnp then decode_free env fr un orig_fnp s
                  else decode_renamed env fr un orig_fnp s) of
              (Inl e, s') \<Rightarrow> (Inl e, s')
            | (Inr r, s') \<Rightarrow> (Inr (), report_item env opts fr un (dc_derr s) r s')))"

fun decode_items ::
  "'u decode_env \<Rightarrow> decode_options \<Rightarrow> file_retr \<Rightarrow> nat list \<Rightarrow> 'u decoding \<Rightarrow> (retr_ex + unit) \<times> 'u decoding" where
  "decode_items env opts fr [] s = (Inr (), s)"
| "decode_items env opts fr (un # uns) s =
     (case decode_item env opts fr un s of
        (Inl e, s') \<Rightarrow> (Inl e, s')
      | (Inr _, s') \<Rightarrow> decode_items env opts fr uns s')"

section \<open>A posting\<close>

fun load_parts :: "'u uulib \<Rightarrow> (int \<times> string) list \<Rightarrow> 'u decoding \<Rightarrow> 'u decoding" where
  "load_parts lib [] s = s"
| "load_parts lib ((partno, fn) # fnbuf) s =
     (case uu_load lib (dc_files s) fn partno (dc_uu s) of
        (es, u) \<Rightarrow> load_parts lib fnbuf (uu_callbacks es (set_uu u s)))"

definition delete_tempfiles :: "(int \<times> string) list \<Rightarrow> (string \<Rightarrow> string option) \<Rightarrow> string \<Rightarrow> string option" where
  "delete_tempfiles fnbuf fs = foldl (\<lambda>fs (partno, fn). fs(fn := None)) fs fnbuf"

text \<open>A posting in which the library finds nothing is taken for text.\<close>

definition no_encoded_data :: "(int \<times> string) list \<Rightarrow> file_retr \<Rightarrow> nat \<Rightarrow> 'u decoding \<Rightarrow> bool" where
  "no_encoded_data fnbuf fr un s \<longleftrightarrow>
     dc_derr s = 1 \<and> dc_last_t s = Some UUMSG_NOTE \<and> un = 0 \<and> fb_req (nf_base (fr_file fr)) \<le> 0 \<and> length fnbuf = 1"

definition finish_decoding ::
  "decode_options \<Rightarrow> (int \<times> string) list \<Rightarrow> int \<Rightarrow> nat \<Rightarrow> text_state \<Rightarrow> int \<times> text_state" where
  "finish_decoding opts fnbuf derr un t =
     (if derr > 0 then (derr, t\<lparr>tw_status := set_error_status ST_decode 1 (tw_status t)\<rparr>)
      else if un = 0 then (1, t\<lparr>tw_status := set_warn_status ST_undecoded 1 (tw_status t)\<rparr>)
      else (derr, (if do_keeptemp opts then t else t\<lparr>tw_files := delete_tempfiles fnbuf (tw_files t)\<rparr>)
                    \<lparr>tw_status := set_ok_status ST_total 1 (tw_status t)\<rparr>))"

definition decode ::
  "'u decode_env \<Rightarrow> decode_options \<Rightarrow> (int \<times> string) list \<Rightarrow> file_retr \<Rightarrow> dupe_checker \<Rightarrow> text_state \<Rightarrow>
   (retr_ex + int) \<times> text_state \<times> dupe_checker"
where
  "decode env opts fnbuf fr flist t =
     (if fnbuf = [] then (Inr 0, t, flist)
      else
        (case uu_initialize (de_uulib env) of
           None \<Rightarrow> (Inl AppError, t, flist)
         | Some u \<Rightarrow>
             (let s = load_parts (de_uulib env) fnbuf
                        \<lparr>dc_uu = u, dc_text = t,
                         dc_th = text_handler_new (do_texthandling opts) (do_save_text_for_binaries opts) (do_mboxfname opts) fr
                                   (snd (hd fnbuf)),
                         dc_derr = 0, dc_last_t = None, dc_flist = flist\<rparr>;
                  un = uu_count (de_uulib env) (dc_uu s)
              in case decode_items env opts fr [0 ..< un] s of
                   (Inl e, s1) \<Rightarrow> (Inl e, dc_text s1, dc_flist s1)
                 | (Inr _, s1) \<Rightarrow>
                     (let (derr, un', th) =
                        (if no_encoded_data fnbuf fr un s1 then (0, 1, set_save_whole_tempfile True (dc_th s1))
                         else (dc_derr s1, un, dc_th s1))
                      in case (if derr = 0 then text_save (de_text env) th (dc_text s1) else (Inr (), dc_text s1)) of
                           (Inl e, t1) \<Rightarrow> (Inl e, t1, dc_flist s1)
                         | (Inr _, t1) \<Rightarrow>
                             (case finish_decoding opts fnbuf derr un' t1 of (d, t2) \<Rightarrow> (Inr d, t2, dc_flist s1))))))"

section \<open>Duplicates are duplicates\<close>

lemma compare_blocks_eq: "compare_blocks old new \<longleftrightarrow> old = new"
proof (induction old new rule: compare_blocks.induct)
  case (1 old new)
  show ?case
  proof (cases "length (take 4096 old) = length (take 4096 new) \<and> take 4096 old \<noteq> [] \<and> take 4096 old = take 4096 new")
    case True
    then have "compare_blocks (drop 4096 old) (drop 4096 new) \<longleftrightarrow> drop 4096 old = drop 4096 new" by (intro 1 [OF refl refl]) auto
    then have "compare_blocks old new \<longleftrightarrow> drop 4096 old = drop 4096 new" using True by (auto simp: compare_blocks.simps [of old] Let_def)
    then show ?thesis using True by (metis append_take_drop_id)
  next
    case False
    then show ?thesis by (auto simp: compare_blocks.simps [of old] Let_def min_def split: if_splits)
  qed
qed

lemma filecompare_some: "filecompare fs a b = Some r \<Longrightarrow> fs a \<noteq> None \<and> fs b \<noteq> None \<and> (r \<longleftrightarrow> fs a = fs b)"
  by (auto simp: filecompare_def compare_blocks_eq split: option.splits if_splits)

definition dup_candidates :: "string \<Rightarrow> string \<Rightarrow> string \<Rightarrow> string list \<Rightarrow> string list" where
  "dup_candidates path nfn orgfn ds =
     filter (\<lambda>g. g \<noteq> nfn \<and> strstartswith g orgfn) (List.map (path_join path) (filter (\<lambda>d. d \<noteq> ''..'' \<and> d \<noteq> ''.'') ds))"

lemma dup_search_found:
  "dup_search fs path nfn orgfn ds = Inr b \<Longrightarrow>
     b \<longleftrightarrow> (\<exists>g \<in> set (dup_candidates path nfn orgfn ds). fs g \<noteq> None \<and> fs g = fs nfn)"
proof (induction ds)
  case (Cons d ds)
  show ?case
  proof (cases "d = ''..'' \<or> d = ''.'' \<or> path_join path d = nfn \<or> \<not> strstartswith (path_join path d) orgfn")
    case True
    then have "dup_search fs path nfn orgfn ds = Inr b" using Cons.prems by (auto simp: Let_def split: if_splits)
    moreover have "dup_candidates path nfn orgfn (d # ds) = dup_candidates path nfn orgfn ds"
      using True by (auto simp: dup_candidates_def)
    ultimately show ?thesis using Cons.IH by simp
  next
    case False
    then have c: "dup_candidates path nfn orgfn (d # ds) = path_join path d # dup_candidates path nfn orgfn ds"
      by (simp add: dup_candidates_def)
    from False Cons.prems obtain r where r: "filecompare fs nfn (path_join path d) = Some r"
      and b: "if r then b else dup_search fs path nfn orgfn ds = Inr b"
      by (auto simp: Let_def split: option.splits bool.splits)
    show ?thesis using filecompare_some [OF r] Cons.IH b c by (auto split: if_splits)
  qed
qed (simp add: dup_candidates_def)

lemma find_duplicate_found:
  assumes "find_duplicate dir fs nfn orgfn = Inr b"
  shows "\<exists>ds. dir (fst (path_split orgfn)) = Some ds \<and>
    (b \<longleftrightarrow> (\<exists>g \<in> set (dup_candidates (fst (path_split orgfn)) nfn orgfn ds). fs g \<noteq> None \<and> fs g = fs nfn))"
  using assms dup_search_found by (auto simp: find_duplicate_def Let_def split: option.splits)

lemma on_files_fields [simp]:
  "dc_files (on_files g s) = g (dc_files s)" "dc_derr (on_files g s) = dc_derr s" "dc_th (on_files g s) = dc_th s"
  "tw_status (dc_text (on_files g s)) = tw_status (dc_text s)" "dc_uu (on_files g s) = dc_uu s"
  by (simp_all add: on_files_def)

lemma on_status_fields [simp]:
  "dc_files (on_status g s) = dc_files s" "dc_derr (on_status g s) = dc_derr s" "dc_th (on_status g s) = dc_th s"
  "tw_status (dc_text (on_status g s)) = g (tw_status (dc_text s))" "dc_uu (on_status g s) = dc_uu s"
  by (simp_all add: on_status_def)

section \<open>Properties\<close>

text \<open>A decoded file is removed as a duplicate exactly when its directory holds another file whose name
  starts with the original name and whose content is the same; that file stays.\<close>

theorem duplicate_removed:
  assumes "remove_if_duplicate env nfn orgfn s = (Inr b, s')"
  shows "\<exists>ds. de_dir env (dc_files s) (fst (path_split orgfn)) = Some ds \<and>
    (b \<longleftrightarrow> (\<exists>g \<in> set (dup_candidates (fst (path_split orgfn)) nfn orgfn ds). dc_files s g \<noteq> None \<and> dc_files s g = dc_files s nfn)) \<and>
    dc_files s' = (if b then (dc_files s)(nfn := None) else dc_files s)"
proof -
  obtain b' where f: "find_duplicate (de_dir env (dc_files s)) (dc_files s) nfn orgfn = Inr b'"
    using assms by (auto simp: remove_if_duplicate_def split: sum.splits)
  have b: "b' = b" "dc_files s' = (if b then (dc_files s)(nfn := None) else dc_files s)"
    using assms f by (auto simp: remove_if_duplicate_def split: bool.splits)
  show ?thesis using find_duplicate_found [OF f] b by simp
qed

section \<open>What a decoding keeps\<close>

text \<open>A relation between the states before and after that holds of every part of the decoding of a file and is
  transitive holds of the decoding of all the files.\<close>

locale decode_parts =
  fixes env :: "'u decode_env" and fr :: file_retr and R :: "'u decoding \<Rightarrow> 'u decoding \<Rightarrow> bool"
  assumes kept_refl: "R s s" and kept_trans: "R s s' \<Longrightarrow> R s' s'' \<Longrightarrow> R s s''"
    and kept_check: "R s (check_item env un s)"
    and kept_free: "\<not> file_exists (dc_files s) (fname_filter (Some (fr_path fr)) name) \<Longrightarrow>
      decode_free env fr un (fname_filter (Some (fr_path fr)) name) s = (r, s') \<Longrightarrow> R s s'"
    and kept_renamed: "decode_renamed env fr un orig s = (r, s') \<Longrightarrow> R s s'"
    and kept_report: "R s (report_item env opts fr un pre e s)"
begin

lemma item_kept:
  assumes "decode_item env opts fr un s = (r, s')"
  shows "R s s'"
proof -
  define s0 where "s0 = check_item env un s"
  define it where "it = uu_item (de_uulib env) (dc_uu s0) un"
  define orig where "orig = fname_filter (Some (fr_path fr)) (item_name (de_uulib env) (dc_uu s0) un)"
  have k: "R s s0" unfolding s0_def by (rule kept_check)
  define m where "m = (if uu_file_ok it \<and> \<not> file_exists (dc_files s0) orig then decode_free env fr un orig s0
                  else decode_renamed env fr un orig s0)"
  obtain x s1 where x: "m = (x, s1)" by (cases m)
  have k1: "R s0 s1"
  proof (cases "uu_file_ok it \<and> \<not> file_exists (dc_files s0) orig")
    case True
    then show ?thesis using x kept_free unfolding m_def orig_def by auto
  next
    case False
    have "decode_renamed env fr un orig s0 = (x, s1)" using x unfolding m_def if_not_P [OF False] .
    then show ?thesis by (rule kept_renamed)
  qed
  have "s' = s0 \<or> s' = s1 \<or> (\<exists>e. s' = report_item env opts fr un (dc_derr s0) e s1)"
    using assms [unfolded decode_item_def Let_def, folded s0_def, folded it_def orig_def, folded m_def, unfolded x]
    by (auto split: if_splits sum.splits)
  then show ?thesis using k k1 kept_report kept_trans by metis
qed

lemma items_kept: "decode_items env opts fr uns s = (r, s') \<Longrightarrow> R s s'"
proof (induction uns arbitrary: s)
  case (Cons un uns)
  obtain x s1 where x: "decode_item env opts fr un s = (x, s1)" by (cases "decode_item env opts fr un s")
  note k = item_kept [OF x]
  show ?case
  proof (cases x)
    case (Inl e)
    then show ?thesis using Cons.prems x k by simp
  next
    case (Inr a)
    then have "R s1 s'" using Cons x by simp
    then show ?thesis using k kept_trans by blast
  qed
qed (simp add: kept_refl)

end

text \<open>Where texts go stays as it is.\<close>

definition th_same :: "'u decoding \<Rightarrow> 'u decoding \<Rightarrow> bool" where
  "th_same s s' \<longleftrightarrow>
     th_texthandling (dc_th s') = th_texthandling (dc_th s) \<and> th_mboxname (dc_th s') = th_mboxname (dc_th s) \<and>
     th_path (dc_th s') = th_path (dc_th s)"

text \<open>The counts that only the end of a decoding changes, and the errors, which only grow.\<close>

definition counts_kept :: "'u decoding \<Rightarrow> 'u decoding \<Rightarrow> bool" where
  "counts_kept s s' \<longleftrightarrow>
     dc_derr s \<le> dc_derr s' \<and> th_same s s' \<and>
     ok_count (tw_status (dc_text s')) ST_total = ok_count (tw_status (dc_text s)) ST_total \<and>
     error_count (tw_status (dc_text s')) ST_decode = error_count (tw_status (dc_text s)) ST_decode \<and>
     warn_count (tw_status (dc_text s')) ST_undecoded = warn_count (tw_status (dc_text s)) ST_undecoded"

lemma counts_kept_refl [intro]: "counts_kept s s"
  by (simp add: counts_kept_def th_same_def)

lemma counts_kept_trans: "counts_kept s s' \<Longrightarrow> counts_kept s' s'' \<Longrightarrow> counts_kept s s''"
  by (simp add: counts_kept_def th_same_def)

lemma uu_callback_text: "dc_text (uu_callback e s) = dc_text s \<and> dc_derr s \<le> dc_derr (uu_callback e s) \<and> th_same s (uu_callback e s)"
  by (simp add: uu_callback_def th_same_def addinfo_def adddecodeinfo_def split: uu_event.split)

lemma uu_callbacks_text: "dc_text (uu_callbacks es s) = dc_text s \<and> dc_derr s \<le> dc_derr (uu_callbacks es s) \<and> th_same s (uu_callbacks es s)"
proof (induction es arbitrary: s)
  case (Cons e es)
  have "uu_callbacks (e # es) s = uu_callbacks es (uu_callback e s)" by (simp add: uu_callbacks_def)
  then show ?case using Cons.IH [of "uu_callback e s"] uu_callback_text [of e s] by (simp add: th_same_def)
qed (simp add: uu_callbacks_def th_same_def)

lemma decode_error_text: "dc_text (decode_error m s) = dc_text s \<and> dc_derr s \<le> dc_derr (decode_error m s) \<and> th_same s (decode_error m s)"
  by (simp add: decode_error_def decode_info_def th_same_def adddecodeinfo_def)

lemma set_uu_text [simp]: "dc_text (set_uu u s) = dc_text s" "dc_derr (set_uu u s) = dc_derr s" "dc_th (set_uu u s) = dc_th s"
  by (simp_all add: set_uu_def)

lemma check_item_text: "dc_text (check_item env un s) = dc_text s \<and> dc_derr s \<le> dc_derr (check_item env un s) \<and> th_same s (check_item env un s)"
proof -
  define lib where "lib = de_uulib env"
  define s1 where "s1 = (if uu_filename (uu_item lib (dc_uu s) un) = None
                then set_uu (uu_rename lib un ''noname'' (dc_uu s)) (s\<lparr>dc_derr := dc_derr s + 1\<rparr>) else s)"
  define s2 where "s2 = (if \<not> uu_file_ok (uu_item lib (dc_uu s1) un)
                then decode_error (item_name lib (dc_uu s1) un @ '' not ok'') s1 else s1)"
  obtain es u where i: "uu_infofile lib un (dc_uu s2) = (es, u)" by (cases "uu_infofile lib un (dc_uu s2)")
  have "check_item env un s = (case uu_infofile lib un (dc_uu s2) of (es, u) \<Rightarrow> uu_callbacks es (set_uu u s2))"
    by (simp only: check_item_def Let_def lib_def s1_def s2_def)
  then have e: "check_item env un s = uu_callbacks es (set_uu u s2)" using i by simp
  have "dc_text s1 = dc_text s \<and> dc_derr s \<le> dc_derr s1 \<and> th_same s s1" by (simp add: s1_def th_same_def)
  moreover have "dc_text s2 = dc_text s1 \<and> dc_derr s1 \<le> dc_derr s2 \<and> th_same s1 s2"
    by (simp add: s2_def decode_error_text) (simp add: th_same_def)
  ultimately show ?thesis using uu_callbacks_text [of es "set_uu u s2"] by (simp add: e th_same_def)
qed

lemma uu_decode_status:
  assumes "uu_decode env path un s = (r, s')"
  shows "tw_status (dc_text s') = tw_status (dc_text s) \<and> dc_derr s \<le> dc_derr s' \<and> th_same s s'"
proof -
  obtain es fs u where d: "uu_decodefile (de_uulib env) (fname_filter (Some path)) un (dc_files s) (dc_uu s) = ((r, es), fs, u)"
    "s' = uu_callbacks es (on_files (\<lambda>_. fs) (s\<lparr>dc_uu := u\<rparr>))"
    using assms by (auto simp: uu_decode_def split: prod.splits)
  show ?thesis using uu_callbacks_text [of es "on_files (\<lambda>_. fs) (s\<lparr>dc_uu := u\<rparr>)"] d(2) by (simp add: th_same_def)
qed

lemma remove_if_duplicate_counts: "remove_if_duplicate env nfn orgfn s = (r, s') \<Longrightarrow> counts_kept s s'"
  by (auto simp: remove_if_duplicate_def counts_kept_def th_same_def set_ok_status_def split: sum.splits bool.splits)

lemma decode_free_counts:
  assumes "decode_free env fr un orig s = (r, s')"
  shows "counts_kept s s'"
proof -
  obtain e s1 where d: "uu_decode env (fr_path fr) un s = (e, s1)" by (cases "uu_decode env (fr_path fr) un s")
  have k: "counts_kept s s1" using uu_decode_status [OF d] by (simp add: counts_kept_def th_same_def)
  show ?thesis
  proof (cases "(e \<noteq> None \<or> dc_derr s1 \<noteq> dc_derr s) \<and> file_exists (dc_files s1) orig \<and>
      make_dupe_name (de_text env) (dc_files s1) (fr_path fr) orig (fr_file fr) (tw_rands (dc_text s1)) \<noteq> None")
    case False
    then have "s' = s1" using assms by (cases "make_dupe_name (de_text env) (dc_files s1) (fr_path fr) orig (fr_file fr) (tw_rands (dc_text s1))")
        (auto simp: decode_free_def d split: if_splits)
    then show ?thesis using k by simp
  next
    case True
    then obtain nfnp j where j: "make_dupe_name (de_text env) (dc_files s1) (fr_path fr) orig (fr_file fr) (tw_rands (dc_text s1)) =
        Some (nfnp, j)" by auto
    let ?s2 = "on_files (\<lambda>fs. fs(orig := None, nfnp := fs orig)) (s1\<lparr>dc_text := (dc_text s1)\<lparr>tw_rands := j\<rparr>\<rparr>)"
    obtain b s3 where r: "remove_if_duplicate env nfnp orig ?s2 = (b, s3)" by (cases "remove_if_duplicate env nfnp orig ?s2")
    have e: "s' = s3" using assms True j r by (auto simp: decode_free_def d Let_def split: sum.splits)
    have "counts_kept s1 ?s2" by (simp add: counts_kept_def th_same_def)
    then show ?thesis unfolding e by (rule counts_kept_trans [OF counts_kept_trans [OF k] remove_if_duplicate_counts [OF r]])
  qed
qed

lemma decode_renamed_counts:
  assumes "decode_renamed env fr un orig s = (r, s')"
  shows "counts_kept s s'"
proof (cases "make_dupe_name (de_text env) (dc_files s) (fr_path fr)
              (fname_filter None (item_name (de_uulib env) (dc_uu s) un)) (fr_file fr) (tw_rands (dc_text s))")
  case None
  then show ?thesis using assms by (auto simp: decode_renamed_def)
next
  case (Some nk)
  obtain nfn j where j: "nk = (nfn, j)" by (cases nk)
  let ?s0 = "set_uu (uu_rename (de_uulib env) un nfn (dc_uu s)) (s\<lparr>dc_text := (dc_text s)\<lparr>tw_rands := j\<rparr>\<rparr>)"
  obtain e s1 where d: "uu_decode env (fr_path fr) un ?s0 = (e, s1)" by (cases "uu_decode env (fr_path fr) un ?s0")
  have k: "counts_kept s s1" using uu_decode_status [OF d] by (simp add: counts_kept_def th_same_def)
  show ?thesis
  proof (cases e)
    case (Some err)
    then have "s' = s1" using assms \<open>_ = Some nk\<close> j d by (simp add: decode_renamed_def)
    then show ?thesis using k by simp
  next
    case None
    obtain b s2 where r: "remove_if_duplicate env (path_join (fr_path fr) nfn) orig s1 = (b, s2)"
      by (cases "remove_if_duplicate env (path_join (fr_path fr) nfn) orig s1")
    have "s' = s2 \<or> s' = on_status (set_warn_status ST_dupe 1) s2"
      using assms Some j d None r by (auto simp: decode_renamed_def split: sum.splits)
    moreover have "counts_kept s2 (on_status (set_warn_status ST_dupe 1) s2)" by (simp add: counts_kept_def th_same_def set_warn_status_def)
    moreover have "counts_kept s s2" by (rule counts_kept_trans [OF k remove_if_duplicate_counts [OF r]])
    ultimately show ?thesis using counts_kept_trans by blast
  qed
qed

lemma report_item_counts: "counts_kept s (report_item env opts fr un pre r s)"
  by (cases "uu_uudet (uu_item (de_uulib env) (dc_uu s) un)")
    (auto simp: report_item_def Let_def counts_kept_def th_same_def adddecodeinfo_def decode_error_def decode_info_def set_ok_status_def uu_status_def
      split: option.splits)

interpretation counts: decode_parts env fr counts_kept for env :: "'u decode_env" and fr
proof unfold_locales
  show "counts_kept s (check_item env un s)" for s :: "'u decoding" and un
    using check_item_text [of env un s] by (simp add: counts_kept_def)
  show "counts_kept s s'" if "counts_kept s s1" "counts_kept s1 s'" for s s1 s' :: "'u decoding"
    using that by (rule counts_kept_trans)
qed (use decode_free_counts decode_renamed_counts report_item_counts in auto)

lemma load_parts_text: "dc_text (load_parts lib fnbuf s) = dc_text s \<and> dc_derr s \<le> dc_derr (load_parts lib fnbuf s) \<and> th_same s (load_parts lib fnbuf s)"
proof (induction lib fnbuf s rule: load_parts.induct)
  case (2 lib partno fn fnbuf s)
  obtain es u where l: "uu_load lib (dc_files s) fn partno (dc_uu s) = (es, u)" by (cases "uu_load lib (dc_files s) fn partno (dc_uu s)")
  show ?case using "2.IH" [OF l [symmetric]] uu_callbacks_text [of es "set_uu u s"] l by (simp add: th_same_def)
qed (simp add: th_same_def)

section \<open>What happens to existing files\<close>

text \<open>The library, told not to overwrite, does not touch files that exist.\<close>

definition never_overwrites :: "'u uulib \<Rightarrow> bool" where
  "never_overwrites lib \<longleftrightarrow>
     (\<forall>flt un fs u r fs' u'. uu_decodefile lib flt un fs u = (r, fs', u') \<longrightarrow> (\<forall>g. fs g \<noteq> None \<longrightarrow> fs' g = fs g))"

text \<open>The names it gives to files are relative.\<close>

definition relative_names :: "'u uulib \<Rightarrow> bool" where
  "relative_names lib \<longleftrightarrow> (\<forall>u un. \<not> is_abspath (fname_filter None (item_name lib u un)) \<and> fname_filter None (item_name lib u un) \<noteq> [])"

definition existing_kept :: "'u decode_env \<Rightarrow> file_retr \<Rightarrow> 'u decoding \<Rightarrow> 'u decoding \<Rightarrow> bool" where
  "existing_kept env fr s s' \<longleftrightarrow>
     (never_overwrites (de_uulib env) \<and> relative_names (de_uulib env) \<and> is_abspath (fr_path fr) \<longrightarrow>
      (\<forall>g. dc_files s g \<noteq> None \<longrightarrow> dc_files s' g = dc_files s g))"

lemma existing_kept_refl: "existing_kept env fr s s"
  by (simp add: existing_kept_def)

lemma existing_kept_trans: "existing_kept env fr s s' \<Longrightarrow> existing_kept env fr s' s'' \<Longrightarrow> existing_kept env fr s s''"
  by (simp add: existing_kept_def)

lemma uu_decode_existing:
  assumes "uu_decode env path un s = (r, s')" "never_overwrites (de_uulib env)" "dc_files s g \<noteq> None"
  shows "dc_files s' g = dc_files s g"
proof -
  obtain es fs u where d: "uu_decodefile (de_uulib env) (fname_filter (Some path)) un (dc_files s) (dc_uu s) = ((r, es), fs, u)"
    "s' = uu_callbacks es (on_files (\<lambda>_. fs) (s\<lparr>dc_uu := u\<rparr>))"
    using assms(1) by (auto simp: uu_decode_def split: prod.splits)
  have "fs g = dc_files s g" using assms(2,3) d(1) unfolding never_overwrites_def by blast
  then show ?thesis using uu_callbacks_text [of es "on_files (\<lambda>_. fs) (s\<lparr>dc_uu := u\<rparr>)"] d(2) by simp
qed

lemma remove_if_duplicate_files:
  "remove_if_duplicate env nfn orgfn s = (r, s') \<Longrightarrow> g \<noteq> nfn \<Longrightarrow> dc_files s' g = dc_files s g"
  by (auto simp: remove_if_duplicate_def split: sum.splits bool.splits)

lemma dupe_name_new:
  assumes "make_dupe_name te fs path fn f k = Some (s, j)"
  shows "\<not> file_exists fs (if is_abspath s then s else path_join path s) \<and> take (length fn) s = fn"
  using fresh_name_free [OF assms [unfolded make_dupe_name_def]] by auto

lemma abs_join: "is_abspath p \<Longrightarrow> is_abspath (path_join p fn)"
  by (auto simp: is_abspath_def path_join_def path_append_def split: list.splits)

lemma abs_prefix: "take (length fn) s = fn \<Longrightarrow> fn \<noteq> [] \<Longrightarrow> is_abspath s = is_abspath fn"
  by (cases s; cases fn) (auto simp: is_abspath_def)

lemma abs_filter: "is_abspath p \<Longrightarrow> is_abspath (fname_filter (Some p) fn)"
  by (simp add: fname_filter_def Let_def abs_join)

lemma decode_free_existing:
  assumes "decode_free env fr un orig s = (r, s')" "\<not> file_exists (dc_files s) orig" "is_abspath orig"
    and "never_overwrites (de_uulib env)" "dc_files s g \<noteq> None"
  shows "dc_files s' g = dc_files s g"
proof -
  obtain e s1 where d: "uu_decode env (fr_path fr) un s = (e, s1)" by (cases "uu_decode env (fr_path fr) un s")
  have k: "dc_files s1 g = dc_files s g" by (rule uu_decode_existing [OF d assms(4,5)])
  have g: "g \<noteq> orig" using assms(2,5) by (auto simp: file_exists_def)
  show ?thesis
  proof (cases "(e \<noteq> None \<or> dc_derr s1 \<noteq> dc_derr s) \<and> file_exists (dc_files s1) orig \<and>
      make_dupe_name (de_text env) (dc_files s1) (fr_path fr) orig (fr_file fr) (tw_rands (dc_text s1)) \<noteq> None")
    case False
    then have "s' = s1" using assms(1)
      by (cases "make_dupe_name (de_text env) (dc_files s1) (fr_path fr) orig (fr_file fr) (tw_rands (dc_text s1))")
        (auto simp: decode_free_def d split: if_splits)
    then show ?thesis using k by simp
  next
    case True
    then obtain nfnp j where j: "make_dupe_name (de_text env) (dc_files s1) (fr_path fr) orig (fr_file fr) (tw_rands (dc_text s1)) =
        Some (nfnp, j)" by auto
    let ?s2 = "on_files (\<lambda>fs. fs(orig := None, nfnp := fs orig)) (s1\<lparr>dc_text := (dc_text s1)\<lparr>tw_rands := j\<rparr>\<rparr>)"
    obtain b s3 where r: "remove_if_duplicate env nfnp orig ?s2 = (b, s3)" by (cases "remove_if_duplicate env nfnp orig ?s2")
    have e: "s' = s3" using assms(1) True j r by (auto simp: decode_free_def d Let_def split: sum.splits)
    have "orig \<noteq> []" using assms(3) by (auto simp: is_abspath_def)
    then have "\<not> file_exists (dc_files s1) nfnp" using dupe_name_new [OF j] abs_prefix assms(3) by metis
    then have n: "g \<noteq> nfnp" using k assms(5) by (auto simp: file_exists_def)
    have "dc_files ?s2 g = dc_files s1 g" using g n by simp
    then show ?thesis using remove_if_duplicate_files [OF r n] k e by simp
  qed
qed

lemma decode_renamed_existing:
  assumes "decode_renamed env fr un orig s = (r, s')" "never_overwrites (de_uulib env)" "relative_names (de_uulib env)"
    and "dc_files s g \<noteq> None"
  shows "dc_files s' g = dc_files s g"
proof (cases "make_dupe_name (de_text env) (dc_files s) (fr_path fr)
              (fname_filter None (item_name (de_uulib env) (dc_uu s) un)) (fr_file fr) (tw_rands (dc_text s))")
  case None
  then show ?thesis using assms(1) by (auto simp: decode_renamed_def)
next
  case (Some nk)
  obtain nfn j where j: "nk = (nfn, j)" by (cases nk)
  let ?s0 = "set_uu (uu_rename (de_uulib env) un nfn (dc_uu s)) (s\<lparr>dc_text := (dc_text s)\<lparr>tw_rands := j\<rparr>\<rparr>)"
  obtain e s1 where d: "uu_decode env (fr_path fr) un ?s0 = (e, s1)" by (cases "uu_decode env (fr_path fr) un ?s0")
  have k: "dc_files s1 g = dc_files s g" using uu_decode_existing [OF d assms(2), of g] assms(4) by simp
  note dn = dupe_name_new [OF Some [unfolded j]]
  have "\<not> is_abspath nfn" using dn abs_prefix assms(3) unfolding relative_names_def by metis
  then have n: "g \<noteq> path_join (fr_path fr) nfn" using dn assms(4) by (auto simp: file_exists_def)
  show ?thesis
  proof (cases e)
    case (Some err)
    then have "s' = s1" using assms(1) \<open>_ = Some nk\<close> j d by (simp add: decode_renamed_def)
    then show ?thesis using k by simp
  next
    case None
    obtain b s2 where r: "remove_if_duplicate env (path_join (fr_path fr) nfn) orig s1 = (b, s2)"
      by (cases "remove_if_duplicate env (path_join (fr_path fr) nfn) orig s1")
    have "s' = s2 \<or> s' = on_status (set_warn_status ST_dupe 1) s2"
      using assms(1) Some j d None r by (auto simp: decode_renamed_def split: sum.splits)
    then have "dc_files s' g = dc_files s2 g" by auto
    then show ?thesis using remove_if_duplicate_files [OF r n] k by simp
  qed
qed

lemma report_item_files: "dc_files (report_item env opts fr un pre e s) = dc_files s"
  by (auto simp: report_item_def Let_def decode_error_def decode_info_def split: option.splits)

interpretation existing: decode_parts env fr "existing_kept env fr" for env :: "'u decode_env" and fr
proof unfold_locales
  show "existing_kept env fr s s''" if "existing_kept env fr s s'" "existing_kept env fr s' s''" for s s' s'' :: "'u decoding"
    using that by (rule existing_kept_trans)
  show "existing_kept env fr s (check_item env un s)" for s un
    using check_item_text [of env un s] by (simp add: existing_kept_def)
  show "existing_kept env fr s s'"
    if "\<not> file_exists (dc_files s) (fname_filter (Some (fr_path fr)) name)"
      "decode_free env fr un (fname_filter (Some (fr_path fr)) name) s = (r, s')" for s name un r s'
    unfolding existing_kept_def using decode_free_existing [OF that(2,1) abs_filter] by blast
  show "existing_kept env fr s s'" if "decode_renamed env fr un orig s = (r, s')" for un orig s r s'
    unfolding existing_kept_def using decode_renamed_existing [OF that] by blast
qed (simp_all add: existing_kept_def report_item_files)

section \<open>The end of a decoding\<close>

lemma text_save_counts:
  assumes "text_save te th t = (r, t')"
  shows "ok_count (tw_status t') ST_total = ok_count (tw_status t) ST_total \<and>
    error_count (tw_status t') ST_decode = error_count (tw_status t) ST_decode \<and>
    warn_count (tw_status t') ST_undecoded = warn_count (tw_status t) ST_undecoded"
proof -
  have f: "tw_status (snd (save_text_file te th t)) = tw_status t" for t
    by (simp add: save_text_file_def Let_def split: option.split prod.split disk_result.split)
  have m: "tw_status (snd (save_mbox te th t)) = tw_status t" for t
    by (simp add: save_mbox_def Let_def split: option.split)
  have "tw_status t' = tw_status t \<or> tw_status t' = set_ok_status ST_plaintext 1 (tw_status t)"
    using assms f m by (auto simp: text_save_def Let_def split: if_splits text_handling.splits) (metis (mono_tags, lifting) snd_conv text_state.select_convs(1) text_state.surjective text_state.update_convs(1))+
  then show ?thesis by (auto simp: set_ok_status_def)
qed

lemma text_save_existing:
  assumes "text_save te th t = (r, t')" "tw_files t g = Some c" "th_texthandling th = TEXT_MBOX \<longrightarrow> g \<notin> {mbox_path th, mbox_path th @ ''.tmp''}"
  shows "tw_files t' g = Some c"
proof -
  have f: "tw_files (snd (save_text_file te th t)) g = Some c" if "tw_files t g = Some c" for t
    using that fresh_name_free [of "file_exists (tw_files t)" "make_text_file_name te th" "tw_rands t"]
    by (auto simp: save_text_file_def Let_def file_exists_def split: option.split prod.split disk_result.split)
  have m: "tw_files (snd (save_mbox te th t)) g = Some c" if "tw_files t g = Some c" "th_texthandling th = TEXT_MBOX" for t
    using that assms(3) by (simp add: save_mbox_def Let_def split: option.split)
  show ?thesis
    using assms(1,2) f [of t] m [of t] f [of "t\<lparr>tw_status := set_ok_status ST_plaintext 1 (tw_status t)\<rparr>"]
      m [of "t\<lparr>tw_status := set_ok_status ST_plaintext 1 (tw_status t)\<rparr>"]
    by (auto simp: text_save_def Let_def split: if_splits text_handling.splits)
qed

lemma delete_tempfiles_files:
  "delete_tempfiles fnbuf fs g = (if g \<in> snd ` set fnbuf then None else fs g)"
  unfolding delete_tempfiles_def by (induction fnbuf arbitrary: fs) auto

text \<open>The states a decoding goes through: after loading, after the files, after the texts, at the end.\<close>

lemma decode_stages:
  assumes "decode env opts fnbuf fr flist t = (r, t', fl')" "fnbuf \<noteq> []"
  obtains (nothing) "r = Inl AppError" "t' = t"
  | (stages) s s1 x where
      "dc_text s = t" "0 \<le> dc_derr s" "th_texthandling (dc_th s) = do_texthandling opts" "th_mboxname (dc_th s) = do_mboxfname opts"
      "th_path (dc_th s) = fr_path fr"
      "decode_items env opts fr [0 ..< uu_count (de_uulib env) (dc_uu s)] s = (x, s1)"
      "(\<exists>e. x = Inl e \<and> r = Inl e \<and> t' = dc_text s1) \<or>
       (\<exists>derr un th y t1. x = Inr () \<and> 0 \<le> derr \<and> th_texthandling th = th_texthandling (dc_th s1) \<and> mbox_path th = mbox_path (dc_th s1) \<and>
          (if derr = 0 then text_save (de_text env) th (dc_text s1) else (Inr (), dc_text s1)) = (y, t1) \<and>
          ((\<exists>e. y = Inl e \<and> r = Inl e \<and> t' = t1) \<or>
           (\<exists>d. y = Inr () \<and> r = Inr d \<and> finish_decoding opts fnbuf derr un t1 = (d, t'))))"
proof (cases "uu_initialize (de_uulib env)")
  case None
  then have "r = Inl AppError" "t' = t" using assms by (auto simp: decode_def)
  then show ?thesis by (rule nothing)
next
  case (Some u)
  let ?i = "\<lparr>dc_uu = u, dc_text = t,
             dc_th = text_handler_new (do_texthandling opts) (do_save_text_for_binaries opts) (do_mboxfname opts) fr (snd (hd fnbuf)),
             dc_derr = 0, dc_last_t = None, dc_flist = flist\<rparr>"
  define s where "s = load_parts (de_uulib env) fnbuf ?i"
  have s: "dc_text s = t" "0 \<le> dc_derr s" "th_texthandling (dc_th s) = do_texthandling opts" "th_mboxname (dc_th s) = do_mboxfname opts"
      "th_path (dc_th s) = fr_path fr"
    using load_parts_text [of "de_uulib env" fnbuf ?i] by (simp_all add: s_def th_same_def text_handler_new_def)
  define un where "un = uu_count (de_uulib env) (dc_uu s)"
  obtain x s1 where x: "decode_items env opts fr [0 ..< un] s = (x, s1)" by (cases "decode_items env opts fr [0 ..< un] s")
  note D = assms(1) [unfolded decode_def if_not_P [OF assms(2)] Some option.case Let_def, folded s_def, folded un_def, unfolded x prod.case]
  have c: "counts_kept s s1" by (rule counts.items_kept [OF x])
  show ?thesis
  proof (cases x)
    case (Inl e)
    show ?thesis
      by (rule stages [OF s x [unfolded un_def]]) (use D Inl in auto)
  next
    case (Inr a)
    define p where "p = (if no_encoded_data fnbuf fr un s1 then (0, 1, set_save_whole_tempfile True (dc_th s1)) else (dc_derr s1, un, dc_th s1))"
    obtain derr un' th where p: "p = (derr, un', th)" by (cases p)
    have th: "0 \<le> derr" "th_texthandling th = th_texthandling (dc_th s1)" "mbox_path th = mbox_path (dc_th s1)"
      using p c s(2) by (auto simp: p_def set_save_whole_tempfile_def mbox_path_def counts_kept_def split: if_splits)
    obtain y t1 where y: "(if derr = 0 then text_save (de_text env) th (dc_text s1) else (Inr (), dc_text s1)) = (y, t1)"
      by (cases "if derr = 0 then text_save (de_text env) th (dc_text s1) else (Inr (), dc_text s1)")
    note E = D [unfolded Inr sum.case, folded p_def, unfolded p prod.case y]
    have "(\<exists>e. y = Inl e \<and> r = Inl e \<and> t' = t1) \<or>
           (\<exists>d. y = Inr () \<and> r = Inr d \<and> finish_decoding opts fnbuf derr un' t1 = (d, t'))"
      using E by (cases y) (auto split: prod.splits)
    moreover have "x = Inr ()" using Inr by simp
    ultimately show ?thesis using th y
      by (intro stages [OF s x [unfolded un_def]] disjI2 exI [of _ derr] exI [of _ un'] exI [of _ th] exI [of _ y] exI [of _ t1]) simp
  qed
qed


lemma decode_existing:
  assumes "decode env opts fnbuf fr flist t = (r, t', fl')"
    and "never_overwrites (de_uulib env)" "relative_names (de_uulib env)" "is_abspath (fr_path fr)"
    and "tw_files t g = Some c" "g \<notin> snd ` set fnbuf" "do_texthandling opts \<noteq> TEXT_MBOX"
  shows "tw_files t' g = Some c"
proof (cases "fnbuf = []")
  case True
  then show ?thesis using assms(1,5) by (simp add: decode_def)
next
  case False
  from assms(1) False show ?thesis
  proof (cases rule: decode_stages)
    case nothing
    then show ?thesis using assms(5) by simp
  next
    case (stages s s1 x)
    have c: "counts_kept s s1" by (rule counts.items_kept [OF stages(6)])
    have k: "dc_files s1 g = Some c"
      using existing.items_kept [OF stages(6)] assms(2-5) stages(1) by (simp add: existing_kept_def)
    from stages(7) show ?thesis
    proof (elim disjE exE conjE)
      show ?thesis if "t' = dc_text s1" using k that by simp
    next
      fix derr :: int and un th y t1
      assume th: "th_texthandling th = th_texthandling (dc_th s1)"
        and y: "(if derr = 0 then text_save (de_text env) th (dc_text s1) else (Inr (), dc_text s1)) = (y, t1)"
      have "th_texthandling th \<noteq> TEXT_MBOX" using th c stages(3) assms(7) by (simp add: counts_kept_def th_same_def)
      then have g: "tw_files t1 g = Some c"
        using y k text_save_existing [of "de_text env" th "dc_text s1" y t1 g c] by (auto split: if_splits)
      show ?thesis if "t' = t1" using g that by simp
      show ?thesis if "finish_decoding opts fnbuf derr un t1 = (d, t')" for d
        using that g assms(6) by (auto simp: finish_decoding_def delete_tempfiles_files split: if_splits)
    qed
  qed
qed

text \<open>Decoding overwrites and removes nothing: with a library that does not overwrite and names no file
  outside of the directory, and a directory that is given from the root, every file that is there before and
  is neither a temporary file nor the mailbox is there afterwards with the same content, whatever
  the posting holds, also when the decoding breaks off.\<close>

theorem decode_keeps_files:
  assumes "decode env opts fnbuf fr flist t = (r, t', fl')"
    and "never_overwrites (de_uulib env)" "relative_names (de_uulib env)" "is_abspath (fr_path fr)"
    and "tw_files t g = Some c" "g \<notin> snd ` set fnbuf" "do_texthandling opts \<noteq> TEXT_MBOX"
  shows "tw_files t' g = Some c"
  using assms by (rule decode_existing)

section \<open>Examples\<close>

text \<open>A library that finds one file \<open>a.bin\<close> in every posting, and writes it unless there is one of that name.\<close>

definition example_name :: "string \<Rightarrow> string" where
  "example_name u = (if fname_filter None u \<noteq> [] \<and> \<not> is_abspath (fname_filter None u) then u else ''a.bin'')"

definition example_uulib :: "string uulib" where
  "example_uulib =
     \<lparr>uu_initialize = Some ''a.bin'', uu_load = (\<lambda>fs fn partno u. ([], u)), uu_count = (\<lambda>u. 1),
      uu_item = (\<lambda>u un. \<lparr>uu_filename = Some (example_name u), uu_file_ok = True, uu_uudet = UU_ENCODED\<rparr>),
      uu_rename = (\<lambda>un name u. name), uu_infofile = (\<lambda>un u. ([], u)),
      uu_decodefile = (\<lambda>flt un fs u.
        ((None, []), if fs (flt (example_name u)) = None then fs(flt (example_name u) \<mapsto> ''data'') else fs, u))\<rparr>"

definition example_decode_env :: "string decode_env" where
  "example_decode_env =
     \<lparr>de_uulib = example_uulib, de_dir = (\<lambda>fs p. Some []), de_text = example_text_env, de_wbeg = [], de_wend = []\<rparr>"

definition example_decode_options :: decode_options where
  "example_decode_options =
     \<lparr>do_keeptemp = False, do_nodupefilecheck = True, do_texthandling = TEXT_FILES, do_save_text_for_binaries = False,
      do_mboxfname = ''mbox''\<rparr>"

definition example_retr :: file_retr where
  "example_retr =
     \<lparr>fr_path = ''/d'', fr_temppath = ''/t/'',
      fr_file = (file_new 1 0 ''x'' ''me'' (- 1) 0 0)\<lparr>parts := [example_part]\<rparr>, fr_dupecheck = True\<rparr>"

definition example_text_state :: text_state where
  "example_text_state = \<lparr>tw_status = status_new, tw_files = [''/t/1'' \<mapsto> ''begin'', ''/d/x'' \<mapsto> ''old''], tw_rands = 0\<rparr>"

lemma example_decoding:
  "\<exists>t' fl'. decode example_decode_env example_decode_options [(1, ''/t/1'')] example_retr [] example_text_state = (Inr 0, t', fl') \<and>
     tw_files t' ''/d/a.bin'' = Some ''data''"
  by (simp add: decode_def example_decode_env_def example_uulib_def example_decode_options_def example_retr_def
      example_text_state_def Let_def example_name_def is_abspath_def decode_item_def check_item_def item_name_def uu_callbacks_def set_uu_def fname_filter_def
      path_join_def path_append_def is_pathsep_def PATHSEP_def file_exists_def decode_free_def uu_decode_def on_files_def
      report_item_def decode_info_def on_status_def no_encoded_data_def text_save_def text_handler_new_def adddecodeinfo_def
      finish_decoding_def delete_tempfiles_def)


lemma prod_cases_id: "x = (fst x, fst (snd x), snd (snd x))"
  by simp

lemma example_library: "never_overwrites (de_uulib example_decode_env)" "relative_names (de_uulib example_decode_env)"
proof -
  show "never_overwrites (de_uulib example_decode_env)"
    by (auto simp: never_overwrites_def example_decode_env_def example_uulib_def)
  have "fname_filter None ''a.bin'' = ''a.bin''" by (simp add: fname_filter_def)
  then show "relative_names (de_uulib example_decode_env)"
    by (auto simp: relative_names_def item_name_def example_uulib_def example_name_def example_decode_env_def is_abspath_def)
qed

theorem decode_keeps_files_witness:
  "tw_files (fst (snd (decode example_decode_env example_decode_options [(1, ''/t/1'')] example_retr [] example_text_state))) ''/d/x'' =
     Some ''old''"
  using decode_keeps_files [where env = example_decode_env and opts = example_decode_options and fnbuf = "[(1, ''/t/1'')]"
      and fr = example_retr and flist = "[]" and t = example_text_state and g = "''/d/x''" and c = "''old''",
      OF prod_cases_id example_library]
  by (simp add: example_retr_def is_abspath_def example_text_state_def example_decode_options_def)

text \<open>A duplicate in the directory.\<close>

theorem duplicate_removed_witness:
  "\<exists>s'. remove_if_duplicate (example_decode_env\<lparr>de_dir := \<lambda>fs p. Some [''x'', ''x.1.2'']\<rparr>) ''/d/x.1.2'' ''/d/x''
      \<lparr>dc_uu = [], dc_text = \<lparr>tw_status = status_new, tw_files = [''/d/x'' \<mapsto> ''old'', ''/d/x.1.2'' \<mapsto> ''old''], tw_rands = 0\<rparr>,
       dc_th = text_handler_new TEXT_IGNORE False [] example_retr [], dc_derr = 0, dc_last_t = None, dc_flist = []\<rparr> = (Inr True, s') \<and>
     dc_files s' ''/d/x.1.2'' = None \<and> dc_files s' ''/d/x'' = Some ''old''"
proof -
  let ?env = "example_decode_env\<lparr>de_dir := \<lambda>fs p. Some [''x'', ''x.1.2'']\<rparr>"
  let ?s = "\<lparr>dc_uu = [], dc_text = \<lparr>tw_status = status_new, tw_files = [''/d/x'' \<mapsto> ''old'', ''/d/x.1.2'' \<mapsto> ''old''], tw_rands = 0\<rparr>,
       dc_th = text_handler_new TEXT_IGNORE False [] example_retr [], dc_derr = 0, dc_last_t = None, dc_flist = []\<rparr>"
  obtain s' where r: "remove_if_duplicate ?env ''/d/x.1.2'' ''/d/x'' ?s = (Inr True, s')"
    by (simp add: remove_if_duplicate_def find_duplicate_def path_split_def is_pathsep_def path_join_def path_append_def
        PATHSEP_def Let_def strstartswith_def filecompare_def compare_blocks_eq)
  show ?thesis using duplicate_removed [OF r] r by auto
qed

end
