(* ===== verification/ParMoves.thy ===== *)
theory ParMoves
  imports Par
begin

text \<open>
  What the automatic retrieval holds back (\<open>par.cc\<close>): the number of postings that are kept aside. Every
  operation that chooses files takes them from the postings that are held, so that it can choose only
  finitely often; the bookkeeping of sets and directories stays in order.
\<close>

section \<open>How much is held\<close>

definition ps_held :: "par_set \<Rightarrow> nat" where
  "ps_held ps = length (ps_serverpars ps) + length (ps_serverpxxs ps)"

definition sets_held :: "(string \<times> par_set) list \<Rightarrow> nat" where
  "sets_held pss = sum_list (List.map (ps_held \<circ> snd) pss)"

definition px_held :: "par_info \<Rightarrow> nat" where
  "px_held px = length (px_serverpars px) + length (px_serverpxxs px) + length (px_extradata px) + sets_held (px_parsets px)"

definition pd_held :: "par_dir \<Rightarrow> nat" where
  "pd_held pd = px_held (pd_par1 pd) + px_held (pd_par2 pd)"

definition held :: "par_handler \<Rightarrow> nat" where
  "held ph = sum_list (List.map (pd_held \<circ> snd) ph)"

definition px_ok :: "par_info \<Rightarrow> bool" where
  "px_ok px \<longleftrightarrow> smap_ok (px_parsets px)"

definition pd_ok :: "par_dir \<Rightarrow> bool" where
  "pd_ok pd \<longleftrightarrow> px_ok (pd_par1 pd) \<and> px_ok (pd_par2 pd)"

definition handler_ok :: "par_handler \<Rightarrow> bool" where
  "handler_ok ph \<longleftrightarrow> smap_ok ph \<and> (\<forall>(p, pd) \<in> set ph. pd_ok pd)"

text \<open>Nothing comes to what is held, and if a file is chosen something leaves it.\<close>

definition moves :: "nat \<times> files_u \<Rightarrow> nat \<times> files_u \<Rightarrow> bool" where
  "moves a b \<longleftrightarrow> fst b \<le> fst a \<and> (snd b \<noteq> snd a \<longrightarrow> fst b < fst a)"

lemma moves_refl [intro]: "moves a a"
  by (simp add: moves_def)

lemma moves_trans: "moves a b \<Longrightarrow> moves b c \<Longrightarrow> moves a c"
  unfolding moves_def by (metis le_trans less_le_trans le_less_trans)

lemma moves_add: "moves (h, fc) (h', fc') \<Longrightarrow> moves (k + h, fc) (k + h', fc')"
  by (auto simp: moves_def)

lemma moves_less: "h' \<le> h'' \<Longrightarrow> moves (h'', fc) b \<Longrightarrow> h'' \<le> h \<Longrightarrow> moves (h, fc) b"
  by (auto simp: moves_def)

lemma sum_smap_put:
  "smap_ok m \<Longrightarrow> sum_list (List.map (w \<circ> snd) (smap_put m k v)) + (case map_of m k of None \<Rightarrow> 0 | Some u \<Rightarrow> w u) =
     sum_list (List.map (w \<circ> snd) m) + (w v :: nat)"
proof (induction m k v rule: smap_put.induct)
  case (2 k' v' m k v)
  have "k < k' \<Longrightarrow> map_of m k = None"
    using "2.prems" by (force simp: smap_ok_Cons map_of_eq_None_iff)
  then show ?case using 2 by (auto simp: smap_ok_Cons split: option.splits)
qed simp

lemma add_pxx_moves: "length es' + length as \<le> length es \<Longrightarrow> moves (length es, fc) (length es', add_pxx env path temppath fc as)"
  by (cases "as") (auto simp: moves_def add_pxx_def)

section \<open>Keeping postings\<close>

lemma length_sfl_insert [simp]: "length (sfl_insert l f) = Suc (length l)"
  by (simp add: sfl_insert_def)

lemma px_with_set_held:
  assumes "px_ok px" "\<And>ps. ps_held (g ps) = ps_held ps + 1"
  shows "px_held (px_with_set b g px) = px_held px + 1 \<and> px_ok (px_with_set b g px)"
proof -
  have o: "smap_ok (px_parsets px)" using assms(1) by (simp add: px_ok_def)
  have n: "ps_held (g par_set_new) = 1" using assms(2) [of par_set_new] by (simp add: ps_held_def par_set_new_def)
  have "sets_held (px_parsets (px_with_set b g px)) = sets_held (px_parsets px) + 1"
  proof (cases "map_of (px_parsets px) b")
    case None
    then show ?thesis using sum_smap_put [OF o, of ps_held b "g par_set_new"] n by (simp add: px_with_set_def sets_held_def)
  next
    case (Some ps)
    then show ?thesis using sum_smap_put [OF o, of ps_held b "g ps"] assms(2) [of ps] by (simp add: px_with_set_def sets_held_def)
  qed
  moreover have "px_serverpars (px_with_set b g px) = px_serverpars px" "px_serverpxxs (px_with_set b g px) = px_serverpxxs px"
    "px_extradata (px_with_set b g px) = px_extradata px" by (simp_all add: px_with_set_def)
  ultimately show ?thesis using o by (simp add: px_held_def px_ok_def px_with_set_def smap_ok_put)
qed

lemma adds_held: "ps_held (addserverpar f ps) = ps_held ps + 1" "ps_held (addserverpxx f ps) = ps_held ps + 1"
  by (simp_all add: addserverpar_def addserverpxx_def ps_held_def)

lemma px_extradata_held:
  "px_held (px\<lparr>px_extradata := l\<rparr>) + length (px_extradata px) = px_held px + length l" "px_ok (px\<lparr>px_extradata := l\<rparr>) = px_ok px"
  by (simp_all add: px_held_def px_ok_def)

lemma px_adds_held:
  "px_held (px_add_pars f px) = px_held px + 1" "px_held (px_add_pxxs f px) = px_held px + 1"
  "px_ok (px_add_pars f px) = px_ok px" "px_ok (px_add_pxxs f px) = px_ok px"
  by (simp_all add: px_add_pars_def px_add_pxxs_def px_held_def px_ok_def)

text \<open>A posting that is taken is held, one that is not taken changes nothing.\<close>

lemma par1_maybe_add_held:
  assumes "par1_maybe_add env f w px = (taken, px')" "px_ok px"
  shows "px_ok px' \<and> px_held px' = px_held px + (if taken then 1 else 0)"
  using assms px_adds_held [of f px] px_with_set_held [OF assms(2), of "addserverpar f"]
    px_with_set_held [OF assms(2), of "addserverpxx f"]
  by (auto simp: par1_maybe_add_def Let_def adds_held split: if_splits option.splits)

lemma par2_maybe_add_held:
  assumes "par2_maybe_add env f w px = (taken, px')" "px_ok px"
  shows "px_ok px' \<and> px_held px' = px_held px + (if taken then 1 else 0)"
  using assms px_adds_held [of f px] px_with_set_held [OF assms(2), of "addserverpar f"]
    px_with_set_held [OF assms(2), of "addserverpxx f"]
    px_extradata_held [of "sfl_insert (px_extradata px) f" px]
  by (auto simp: par2_maybe_add_def Let_def adds_held split: if_splits option.splits)

lemma foldl_held:
  assumes "\<And>px f. px_ok px \<Longrightarrow> px_ok (g px f) \<and> px_held (g px f) \<le> px_held px + 1" "px_ok px"
  shows "px_ok (foldl g px fs) \<and> px_held (foldl g px fs) \<le> px_held px + length fs"
  using assms(2)
proof (induction fs arbitrary: px)
  case (Cons f fs)
  have g: "px_ok (g px f)" "px_held (g px f) \<le> px_held px + 1" using assms(1) Cons.prems by auto
  show ?case using Cons.IH [OF g(1)] g(2) by simp
qed simp

lemma release_held:
  assumes "release_unclaimed px = (fs, px')" "px_ok px"
  shows "px_ok px' \<and> length fs + px_held px' = px_held px"
proof -
  have fs: "fs = concat (List.map (\<lambda>(b, ps). List.map snd (ps_serverpxxs ps)) (px_parsets px))"
    and px: "px' = px\<lparr>px_parsets := List.map (\<lambda>(b, ps). (b, ps\<lparr>ps_serverpxxs := []\<rparr>)) (px_parsets px)\<rparr>"
    using assms(1) by (simp_all add: release_unclaimed_def)
  have "length (concat (List.map (\<lambda>(b, ps). List.map snd (ps_serverpxxs ps)) pss)) +
      sets_held (List.map (\<lambda>(b, ps). (b, ps\<lparr>ps_serverpxxs := []\<rparr>)) pss) = sets_held pss" for pss
    by (induction pss) (auto simp: sets_held_def ps_held_def)
  moreover have "fst \<circ> (\<lambda>(b, ps). (b, ps\<lparr>ps_serverpxxs := []\<rparr>)) = (fst :: string \<times> par_set \<Rightarrow> string)"
    by (auto simp: fun_eq_iff)
  ultimately show ?thesis using assms(2) fs by (simp add: px px_held_def px_ok_def smap_ok_def)
qed

section \<open>Choosing files\<close>

lemma foldl_addfile_Nil: "fs = [] \<Longrightarrow> foldl (par_addfile env p t) fc fs = fc"
  by simp

lemma smallest_index_less:
  assumes "xs \<noteq> []"
  shows "smallest_index sz xs < length xs"
proof -
  have "foldl (\<lambda>m i. if sz (xs ! i) < sz (xs ! m) then i else m) m is < length xs" if "m < length xs" "set is \<subseteq> {..< length xs}" for m "is"
    using that by (induction "is" arbitrary: m) auto
  from this [of 0 "[1 ..< length xs]"] show ?thesis using assms by (simp add: smallest_index_def subset_eq)
qed

lemma ps_get_initial_pars_moves:
  assumes "ps_get_initial_pars env path temppath ps fc = (n, ps', fc')"
  shows "moves (ps_held ps, fc) (ps_held ps', fc')"
proof (cases "ps_serverpars ps = [] \<and> ps_serverpxxs ps \<noteq> []")
  case True
  define k where "k = smallest_index (\<lambda>e. file_bytes (en_config env) (en_trust env) (snd e)) (ps_serverpxxs ps)"
  have "k < length (ps_serverpxxs ps)" unfolding k_def by (rule smallest_index_less) (use True in simp)
  moreover have "ps' = ps\<lparr>ps_serverpars := [], ps_serverpxxs := take k (ps_serverpxxs ps) @ drop (Suc k) (ps_serverpxxs ps)\<rparr>"
    using assms True by (simp add: ps_get_initial_pars_def Let_def k_def)
  ultimately have "Suc (ps_held ps') = ps_held ps" using True by (simp add: ps_held_def)
  then show ?thesis by (simp add: moves_def)
next
  case False
  then have "ps' = ps\<lparr>ps_serverpars := []\<rparr>" "fc' = foldl (par_addfile env path temppath) fc (List.map snd (ps_serverpars ps))"
    using assms by (auto simp: ps_get_initial_pars_def Let_def split: if_splits)
  then show ?thesis by (cases "ps_serverpars ps") (auto simp: moves_def ps_held_def)
qed

lemma sets_get_initial_pars_moves:
  "sets_get_initial_pars env path temppath pss fc = (n, pss', fc') \<Longrightarrow>
     moves (sets_held pss, fc) (sets_held pss', fc') \<and> List.map fst pss' = List.map fst pss"
proof (induction env path temppath pss fc arbitrary: n pss' fc' rule: sets_get_initial_pars.induct)
  case (2 env path temppath b ps pss fc)
  obtain m ps1 fc1 where p: "ps_get_initial_pars env path temppath ps fc = (m, ps1, fc1)"
    by (cases "ps_get_initial_pars env path temppath ps fc")
  obtain l pss1 fc2 where s: "sets_get_initial_pars env path temppath pss fc1 = (l, pss1, fc2)"
    by (cases "sets_get_initial_pars env path temppath pss fc1")
  have r: "pss' = (b, ps1) # pss1" "fc' = fc2" using "2.prems" p s by auto
  have i: "moves (sets_held pss, fc1) (sets_held pss1, fc2)" "List.map fst pss1 = List.map fst pss"
    using "2.IH" [OF p [symmetric] refl s] by auto
  have "moves (sets_held pss + ps_held ps, fc) (sets_held pss + ps_held ps1, fc1)"
    by (rule moves_add [OF ps_get_initial_pars_moves [OF p]])
  moreover have "moves (ps_held ps1 + sets_held pss, fc1) (ps_held ps1 + sets_held pss1, fc2)"
    by (rule moves_add [OF i(1)])
  ultimately have "moves (sets_held pss + ps_held ps, fc) (ps_held ps1 + sets_held pss1, fc2)"
    by (metis add.commute moves_trans)
  then show ?case using i(2) r by (simp add: sets_held_def add.commute)
qed auto

lemma px_get_initial_pars_moves:
  assumes "px_get_initial_pars env px fc = (n, px', fc')" "px_ok px"
  shows "moves (px_held px, fc) (px_held px', fc') \<and> px_ok px'"
proof -
  let ?fc1 = "foldl (par_addfile env (px_path px) (px_temppath px)) fc (List.map snd (px_serverpars px))"
  obtain m pss fc2 where s: "sets_get_initial_pars env (px_path px) (px_temppath px) (px_parsets px) ?fc1 = (m, pss, fc2)"
    by (cases "sets_get_initial_pars env (px_path px) (px_temppath px) (px_parsets px) ?fc1")
  have r: "px' = px\<lparr>px_serverpars := [], px_parsets := pss\<rparr>" "fc' = fc2"
    using assms(1) s by (auto simp: px_get_initial_pars_def Let_def)
  note S = sets_get_initial_pars_moves [OF s]
  let ?k = "length (px_serverpxxs px) + length (px_extradata px)"
  have m1: "moves (px_held px, fc) (?k + sets_held (px_parsets px), ?fc1)"
  proof (cases "px_serverpars px = []")
    case False
    then have "0 < length (px_serverpars px)" by simp
    then show ?thesis unfolding moves_def px_held_def fst_conv snd_conv by linarith
  qed (simp add: moves_def px_held_def)
  have m2: "moves (?k + sets_held (px_parsets px), ?fc1) (?k + sets_held pss, fc2)"
    by (rule moves_add) (use S in blast)
  have "px_held px' = ?k + sets_held pss" by (simp add: r px_held_def)
  moreover have "px_ok px'" using S assms(2) by (simp add: r px_ok_def smap_ok_def)
  ultimately show ?thesis using moves_trans [OF m1 m2] by (simp add: r)
qed

section \<open>PAR sets\<close>

lemma par1_get_pxxs_moves:
  assumes "par1_get_pxxs env num h key px fc = (n, px', fc')" "px_ok px" "0 \<le> num"
  shows "moves (px_held px, fc) (px_held px', fc') \<and> px_ok px'"
proof -
  let ?pats = "mmap_equal_range (subjmatches (px_local px)) key"
  obtain cur h1 pxxs fc1 where l: "pxxs_loop env (px_path px) (px_temppath px) ?pats num (px_serverpxxs px) 0 h fc = (cur, h1, pxxs, fc1)"
    by (cases "pxxs_loop env (px_path px) (px_temppath px) ?pats num (px_serverpxxs px) 0 h fc")
  consider "px' = px" "fc' = fc" | "px' = px\<lparr>px_serverpxxs := pxxs\<rparr>" "fc' = fc1"
    using assms(1) l by (auto simp: par1_get_pxxs_def Let_def split: if_splits)
  then show ?thesis
  proof cases
    case 2
    obtain "as" where a: "mset (px_serverpxxs px) = mset pxxs + mset as" "fc1 = add_pxx env (px_path px) (px_temppath px) fc as"
      using pxxs_loop_ok [OF l assms(3)] by blast
    have "length pxxs + length as \<le> length (px_serverpxxs px)"
      using arg_cong [OF a(1), of size] by simp
    note m = moves_add [OF add_pxx_moves [OF this, of fc env "px_path px" "px_temppath px"], folded a(2),
        of "length (px_serverpars px) + length (px_extradata px) + sets_held (px_parsets px)"]
    show ?thesis using m assms(2) by (simp add: 2 px_held_def px_ok_def add_ac)
  qed (use assms(2) in auto)
qed

lemma px_finish_held [simp]: "px_held (px_finish ok key px) = px_held px" "px_ok (px_finish ok key px) = px_ok px"
  by (simp_all add: px_finish_def px_held_def px_ok_def)

lemma par1_check_sets_moves:
  "par1_check_sets env nc sets tot px fc = Some (n, px', fc') \<Longrightarrow> px_ok px \<Longrightarrow>
     moves (px_held px, fc) (px_held px', fc') \<and> px_ok px'"
proof (induction env nc sets tot px fc rule: par1_check_sets.induct)
  case (2 env nc key fns sets tot px fc)
  show ?case
  proof (cases "key \<in> px_finished px")
    case True
    then show ?thesis using "2.IH"(1) "2.prems" by simp
  next
    case False
    obtain goodpar goodvols badcount where t: "par1_test_files env (px_path px) fns = (goodpar, goodvols, badcount)"
      by (cases "par1_test_files env (px_path px) fns")
    let ?need = "if goodpar = [] then Some 1 else map_option (\<lambda>bad. max 0 (bad - int (card goodvols)))
                           (parfile_check (en_md5 env) (en_fs env) goodpar (px_path px) nc)"
    obtain needed where needed: "?need = Some needed" "0 \<le> needed"
      using "2.prems"(1) False t by (cases "goodpar = []"; cases ?need) auto
    show ?thesis
    proof (cases "needed = 0")
      case True
      then have "par1_check_sets env nc sets tot (px_finish True key px) fc = Some (n, px', fc')"
        using "2.prems"(1) False t needed by simp
      then show ?thesis using "2.IH"(3) [OF False t [symmetric] refl needed(1)] True "2.prems"(2) by simp
    next
      case nz: False
      obtain added px1 fc1 where g: "par1_get_pxxs env needed goodvols key px fc = (added, px1, fc1)"
        by (cases "par1_get_pxxs env needed goodvols key px fc")
      let ?px1 = "if added = 0 then px_finish False key px1 else px1"
      have r: "par1_check_sets env nc sets (tot + added) ?px1 fc1 = Some (n, px', fc')"
        using "2.prems"(1) False t needed nz g by simp
      note m = par1_get_pxxs_moves [OF g "2.prems"(2) needed(2)]
      have "px_ok ?px1" "px_held ?px1 = px_held px1" using m by simp_all
      then have "moves (px_held px1, fc1) (px_held px', fc') \<and> px_ok px'"
        using "2.IH"(2) [OF False t [symmetric] refl needed(1) nz g [symmetric] refl r] by simp
      then show ?thesis using m moves_trans by blast
    qed
  qed
qed auto

section \<open>PAR2 sets\<close>

lemma leave_less:
  assumes "\<forall>i \<in> set is. i < length xs"
  shows "length (leave is xs) \<le> length xs \<and> (is \<noteq> [] \<longrightarrow> length (leave is xs) < length xs)"
proof -
  have l: "length (leave is xs) \<le> length xs" for "is"
    using length_filter_le [of "\<lambda>i. i \<notin> set is" "[0 ..< length xs]"] by (simp add: leave_def)
  moreover have "length (leave is xs) < length xs" if "is \<noteq> []"
  proof -
    have i: "hd is \<in> set is" "hd is < length xs" using that assms by auto
    then have "length (filter (\<lambda>i. i \<notin> set is) [0 ..< length xs]) < length [0 ..< length xs]"
      by (intro length_filter_less [of "hd is"]) auto
    then show ?thesis by (simp add: leave_def)
  qed
  ultimately show ?thesis by blast
qed

lemma leave_moves:
  assumes "\<forall>i \<in> set is. i < length xs" "is = [] \<longrightarrow> fc' = fc"
  shows "moves (length xs, fc) (length (leave is xs), fc')"
  using leave_less [OF assms(1)] assms(2) by (auto simp: moves_def)

lemma extradata_loop_range:
  "extradata_loop sfs num es i added items = (added', items') \<Longrightarrow> \<forall>j \<in> set items. j < i + length es \<Longrightarrow>
     \<forall>j \<in> set items'. j < i + length es"
proof (induction sfs num es i added items rule: extradata_loop.induct)
  case (2 sfs num k f es i added items)
  show ?case
  proof (cases "added < num")
    case True
    show ?thesis
    proof (cases "find_source (fb_subject (nf_base f)) sfs")
      case None
      then show ?thesis using "2.IH"(1) [OF True None] "2.prems" True by simp
    next
      case (Some sf)
      then show ?thesis using "2.IH"(2) [OF True Some] "2.prems" True by auto
    qed
  qed (use "2.prems" in auto)
qed auto

lemma get_extradata_moves:
  assumes "get_extradata env num sfs px fc = (n, px', fc')" "px_ok px"
  shows "moves (px_held px, fc) (px_held px', fc') \<and> px_ok px' \<and> px_serverpxxs px' = px_serverpxxs px"
proof -
  obtain added items where l: "extradata_loop sfs num (px_extradata px) 0 0 [] = (added, items)"
    by (cases "extradata_loop sfs num (px_extradata px) 0 0 []")
  have i: "\<forall>j \<in> set items. j < length (px_extradata px)" using extradata_loop_range [OF l] by simp
  consider "px' = px" "fc' = fc" | "px' = px\<lparr>px_extradata := leave items (px_extradata px)\<rparr>"
      "items = [] \<longrightarrow> fc' = fc"
    using assms(1) l by (auto simp: get_extradata_def pick_def split: if_splits)
  then show ?thesis
  proof cases
    case 2
    note m = moves_add [OF leave_moves [OF i 2(2)], of "length (px_serverpars px) + length (px_serverpxxs px) + sets_held (px_parsets px)"]
    show ?thesis using m assms(2) by (simp add: 2(1) px_held_def px_ok_def add_ac)
  qed (use assms(2) in auto)
qed

lemma add_packets_items: "set (pi_items (add_packets h i f subs it)) \<subseteq> insert i (set (pi_items it))"
  by (auto simp: add_packets_def Let_def)

lemma packets_of_items: "set (pi_items (packets_of env pats h i f it)) \<subseteq> insert i (set (pi_items it))"
proof (induction env pats h i f it rule: packets_of.induct)
  case (2 env pat pats h i f it)
  then show ?case using add_packets_items [of h i f _ it] by (fastforce split: option.splits)
qed auto

lemma collect_packets_items:
  "set (pi_items (collect_packets env pats h i es it)) \<subseteq> set (pi_items it) \<union> {i ..< i + length es}"
proof (induction env pats h i es it rule: collect_packets.induct)
  case (2 env pats h i k f es it)
  then show ?case using packets_of_items [of env pats h i f it] by fastforce
qed auto

lemma get_recoverypackets_moves:
  assumes "get_recoverypackets env num h key sfs px fc = (n, px', fc')" "px_ok px"
  shows "moves (px_held px, fc) (px_held px', fc') \<and> px_ok px'"
proof -
  define it where "it = collect_packets env (mmap_equal_range (subjmatches (px_local px)) key) h 0 (px_serverpxxs px)
                 \<lparr>pi_sizes = [], pi_values = [], pi_items = [], pi_avail = {}\<rparr>"
  define m where "m = int (card (pi_avail it))"
  define results where "results = snd (knapsack_minsize (pi_values it) (pi_sizes it) (nat num))"
  define chosen where "chosen = pick results (pi_items it)"
  have ok: "items_ok it" unfolding it_def by (rule collect_packets_ok) (simp add: items_ok_def)
  have items: "\<forall>j \<in> set (pi_items it). j < length (px_serverpxxs px)"
    using collect_packets_items [of env "mmap_equal_range (subjmatches (px_local px)) key" h 0 "px_serverpxxs px"
        "\<lparr>pi_sizes = [], pi_values = [], pi_items = [], pi_avail = {}\<rparr>"] by (auto simp: it_def)
  have "\<forall>r \<in> set results. r < length (pi_items it)"
    using ok by (auto simp: results_def knapsack_minsize_def Let_def split_beta items_ok_def)
  then have ch: "\<forall>j \<in> set chosen. j < length (px_serverpxxs px)" using items by (auto simp: chosen_def pick_def)
  obtain e px1 fc1 where x: "(if m < num then get_extradata env (num - m) sfs px fc else (0, px, fc)) = (e, px1, fc1)"
    by (cases "if m < num then get_extradata env (num - m) sfs px fc else (0, px, fc)")
  have x1: "moves (px_held px, fc) (px_held px1, fc1) \<and> px_ok px1 \<and> px_serverpxxs px1 = px_serverpxxs px"
    using x get_extradata_moves [of env "num - m" sfs px fc e px1 fc1] assms(2) by (auto split: if_splits)
  note D = assms(1) [unfolded get_recoverypackets_def Let_def, folded it_def, folded m_def results_def, unfolded x prod.case, folded chosen_def]
  consider "px' = px1" "fc' = fc1" | "px' = px1\<lparr>px_serverpxxs := leave chosen (px_serverpxxs px1)\<rparr>" "chosen = [] \<longrightarrow> fc' = fc1"
    using D by (auto simp: pick_def split: if_splits)
  then show ?thesis
  proof cases
    case 2
    have "moves (length (px_serverpxxs px1), fc1) (length (leave chosen (px_serverpxxs px1)), fc')"
      by (rule leave_moves) (use ch x1 2(2) in auto)
    note m = moves_add [OF this, of "length (px_serverpars px1) + length (px_extradata px1) + sets_held (px_parsets px1)"]
    have "moves (px_held px1, fc1) (px_held px', fc')" using m by (simp add: 2(1) px_held_def add_ac)
    then show ?thesis using x1 moves_trans by (auto simp: 2(1) px_ok_def)
  qed (use x1 in auto)
qed

lemma par2_check_sets_moves:
  "par2_check_sets env nc sets tot px fc = (n, px', fc') \<Longrightarrow> px_ok px \<Longrightarrow>
     moves (px_held px, fc) (px_held px', fc') \<and> px_ok px'"
proof (induction env nc sets tot px fc rule: par2_check_sets.induct)
  case (2 env nc key fns sets tot px fc)
  show ?case
  proof (cases "key \<in> px_finished px")
    case True
    then show ?thesis using "2.IH"(1) "2.prems" by simp
  next
    case False
    let ?full = "List.map (path_join (px_path px)) fns"
    obtain good packets needed sfs where p: "par2_process_files env nc ?full ?full [] = (good, packets, needed, sfs)"
      by (cases "par2_process_files env nc ?full ?full []")
    let ?need = "if good then needed else 1"
    show ?thesis
    proof (cases "?need = 0")
      case True
      then have r: "par2_check_sets env nc sets tot (px_finish True key px) fc = (n, px', fc')"
        using "2.prems"(1) False p by (simp add: Let_def split: if_splits)
      show ?thesis using "2.IH"(3) [OF False refl p [symmetric] refl refl refl] True r "2.prems"(2) by simp
    next
      case nz: False
      obtain added px1 fc1 where g: "get_recoverypackets env ?need (set packets) key sfs px fc = (added, px1, fc1)"
        by (cases "get_recoverypackets env ?need (set packets) key sfs px fc")
      let ?px1 = "if added = 0 then px_finish False key px1 else px1"
      have r: "par2_check_sets env nc sets (tot + added) ?px1 fc1 = (n, px', fc')"
        using "2.prems"(1) False p nz g by (simp add: Let_def split: if_splits)
      note m = get_recoverypackets_moves [OF g "2.prems"(2)]
      have "px_ok ?px1" "px_held ?px1 = px_held px1" using m by simp_all
      then have "moves (px_held px1, fc1) (px_held px', fc') \<and> px_ok px'"
        using "2.IH"(2) [OF False refl p [symmetric] refl refl refl nz g [symmetric] refl r] by simp
      then show ?thesis using m moves_trans by blast
    qed
  qed
qed auto

section \<open>Directories\<close>

lemma finish_round_held:
  assumes "finish_round (tot, px, fc) = (n, px', fc')"
  shows "px_held px' = px_held px \<and> px_ok px' = px_ok px \<and> fc' = fc"
  using assms by (auto simp: finish_round_def px_held_def px_ok_def split: if_splits prod.splits)

lemma px_local_held: "px_held (px\<lparr>px_local := lp\<rparr>) = px_held px" "px_ok (px\<lparr>px_local := lp\<rparr>) = px_ok px"
  by (simp_all add: px_held_def px_ok_def)

lemma par1_maybe_get_pxxs_moves:
  assumes "par1_maybe_get_pxxs env px fc = Some (n, px', fc')" "px_ok px"
  shows "moves (px_held px, fc) (px_held px', fc') \<and> px_ok px'"
proof -
  obtain lp nc where l: "addfrompath_par1 env (px_path px) (local_par_new, []) = (lp, nc)"
    by (cases "addfrompath_par1 env (px_path px) (local_par_new, [])")
  obtain un px1 where u: "release_unclaimed (px\<lparr>px_local := lp\<rparr>) = (un, px1)" by (cases "release_unclaimed (px\<lparr>px_local := lp\<rparr>)")
  let ?px2 = "foldl (\<lambda>px f. snd (par1_maybe_add env f True px)) px1 un"
  obtain m px3 fc3 where i: "px_get_initial_pars env ?px2 fc = (m, px3, fc3)" by (cases "px_get_initial_pars env ?px2 fc")
  obtain k px4 fc4 where c: "par1_check_sets env nc (basefilenames lp) m px3 fc3 = Some (k, px4, fc4)"
    and f: "finish_round (k, px4, fc4) = (n, px', fc')"
    using assms(1) l u i by (auto simp: par1_maybe_get_pxxs_def)
  have r: "px_ok px1" "length un + px_held px1 = px_held px" using release_held [OF u] assms(2) by (simp_all add: px_local_held)
  have "px_ok (snd (par1_maybe_add env g True q)) \<and> px_held (snd (par1_maybe_add env g True q)) \<le> px_held q + 1" if "px_ok q" for q g
    using par1_maybe_add_held [of env g True q "fst (par1_maybe_add env g True q)" "snd (par1_maybe_add env g True q)"] that by simp
  from foldl_held [of "\<lambda>px f. snd (par1_maybe_add env f True px)", OF this r(1), of un]
  have p2: "px_ok ?px2" "px_held ?px2 \<le> px_held px" using r(2) by auto
  note I = px_get_initial_pars_moves [OF i p2(1)] and F = finish_round_held [OF f]
  note C = par1_check_sets_moves [OF c I [THEN conjunct2]]
  have "moves (px_held px, fc) (px_held px4, fc4)"
    by (rule moves_less [OF order_refl]) (use moves_trans I C p2(2) moves_less in blast)+
  then show ?thesis using C F by simp
qed

lemma par2_maybe_get_pxxs_moves:
  assumes "par2_maybe_get_pxxs env px fc = (n, px', fc')" "px_ok px"
  shows "moves (px_held px, fc) (px_held px', fc') \<and> px_ok px'"
proof -
  obtain lp nc where l: "addfrompath_par2 env (px_path px) (local_par_new, []) = (lp, nc)"
    by (cases "addfrompath_par2 env (px_path px) (local_par_new, [])")
  obtain un px1 where u: "release_unclaimed (px\<lparr>px_local := lp\<rparr>) = (un, px1)" by (cases "release_unclaimed (px\<lparr>px_local := lp\<rparr>)")
  let ?px2 = "foldl (\<lambda>px f. snd (par2_maybe_add env f True px)) px1 un"
  obtain m px3 fc3 where i: "px_get_initial_pars env ?px2 fc = (m, px3, fc3)" by (cases "px_get_initial_pars env ?px2 fc")
  obtain k px4 fc4 where c: "par2_check_sets env nc (basefilenames lp) m px3 fc3 = (k, px4, fc4)"
    and f: "finish_round (k, px4, fc4) = (n, px', fc')"
    using assms(1) l u i by (auto simp: par2_maybe_get_pxxs_def) (metis prod_cases3)
  have r: "px_ok px1" "length un + px_held px1 = px_held px" using release_held [OF u] assms(2) by (simp_all add: px_local_held)
  have "px_ok (snd (par2_maybe_add env g True q)) \<and> px_held (snd (par2_maybe_add env g True q)) \<le> px_held q + 1" if "px_ok q" for q g
    using par2_maybe_add_held [of env g True q "fst (par2_maybe_add env g True q)" "snd (par2_maybe_add env g True q)"] that by simp
  from foldl_held [of "\<lambda>px f. snd (par2_maybe_add env f True px)", OF this r(1), of un]
  have p2: "px_ok ?px2" "px_held ?px2 \<le> px_held px" using r(2) by auto
  note I = px_get_initial_pars_moves [OF i p2(1)] and F = finish_round_held [OF f]
  note C = par2_check_sets_moves [OF c I [THEN conjunct2]]
  have "moves (px_held px, fc) (px_held px4, fc4)"
    by (rule moves_less [OF order_refl]) (use moves_trans I C p2(2) moves_less in blast)+
  then show ?thesis using C F by simp
qed

lemma pd_maybe_get_pxxs_moves:
  assumes "pd_maybe_get_pxxs env pd fc = Some (b, pd', fc')" "pd_ok pd"
  shows "moves (pd_held pd, fc) (pd_held pd', fc') \<and> pd_ok pd'"
proof -
  obtain n p1 fc1 where a: "par1_maybe_get_pxxs env (pd_par1 pd) fc = Some (n, p1, fc1)"
    using assms(1) by (auto simp: pd_maybe_get_pxxs_def split: option.splits)
  obtain m p2 fc2 where c: "par2_maybe_get_pxxs env (pd_par2 pd) fc1 = (m, p2, fc2)"
    by (cases "par2_maybe_get_pxxs env (pd_par2 pd) fc1")
  have r: "pd' = \<lparr>pd_par1 = p1, pd_par2 = p2\<rparr>" "fc' = fc2" using assms(1) a c by (auto simp: pd_maybe_get_pxxs_def)
  note A = par1_maybe_get_pxxs_moves [OF a] and C = par2_maybe_get_pxxs_moves [OF c]
  have A': "moves (px_held (pd_par1 pd), fc) (px_held p1, fc1)" "px_ok p1" using A assms(2) by (simp_all add: pd_ok_def)
  have C': "moves (px_held (pd_par2 pd), fc1) (px_held p2, fc2)" "px_ok p2" using C assms(2) by (simp_all add: pd_ok_def)
  have "moves (px_held (pd_par2 pd) + px_held (pd_par1 pd), fc) (px_held (pd_par2 pd) + px_held p1, fc1)"
    by (rule moves_add [OF A'(1)])
  moreover have "moves (px_held p1 + px_held (pd_par2 pd), fc1) (px_held p1 + px_held p2, fc2)" by (rule moves_add [OF C'(1)])
  ultimately show ?thesis using A'(2) C'(2) moves_trans by (simp add: r pd_held_def pd_ok_def add.commute)
qed

lemma pd_get_initial_pars_moves:
  assumes "pd_get_initial_pars env pd fc = (pd', fc')" "pd_ok pd"
  shows "moves (pd_held pd, fc) (pd_held pd', fc') \<and> pd_ok pd'"
proof -
  obtain n p1 fc1 where a: "px_get_initial_pars env (pd_par1 pd) fc = (n, p1, fc1)"
    by (cases "px_get_initial_pars env (pd_par1 pd) fc")
  obtain m p2 fc2 where c: "px_get_initial_pars env (pd_par2 pd) fc1 = (m, p2, fc2)"
    by (cases "px_get_initial_pars env (pd_par2 pd) fc1")
  have r: "pd' = \<lparr>pd_par1 = p1, pd_par2 = p2\<rparr>" "fc' = fc2" using assms(1) a c by (auto simp: pd_get_initial_pars_def)
  note A = px_get_initial_pars_moves [OF a] and C = px_get_initial_pars_moves [OF c]
  have A': "moves (px_held (pd_par1 pd), fc) (px_held p1, fc1)" "px_ok p1" using A assms(2) by (simp_all add: pd_ok_def)
  have C': "moves (px_held (pd_par2 pd), fc1) (px_held p2, fc2)" "px_ok p2" using C assms(2) by (simp_all add: pd_ok_def)
  have "moves (px_held (pd_par2 pd) + px_held (pd_par1 pd), fc) (px_held (pd_par2 pd) + px_held p1, fc1)"
    by (rule moves_add [OF A'(1)])
  moreover have "moves (px_held p1 + px_held (pd_par2 pd), fc1) (px_held p1 + px_held p2, fc2)" by (rule moves_add [OF C'(1)])
  ultimately show ?thesis using A'(2) C'(2) moves_trans by (simp add: r pd_held_def pd_ok_def add.commute)
qed

section \<open>The handler\<close>

lemma held_put:
  assumes "handler_ok ph" "map_of ph path = Some pd" "pd_ok pd'"
  shows "handler_ok (smap_put ph path pd') \<and> held (smap_put ph path pd') + pd_held pd = held ph + pd_held pd'"
  using assms sum_smap_put [of ph pd_held path pd'] set_smap_put [of ph path pd']
  by (auto simp: handler_ok_def held_def smap_ok_put)

lemma maybe_get_pxxs_moves:
  assumes "maybe_get_pxxs env path ph fc = Some (ph', fc')" "handler_ok ph"
  shows "moves (held ph, fc) (held ph', fc') \<and> handler_ok ph'"
proof -
  obtain pd b pd' where p: "map_of ph path = Some pd" "pd_maybe_get_pxxs env pd fc = Some (b, pd', fc')" "ph' = smap_put ph path pd'"
    using assms(1) by (auto simp: maybe_get_pxxs_def split: option.splits)
  have "pd_ok pd" using assms(2) map_of_SomeD [OF p(1)] by (auto simp: handler_ok_def)
  note m = pd_maybe_get_pxxs_moves [OF p(2) this]
  note h = held_put [OF assms(2) p(1) m [THEN conjunct2]]
  show ?thesis using m h by (auto simp: p(3) moves_def)
qed

lemma get_initial_pars_moves:
  assumes "get_initial_pars env ph fc = Some (ph', fc')" "handler_ok ph"
  shows "moves (held ph, fc) (held ph', fc') \<and> handler_ok ph'"
proof -
  have "moves (held ph, fc) (held ph', fc') \<and> List.map fst ph' = List.map fst ph \<and> (\<forall>(p, pd) \<in> set ph'. pd_ok pd)"
    if "handler_initial_pars env paths ph fc = Some (ph', fc')" "\<forall>(p, pd) \<in> set ph. pd_ok pd" for paths ph ph' fc fc'
    using that
  proof (induction env paths ph fc arbitrary: ph' fc' rule: handler_initial_pars.induct)
    case (2 env paths p pd ph fc)
    obtain pd1 fc1 where a: "(if p \<in> paths then Some (pd_get_initial_pars env pd fc) else map_option snd (pd_maybe_get_pxxs env pd fc)) =
        Some (pd1, fc1)" using "2.prems"(1) by (auto split: option.splits)
    obtain ph2 fc2 where c: "handler_initial_pars env paths ph fc1 = Some (ph2, fc2)" and r: "ph' = (p, pd1) # ph2" "fc' = fc2"
      using "2.prems"(1) a by (auto split: option.splits)
    have d: "moves (pd_held pd, fc) (pd_held pd1, fc1) \<and> pd_ok pd1"
      using a "2.prems"(2) pd_get_initial_pars_moves [of env pd fc pd1 fc1] pd_maybe_get_pxxs_moves [of env pd fc _ pd1 fc1]
      by (auto split: if_splits)
    have i: "moves (held ph, fc1) (held ph2, fc2)" "List.map fst ph2 = List.map fst ph" "\<forall>(p, pd) \<in> set ph2. pd_ok pd"
      using "2.IH" [OF a refl c] "2.prems"(2) by auto
    have "moves (held ph + pd_held pd, fc) (held ph + pd_held pd1, fc1)" using d by (intro moves_add) blast
    then have "moves (pd_held pd + held ph, fc) (pd_held pd1 + held ph, fc1)" by (simp only: add.commute)
    note moves_trans [OF this moves_add [OF i(1)]]
    then show ?case using i d by (simp add: r held_def)
  qed (auto simp: held_def)
  from this [of _ ph fc ph' fc'] show ?thesis using assms by (auto simp: get_initial_pars_def handler_ok_def smap_ok_def)
qed

lemma maybe_add_parfile_ok:
  assumes "maybe_add_parfile env f path temppath w ph = (b, ph')" "handler_ok ph"
  shows "handler_ok ph'"
proof -
  obtain pd ph1 where p: "parinfo env path temppath ph = (pd, ph1)" by (cases "parinfo env path temppath ph")
  have new: "pd_ok (par_dir_new env path temppath)"
    by (simp add: par_dir_new_def pd_ok_def px_ok_def par1_info_new_def par2_info_new_def par_info_new_def)
  have one: "handler_ok ph1 \<and> map_of ph1 path = Some pd"
  proof (cases "map_of ph path")
    case None
    then have "ph1 = smap_put ph path pd" "pd = par_dir_new env path temppath"
      using p by (auto simp: parinfo_def smap_insert_def)
    then show ?thesis using assms(2) new set_smap_put [of ph path pd] map_of_smap_put [of ph path pd]
      by (auto simp: handler_ok_def smap_ok_put)
  next
    case (Some q)
    then show ?thesis using p assms(2) by (simp add: parinfo_def)
  qed
  obtain c pd' where a: "pd_maybe_add env f w pd = (c, pd')" by (cases "pd_maybe_add env f w pd")
  have "pd_ok pd" using one map_of_SomeD by (fastforce simp: handler_ok_def)
  then have "pd_ok pd'" using a
    by (auto simp: pd_maybe_add_def pd_ok_def Let_def split: prod.splits if_splits
        dest!: par1_maybe_add_held par2_maybe_add_held)
  then have "handler_ok (smap_put ph1 path pd')" using held_put one by blast
  then show ?thesis using assms(1) p a by (simp add: maybe_add_parfile_def)
qed

end
