(* ===== verification/Retrieve.thy ===== *)
theory Retrieve
  imports ParMoves Decode
begin

text \<open>
  The retrieval (\<open>prot_nntp.cc\<close>): the files that were chosen are fetched one after the other, part by part,
  decoded, and recorded as fetched; duplicates of what was just decoded are dropped, and when nothing is left
  for a directory its recovery files are looked after. The numbers of the progress display are left out.
  The lemmas: the retrieval ends, and a posting is recorded only when it was decoded without an error.
\<close>

section \<open>Options and state\<close>

datatype show_multiserver = NO_SHOW_MULTI | SHOW_MULTI_LONG | SHOW_MULTI_SHORT

record retr_options =
  ro_nntp :: nntp_options
  ro_decode :: decode_options
  ro_getincomplete :: bool
  ro_noautopar :: bool
  ro_nodecode :: bool
  ro_tempshortnames :: bool
  ro_noconnect :: bool
  ro_testmode :: bool
  ro_mark :: bool
  ro_unmark :: bool
  ro_writelite :: string
  ro_test_multi :: show_multiserver
  ro_retr_show_multi :: show_multiserver

definition autopar_disabling :: "retr_options \<Rightarrow> bool" where
  "autopar_disabling opts \<longleftrightarrow> ro_noautopar opts \<or> ro_testmode opts \<or> ro_mark opts \<or> ro_unmark opts \<or> ro_nodecode opts"

text \<open>What the program takes from elsewhere: sockets, the key behind the end of the map, the check sum, the time,
  the printed form of times, the environment of the recovery files with the directories, and that of the
  decoder with the disk.\<close>

record 'u retr_env =
  re_world :: world
  re_rend_key :: rat
  re_checksum :: "string \<Rightarrow> ulong"
  re_now :: int
  re_tconv :: "int \<Rightarrow> string"
  re_par :: par_env
  re_pardir :: "(string \<Rightarrow> string option) \<Rightarrow> string \<Rightarrow> string list"
  re_decode :: "'u decode_env"

record retrieving =
  rt_nntp :: nntp
  rt_fc :: files_u
  rt_par :: par_handler
  rt_rands :: nat
  rt_out :: string

definition the_config :: "nntp \<Rightarrow> nget_config" where
  "the_config s = po_config (nn_pool s)"

definition par_env_now :: "'u retr_env \<Rightarrow> nntp \<Rightarrow> par_env" where
  "par_env_now env s =
     (re_par env)\<lparr>en_config := the_config s, en_fs := nn_files s, en_dir := re_pardir env (nn_files s)\<rparr>"

definition dupe_regex :: "'u retr_env \<Rightarrow> string \<Rightarrow> string \<Rightarrow> bool" where
  "dupe_regex env pat s \<longleftrightarrow> en_rx (re_par env) True pat s \<noteq> None"

section \<open>What is printed of a file\<close>

definition server_flags :: "show_multiserver \<Rightarrow> int \<Rightarrow> int \<Rightarrow> server \<Rightarrow> string" where
  "server_flags show_multi n have s =
     (case show_multi of
        SHOW_MULTI_LONG \<Rightarrow> '' '' @ sv_alias s @ (if n < have then '':'' @ show_int n else [])
      | _ \<Rightarrow> if n < have then List.map to_upper (sv_shortname s) else sv_shortname s)"

definition print_nntp_file_info :: "'u retr_env \<Rightarrow> nget_config \<Rightarrow> nntp_file \<Rightarrow> show_multiserver \<Rightarrow> string" where
  "print_nntp_file_info env cfg f show_multi =
     (let p = hd (parts f); trust = en_trust (re_par env) in
      show_int (have_count f) @
      (if iscomplete cfg trust f then [] else ''/'' @ show_int (fb_req (nf_base f))) @
      (case show_multi of
         NO_SHOW_MULTI \<Rightarrow> []
       | _ \<Rightarrow>
           (if show_multi = SHOW_MULTI_SHORT then '' '' else []) @
           concat (List.map (\<lambda>(sid, n).
             concat (List.map (\<lambda>srv. server_flags show_multi n (have_count f) (servers cfg ! srv)) (getservers cfg sid)))
               (get_server_have_map f []))) @
      [TAB] @ show_int (sint (file_lines cfg trust f)) @ ''l'' @ [TAB] @ re_tconv env (p_date p) @ [TAB] @
      fb_subject (nf_base f) @ [TAB] @ fb_author (nf_base f) @ [TAB] @ p_messageid p @ [nl])"

section \<open>Temporary files\<close>

definition getfileid :: "'u retr_env \<Rightarrow> nntp_file \<Rightarrow> ulong" where
  "getfileid env f =
     (let b = nf_base f
      in re_checksum env (fb_subject b @ fb_author b @ concat (fb_references b) @ (if fb_req b \<le> 0 then bamid f else [])))"

fun show_hex :: "nat \<Rightarrow> string" where
  "show_hex n = (if n < 16 then [hexchar ! n] else show_hex (n div 16) @ [hexchar ! (n mod 16)])"

declare show_hex.simps [simp del]

text \<open>The format \<open>%03i\<close>.\<close>

definition show_pad3 :: "int \<Rightarrow> string" where
  "show_pad3 i =
     (let sign = (if i < 0 then ''-'' else []); ds = show_nat (nat \<bar>i\<bar>)
      in sign @ replicate (3 - length sign - length ds) (CHR ''0'') @ ds)"

definition temp_name :: "'u retr_env \<Rightarrow> retr_options \<Rightarrow> file_retr \<Rightarrow> part \<Rightarrow> string" where
  "temp_name env opts fr p =
     (if ro_writelite opts \<noteq> [] then [] else fr_temppath fr) @
     (if ro_tempshortnames opts then [] else ''ngettemp-'') @
     show_hex (unat (getfileid env (fr_file fr))) @ ''.'' @ show_pad3 (partnum p)"

section \<open>The parts of a file\<close>

text \<open>A part has its file, or it is left out, or the whole file is given up.\<close>

datatype part_end = Part_file string | Part_skipped | Part_failed

definition no_article :: "retr_options \<Rightarrow> part_end" where
  "no_article opts = (if ro_getincomplete opts then Part_skipped else Part_failed)"

definition the_disk :: "'u retr_env \<Rightarrow> string \<Rightarrow> string \<Rightarrow> disk_result" where
  "the_disk env = te_disk (de_text (re_decode env))"

definition write_lite :: "'u retr_env \<Rightarrow> retr_options \<Rightarrow> part \<Rightarrow> string \<Rightarrow> nntp \<Rightarrow> (retr_ex + part_end) \<times> nntp" where
  "write_lite env opts p fn s =
     (let text = (case nn_files s (ro_writelite opts) of Some old \<Rightarrow> old | None \<Rightarrow> []) @
                 nntp_dowritelite_article (nn_pool s) (nn_force_host s) (nn_group s) p fn
      in case the_disk env (ro_writelite opts) text of
           Written \<Rightarrow> (Inr Part_skipped, s\<lparr>nn_files := (nn_files s)(ro_writelite opts \<mapsto> text)\<rparr>)
         | Cut_off \<Rightarrow>
             (Inl FileError, s\<lparr>nn_files := (nn_files s)(ro_writelite opts \<mapsto> te_cut (de_text (re_decode env)) (ro_writelite opts) text)\<rparr>)
         | Not_opened \<Rightarrow> (Inl FileError, s))"

definition fetch_part :: "'u retr_env \<Rightarrow> retr_options \<Rightarrow> file_retr \<Rightarrow> part \<Rightarrow> nntp \<Rightarrow> (retr_ex + part_end) \<times> nntp" where
  "fetch_part env opts fr p s =
     (let fn = temp_name env opts fr p
      in if file_exists (nn_files s) fn then (Inr (Part_file fn), s)
         else if ro_writelite opts \<noteq> [] then write_lite env opts p fn s
         else if ro_noconnect opts then (Inr (no_article opts), s)
         else (case nntp_doarticle (re_world env) (re_rend_key env) (the_disk env) (ro_nntp opts) p fn s of
                 (Inl e, s') \<Rightarrow> (Inl e, s')
               | (Inr got, s') \<Rightarrow> (Inr (if got then Part_file fn else no_article opts), s')))"

text \<open>The names for the decoder; \<open>None\<close> when a part could not be fetched, and then the others are left.\<close>

fun fetch_parts ::
  "'u retr_env \<Rightarrow> retr_options \<Rightarrow> file_retr \<Rightarrow> (int \<times> string) list \<Rightarrow> part list \<Rightarrow> nntp \<Rightarrow>
   (retr_ex + (int \<times> string) list option) \<times> nntp"
where
  "fetch_parts env opts fr fnbuf [] s = (Inr (Some fnbuf), s)"
| "fetch_parts env opts fr fnbuf (p # ps) s =
     (case fetch_part env opts fr p s of
        (Inl e, s') \<Rightarrow> (Inl e, s')
      | (Inr Part_failed, s') \<Rightarrow> (Inr None, s')
      | (Inr Part_skipped, s') \<Rightarrow> fetch_parts env opts fr fnbuf ps s'
      | (Inr (Part_file fn), s') \<Rightarrow> fetch_parts env opts fr (fnbuf @ [(partnum p, fn)]) ps s')"

section \<open>A file\<close>

definition text_state_of :: "retrieving \<Rightarrow> text_state" where
  "text_state_of s = \<lparr>tw_status = nn_status (rt_nntp s), tw_files = nn_files (rt_nntp s), tw_rands = rt_rands s\<rparr>"

definition put_text_state :: "text_state \<Rightarrow> retrieving \<Rightarrow> retrieving" where
  "put_text_state t s =
     s\<lparr>rt_nntp := (rt_nntp s)\<lparr>nn_status := tw_status t, nn_files := tw_files t\<rparr>, rt_rands := tw_rands t\<rparr>"

definition on_nntp :: "(nntp \<Rightarrow> nntp) \<Rightarrow> retrieving \<Rightarrow> retrieving" where
  "on_nntp g s = s\<lparr>rt_nntp := g (rt_nntp s)\<rparr>"

definition record_fetched :: "'u retr_env \<Rightarrow> nntp_file \<Rightarrow> nntp \<Rightarrow> nntp" where
  "record_fetched env f s =
     s\<lparr>nn_midinfo := map_option (mmi_insert (re_now env) (bamid f) (first_part_groups (the_config s) f)) (nn_midinfo s)\<rparr>"

text \<open>The files that are still to come, to the same place, and that are duplicates of what was just decoded.\<close>

definition is_dupe :: "'u retr_env \<Rightarrow> nntp \<Rightarrow> dupe_checker \<Rightarrow> string \<Rightarrow> int \<times> file_retr \<Rightarrow> bool" where
  "is_dupe env s flist path e \<longleftrightarrow>
     (let dfr = snd e; df = fr_file dfr
      in fr_dupecheck dfr \<and> fr_path dfr = path \<and>
         checkhavefile (dupe_regex env) flist (fb_subject (nf_base df)) (file_bytes (the_config s) (en_trust (re_par env)) df))"

definition drop_dupes :: "'u retr_env \<Rightarrow> dupe_checker \<Rightarrow> string \<Rightarrow> retrieving \<Rightarrow> retrieving" where
  "drop_dupes env flist path s =
     (case fu_files (rt_fc s) of
        [] \<Rightarrow> s
      | cur # es \<Rightarrow>
          (let dupes = filter (is_dupe env (rt_nntp s) flist path) es
           in on_nntp (\<lambda>n. n\<lparr>nn_status := foldl (\<lambda>st e. set_ok_status ST_skipped 1 st) (nn_status n) dupes\<rparr>)
                (s\<lparr>rt_fc := (rt_fc s)\<lparr>fu_files := cur # filter (\<lambda>e. \<not> is_dupe env (rt_nntp s) flist path e) es\<rparr>\<rparr>)))"

text \<open>What is done with the parts, when none is missing.\<close>

definition keeps_temp :: "retr_options \<Rightarrow> bool" where
  "keeps_temp opts \<longleftrightarrow> ro_nodecode opts \<or> ro_writelite opts \<noteq> []"

definition finish_file ::
  "'u retr_env \<Rightarrow> retr_options \<Rightarrow> file_retr \<Rightarrow> (int \<times> string) list option \<Rightarrow> retrieving \<Rightarrow> (retr_ex + unit) \<times> retrieving" where
  "finish_file env opts fr fnbuf s =
     (case fnbuf of
        None \<Rightarrow> (Inr (), s)
      | Some names \<Rightarrow>
          if keeps_temp opts then (Inr (), on_nntp (\<lambda>n. n\<lparr>nn_status := set_ok_status ST_total 1 (nn_status n)\<rparr>) s)
          else (case decode (re_decode env) (ro_decode opts) names fr [] (text_state_of s) of
                  (Inl e, t, flist) \<Rightarrow> (Inl e, put_text_state t s)
                | (Inr derr, t, flist) \<Rightarrow>
                    (let s1 = put_text_state t s
                     in (Inr (),
                         if derr = 0
                         then (let s2 = on_nntp (record_fetched env (fr_file fr)) s1
                               in if flist = [] then s2 else drop_dupes env flist (fr_path fr) s2)
                         else s1))))"

definition retrieve_file :: "'u retr_env \<Rightarrow> retr_options \<Rightarrow> file_retr \<Rightarrow> retrieving \<Rightarrow> (retr_ex + unit) \<times> retrieving" where
  "retrieve_file env opts fr s =
     (let s1 = s\<lparr>rt_out := rt_out s @ ''Retrieving: '' @
                   print_nntp_file_info env (the_config (rt_nntp s)) (fr_file fr) (ro_retr_show_multi opts)\<rparr>
      in case fetch_parts env opts fr [] (parts (fr_file fr)) (rt_nntp s1) of
           (Inl e, n) \<Rightarrow> (Inl e, s1\<lparr>rt_nntp := n\<rparr>)
         | (Inr fnbuf, n) \<Rightarrow> finish_file env opts fr fnbuf (s1\<lparr>rt_nntp := n\<rparr>))"

section \<open>The loop\<close>

definition path_files_left :: "string \<Rightarrow> files_u \<Rightarrow> nat" where
  "path_files_left path fc = length (filter (\<lambda>(d, fr). fr_path fr = path) (fu_files fc))"

text \<open>What the handler of the recovery files has reported.\<close>

definition par_oks :: "par_handler \<Rightarrow> nat" where
  "par_oks ph = (\<Sum>(p, pd) \<leftarrow> ph. px_ok_status (pd_par1 pd) + px_ok_status (pd_par2 pd))"

definition par_errors :: "par_handler \<Rightarrow> nat" where
  "par_errors ph = (\<Sum>(p, pd) \<leftarrow> ph. px_error_status (pd_par1 pd) + px_error_status (pd_par2 pd))"

definition put_par :: "par_handler \<times> files_u \<Rightarrow> retrieving \<Rightarrow> retrieving" where
  "put_par r s =
     (case r of (ph, fc) \<Rightarrow>
        on_nntp (\<lambda>n. n\<lparr>nn_status :=
            set_error_status ST_autopar (int (par_errors ph) - int (par_errors (rt_par s)))
              (set_ok_status ST_autopar (int (par_oks ph) - int (par_oks (rt_par s))) (nn_status n))\<rparr>)
          (s\<lparr>rt_par := ph, rt_fc := fc\<rparr>))"

text \<open>When the last file of a directory is done its recovery files are looked after. An exception there ends
  the retrieval.\<close>

definition autopar :: "'u retr_env \<Rightarrow> retr_options \<Rightarrow> string \<Rightarrow> retrieving \<Rightarrow> (retr_ex + unit) \<times> retrieving" where
  "autopar env opts path s =
     (if autopar_disabling opts \<or> keeps_temp opts \<or> path_files_left path (rt_fc s) \<noteq> 0 then (Inr (), s)
      else (case maybe_get_pxxs (par_env_now env (rt_nntp s)) path (rt_par s) (rt_fc s) of
              None \<Rightarrow> (Inl AppError, s)
            | Some r \<Rightarrow> (Inr (), put_par r s)))"

definition erase_current :: "retrieving \<Rightarrow> retrieving" where
  "erase_current s = s\<lparr>rt_fc := (rt_fc s)\<lparr>fu_files := tl (fu_files (rt_fc s))\<rparr>\<rparr>"

definition retrieve_step :: "'u retr_env \<Rightarrow> retr_options \<Rightarrow> retrieving \<Rightarrow> (retr_ex + unit) \<times> retrieving" where
  "retrieve_step env opts s =
     (let fr = snd (hd (fu_files (rt_fc s)))
      in case retrieve_file env opts fr s of
           (Inl e, s1) \<Rightarrow> (Inl e, s1)
         | (Inr _, s1) \<Rightarrow> autopar env opts (fr_path fr) (erase_current s1))"

text \<open>\<open>None\<close> would be a retrieval that never ends.\<close>

partial_function (option) retrieve_loop ::
  "'u retr_env \<Rightarrow> retr_options \<Rightarrow> retrieving \<Rightarrow> ((retr_ex + unit) \<times> retrieving) option"
where
  "retrieve_loop env opts s =
     (if fu_files (rt_fc s) = [] then Some (Inr (), s)
      else (case retrieve_step env opts s of
              (r, s') \<Rightarrow> (case r of Inl e \<Rightarrow> Some (Inl e, s') | Inr u \<Rightarrow> retrieve_loop env opts s')))"

section \<open>The retrieval\<close>

definition unmark_file :: "'u retr_env \<Rightarrow> retr_options \<Rightarrow> nntp_file \<Rightarrow> retrieving \<Rightarrow> retrieving" where
  "unmark_file env opts f s =
     (if ro_testmode opts
      then (if (case nn_midinfo (rt_nntp s) of Some mm \<Rightarrow> mmi_check mm (bamid f) | None \<Rightarrow> False)
            then s\<lparr>rt_out := rt_out s @ print_nntp_file_info env (the_config (rt_nntp s)) f (ro_test_multi opts)\<rparr> else s)
      else on_nntp (\<lambda>n. n\<lparr>nn_midinfo := map_option (\<lambda>mm. mmi_remove mm (bamid f)) (nn_midinfo n)\<rparr>) s)"

definition chosen_files :: "retrieving \<Rightarrow> nntp_file list" where
  "chosen_files s = List.map (\<lambda>(d, fr). fr_file fr) (fu_files (rt_fc s))"

definition would_unmark :: "'u retr_env \<Rightarrow> retrieving \<Rightarrow> string" where
  "would_unmark env s =
     (let cfg = the_config (rt_nntp s);
          fs = filter (\<lambda>f. case nn_midinfo (rt_nntp s) of Some mm \<Rightarrow> mmi_check mm (bamid f) | None \<Rightarrow> False) (chosen_files s)
      in ''Would unmark '' @ show_ulong (\<Sum>f \<leftarrow> fs. file_bytes cfg (en_trust (re_par env)) f) @ '' bytes in '' @
         show_nat (length fs) @ '' files'' @ [nl])"

definition unmark_files :: "'u retr_env \<Rightarrow> retr_options \<Rightarrow> retrieving \<Rightarrow> retrieving" where
  "unmark_files env opts s =
     (let s1 = foldl (\<lambda>s f. unmark_file env opts f s) s (chosen_files s)
      in if ro_testmode opts then s1\<lparr>rt_out := rt_out s1 @ would_unmark env s\<rparr> else s1)"

definition test_files :: "'u retr_env \<Rightarrow> retr_options \<Rightarrow> retrieving \<Rightarrow> retrieving" where
  "test_files env opts s =
     s\<lparr>rt_out := rt_out s @
         concat (List.map (\<lambda>f. print_nntp_file_info env (the_config (rt_nntp s)) f (ro_test_multi opts)) (chosen_files s)) @
         (if ro_mark opts then ''Would mark '' else []) @
         show_ulong (fu_bytes (rt_fc s)) @ '' bytes in '' @ show_nat (length (fu_files (rt_fc s))) @ '' files'' @ [nl]\<rparr>"

definition mark_files :: "'u retr_env \<Rightarrow> retrieving \<Rightarrow> retrieving" where
  "mark_files env s = foldl (\<lambda>s f. on_nntp (record_fetched env f) s) s (chosen_files s)"

definition nntp_doretrieve :: "'u retr_env \<Rightarrow> retr_options \<Rightarrow> retrieving \<Rightarrow> ((retr_ex + unit) \<times> retrieving) option" where
  "nntp_doretrieve env opts s0 =
     (case (if autopar_disabling opts then Some s0
            else map_option (\<lambda>r. put_par r s0) (get_initial_pars (par_env_now env (rt_nntp s0)) (rt_par s0) (rt_fc s0))) of
        None \<Rightarrow> Some (Inl AppError, s0)
      | Some s \<Rightarrow>
          if fu_files (rt_fc s) = [] then Some (Inr (), s)
          else
            (case (if ro_unmark opts then Some (Inr (), unmark_files env opts s)
                   else if ro_testmode opts then Some (Inr (), test_files env opts s)
                   else if ro_mark opts then Some (Inr (), mark_files env s)
                   else retrieve_loop env opts s) of
               None \<Rightarrow> None
             | Some (Inl e, s') \<Rightarrow> Some (Inl e, s')
             | Some (Inr _, s') \<Rightarrow> Some (Inr (), on_nntp cleanupcache s')))"

section \<open>Choosing the files\<close>

definition getfile_start :: "nntp \<Rightarrow> par_handler getfile_state" where
  "getfile_start s = \<lparr>gs_fc = files_u_new, gs_par = [], gs_midinfo = (case nn_midinfo s of Some mm \<Rightarrow> mm | None \<Rightarrow> [])\<rparr>"

definition start_retrieving :: "nntp \<Rightarrow> par_handler getfile_state \<Rightarrow> string \<Rightarrow> nat \<Rightarrow> retrieving" where
  "start_retrieving s gs out rands =
     \<lparr>rt_nntp = s\<lparr>nn_midinfo := Some (gs_midinfo gs)\<rparr>, rt_fc = gs_fc gs, rt_par = gs_par gs, rt_rands = rands, rt_out = out\<rparr>"

text \<open>Another group, or several, are selected: the records of fetched messages are loaded.\<close>

definition select_groups :: "retr_options \<Rightarrow> group_ptr list \<Rightarrow> nntp \<Rightarrow> nntp" where
  "select_groups opts rgroups s =
     (case rgroups of
        [g] \<Rightarrow>
          (let s1 = (if nn_group s \<noteq> Some g then (cleanupcache s)\<lparr>nn_group := Some g\<rparr> else s)
           in if nn_midinfo s1 = None then use_midinfo (ro_nntp opts) [g] s1 else s1)
      | _ \<Rightarrow> use_midinfo (ro_nntp opts) rgroups ((cleanupcache s)\<lparr>nn_group := None\<rparr>))"

definition nntp_retrieve ::
  "'u retr_env \<Rightarrow> retr_options \<Rightarrow> group_ptr list \<Rightarrow> getinfo list \<Rightarrow> nat \<Rightarrow> nntp \<Rightarrow> ((retr_ex + unit) \<times> retrieving) option" where
  "nntp_retrieve env opts rgroups infos rands s =
     (let trust = en_trust (re_par env); path = no_cachehome (ro_nntp opts);
          cfg = the_config s; add = maybe_add_parfile (par_env_now env s); rx = dupe_regex env; now = re_now env
      in case rgroups of
           [g] \<Rightarrow>
             (case nn_cache s of
                Some c \<Rightarrow>
                  if nn_group s \<noteq> Some g
                  then Some (Inl (Fatal Crash), start_retrieving s (getfile_start s) [] rands)
                  else nntp_doretrieve env opts
                         (start_retrieving (s\<lparr>nn_cache := None\<rparr>) (getfiles cfg trust rx add now infos c (getfile_start s)) [] rands)
              | None \<Rightarrow>
                  (let s1 = select_groups opts [g] s
                   in case nntp_cache_getfiles cfg trust rx (maybe_add_parfile (par_env_now env s1)) now path g (nn_files s1) infos
                             (getfile_start s1) of
                        (multi, n, gs) \<Rightarrow>
                          nntp_doretrieve env opts
                            (start_retrieving
                               (s1\<lparr>nn_multiserver := (case multi of Some b \<Rightarrow> b | None \<Rightarrow> nn_multiserver s1),
                                   nn_status := cache_warnings n (nn_status s1)\<rparr>) gs [] rands)))
         | _ \<Rightarrow>
             (let s1 = select_groups opts rgroups s
              in case nntp_cache_getfiles_groups cfg trust rx (maybe_add_parfile (par_env_now env s1)) now path rgroups (nn_files s1) infos
                        (getfile_start s1) of
                   (multi, n, gs) \<Rightarrow>
                     nntp_doretrieve env opts
                       (start_retrieving (s1\<lparr>nn_multiserver := multi, nn_status := cache_warnings n (nn_status s1)\<rparr>) gs [] rands)))"

text \<open>With patterns the headers come from the servers, not from the cache.\<close>

fun search_groups ::
  "'u retr_env \<Rightarrow> regex_subs \<Rightarrow> clock \<Rightarrow> retr_options \<Rightarrow> group_ptr list \<Rightarrow> (string \<times> string) list \<Rightarrow> (nntp, unit) comm"
where
  "search_groups env rx ck opts [] pats = comm_return ()"
| "search_groups env rx ck opts (g # gs) pats =
     comm_bind (nntp_xgroup (re_world env) rx ck (ro_nntp opts) g pats) (\<lambda>_. search_groups env rx ck opts gs pats)"

definition nntp_xretrieve ::
  "'u retr_env \<Rightarrow> regex_subs \<Rightarrow> clock \<Rightarrow> retr_options \<Rightarrow> group_ptr list \<Rightarrow> getinfo list \<Rightarrow> (string \<times> string) list \<Rightarrow> nat \<Rightarrow>
   nntp \<Rightarrow> ((retr_ex + unit) \<times> retrieving) option"
where
  "nntp_xretrieve env rx ck opts rgroups infos pats rands s =
     (let s1 = (select_groups opts rgroups s)\<lparr>nn_cache := Some cache_new\<rparr>
      in case search_groups env rx ck opts rgroups pats s1 of
           (Inl e, s2) \<Rightarrow> Some (Inl (Fatal e), start_retrieving s2 (getfile_start s2) [] rands)
         | (Inr _, s2) \<Rightarrow>
             (case nn_cache s2 of
                None \<Rightarrow> Some (Inl (Fatal Crash), start_retrieving s2 (getfile_start s2) [] rands)
              | Some c \<Rightarrow>
                  nntp_doretrieve env opts
                    (start_retrieving (s2\<lparr>nn_cache := None\<rparr>)
                       (getfiles (the_config s2) (en_trust (re_par env)) (dupe_regex env) (maybe_add_parfile (par_env_now env s2))
                          (re_now env) infos c (getfile_start s2)) [] rands)))"

section \<open>What fetching keeps\<close>

lemma doarticle_kept:
  assumes "nntp_doarticle w k disk opts p fn s = (r, s')"
  shows "nn_midinfo s' = nn_midinfo s \<and> nn_group s' = nn_group s \<and> nn_cache s' = nn_cache s \<and>
    (\<forall>g. g \<noteq> fn \<longrightarrow> nn_files s' g = nn_files s g)"
proof (cases "nntp_doarticle_prioritize k (nn_pool s) (nn_force_host s) True p")
  case None
  then show ?thesis using assms by (auto simp: nntp_doarticle_def)
next
  case (Some sap)
  obtain m st x where R: "articles_rounds (\<lambda>(prio, sa, srv). on_server w (no_bindaddr opts) (fetch_article (po_config (nn_pool s)) sa) srv)
      (nat (no_maxretry opts)) sap (nn_pool s, \<lparr>fw_status = nn_status s, fw_buf = []\<rparr>) = (m, (st, x))" by (metis prod_cases3)
  note D = assms [unfolded nntp_doarticle_def Some option.case R prod.case Let_def]
  show ?thesis
    using D by (auto split: sum.splits pass_end.splits disk_result.splits)
qed

lemma fetch_part_kept:
  assumes "fetch_part env opts fr p s = (r, s')"
  shows "nn_midinfo s' = nn_midinfo s \<and> nn_group s' = nn_group s \<and> nn_cache s' = nn_cache s \<and>
    (\<forall>g c. nn_files s g = Some c \<longrightarrow> g \<noteq> ro_writelite opts \<or> ro_writelite opts = [] \<longrightarrow> nn_files s' g = Some c)"
proof -
  let ?fn = "temp_name env opts fr p"
  show ?thesis
  proof (cases "file_exists (nn_files s) ?fn \<or> (ro_writelite opts = [] \<and> ro_noconnect opts)")
    case True
    then show ?thesis using assms by (auto simp: fetch_part_def Let_def split: if_splits)
  next
    case False
    then have F: "\<not> file_exists (nn_files s) ?fn" "ro_writelite opts = [] \<Longrightarrow> \<not> ro_noconnect opts" by auto
    show ?thesis
    proof (cases "ro_writelite opts = []")
      case False
      then have "write_lite env opts p ?fn s = (r, s')" using assms F(1) by (simp add: fetch_part_def Let_def)
      then show ?thesis using False by (auto simp: write_lite_def Let_def split: disk_result.splits)
    next
      case True
      obtain x n where d: "nntp_doarticle (re_world env) (re_rend_key env) (the_disk env) (ro_nntp opts) p ?fn s = (x, n)"
        by (cases "nntp_doarticle (re_world env) (re_rend_key env) (the_disk env) (ro_nntp opts) p ?fn s")
      have "s' = n" using assms True F d by (cases x) (simp_all add: fetch_part_def Let_def)
      moreover have "nn_files s ?fn = None" using F(1) by (simp add: file_exists_def)
      moreover note doarticle_kept [OF d]
      ultimately show ?thesis by (metis option.distinct(1))
    qed
  qed
qed

lemma fetch_part_name:
  assumes "fetch_part env opts fr p s = (Inr (Part_file fn), s')"
  shows "fn = temp_name env opts fr p"
proof -
  let ?fn = "temp_name env opts fr p"
  have n: "no_article opts \<noteq> Part_file fn" by (simp add: no_article_def)
  have w: "fst (write_lite env opts p g s) \<noteq> Inr (Part_file fn)" for g
    by (simp add: write_lite_def Let_def split: disk_result.split)
  obtain x n where d: "nntp_doarticle (re_world env) (re_rend_key env) (the_disk env) (ro_nntp opts) p ?fn s = (x, n)"
    by (cases "nntp_doarticle (re_world env) (re_rend_key env) (the_disk env) (ro_nntp opts) p ?fn s")
  show ?thesis using assms n w [of ?fn] d by (cases x) (auto simp: fetch_part_def Let_def split: if_splits)
qed

lemma fetch_parts_kept:
  "fetch_parts env opts fr fnbuf ps s = (r, s') \<Longrightarrow>
     nn_midinfo s' = nn_midinfo s \<and> nn_group s' = nn_group s \<and> nn_cache s' = nn_cache s \<and>
     (\<forall>g c. nn_files s g = Some c \<longrightarrow> g \<noteq> ro_writelite opts \<or> ro_writelite opts = [] \<longrightarrow> nn_files s' g = Some c) \<and>
     (\<forall>names. r = Inr (Some names) \<longrightarrow> snd ` set names \<subseteq> snd ` set fnbuf \<union> temp_name env opts fr ` set ps)"
proof (induction env opts fr fnbuf ps s arbitrary: r s' rule: fetch_parts.induct)
  case (2 env opts fr fnbuf p ps s)
  obtain x s1 where f: "fetch_part env opts fr p s = (x, s1)" by (cases "fetch_part env opts fr p s")
  note k = fetch_part_kept [OF f]
  show ?case
  proof (cases x)
    case (Inl e)
    then show ?thesis using "2.prems" f k by auto
  next
    case (Inr pe)
    show ?thesis
    proof (cases pe)
      case (Part_file fn)
      have n: "fn = temp_name env opts fr p" using fetch_part_name f Inr Part_file by blast
      have "fetch_parts env opts fr (fnbuf @ [(partnum p, fn)]) ps s1 = (r, s')" using "2.prems" f Inr Part_file by simp
      note i = "2.IH"(1) [OF f [symmetric] Inr Part_file this]
      have "snd ` set names \<subseteq> snd ` set fnbuf \<union> temp_name env opts fr ` set (p # ps)" if "r = Inr (Some names)" for names
      proof -
        have "snd ` set names \<subseteq> snd ` set (fnbuf @ [(partnum p, fn)]) \<union> temp_name env opts fr ` set ps" using i that by blast
        also have "\<dots> = snd ` set fnbuf \<union> temp_name env opts fr ` set (p # ps)" using n by simp
        finally show ?thesis .
      qed
      then show ?thesis using i k by auto
    next
      case Part_skipped
      then have "fetch_parts env opts fr fnbuf ps s1 = (r, s')" using "2.prems" f Inr by simp
      note i = "2.IH"(2) [OF f [symmetric] Inr Part_skipped this]
      have "snd ` set names \<subseteq> snd ` set fnbuf \<union> temp_name env opts fr ` set (p # ps)" if "r = Inr (Some names)" for names
      proof -
        have "snd ` set names \<subseteq> snd ` set fnbuf \<union> temp_name env opts fr ` set ps" using i that by blast
        also have "\<dots> \<subseteq> snd ` set fnbuf \<union> temp_name env opts fr ` set (p # ps)" by auto
        finally show ?thesis .
      qed
      then show ?thesis using i k by auto
    next
      case Part_failed
      then show ?thesis using "2.prems" f Inr k by auto
    qed
  qed
qed auto

section \<open>What a step does\<close>

lemma on_nntp_fields [simp]:
  "rt_nntp (on_nntp g s) = g (rt_nntp s)" "rt_fc (on_nntp g s) = rt_fc s" "rt_par (on_nntp g s) = rt_par s"
  by (simp_all add: on_nntp_def)

lemma put_text_fields [simp]:
  "rt_fc (put_text_state t s) = rt_fc s" "rt_par (put_text_state t s) = rt_par s"
  "nn_midinfo (rt_nntp (put_text_state t s)) = nn_midinfo (rt_nntp s)" "nn_files (rt_nntp (put_text_state t s)) = tw_files t"
  by (simp_all add: put_text_state_def)

text \<open>Of the files that are to come some may be dropped; the current one stays.\<close>

definition some_dropped :: "(int \<times> file_retr) list \<Rightarrow> (int \<times> file_retr) list \<Rightarrow> bool" where
  "some_dropped es es' \<longleftrightarrow> (\<exists>Q. es' = (case es of [] \<Rightarrow> [] | c # cs \<Rightarrow> c # filter Q cs))"

lemma some_dropped_same [intro]: "some_dropped es es"
  by (auto simp: some_dropped_def intro!: exI [of _ "\<lambda>_. True"] split: list.split)

lemma some_dropped_shorter: "some_dropped es es' \<Longrightarrow> es \<noteq> [] \<Longrightarrow> length (tl es') < length es"
  by (cases es) (auto simp: some_dropped_def less_Suc_eq_le)

lemma drop_dupes_kept:
  "rt_par (drop_dupes env fl path s) = rt_par s" "some_dropped (fu_files (rt_fc s)) (fu_files (rt_fc (drop_dupes env fl path s)))"
  "nn_midinfo (rt_nntp (drop_dupes env fl path s)) = nn_midinfo (rt_nntp s)"
  "nn_files (rt_nntp (drop_dupes env fl path s)) = nn_files (rt_nntp s)"
  by (auto simp: drop_dupes_def Let_def some_dropped_def split: list.split)

text \<open>The posting was given to the decoder, and the decoder found nothing wrong.\<close>

definition decoded :: "'u retr_env \<Rightarrow> retr_options \<Rightarrow> nntp_file \<Rightarrow> bool" where
  "decoded env opts f \<longleftrightarrow>
     (\<exists>fr names t t' fl. fr_file fr = f \<and> decode (re_decode env) (ro_decode opts) names fr [] t = (Inr 0, t', fl))"

definition is_recorded :: "retrieving \<Rightarrow> string \<Rightarrow> bool" where
  "is_recorded s mid \<longleftrightarrow> (case nn_midinfo (rt_nntp s) of Some mm \<Rightarrow> mmi_check mm mid | None \<Rightarrow> False)"

definition records_only :: "'u retr_env \<Rightarrow> retr_options \<Rightarrow> retrieving \<Rightarrow> retrieving \<Rightarrow> bool" where
  "records_only env opts s s' \<longleftrightarrow>
     (\<forall>mid. is_recorded s' mid \<longrightarrow> is_recorded s mid \<or> (\<exists>f. bamid f = mid \<and> decoded env opts f \<and> \<not> keeps_temp opts))"

lemma set_smap_put_sub: "set (smap_put m k v) \<subseteq> insert (k, v) (set m)"
  by (induction m k v rule: smap_put.induct) auto

lemma mi_insert_check:
  assumes "mi_check (mi_insert now m a) x"
  shows "mi_check m x \<or> x = a"
proof -
  have k: "mi_check n x \<longleftrightarrow> x \<in> fst ` set (states n)" for n by (simp add: mi_check_def map_of_eq_None_iff)
  have "set (states (mi_insert now m a)) \<subseteq> insert (a, \<lparr>date_added = now, date_removed = TIME_T_MAX1\<rparr>) (set (states m))"
    using set_smap_put_sub [of "states m" a "\<lparr>date_added = now, date_removed = TIME_T_MAX1\<rparr>"]
    by (auto simp: mi_insert_def smap_insert_def)
  then show ?thesis using assms unfolding k by auto
qed

lemma mmi_insert_group_check: "mmi_check (mmi_insert_group now a mm g) x \<Longrightarrow> mmi_check mm x \<or> x = a"
proof (cases "map_of mm g")
  case (Some m)
  assume "mmi_check (mmi_insert_group now a mm g) x"
  then obtain q n where q: "(q, n) \<in> set (smap_put mm g (mi_insert now m a))" "mi_check n x"
    using Some by (auto simp: mmi_check_def mmi_insert_group_def list_ex_iff)
  then show ?thesis
    using set_smap_put_sub [of mm g "mi_insert now m a"] mi_insert_check [of now m a x] map_of_SomeD [OF Some]
    by (auto simp: mmi_check_def list_ex_iff)
qed (simp add: mmi_insert_group_def)

lemma mmi_insert_check: "mmi_check (mmi_insert now a gs mm) x \<Longrightarrow> mmi_check mm x \<or> x = a"
  unfolding mmi_insert_def
proof (induction gs arbitrary: mm)
  case (Cons g gs)
  then show ?case using mmi_insert_group_check [of now a mm g x] by auto
qed simp

lemma record_fetched_recorded:
  "is_recorded (on_nntp (record_fetched env f) s) mid \<Longrightarrow> is_recorded s mid \<or> mid = bamid f"
  using mmi_insert_check by (auto simp: is_recorded_def record_fetched_def split: option.splits)

lemma is_recorded_midinfo: "nn_midinfo (rt_nntp s') = nn_midinfo (rt_nntp s) \<Longrightarrow> is_recorded s' = is_recorded s"
  by (simp add: is_recorded_def fun_eq_iff)

lemma records_only_refl: "records_only env opts s s"
  by (simp add: records_only_def)

lemma records_only_trans: "records_only env opts s s' \<Longrightarrow> records_only env opts s' s'' \<Longrightarrow> records_only env opts s s''"
  unfolding records_only_def by blast

lemma records_only_midinfo: "nn_midinfo (rt_nntp s') = nn_midinfo (rt_nntp s) \<Longrightarrow> records_only env opts s s'"
  using is_recorded_midinfo [of s' s] by (simp add: records_only_def)

lemma finish_file_kept:
  assumes "finish_file env opts fr fnbuf s = (r, s')"
  shows "rt_par s' = rt_par s \<and> some_dropped (fu_files (rt_fc s)) (fu_files (rt_fc s')) \<and> records_only env opts s s'"
proof (cases fnbuf)
  case None
  then show ?thesis using assms records_only_refl by (auto simp: finish_file_def)
next
  case (Some names)
  show ?thesis
  proof (cases "keeps_temp opts")
    case True
    then have "s' = on_nntp (\<lambda>n. n\<lparr>nn_status := set_ok_status ST_total 1 (nn_status n)\<rparr>) s"
      using assms Some by (simp add: finish_file_def)
    then show ?thesis using records_only_midinfo [where s = s and s' = s' and env = env and opts = opts] by auto
  next
    case False
    obtain x t fl where d: "decode (re_decode env) (ro_decode opts) names fr [] (text_state_of s) = (x, t, fl)"
      by (cases "decode (re_decode env) (ro_decode opts) names fr [] (text_state_of s)")
    let ?s1 = "put_text_state t s"
    let ?s2 = "on_nntp (record_fetched env (fr_file fr)) ?s1"
    have m1: "records_only env opts s ?s1" by (rule records_only_midinfo) simp
    consider "s' = ?s1" | "x = Inr 0" "s' = ?s2" | "x = Inr 0" "s' = drop_dupes env fl (fr_path fr) ?s2"
      using assms Some False d by (cases x) (auto simp: finish_file_def Let_def split: if_splits)
    then show ?thesis
    proof cases
      case 1
      then show ?thesis using m1 by auto
    next
      case 2
      then have "decoded env opts (fr_file fr)" using d unfolding decoded_def by blast
      then have "records_only env opts ?s1 ?s2"
        using record_fetched_recorded [of env "fr_file fr" ?s1] False unfolding records_only_def by blast
      then show ?thesis using 2 m1 records_only_trans by auto
    next
      case 3
      then have "decoded env opts (fr_file fr)" using d unfolding decoded_def by blast
      then have "records_only env opts ?s1 ?s2"
        using record_fetched_recorded [of env "fr_file fr" ?s1] False unfolding records_only_def by blast
      moreover have "records_only env opts ?s2 s'" unfolding 3 by (rule records_only_midinfo) (simp add: drop_dupes_kept)
      ultimately have "records_only env opts s s'" using m1 records_only_trans by blast
      moreover have "rt_par s' = rt_par s" "some_dropped (fu_files (rt_fc s)) (fu_files (rt_fc s'))"
        using drop_dupes_kept [where env = env and fl = fl and path = "fr_path fr" and s = ?s2] by (simp_all add: 3)
      ultimately show ?thesis by blast
    qed
  qed
qed

lemma retrieve_file_kept:
  assumes "retrieve_file env opts fr s = (r, s')"
  shows "rt_par s' = rt_par s \<and> some_dropped (fu_files (rt_fc s)) (fu_files (rt_fc s')) \<and> records_only env opts s s'"
proof -
  let ?s1 = "s\<lparr>rt_out := rt_out s @ ''Retrieving: '' @
                   print_nntp_file_info env (the_config (rt_nntp s)) (fr_file fr) (ro_retr_show_multi opts)\<rparr>"
  obtain x n where f: "fetch_parts env opts fr [] (parts (fr_file fr)) (rt_nntp ?s1) = (x, n)"
    by (cases "fetch_parts env opts fr [] (parts (fr_file fr)) (rt_nntp ?s1)")
  let ?s2 = "?s1\<lparr>rt_nntp := n\<rparr>"
  have m: "records_only env opts s ?s2" by (rule records_only_midinfo) (use fetch_parts_kept [OF f] in simp)
  show ?thesis
  proof (cases x)
    case (Inl e)
    then have "s' = ?s2" using assms f by (simp add: retrieve_file_def Let_def)
    then show ?thesis using m by auto
  next
    case (Inr fnbuf)
    then have "finish_file env opts fr fnbuf ?s2 = (r, s')" using assms f by (simp add: retrieve_file_def Let_def)
    note k = finish_file_kept [OF this]
    show ?thesis using k m records_only_trans by auto
  qed
qed

section \<open>The retrieval ends\<close>

lemma put_par_fields [simp]:
  "rt_par (put_par r s) = fst r" "rt_fc (put_par r s) = snd r" "nn_midinfo (rt_nntp (put_par r s)) = nn_midinfo (rt_nntp s)"
  by (simp_all add: put_par_def split: prod.split)

lemma erase_fields [simp]:
  "rt_par (erase_current s) = rt_par s" "rt_nntp (erase_current s) = rt_nntp s"
  "fu_files (rt_fc (erase_current s)) = tl (fu_files (rt_fc s))"
  by (simp_all add: erase_current_def)

lemma autopar_result:
  assumes "autopar env opts path s = (r, s')"
  shows "s' = s \<or> (\<exists>p. maybe_get_pxxs (par_env_now env (rt_nntp s)) path (rt_par s) (rt_fc s) = Some p \<and> s' = put_par p s)"
  using assms by (auto simp: autopar_def split: if_splits option.splits)

text \<open>First the postings that are held back, then the files that are left.\<close>

definition progress :: "(retrieving \<times> retrieving) set" where
  "progress = measures [\<lambda>s. held (rt_par s), \<lambda>s. length (fu_files (rt_fc s))]"

lemma wf_progress: "wf progress"
  by (simp add: progress_def)

lemma retrieve_step_progress:
  assumes "retrieve_step env opts s = (Inr u, s')" "fu_files (rt_fc s) \<noteq> []" "handler_ok (rt_par s)"
  shows "(s', s) \<in> progress \<and> handler_ok (rt_par s')"
proof -
  let ?fr = "snd (hd (fu_files (rt_fc s)))"
  obtain u1 s1 where f: "retrieve_file env opts ?fr s = (Inr u1, s1)"
    using assms(1) by (auto simp: retrieve_step_def Let_def split: prod.splits sum.splits)
  then have a: "autopar env opts (fr_path ?fr) (erase_current s1) = (Inr u, s')"
    using assms(1) by (simp add: retrieve_step_def Let_def)
  note k = retrieve_file_kept [OF f]
  have l: "length (fu_files (rt_fc (erase_current s1))) < length (fu_files (rt_fc s))"
    using k assms(2) some_dropped_shorter by simp
  from autopar_result [OF a] show ?thesis
  proof (elim disjE exE conjE)
    show ?thesis if "s' = erase_current s1" using that k l assms(3) by (simp add: progress_def)
  next
    fix p assume p: "maybe_get_pxxs (par_env_now env (rt_nntp (erase_current s1))) (fr_path ?fr) (rt_par (erase_current s1))
        (rt_fc (erase_current s1)) = Some p" "s' = put_par p (erase_current s1)"
    obtain ph fc where q: "p = (ph, fc)" by (cases p)
    have m: "moves (held (rt_par s), rt_fc (erase_current s1)) (held ph, fc) \<and> handler_ok ph"
      using maybe_get_pxxs_moves [OF p(1) [unfolded q]] k assms(3) by simp
    then show ?thesis using l by (auto simp: p(2) q progress_def moves_def)
  qed
qed

lemma retrieve_loop_ends:
  "handler_ok (rt_par s) \<Longrightarrow>
     \<exists>r s'. retrieve_loop env opts s = Some (r, s') \<and> (r = Inr () \<longrightarrow> fu_files (rt_fc s') = [])"
proof (induction s rule: wf_induct_rule [OF wf_progress])
  case (1 s)
  show ?case
  proof (cases "fu_files (rt_fc s) = []")
    case True
    then show ?thesis by (subst retrieve_loop.simps) simp
  next
    case False
    obtain r s' where st: "retrieve_step env opts s = (r, s')" by (cases "retrieve_step env opts s")
    show ?thesis
    proof (cases r)
      case (Inl e)
      then show ?thesis using False st by (subst retrieve_loop.simps) simp
    next
      case (Inr u)
      note p = retrieve_step_progress [OF st [unfolded Inr] False "1.prems"]
      have "retrieve_loop env opts s = retrieve_loop env opts s'"
        using False st Inr by (subst retrieve_loop.simps) simp
      then show ?thesis using "1.IH" p by simp
    qed
  qed
qed

lemma doretrieve_ends:
  assumes "handler_ok (rt_par s)"
  shows "\<exists>r s'. nntp_doretrieve env opts s = Some (r, s')"
proof -
  define s1 where "s1 = (if autopar_disabling opts then Some s
      else map_option (\<lambda>r. put_par r s) (get_initial_pars (par_env_now env (rt_nntp s)) (rt_par s) (rt_fc s)))"
  show ?thesis
  proof (cases s1)
    case None
    then show ?thesis unfolding nntp_doretrieve_def s1_def [symmetric] by simp
  next
    case (Some s2)
    have "handler_ok (rt_par s2)"
      using Some assms get_initial_pars_moves [of "par_env_now env (rt_nntp s)" "rt_par s" "rt_fc s"]
      by (auto simp: s1_def split: if_splits)
    then obtain r s3 where l: "retrieve_loop env opts s2 = Some (r, s3)" using retrieve_loop_ends by blast
    show ?thesis unfolding nntp_doretrieve_def s1_def [symmetric] Some using l by (cases r) auto
  qed
qed

section \<open>The handler while files are chosen\<close>

lemma cache_getfile_par:
  assumes add: "\<And>f p t w ph. P ph \<Longrightarrow> P (snd (add f p t w ph))"
  shows "P (gs_par st) \<Longrightarrow> P (gs_par (cache_getfile nconfig trust rx add now infos f st))"
proof (induction infos arbitrary: st)
  case (Cons info infos)
  show ?case
  proof (cases "getfile_wants nconfig trust (gs_midinfo st) info f")
    case True
    obtain taken par' where a: "(if autopar_disabled info then (False, gs_par st)
        else add f (gi_path info) (gi_temppath info) (gi_getincomplete info) (gs_par st)) = (taken, par')"
      by (cases "if autopar_disabled info then (False, gs_par st)
        else add f (gi_path info) (gi_temppath info) (gi_getincomplete info) (gs_par st)")
    have p: "P par'" using a add [OF Cons.prems, of f "gi_path info" "gi_temppath info" "gi_getincomplete info"] Cons.prems
      by (auto split: if_splits)
    show ?thesis
      unfolding cache_getfile.simps(2) if_P [OF True] a prod.case Let_def using Cons.IH p by simp
  qed (use Cons in simp)
qed simp

lemma getfiles_par:
  assumes "\<And>f p t w ph. P ph \<Longrightarrow> P (snd (add f p t w ph))" "P (gs_par st)"
  shows "P (gs_par (getfiles nconfig trust rx add now infos c st))"
proof -
  have "P (gs_par (foldl (\<lambda>st (k, f). cache_getfile nconfig trust rx add now infos f st) st es))" if "P (gs_par st)" for es st
    using that
  proof (induction es arbitrary: st)
    case (Cons e es)
    then show ?case using cache_getfile_par [where P = P and add = add, OF assms(1)] by (cases e) simp
  qed simp
  then show ?thesis using assms(2) by (simp add: getfiles_def)
qed

lemma getfiles_loop_par:
  assumes "\<And>f st. P (gs_par st) \<Longrightarrow> P (gs_par (getfile f st))"
  shows "P (gs_par st) \<Longrightarrow> P (gs_par (snd (getfiles_loop nconfig now getfile r st)))"
  using assms
proof (induction nconfig now getfile r st rule: getfiles_loop.induct)
  case (1 nconfig now getfile r st)
  obtain x r' mm where f: "read_file nconfig now r (gs_midinfo st) = (x, r', mm)" by (cases "read_file nconfig now r (gs_midinfo st)")
  show ?case
  proof (cases "\<exists>f. x = Inr (Some f)")
    case True
    then obtain g where g: "x = Inr (Some g)" by blast
    have "P (gs_par (getfile g (st\<lparr>gs_midinfo := mm\<rparr>)))" using "1.prems" by simp
    then have "P (gs_par (snd (getfiles_loop nconfig now getfile r' (getfile g (st\<lparr>gs_midinfo := mm\<rparr>)))))"
      using "1.IH" [OF f [symmetric] g refl refl] "1.prems"(2) by blast
    then show ?thesis using f g by (simp add: getfiles_loop.simps [of nconfig now getfile r st])
  next
    case False
    then show ?thesis using f "1.prems"(1)
      by (auto simp: getfiles_loop.simps [of nconfig now getfile r st] split: sum.split option.split)
  qed
qed

lemma getfiles_merge_par:
  assumes "\<And>f st. P (gs_par st) \<Longrightarrow> P (gs_par (getfile f st))"
  shows "P (gs_par st) \<Longrightarrow> P (gs_par (snd (getfiles_merge nconfig now getfile es w st)))"
  using assms
proof (induction nconfig now getfile es w st rule: getfiles_merge.induct)
  case (1 nconfig now getfile es w st)
  show ?case
  proof (cases "es = []")
    case True
    then show ?thesis using "1.prems"(1) by (subst getfiles_merge.simps) simp
  next
    case False
    let ?m = "min_element es"
    obtain es' mf w' mm' where m: "merge_pass nconfig now (Some ?m) es (fst (es ! ?m)) (w, gs_midinfo st) = (es', mf, w', mm')"
      by (cases "merge_pass nconfig now (Some ?m) es (fst (es ! ?m)) (w, gs_midinfo st)")
    have "P (gs_par (getfile mf (st\<lparr>gs_midinfo := mm'\<rparr>)))" using "1.prems" by simp
    then have "P (gs_par (snd (getfiles_merge nconfig now getfile es' w' (getfile mf (st\<lparr>gs_midinfo := mm'\<rparr>)))))"
      using "1.IH" [OF False refl m [symmetric] refl refl] "1.prems"(2) by blast
    then show ?thesis using m False by (simp add: getfiles_merge.simps [of nconfig now getfile es w st] Let_def)
  qed
qed

lemma handler_add: "handler_ok ph \<Longrightarrow> handler_ok (snd (maybe_add_parfile env f p t w ph))"
  by (rule maybe_add_parfile_ok [OF prod.collapse [symmetric]])

lemmas handler_getfile = cache_getfile_par [where P = handler_ok, OF handler_add]

lemma handler_start: "handler_ok (gs_par (getfile_start s))"
  by (simp add: getfile_start_def handler_ok_def)

lemma start_ends: "handler_ok (gs_par gs) \<Longrightarrow> \<exists>r s'. nntp_doretrieve env opts (start_retrieving s gs out k) = Some (r, s')"
  by (rule doretrieve_ends) (simp add: start_retrieving_def)

lemma handler_cache_getfiles:
  assumes "nntp_cache_getfiles cfg trust rx (maybe_add_parfile env) now path g fs infos (getfile_start s) = (multi, n, gs)"
  shows "handler_ok (gs_par gs)"
proof (cases "fs (cache_filename cfg path g)")
  case None
  then show ?thesis using assms handler_start by (auto simp: nntp_cache_getfiles_def)
next
  case (Some content)
  obtain e r sinfos where n: "reader_new cfg g content = (e, r, sinfos)" by (cases "reader_new cfg g content")
  show ?thesis
  proof (cases e)
    case None
    have "handler_ok (gs_par (snd (getfiles_loop cfg now (cache_getfile cfg trust rx (maybe_add_parfile env) now infos) r (getfile_start s))))"
      by (rule getfiles_loop_par [where P = handler_ok, OF handler_getfile]) (simp_all add: handler_start)
    moreover have "gs = snd (getfiles_loop cfg now (cache_getfile cfg trust rx (maybe_add_parfile env) now infos) r (getfile_start s))"
      using assms Some n None by (simp add: nntp_cache_getfiles_def)
    ultimately show ?thesis by simp
  next
    case (Some err)
    then show ?thesis using assms \<open>fs _ = Some content\<close> n handler_start by (auto simp: nntp_cache_getfiles_def)
  qed
qed

lemma handler_cache_getfiles_groups:
  assumes "nntp_cache_getfiles_groups cfg trust rx (maybe_add_parfile env) now path gs fs infos (getfile_start s) = (multi, n, gs')"
  shows "handler_ok (gs_par gs')"
proof -
  obtain used es w mm where o: "foldl (\<lambda>acc grp. open_reader cfg now path fs grp acc) ({}, [], 0, gs_midinfo (getfile_start s)) gs = (used, es, w, mm)"
    by (metis prod_cases4)
  have "handler_ok (gs_par (snd (getfiles_merge cfg now (cache_getfile cfg trust rx (maybe_add_parfile env) now infos) es w
      ((getfile_start s)\<lparr>gs_midinfo := mm\<rparr>))))"
    by (rule getfiles_merge_par [where P = handler_ok, OF handler_getfile]) (simp_all add: handler_start)
  moreover have "gs' = snd (getfiles_merge cfg now (cache_getfile cfg trust rx (maybe_add_parfile env) now infos) es w
      ((getfile_start s)\<lparr>gs_midinfo := mm\<rparr>))"
    using assms o by (simp add: nntp_cache_getfiles_groups_def)
  ultimately show ?thesis by simp
qed

section \<open>Recorded and kept\<close>

text \<open>What one step keeps, whatever comes of it, the whole loop keeps.\<close>

locale retrieval_keeps =
  fixes env :: "'u retr_env" and opts :: retr_options and R :: "retrieving \<Rightarrow> retrieving \<Rightarrow> bool"
  assumes keeps_refl: "R s s" and keeps_trans: "R s s' \<Longrightarrow> R s' s'' \<Longrightarrow> R s s''"
    and keeps_step: "retrieve_step env opts s = (r, s') \<Longrightarrow> R s s'"
begin

lemma loop_keeps:
  assumes "retrieve_loop env opts s = Some q"
  shows "R s (snd q)"
proof -
  have "env' = env \<longrightarrow> opts' = opts \<longrightarrow> R s' (snd q')" if "retrieve_loop env' opts' s' = Some q'"
    for env' :: "'u retr_env" and opts' s' q'
  proof (rule retrieve_loop.raw_induct [OF _ that, of "\<lambda>env' opts' s' q'. env' = env \<longrightarrow> opts' = opts \<longrightarrow> R s' (snd q')"], intro impI)
    fix loop env' opts' s' q'
    assume IH: "\<And>env' opts' s' q'. loop env' opts' s' = Some q' \<Longrightarrow> env' = env \<longrightarrow> opts' = opts \<longrightarrow> R s' (snd q')"
      and e: "(if fu_files (rt_fc s') = [] then Some (Inr (), s')
      else (case retrieve_step env' opts' s' of
              (r, s'') \<Rightarrow> (case r of Inl e \<Rightarrow> Some (Inl e, s'') | Inr u \<Rightarrow> loop env' opts' s''))) = Some q'"
      and eqs: "env' = env" "opts' = opts"
    show "R s' (snd q')"
    proof (cases "fu_files (rt_fc s') = []")
      case True
      then show ?thesis using e keeps_refl by auto
    next
      case False
      obtain r s1 where st: "retrieve_step env opts s' = (r, s1)" by (cases "retrieve_step env opts s'")
      note k = keeps_step [OF st]
      show ?thesis
      proof (cases r)
        case (Inl x)
        then show ?thesis using e False st k eqs by auto
      next
        case (Inr u)
        then have "loop env opts s1 = Some q'" using e False st eqs by simp
        then show ?thesis using IH [of env opts s1 q'] k keeps_trans by blast
      qed
    qed
  qed
  then show ?thesis using assms by blast
qed

end

interpretation recording: retrieval_keeps env opts "records_only env opts" for env :: "'u retr_env" and opts
proof unfold_locales
  show "records_only env opts s s" for s by (rule records_only_refl)
  show "records_only env opts s s''" if "records_only env opts s s'" "records_only env opts s' s''" for s s' s''
    using that by (rule records_only_trans)
  fix s r s' assume st: "retrieve_step env opts s = (r, s')"
  obtain x s1 where f: "retrieve_file env opts (snd (hd (fu_files (rt_fc s)))) s = (x, s1)"
    by (cases "retrieve_file env opts (snd (hd (fu_files (rt_fc s)))) s")
  note k = retrieve_file_kept [OF f]
  show "records_only env opts s s'"
  proof (cases x)
    case (Inl e)
    then show ?thesis using st f k by (simp add: retrieve_step_def Let_def)
  next
    case (Inr u)
    then have "autopar env opts (fr_path (snd (hd (fu_files (rt_fc s))))) (erase_current s1) = (r, s')"
      using st f by (simp add: retrieve_step_def Let_def)
    from autopar_result [OF this] have "nn_midinfo (rt_nntp s') = nn_midinfo (rt_nntp s1)" by auto
    then show ?thesis using k records_only_trans records_only_midinfo by blast
  qed
qed

lemma text_state_fields [simp]: "tw_files (text_state_of s) = nn_files (rt_nntp s)"
  by (simp add: text_state_of_def)

section \<open>Properties\<close>




lemma smap_put_in: "(k, v) \<in> set (smap_put m k v)"
  by (induction m k v rule: smap_put.induct) auto

lemma smap_put_key: "k \<in> fst ` set (smap_put m k v)"
  using smap_put_in [of k v m] by (rule rev_image_eqI) simp

lemma smap_put_keys_mono: "x \<in> fst ` set m \<Longrightarrow> x \<in> fst ` set (smap_put m k v)"
  by (induction m k v rule: smap_put.induct) auto

lemma smap_put_others: "(q, n) \<in> set m \<Longrightarrow> (q, n) \<in> set (smap_put m k v) \<or> (q = k \<and> map_of m k = Some n)"
  by (induction m k v rule: smap_put.induct) auto

lemma mi_insert_checked: "mi_check (mi_insert now m a) a" "mi_check m x \<Longrightarrow> mi_check (mi_insert now m a) x"
proof -
  have k: "mi_check n y \<longleftrightarrow> y \<in> fst ` set (states n)" for n y by (simp add: mi_check_def map_of_eq_None_iff)
  show "mi_check (mi_insert now m a) a"
  proof (cases "mi_check m a")
    case False
    then have "states (mi_insert now m a) = smap_put (states m) a \<lparr>date_added = now, date_removed = TIME_T_MAX1\<rparr>"
      by (simp add: mi_insert_def smap_insert_def mi_check_def)
    then show ?thesis unfolding k by (simp add: smap_put_key)
  qed (simp add: mi_insert_def)
  show "mi_check (mi_insert now m a) x" if c: "mi_check m x"
  proof (cases "mi_check m a")
    case False
    then have s: "states (mi_insert now m a) = smap_put (states m) a \<lparr>date_added = now, date_removed = TIME_T_MAX1\<rparr>"
      by (simp add: mi_insert_def smap_insert_def mi_check_def)
    have "x \<in> fst ` set (states m)" using c by (simp only: k)
    then show ?thesis unfolding k s by (rule smap_put_keys_mono)
  qed (simp add: mi_insert_def c)
qed

lemma mmi_insert_group_mono: "mmi_check mm x \<Longrightarrow> mmi_check (mmi_insert_group now a mm g) x"
proof (cases "map_of mm g")
  case (Some m)
  assume "mmi_check mm x"
  then obtain q n where q: "(q, n) \<in> set mm" "mi_check n x" by (auto simp: mmi_check_def list_ex_iff)
  have "(q, n) \<in> set (smap_put mm g (mi_insert now m a)) \<or> n = m" using smap_put_others [OF q(1), of g] Some by auto
  then show ?thesis
    using q(2) mi_insert_checked(2) [of m x now a] smap_put_in [of g "mi_insert now m a" mm] Some
    by (auto simp: mmi_check_def list_ex_iff mmi_insert_group_def)
qed (simp add: mmi_insert_group_def)

lemma mmi_insert_group_keys: "map_of mm g \<noteq> None \<Longrightarrow> map_of (mmi_insert_group now a mm h) g \<noteq> None"
proof -
  assume "map_of mm g \<noteq> None"
  then have g: "g \<in> fst ` set mm" by (simp add: map_of_eq_None_iff)
  then have "g \<in> fst ` set (mmi_insert_group now a mm h)"
    by (cases "map_of mm h") (simp_all add: mmi_insert_group_def smap_put_keys_mono)
  then show ?thesis by (simp add: map_of_eq_None_iff)
qed

lemma mmi_insert_group_checked: "map_of mm g \<noteq> None \<Longrightarrow> mmi_check (mmi_insert_group now a mm g) a"
  using smap_put_in [of g _ mm] mi_insert_checked(1) by (fastforce simp: mmi_insert_group_def mmi_check_def list_ex_iff)

lemma mmi_insert_mono: "mmi_check mm x \<Longrightarrow> mmi_check (foldl (mmi_insert_group now a) mm gs) x"
  by (induction gs arbitrary: mm) (simp_all add: mmi_insert_group_mono)

lemma mmi_insert_checked: "map_of mm g \<noteq> None \<Longrightarrow> g \<in> set gs \<Longrightarrow> mmi_check (mmi_insert now a gs mm) a"
  unfolding mmi_insert_def
proof (induction gs arbitrary: mm)
  case (Cons h gs)
  show ?case
  proof (cases "h = g")
    case True
    then show ?thesis using mmi_insert_mono [OF mmi_insert_group_checked [OF Cons.prems(1)]] by simp
  next
    case False
    then show ?thesis using Cons mmi_insert_group_keys [of mm g now a h] by simp
  qed
qed simp

lemma fetch_parts_none:
  assumes "ro_getincomplete opts" "ro_noconnect opts" "ro_writelite opts = []"
  shows "\<forall>p \<in> set ps. nn_files s (temp_name env opts fr p) = None \<Longrightarrow> fetch_parts env opts fr fnbuf ps s = (Inr (Some fnbuf), s)"
  by (induction ps) (use assms in \<open>simp_all add: fetch_part_def file_exists_def no_article_def Let_def\<close>)

lemma unfetched_result:
  assumes "ro_getincomplete opts" "ro_noconnect opts" "\<not> keeps_temp opts"
    and "\<forall>p \<in> set (parts (fr_file fr)). nn_files (rt_nntp s) (temp_name env opts fr p) = None"
    and "nn_midinfo (rt_nntp s) = Some mm" "map_of mm g \<noteq> None" "g \<in> set (first_part_groups (the_config (rt_nntp s)) (fr_file fr))"
  shows "\<exists>s'. retrieve_file env opts fr s = (Inr (), s') \<and> is_recorded s' (bamid (fr_file fr)) \<and>
    nn_files (rt_nntp s') = nn_files (rt_nntp s) \<and> rt_fc s' = rt_fc s"
proof -
  let ?s1 = "s\<lparr>rt_out := rt_out s @ ''Retrieving: '' @
                   print_nntp_file_info env (the_config (rt_nntp s)) (fr_file fr) (ro_retr_show_multi opts)\<rparr>"
  have w: "ro_writelite opts = []" using assms(3) by (simp add: keeps_temp_def)
  have "fetch_parts env opts fr [] (parts (fr_file fr)) (rt_nntp ?s1) = (Inr (Some []), rt_nntp ?s1)"
    using fetch_parts_none [OF assms(1,2) w] assms(4) by simp
  then have r: "retrieve_file env opts fr s = finish_file env opts fr (Some []) ?s1"
    by (simp add: retrieve_file_def Let_def)
  let ?s2 = "on_nntp (record_fetched env (fr_file fr)) (put_text_state (text_state_of ?s1) ?s1)"
  have f: "finish_file env opts fr (Some []) ?s1 = (Inr (), ?s2)" using assms(3) by (simp add: finish_file_def decode_def)
  have c: "the_config (rt_nntp (put_text_state (text_state_of ?s1) ?s1)) = the_config (rt_nntp s)"
    by (simp add: the_config_def put_text_state_def)
  have "nn_midinfo (rt_nntp ?s2) = Some (mmi_insert (re_now env) (bamid (fr_file fr))
      (first_part_groups (the_config (rt_nntp s)) (fr_file fr)) mm)"
    using assms(5) c by (simp add: record_fetched_def)
  then have "is_recorded ?s2 (bamid (fr_file fr))" using mmi_insert_checked [OF assms(6,7)] by (simp add: is_recorded_def)
  moreover have "nn_files (rt_nntp ?s2) = nn_files (rt_nntp s)" by (simp add: record_fetched_def)
  moreover have "rt_fc ?s2 = rt_fc s" by simp
  ultimately show ?thesis using r f by auto
qed


section \<open>Examples\<close>

definition example_retr_env :: "string retr_env" where
  "example_retr_env =
     \<lparr>re_world = dead_world, re_rend_key = 0, re_checksum = (\<lambda>_. 5), re_now = 100, re_tconv = (\<lambda>_. ''t''),
      re_par = example_env, re_pardir = (\<lambda>_ _. []), re_decode = example_decode_env\<rparr>"

definition example_retr_options :: retr_options where
  "example_retr_options =
     \<lparr>ro_nntp = example_options, ro_decode = example_decode_options, ro_getincomplete = True, ro_noautopar = True,
      ro_nodecode = False, ro_tempshortnames = False, ro_noconnect = True, ro_testmode = False, ro_mark = False,
      ro_unmark = False, ro_writelite = [], ro_test_multi = NO_SHOW_MULTI, ro_retr_show_multi = NO_SHOW_MULTI\<rparr>"

definition example_retrieving :: retrieving where
  "example_retrieving =
     \<lparr>rt_nntp = example_nntp\<lparr>nn_midinfo := Some [(''a.b'', example_mid_info ''m'' 3)], nn_files := [''/d/x'' \<mapsto> ''old'']\<rparr>,
      rt_fc = \<lparr>fu_bytes = 30, fu_lines = 2, fu_files = [(5, example_retr)]\<rparr>, rt_par = [], rt_rands = 0, rt_out = []\<rparr>"

lemma example_temp: "temp_name example_retr_env example_retr_options example_retr p \<noteq> ''/d/x''"
  by (simp add: temp_name_def example_retr_options_def example_retr_def)

lemma example_unfetched:
  "\<exists>s'. retrieve_file example_retr_env example_retr_options example_retr example_retrieving = (Inr (), s') \<and>
     is_recorded s' ''<1@x>'' \<and> nn_files (rt_nntp s') = nn_files (rt_nntp example_retrieving) \<and> rt_fc s' = rt_fc example_retrieving"
  using unfetched_result [of example_retr_options example_retr example_retrieving example_retr_env "[(''a.b'', example_mid_info ''m'' 3)]" "''a.b''"]
  by (simp add: example_retr_options_def keeps_temp_def example_retrieving_def example_nntp_def first_part_groups_def
      example_retr_def temp_name_def example_part_def the_config_def bamid_def)


lemma example_loop:
  "\<exists>r s'. retrieve_loop example_retr_env example_retr_options example_retrieving = Some (r, s') \<and> is_recorded s' ''<1@x>''"
proof -
  obtain s1 where s1: "retrieve_file example_retr_env example_retr_options example_retr example_retrieving = (Inr (), s1)"
    "is_recorded s1 ''<1@x>''" "rt_fc s1 = rt_fc example_retrieving" using example_unfetched by blast
  have h: "fu_files (rt_fc example_retrieving) = [(5, example_retr)]" by (simp add: example_retrieving_def)
  have "retrieve_step example_retr_env example_retr_options example_retrieving = (Inr (), erase_current s1)"
    using s1(1) by (simp add: retrieve_step_def h autopar_def autopar_disabling_def example_retr_options_def)
  moreover have "fu_files (rt_fc (erase_current s1)) = []" using s1(3) h by (simp add: erase_current_def)
  moreover have "is_recorded (erase_current s1) ''<1@x>''" using s1(2) by (simp add: is_recorded_def erase_current_def)
  ultimately show ?thesis using h by (subst retrieve_loop.simps, simp, subst retrieve_loop.simps, simp)
qed



end
