(* ===== verification/Config.thy ===== *)
theory Config
  imports Status CacheIO "HOL-Library.State_Monad"
begin

text \<open>
  The configuration file (\<open>cfgfile.h\<close>, \<open>cfgfile.cc\<close>) and the configuration that is made from it
  (\<open>c_server::c_server\<close> and \<open>c_nget_config::setlist\<close> in \<open>server.cc\<close>). A file is a tree of sections with items;
  the mutable flags \<open>used\<close> of sections and items are a set of paths in the state of a state monad, which
  also counts the user errors. The texts of the messages are left out. The lemmas: a printed tree is loaded
  back, whatever the file says the configuration made from it is well-formed, and every setting whose name
  the program does not know is reported.
\<close>

section \<open>Sections and items\<close>

datatype cfg_section =
  Cfg_section (cs_items: "(string \<times> string) list") (cs_sections: "(string \<times> cfg_section) list")

definition cs_new :: cfg_section where
  "cs_new = Cfg_section [] []"

text \<open>An item or a section of the same name is replaced.\<close>

definition put_item :: "string \<Rightarrow> string \<Rightarrow> cfg_section \<Rightarrow> cfg_section" where
  "put_item k v sec = Cfg_section (smap_put (cs_items sec) k v) (cs_sections sec)"

definition put_section :: "string \<Rightarrow> cfg_section \<Rightarrow> cfg_section \<Rightarrow> cfg_section" where
  "put_section k s sec = Cfg_section (cs_items sec) (smap_put (cs_sections sec) k s)"

definition cfg_skip :: "string \<Rightarrow> string" where
  "cfg_skip l = dropWhile (\<lambda>c. c = CHR '' '' \<or> c = CHR 0x09) (cstr l)"

text \<open>What a line is: nothing or a comment, the end of a section, the begin of one, an item, or not valid.\<close>

datatype cfg_line = Line_ignored | Line_close | Line_open string | Line_item string string | Line_invalid

definition classify :: "string \<Rightarrow> cfg_line" where
  "classify l =
     (case cfg_skip l of
        [] \<Rightarrow> Line_ignored
      | c # b \<Rightarrow>
          if c = CHR ''}'' then Line_close
          else if c = CHR ''{'' then Line_open b
          else if c = CHR ''#'' \<or> take 2 (c # b) = ''//'' then Line_ignored
          else if CHR ''='' \<in> set (c # b)
          then Line_item (takeWhile (\<lambda>x. x \<noteq> CHR ''='') (c # b)) (tl (dropWhile (\<lambda>x. x \<noteq> CHR ''='') (c # b)))
          else Line_invalid)"

text \<open>Loading a section: the section, what is left of the file, the level of the braces and the number of
  user errors.\<close>

function cfg_load :: "string \<Rightarrow> cfg_section \<Rightarrow> int \<Rightarrow> cfg_section \<times> string \<times> int \<times> nat" where
  "cfg_load content sec level =
     (case s_gets content of
        (n, l, rest) \<Rightarrow>
          if n = 0 then (sec, [], level, 0)
          else
            (case classify l of
               Line_ignored \<Rightarrow> cfg_load rest sec level
             | Line_close \<Rightarrow> (sec, rest, level - 1, 0)
             | Line_open b \<Rightarrow>
                 (case cfg_load rest cs_new (level + 1) of
                    (s, rest1, level1, e1) \<Rightarrow>
                      (case cfg_load rest1 (put_section b s sec) level1 of
                         (sec', rest', level', e') \<Rightarrow>
                           (sec', rest', level', e1 + (if map_of (cs_sections sec) b \<noteq> None then 1 else 0) + e')))
             | Line_item k v \<Rightarrow>
                 (case cfg_load rest (put_item k v sec) level of
                    (sec', rest', level', e') \<Rightarrow>
                      (sec', rest', level', (if map_of (cs_items sec) k \<noteq> None then 1 else 0) + e'))
             | Line_invalid \<Rightarrow>
                 (case cfg_load rest sec level of (sec', rest', level', e') \<Rightarrow> (sec', rest', level', Suc e'))))"
  by pat_completeness auto

lemma s_gets_less: "s_gets s = (n, l, rest) \<Longrightarrow> n \<noteq> 0 \<Longrightarrow> length rest < length s"
  using s_gets_shorter [of s n l rest] by (cases "s = []") auto

text \<open>What is left of the file gets shorter, so loading ends.\<close>

lemma cfg_load_rest:
  "cfg_load_dom (content, sec, level) \<Longrightarrow> length (fst (snd (cfg_load content sec level))) \<le> length content"
proof (induction content sec level rule: cfg_load.pinduct)
  case (1 content sec level)
  obtain n l rest where g: "s_gets content = (n, l, rest)" by (cases "s_gets content")
  note eq = cfg_load.psimps [OF 1(1), unfolded g prod.case]
  show ?case
  proof (cases "n = 0")
    case True
    then show ?thesis by (simp add: eq)
  next
    case False
    have r: "length rest < length content" using s_gets_less [OF g False] .
    note IH = 1(2-) [OF g [symmetric] refl False]
    show ?thesis
    proof (cases "classify l")
      case (Line_open b)
      obtain s rest1 level1 e1 where i: "cfg_load rest cs_new (level + 1) = (s, rest1, level1, e1)"
        by (cases "cfg_load rest cs_new (level + 1)")
      have "length rest1 \<le> length rest" using IH(2) [OF Line_open] i by simp
      moreover have "length (fst (snd (cfg_load rest1 (put_section b s sec) level1))) \<le> length rest1"
        using IH(3) [OF Line_open, of s "(rest1, level1, e1)" rest1 "(level1, e1)" level1 e1] i by simp
      ultimately show ?thesis using r i Line_open False
        by (cases "cfg_load rest1 (put_section b s sec) level1") (simp add: eq)
    qed (use IH r False in \<open>simp_all add: eq prod.case_eq_if\<close>)
  qed
qed

lemma cfg_load_less:
  assumes "(n, l, rest) = s_gets content" "0 < n" "(s, rest1, z) = cfg_load rest cs_new i" "cfg_load_dom (rest, cs_new, i)"
  shows "length rest1 < length content"
  using cfg_load_rest [OF assms(4)] s_gets_less [OF assms(1) [symmetric]] assms(2) assms(3) [symmetric] by simp

termination cfg_load
  by (relation "measure (\<lambda>(content, sec, level). length content)")
    (auto dest: s_gets_less [OF sym] intro: cfg_load_less)

declare cfg_load.simps [simp del]

section \<open>Values\<close>

text \<open>Decimal numbers with a point, as rationals: the sign, the digits before and after the point and the rest.
  The hexadecimal numbers, infinities and NaNs that \<open>strtod\<close> also reads are left out.\<close>

definition scan_float :: "string \<Rightarrow> (bool \<times> string \<times> string \<times> string) option" where
  "scan_float s =
     (let s1 = dropWhile is_space s;
          neg = (take 1 s1 = ''-'');
          s2 = (if take 1 s1 = ''-'' \<or> take 1 s1 = ''+'' then tl s1 else s1);
          whole = takeWhile is_digit s2; s3 = dropWhile is_digit s2;
          decimals = (if take 1 s3 = ''.'' then takeWhile is_digit (tl s3) else []);
          rest = (if take 1 s3 = ''.'' then dropWhile is_digit (tl s3) else s3)
      in if whole @ decimals = [] then None else Some (neg, whole, decimals, rest))"

definition scan_exp :: "string \<Rightarrow> (int \<times> string) option" where
  "scan_exp s =
     (let s1 = (if take 1 s = ''-'' \<or> take 1 s = ''+'' then tl s else s); ds = takeWhile is_digit s1
      in if ds = [] then None
         else Some (if take 1 s = ''-'' then - int (dec_val ds) else int (dec_val ds), dropWhile is_digit s1))"

definition ten_power :: "int \<Rightarrow> rat" where
  "ten_power e = (if 0 \<le> e then 10 ^ nat e else 1 / 10 ^ nat (- e))"

definition float_val :: "bool \<Rightarrow> string \<Rightarrow> string \<Rightarrow> int \<Rightarrow> rat" where
  "float_val neg whole decimals e =
     (let v = of_nat (dec_val (whole @ decimals)) * ten_power (e - int (length decimals)) in if neg then - v else v)"

definition FLT_MAX :: rat where
  "FLT_MAX = of_int ((2 ^ 24 - 1) * 2 ^ 104)"

definition is_exp_char :: "string \<Rightarrow> bool" where
  "is_exp_char s \<longleftrightarrow> take 1 s = ''e'' \<or> take 1 s = ''E''"

text \<open>\<open>iss >> v\<close> of a \<open>float\<close>: an exponent without digits and a value out of range set the fail bit.\<close>

definition parsestr_float :: "string \<Rightarrow> parsestr_error + rat" where
  "parsestr_float val =
     (case parsestr_valcheck val True of
        Some e \<Rightarrow> Inl e
      | None \<Rightarrow>
          (case scan_float val of
             None \<Rightarrow> Inl Invalid_value
           | Some (neg, whole, decimals, rest) \<Rightarrow>
               (case (if is_exp_char rest then scan_exp (tl rest) else Some (0, rest)) of
                  None \<Rightarrow> Inl Invalid_value
                | Some (e, rest') \<Rightarrow>
                    (let v = float_val neg whole decimals e
                     in if \<bar>v\<bar> > FLT_MAX then Inl Invalid_value else if rest' \<noteq> [] then Inl Trailing_junk else Inr v))))"

definition parsestr_float_range :: "string \<Rightarrow> rat \<Rightarrow> parsestr_error + rat" where
  "parsestr_float_range val lo =
     (case parsestr_float val of Inl e \<Rightarrow> Inl e | Inr v \<Rightarrow> if v < lo then Inl Not_in_range else Inr v)"

text \<open>\<open>atof\<close> takes the longest prefix that is a number.\<close>

definition atof :: "string \<Rightarrow> rat" where
  "atof s =
     (case scan_float s of
        None \<Rightarrow> 0
      | Some (neg, whole, decimals, rest) \<Rightarrow>
          float_val neg whole decimals
            (case (if is_exp_char rest then scan_exp (tl rest) else None) of Some (e, r) \<Rightarrow> e | None \<Rightarrow> 0))"

text \<open>\<open>iss >> v\<close> of a \<open>bool\<close>: a number that is 0 or 1.\<close>

definition parsestr_bool :: "string \<Rightarrow> parsestr_error + bool" where
  "parsestr_bool val =
     (case parsestr_valcheck val False of
        Some e \<Rightarrow> Inl e
      | None \<Rightarrow>
          (case scan_num val of
             None \<Rightarrow> Inl Invalid_value
           | Some (neg, ds, rest) \<Rightarrow>
               if dec_val ds > 1 then Inl Invalid_value
               else if rest \<noteq> [] then Inl Trailing_junk
               else Inr (dec_val ds = 1)))"

section \<open>Reading settings\<close>

text \<open>What was read, by its path from the root of the file, and the counters.\<close>

datatype cfg_mark = Used_item "string list" | Used_section "string list"

record cfg_state =
  cfg_marks :: "cfg_mark list"
  cfg_status :: status

type_synonym 'a cfg = "(cfg_state, 'a) state"

text \<open>A section with its path.\<close>

type_synonym section_at = "string list \<times> cfg_section"

definition mark_used :: "cfg_mark \<Rightarrow> unit cfg" where
  "mark_used m = State (\<lambda>s. ((), s\<lparr>cfg_marks := m # cfg_marks s\<rparr>))"

definition user_error :: "unit cfg" where
  "user_error = State (\<lambda>s. ((), s\<lparr>cfg_status := set_error_status ST_user 1 (cfg_status s)\<rparr>))"

definition getitem :: "section_at \<Rightarrow> string \<Rightarrow> string option cfg" where
  "getitem sa name = do { mark_used (Used_section (fst sa)); State_Monad.return (map_of (cs_items (snd sa)) name) }"

definition getsection :: "section_at \<Rightarrow> string \<Rightarrow> section_at option cfg" where
  "getsection sa name = do {
     mark_used (Used_section (fst sa));
     State_Monad.return (map_option (\<lambda>s. (fst sa @ [name], s)) (map_of (cs_sections (snd sa)) name)) }"

definition item_gets :: "string list \<Rightarrow> string \<Rightarrow> string cfg" where
  "item_gets path v = do { mark_used (Used_item path); State_Monad.return v }"

text \<open>\<open>None\<close> when the value is not valid.\<close>

definition item_get :: "(string \<Rightarrow> parsestr_error + 'a) \<Rightarrow> string list \<Rightarrow> string \<Rightarrow> 'a option cfg" where
  "item_get parse path v = do {
     mark_used (Used_item path);
     (case parse v of
        Inr x \<Rightarrow> State_Monad.return (Some x)
      | Inl e \<Rightarrow> do { user_error; State_Monad.return None }) }"

definition cfg_gets :: "section_at \<Rightarrow> string \<Rightarrow> string \<Rightarrow> string cfg" where
  "cfg_gets sa name defval = do {
     i \<leftarrow> getitem sa name;
     (case i of None \<Rightarrow> State_Monad.return defval | Some v \<Rightarrow> item_gets (fst sa @ [name]) v) }"

definition cfg_get :: "(string \<Rightarrow> parsestr_error + 'a) \<Rightarrow> section_at \<Rightarrow> string \<Rightarrow> 'a option cfg" where
  "cfg_get parse sa name = do {
     i \<leftarrow> getitem sa name;
     (case i of None \<Rightarrow> State_Monad.return None | Some v \<Rightarrow> item_get parse (fst sa @ [name]) v) }"

definition cfg_getdef :: "(string \<Rightarrow> parsestr_error + 'a) \<Rightarrow> section_at \<Rightarrow> string \<Rightarrow> 'a \<Rightarrow> 'a cfg" where
  "cfg_getdef parse sa name defval = do {
     r \<leftarrow> cfg_get parse sa name;
     State_Monad.return (case r of Some x \<Rightarrow> x | None \<Rightarrow> defval) }"

text \<open>A field of the configuration keeps its value unless a valid one is given.\<close>

definition cfg_field ::
  "(string \<Rightarrow> parsestr_error + 'a) \<Rightarrow> section_at \<Rightarrow> string \<Rightarrow> (('a \<Rightarrow> 'a) \<Rightarrow> 'c \<Rightarrow> 'c) \<Rightarrow> 'c \<Rightarrow> 'c cfg" where
  "cfg_field parse sa name upd c = do {
     r \<leftarrow> cfg_get parse sa name;
     State_Monad.return (case r of Some x \<Rightarrow> upd (\<lambda>_. x) c | None \<Rightarrow> c) }"

fun cfg_fold :: "('x \<Rightarrow> 'c \<Rightarrow> 'c cfg) \<Rightarrow> 'x list \<Rightarrow> 'c \<Rightarrow> 'c cfg" where
  "cfg_fold f [] c = State_Monad.return c"
| "cfg_fold f (x # xs) c = do { c' \<leftarrow> f x c; cfg_fold f xs c' }"

text \<open>What was never read is reported: an item, a section, or what is in a section that was read.\<close>

fun check_unused :: "cfg_mark list \<Rightarrow> string list \<Rightarrow> cfg_section \<Rightarrow> nat"
  and check_sections :: "cfg_mark list \<Rightarrow> string list \<Rightarrow> (string \<times> cfg_section) list \<Rightarrow> nat"
where
  "check_unused ms path (Cfg_section its ss) =
     length (filter (\<lambda>(k, v). Used_item (path @ [k]) \<notin> set ms) its) + check_sections ms path ss"
| "check_sections ms path [] = 0"
| "check_sections ms path ((k, s) # ss) =
     (if Used_section (path @ [k]) \<in> set ms then check_unused ms (path @ [k]) s else 1) + check_sections ms path ss"

section \<open>The configuration\<close>

definition int_max :: int where
  "int_max = 2 ^ 31 - 1"

definition int_in :: "int \<Rightarrow> int \<Rightarrow> string \<Rightarrow> parsestr_error + int" where
  "int_in lo hi v = parsestr_int_range v lo hi"

definition read_lenience :: "section_at \<Rightarrow> (int \<times> int) cfg" where
  "read_lenience sa = do {
     i \<leftarrow> getitem sa ''linelenience'';
     (case i of
        None \<Rightarrow> State_Monad.return (0, 0)
      | Some v \<Rightarrow> do {
          ll \<leftarrow> item_gets (fst sa @ [''linelenience'']) v;
          (case parse_int_pair (cstr ll) of
             Some lh \<Rightarrow> State_Monad.return lh
           | None \<Rightarrow> do { user_error; State_Monad.return (0, 0) }) }) }"

definition c_server_new :: "ulong \<Rightarrow> section_at \<Rightarrow> string \<Rightarrow> nget_config \<Rightarrow> server cfg" where
  "c_server_new sid sa alias nconfig = do {
     addr \<leftarrow> cfg_gets sa ''addr'' [];
     user \<leftarrow> cfg_gets sa ''user'' [];
     pass \<leftarrow> cfg_gets sa ''pass'' [];
     bindaddr \<leftarrow> cfg_gets sa ''bindaddr'' (cf_bindaddr nconfig);
     shortname \<leftarrow> cfg_gets sa ''shortname'' [];
     idletimeout \<leftarrow> cfg_getdef (int_in 1 int_max) sa ''idletimeout'' (cf_idletimeout nconfig);
     fullxover \<leftarrow> cfg_getdef (int_in 0 2) sa ''fullxover'' (cf_fullxover nconfig);
     maxstreaming \<leftarrow> cfg_getdef (int_in 0 int_max) sa ''maxstreaming'' (cf_maxstreaming nconfig);
     lh \<leftarrow> read_lenience sa;
     State_Monad.return
       \<lparr>sv_serverid = sid, sv_alias = alias,
        sv_shortname = (if shortname = [] then [case alias of c # _ \<Rightarrow> c | [] \<Rightarrow> CHR 0x00] else shortname),
        sv_addr = addr, sv_user = user, sv_pass = pass, sv_bindaddr = bindaddr, sv_fullxover = fullxover,
        sv_maxstreaming = maxstreaming, lineleniencelow = fst lh, lineleniencehigh = snd lh,
        sv_idletimeout = idletimeout, last_penalty = 0, penalty_time = 0, penalty_count = 0\<rparr> }"

definition set_globals :: "section_at \<Rightarrow> nget_config \<Rightarrow> nget_config cfg" where
  "set_globals sa c0 = do {
     c1 \<leftarrow> cfg_field parsestr_float sa ''curservmult'' curservmult_update c0;
     c2 \<leftarrow> cfg_field (int_in (- 1) 9) sa ''usegz'' usegz_update c1;
     c3 \<leftarrow> cfg_field (int_in 0 2) sa ''fullxover'' cf_fullxover_update c2;
     c4 \<leftarrow> cfg_field parsestr_bool sa ''fatal_user_errors'' fatal_user_errors_update c3;
     c5 \<leftarrow> cfg_field parsestr_bool sa ''autopar_optimistic'' autopar_optimistic_update c4;
     c6 \<leftarrow> cfg_field (int_in 0 1) sa ''unequal_line_error'' unequal_line_error_update c5;
     c7 \<leftarrow> cfg_field (int_in 0 int_max) sa ''maxstreaming'' cf_maxstreaming_update c6;
     c8 \<leftarrow> cfg_field (int_in (- 1) int_max) sa ''maxconnections'' maxconnections_update c7;
     c9 \<leftarrow> cfg_field (int_in 1 int_max) sa ''idletimeout'' cf_idletimeout_update c8;
     c10 \<leftarrow> cfg_field (int_in (- 1) int_max) sa ''penaltystrikes'' penaltystrikes_update c9;
     c11 \<leftarrow> cfg_field (int_in 1 int_max) sa ''initialpenalty'' initialpenalty_update c10;
     c12 \<leftarrow> cfg_field (\<lambda>v. parsestr_float_range v 1) sa ''penaltymultiplier'' penaltymultiplier_update c11;
     b \<leftarrow> cfg_gets sa ''bindaddr'' [];
     cfg_field (int_in (- 1) int_max) sa ''maxheaders'' maxheaders_update (c12\<lparr>cf_bindaddr := b\<rparr>) }"

definition add_server :: "string list \<Rightarrow> string \<times> cfg_section \<Rightarrow> nget_config \<Rightarrow> nget_config cfg" where
  "add_server path = (\<lambda>(key, ds) c. let sa = (path @ [key], ds) in do {
     a \<leftarrow> getitem sa ''addr'';
     if a = None then do { user_error; State_Monad.return c }
     else do {
       i \<leftarrow> getitem sa ''id'';
       if i = None then do { user_error; State_Monad.return c }
       else do {
         r \<leftarrow> cfg_get (\<lambda>v. parsestr_ulong_range v 1 ULONG_MAX) sa ''id'';
         (case r of
            None \<Rightarrow> State_Monad.return c
          | Some sid \<Rightarrow> do {
              srv \<leftarrow> c_server_new sid sa key c;
              State_Monad.return (c\<lparr>serv := mmap_insert (serv c) sid (length (servers c)), servers := servers c @ [srv]\<rparr>) }) } } })"

definition prio_item :: "nget_config \<Rightarrow> string list \<Rightarrow> string \<times> string \<Rightarrow> prio_grouping \<Rightarrow> prio_grouping cfg" where
  "prio_item c path = (\<lambda>(key, v) pg.
     if key = ''_level'' then do {
       r \<leftarrow> item_get parsestr_float (path @ [key]) v;
       State_Monad.return (case r of Some x \<Rightarrow> pg\<lparr>deflevel := x\<rparr> | None \<Rightarrow> pg) }
     else if key = ''_glevel'' then do {
       r \<leftarrow> item_get parsestr_float (path @ [key]) v;
       State_Monad.return (case r of Some x \<Rightarrow> pg\<lparr>defglevel := x\<rparr> | None \<Rightarrow> pg) }
     else (case getserver c key of
       None \<Rightarrow> do { user_error; State_Monad.return pg }
     | Some p \<Rightarrow> do {
         w \<leftarrow> item_gets (path @ [key]) v;
         State_Monad.return (pg\<lparr>priorities := smap_insert (priorities pg) p (atof w)\<rparr>) }))"

definition add_priority :: "string list \<Rightarrow> string \<times> cfg_section \<Rightarrow> nget_config \<Rightarrow> nget_config cfg" where
  "add_priority path = (\<lambda>(key, ds) c. do {
     mark_used (Used_section (path @ [key]));
     pg \<leftarrow> cfg_fold (prio_item c (path @ [key])) (cs_items ds) (prio_grouping_new key);
     State_Monad.return
       (if pg_alias pg = ''trustsizes'' then c\<lparr>trustsizes := Some pg\<rparr>
        else c\<lparr>prioritygroupings := smap_insert (prioritygroupings c) (pg_alias pg) pg\<rparr>) })"

definition default_priorities :: "nget_config \<Rightarrow> nget_config" where
  "default_priorities c =
     (let c1 = (if getpriogrouping c ''default'' = None
                then c\<lparr>prioritygroupings := smap_insert (prioritygroupings c) ''default'' (prio_grouping_new ''default'')\<rparr> else c)
      in if trustsizes c1 = None then c1\<lparr>trustsizes := Some (prio_grouping_new ''trustsizes'')\<rparr> else c1)"

definition add_group_item :: "string list \<Rightarrow> string \<times> string \<Rightarrow> nget_config \<Rightarrow> nget_config cfg" where
  "add_group_item path = (\<lambda>(key, v) c. do {
     w \<leftarrow> item_gets (path @ [key]) v;
     State_Monad.return (addgroup_or_metagroup c key w) })"

definition add_group_section :: "string list \<Rightarrow> string \<times> cfg_section \<Rightarrow> nget_config \<Rightarrow> nget_config cfg" where
  "add_group_section path = (\<lambda>(key, ds) c. let sa = (path @ [key], ds) in do {
     gz \<leftarrow> cfg_getdef (int_in (- 1) 9) sa ''usegz'' (- 2);
     name \<leftarrow> cfg_gets sa ''group'' [];
     prio \<leftarrow> cfg_gets sa ''prio'' [];
     (case addgroup c key name prio gz of
        (Some g, c') \<Rightarrow> State_Monad.return c'
      | (None, c') \<Rightarrow> do { user_error; State_Monad.return c' }) })"

definition setlist ::
  "section_at \<Rightarrow> section_at \<Rightarrow> section_at option \<Rightarrow> section_at option \<Rightarrow> nget_config \<Rightarrow> nget_config cfg" where
  "setlist sa hinfo pinfo ginfo c = do {
     c1 \<leftarrow> set_globals sa c;
     mark_used (Used_section (fst hinfo));
     c2 \<leftarrow> cfg_fold (add_server (fst hinfo)) (cs_sections (snd hinfo)) c1;
     c3 \<leftarrow> (case pinfo of
       None \<Rightarrow> State_Monad.return c2
     | Some p \<Rightarrow> do {
         mark_used (Used_section (fst p));
         cfg_fold (add_priority (fst p)) (cs_sections (snd p)) c2 });
     (case ginfo of
       None \<Rightarrow> State_Monad.return (default_priorities c3)
     | Some g \<Rightarrow> do {
         mark_used (Used_section (fst g));
         c4 \<leftarrow> cfg_fold (add_group_item (fst g)) (cs_items (snd g)) (default_priorities c3);
         cfg_fold (add_group_section (fst g)) (cs_sections (snd g)) c4 }) }"


section \<open>A printed tree is loaded back\<close>

fun show_cfg :: "cfg_section \<Rightarrow> string" and show_sections :: "(string \<times> cfg_section) list \<Rightarrow> string" where
  "show_cfg (Cfg_section its ss) = concat (map (\<lambda>(k, v). k @ ''='' @ v @ [CHR 0x0A]) its) @ show_sections ss"
| "show_sections [] = []"
| "show_sections ((k, s) # ss) = ''{'' @ k @ [CHR 0x0A] @ show_cfg s @ ''}'' @ [CHR 0x0A] @ show_sections ss"

definition text_ok :: "string \<Rightarrow> bool" where
  "text_ok s \<longleftrightarrow> set s \<inter> {CHR 0x0A, CHR 0x0D, CHR 0x00} = {}"

text \<open>The name of an item starts neither with white space nor like another kind of line.\<close>

definition item_name_ok :: "string \<Rightarrow> bool" where
  "item_name_ok k \<longleftrightarrow> text_ok k \<and> CHR ''='' \<notin> set k \<and> take 2 k \<noteq> ''//'' \<and>
     (k = [] \<or> hd k \<notin> {CHR '' '', CHR 0x09, CHR ''{'', CHR ''}'', CHR ''#''})"

fun cfg_ok :: "cfg_section \<Rightarrow> bool" and sections_ok :: "(string \<times> cfg_section) list \<Rightarrow> bool" where
  "cfg_ok (Cfg_section its ss) \<longleftrightarrow>
     smap_ok its \<and> (\<forall>(k, v) \<in> set its. item_name_ok k \<and> text_ok v) \<and> smap_ok ss \<and> sections_ok ss"
| "sections_ok [] \<longleftrightarrow> True"
| "sections_ok ((k, s) # ss) \<longleftrightarrow> text_ok k \<and> cfg_ok s \<and> sections_ok ss"

lemma cstr_text: "text_ok s \<Longrightarrow> cstr s = s"
  by (induction s) (auto simp: cstr_def text_ok_def)

lemma text_ok_append [simp]: "text_ok (a @ b) \<longleftrightarrow> text_ok a \<and> text_ok b" "text_ok (c # b) \<longleftrightarrow> c \<notin> {CHR 0x0A, CHR 0x0D, CHR 0x00} \<and> text_ok b"
  by (auto simp: text_ok_def)

lemma text_ok_Nil [simp]: "text_ok []"
  by (simp add: text_ok_def)

lemma s_gets_text: "text_ok l \<Longrightarrow> s_gets (l @ CHR 0x0A # rest) = (Suc (length l), l, rest)"
  by (rule s_gets_line) (auto simp: text_ok_def)

lemma classify_close: "classify ''}'' = Line_close"
  by (simp add: classify_def cfg_skip_def cstr_def)

lemma classify_open: "text_ok k \<Longrightarrow> classify (''{'' @ k) = Line_open k"
  using cstr_text [of "''{'' @ k"] by (simp add: classify_def cfg_skip_def)

lemma split_at_eq:
  "CHR ''='' \<notin> set k \<Longrightarrow> takeWhile (\<lambda>x. x \<noteq> CHR ''='') (k @ CHR ''='' # v) = k"
  "CHR ''='' \<notin> set k \<Longrightarrow> tl (dropWhile (\<lambda>x. x \<noteq> CHR ''='') (k @ CHR ''='' # v)) = v"
  by (induction k) auto

lemma classify_item:
  assumes "item_name_ok k" "text_ok v"
  shows "classify (k @ ''='' @ v) = Line_item k v"
proof -
  have c: "cstr (k @ ''='' @ v) = k @ ''='' @ v" using assms by (intro cstr_text) (simp add: item_name_ok_def)
  have s: "cfg_skip (k @ ''='' @ v) = k @ ''='' @ v"
    using assms(1) unfolding cfg_skip_def c by (cases k) (auto simp: item_name_ok_def)
  have t: "takeWhile (\<lambda>x. x \<noteq> CHR ''='') (k @ ''='' @ v) = k" "tl (dropWhile (\<lambda>x. x \<noteq> CHR ''='') (k @ ''='' @ v)) = v"
    using assms(1) by (simp_all add: item_name_ok_def split_at_eq)
  obtain c' b where k: "k @ ''='' @ v = c' # b" by (cases k) auto
  have "c' \<notin> {CHR ''{'', CHR ''}'', CHR ''#''}" using assms(1) k by (cases k) (auto simp: item_name_ok_def)
  moreover have "take 2 (k @ ''='' @ v) \<noteq> ''//''"
    using assms(1) by (cases k rule: remdups_adj.cases) (auto simp: item_name_ok_def numeral_2_eq_2)
  moreover have "CHR ''='' \<in> set (k @ ''='' @ v)" by simp
  ultimately show ?thesis unfolding classify_def s using t unfolding k by simp
qed

lemma smap_put_last: "smap_ok (m @ [(k, v)]) \<Longrightarrow> smap_put m k v = m @ [(k, v)]"
  by (induction m k v rule: smap_put.induct) (auto simp: smap_ok_append smap_ok_Cons)

lemma smap_last_new: "smap_ok (m @ (k, v) # m') \<Longrightarrow> map_of m k = None"
  by (auto simp: smap_ok_append smap_of_None)

lemma cfg_load_item:
  assumes "item_name_ok k" "text_ok v" "smap_ok (its @ [(k, v)])"
  shows "cfg_load (k @ ''='' @ v @ [CHR 0x0A] @ rest) (Cfg_section its ss) level =
    cfg_load rest (Cfg_section (its @ [(k, v)]) ss) level"
proof -
  have g: "s_gets ((k @ ''='' @ v) @ CHR 0x0A # rest) = (Suc (length (k @ ''='' @ v)), k @ ''='' @ v, rest)"
    using assms by (intro s_gets_text) (simp add: item_name_ok_def)
  have "cfg_load ((k @ ''='' @ v) @ CHR 0x0A # rest) (Cfg_section its ss) level =
      (case cfg_load rest (put_item k v (Cfg_section its ss)) level of
        (sec', rest', level', e') \<Rightarrow> (sec', rest', level', (if map_of its k \<noteq> None then 1 else 0) + e'))"
    by (subst cfg_load.simps, subst g) (simp add: classify_item [OF assms(1,2), simplified])
  then show ?thesis using assms(3) smap_last_new [OF assms(3)] by (simp add: put_item_def smap_put_last split: prod.split)
qed

lemma cfg_load_items:
  "smap_ok (pre @ its) \<Longrightarrow> \<forall>(k, v) \<in> set its. item_name_ok k \<and> text_ok v \<Longrightarrow>
     cfg_load (concat (map (\<lambda>(k, v). k @ ''='' @ v @ [CHR 0x0A]) its) @ rest) (Cfg_section pre ss) level =
     cfg_load rest (Cfg_section (pre @ its) ss) level"
proof (induction its arbitrary: pre)
  case (Cons i its)
  obtain k v where i: "i = (k, v)" by (cases i)
  have s: "smap_ok (pre @ [(k, v)])" using Cons.prems(1) i by (simp add: smap_ok_append smap_ok_Cons)
  then show ?case using cfg_load_item [OF _ _ s] Cons i by simp
qed simp

lemma cfg_load_close: "cfg_load (''}'' @ [CHR 0x0A] @ rest) sec level = (sec, rest, level - 1, 0)"
  using s_gets_text [of "''}''" rest] by (subst cfg_load.simps) (simp add: classify_close)

lemma cfg_load_end: "cfg_load [] sec level = (sec, [], level, 0)"
  by (subst cfg_load.simps) simp

lemma cfg_load_open:
  assumes "text_ok k" "cfg_load (body @ ''}'' @ [CHR 0x0A] @ rest) cs_new (level + 1) = (s, rest, level, 0)"
    and "smap_ok (pre @ [(k, s)])"
  shows "cfg_load (''{'' @ k @ [CHR 0x0A] @ body @ ''}'' @ [CHR 0x0A] @ rest) (Cfg_section its pre) level =
    cfg_load rest (Cfg_section its (pre @ [(k, s)])) level"
proof -
  have g: "s_gets ((''{'' @ k) @ CHR 0x0A # body @ ''}'' @ [CHR 0x0A] @ rest) =
      (Suc (length (''{'' @ k)), ''{'' @ k, body @ ''}'' @ [CHR 0x0A] @ rest)"
    using assms(1) by (intro s_gets_text) simp
  have "cfg_load ((''{'' @ k) @ CHR 0x0A # body @ ''}'' @ [CHR 0x0A] @ rest) (Cfg_section its pre) level =
      (case cfg_load rest (put_section k s (Cfg_section its pre)) level of
        (sec', rest', level', e') \<Rightarrow> (sec', rest', level', 0 + (if map_of pre k \<noteq> None then 1 else 0) + e'))"
    by (subst cfg_load.simps, subst g) (use assms(2) classify_open [OF assms(1)] in simp)
  then show ?thesis using assms(3) smap_last_new [OF assms(3)] by (simp add: put_section_def smap_put_last split: prod.split)
qed

lemma load_shown:
  "cfg_ok s \<Longrightarrow> cfg_load (show_cfg s @ ''}'' @ [CHR 0x0A] @ rest) cs_new (level + 1) = (s, rest, level, 0)"
  "sections_ok ss \<Longrightarrow> smap_ok (pre @ ss) \<Longrightarrow>
     cfg_load (show_sections ss @ rest) (Cfg_section its pre) level = cfg_load rest (Cfg_section its (pre @ ss)) level"
proof (induction s and ss arbitrary: rest level and rest level its pre rule: show_cfg_show_sections.induct)
  case (1 its ss)
  then show ?case
    using cfg_load_items [of "[]" its] by (simp add: cs_new_def cfg_load_close [simplified])
next
  case (3 k s ss)
  have s: "smap_ok (pre @ [(k, s)])" using 3(4) by (simp add: smap_ok_append smap_ok_Cons)
  have "cfg_load (show_sections ((k, s) # ss) @ rest) (Cfg_section its pre) level =
      cfg_load (show_sections ss @ rest) (Cfg_section its (pre @ [(k, s)])) level"
    using cfg_load_open [OF _ 3(1) s, where its = its] 3(3) by simp
  then show ?case using 3(2) [of "pre @ [(k, s)]"] 3(3,4) by simp
qed simp

lemma load_file:
  assumes "cfg_ok s"
  shows "cfg_load (show_cfg s) cs_new 0 = (s, [], 0, 0)"
proof (cases s)
  case (Cfg_section its ss)
  have "cfg_load (show_cfg s) cs_new 0 = cfg_load (show_sections ss @ []) (Cfg_section its []) 0"
    using cfg_load_items [of "[]" its "show_sections ss" "[]" 0] assms Cfg_section by (simp add: cs_new_def)
  then show ?thesis
    using load_shown(2) [where pre = "[]" and rest = "[]" and its = its and level = 0] assms Cfg_section by (simp add: cfg_load_end)
qed

section \<open>What is read is well-formed\<close>

lemma pred_return: "P x \<Longrightarrow> pred_state P (State_Monad.return x :: 'a cfg)"
  by (rule pred_stateI) simp

lemma pred_bind: "pred_state Q m \<Longrightarrow> (\<And>x. Q x \<Longrightarrow> pred_state P (f x)) \<Longrightarrow> pred_state P (State_Monad.bind m f)"
  by (rule bind_predI) (metis pred_stateD pred_stateI)

lemma pred_any: "pred_state (\<lambda>_. True) m"
  by (rule pred_stateI) simp

lemma pred_bind_any: "(\<And>x. pred_state P (f x)) \<Longrightarrow> pred_state P (State_Monad.bind m f)"
  by (rule pred_bind [OF pred_any])

lemma pred_item_get: "(\<And>x. parse v = Inr x \<Longrightarrow> Q x) \<Longrightarrow> pred_state (pred_option Q) (item_get parse path v)"
  unfolding item_get_def by (cases "parse v") (auto intro!: pred_bind_any pred_return)

lemma pred_cfg_get:
  assumes "\<And>v x. parse v = Inr x \<Longrightarrow> Q x"
  shows "pred_state (pred_option Q) (cfg_get parse sa name)"
  unfolding cfg_get_def using assms
  by (intro pred_bind_any) (auto split: option.split intro!: pred_item_get pred_return)

lemma pred_cfg_getdef:
  assumes "\<And>v x. parse v = Inr x \<Longrightarrow> Q x" "Q d"
  shows "pred_state Q (cfg_getdef parse sa name d)"
  unfolding cfg_getdef_def
  by (rule pred_bind [OF pred_cfg_get [of parse Q]]) (auto simp: assms intro!: pred_return split: option.split)

lemma pred_cfg_field:
  assumes "P c" "\<And>v x. parse v = Inr x \<Longrightarrow> P (upd (\<lambda>_. x) c)"
  shows "pred_state P (cfg_field parse sa name upd c)"
  unfolding cfg_field_def
  by (rule pred_bind [OF pred_cfg_get [of parse "\<lambda>x. P (upd (\<lambda>_. x) c)"]]) (auto simp: assms intro!: pred_return split: option.split)

lemma pred_fold:
  assumes "P c" "\<And>x c. x \<in> set xs \<Longrightarrow> P c \<Longrightarrow> pred_state P (f x c)"
  shows "pred_state P (cfg_fold f xs c)"
  using assms by (induction xs arbitrary: c) (auto intro!: pred_return pred_bind [where Q = P])

lemma int_in_range: "int_in lo hi v = Inr x \<Longrightarrow> lo \<le> x \<and> x \<le> hi"
  by (auto simp: int_in_def parsestr_int_range_def split: sum.splits if_splits)

lemma ulong_range: "parsestr_ulong_range v 1 ULONG_MAX = Inr x \<Longrightarrow> x \<noteq> 0"
  by (auto simp: parsestr_ulong_range_def split: sum.splits if_splits)

lemma float_range: "parsestr_float_range v lo = Inr x \<Longrightarrow> lo \<le> x"
  by (auto simp: parsestr_float_range_def split: sum.splits if_splits)

text \<open>A server as the program expects it.\<close>

definition server_ok :: "server \<Rightarrow> bool" where
  "server_ok s \<longleftrightarrow> sv_serverid s \<noteq> 0 \<and> sv_fullxover s \<in> {0..2} \<and> sv_maxstreaming s \<in> {0..int_max} \<and>
     sv_idletimeout s \<in> {1..int_max} \<and> lineleniencelow s \<le> lineleniencehigh s \<and> sv_shortname s \<noteq> [] \<and>
     penalty_count s = 0 \<and> penalty_time s = 0 \<and> last_penalty s = 0"

definition globals_ok :: "nget_config \<Rightarrow> bool" where
  "globals_ok c \<longleftrightarrow> usegz c \<in> {- 1..9} \<and> unequal_line_error c \<in> {0..1} \<and> cf_fullxover c \<in> {0..2} \<and>
     cf_maxstreaming c \<in> {0..int_max} \<and> cf_idletimeout c \<in> {1..int_max} \<and> maxconnections c \<in> {- 1..int_max} \<and>
     penaltystrikes c \<in> {- 1..int_max} \<and> initialpenalty c \<in> {1..int_max} \<and> 1 \<le> penaltymultiplier c \<and>
     maxheaders c \<in> {- 1..int_max}"

definition servers_ok :: "nget_config \<Rightarrow> bool" where
  "servers_ok c \<longleftrightarrow> mmap_ok (serv c) \<and>
     (\<forall>(sid, p) \<in> set (serv c). p < length (servers c) \<and> sv_serverid (servers c ! p) = sid) \<and>
     (\<forall>s \<in> set (servers c). server_ok s)"

definition grouping_ok :: "nget_config \<Rightarrow> prio_grouping \<Rightarrow> bool" where
  "grouping_ok c pg \<longleftrightarrow> smap_ok (priorities pg) \<and> (\<forall>(p, r) \<in> set (priorities pg). p < length (servers c))"

definition groupings_ok :: "nget_config \<Rightarrow> bool" where
  "groupings_ok c \<longleftrightarrow> smap_ok (prioritygroupings c) \<and>
     (\<forall>(k, pg) \<in> set (prioritygroupings c). pg_alias pg = k \<and> k \<noteq> ''trustsizes'' \<and> grouping_ok c pg) \<and>
     (\<forall>pg. trustsizes c = Some pg \<longrightarrow> pg_alias pg = ''trustsizes'' \<and> grouping_ok c pg)"

definition groups_ok :: "nget_config \<Rightarrow> bool" where
  "groups_ok c \<longleftrightarrow> smap_ok (groups c) \<and> (\<forall>(k, g) \<in> set (groups c). g < length (ginfos c)) \<and>
     (\<forall>g \<in> set (ginfos c). getpriogrouping c (gi_prio g) \<noteq> None)"

definition config_ok :: "nget_config \<Rightarrow> bool" where
  "config_ok c \<longleftrightarrow> globals_ok c \<and> servers_ok c \<and> groupings_ok c \<and> groups_ok c"

lemma int32_neg_le: "0 \<le> int32 i \<or> int32 i = - (2 ^ 31) \<Longrightarrow> int32 (- int32 i) \<le> int32 i"
proof (elim disjE)
  assume p: "0 \<le> int32 i"
  then have "int32 (- int32 i) = - int32 i" using is_int32_int32 [of i] by (intro int32_id) (simp add: is_int32_def)
  then show ?thesis using p by simp
qed (simp add: int32_def)

lemma int32_abs_le: "int32 (- (if int32 i < 0 then int32 (- int32 i) else int32 i)) \<le> (if int32 i < 0 then int32 (- int32 i) else int32 i)"
proof (cases "int32 i < 0 \<and> int32 i \<noteq> - (2 ^ 31)")
  case True
  then have "int32 (- int32 i) = - int32 i" using is_int32_int32 [of i] by (intro int32_id) (simp add: is_int32_def)
  then show ?thesis using True int32_neg_le [of "- int32 i"] by simp
next
  case False
  then have "int32 i < 0 \<Longrightarrow> int32 (- int32 i) = int32 i" by (simp add: int32_def)
  then show ?thesis using int32_neg_le [of i] False by (cases "int32 i < 0") (simp_all, linarith?)
qed

lemma parse_int_pair_ordered: "parse_int_pair s = Some (l, h) \<Longrightarrow> l \<le> h"
  using int32_abs_le by (fastforce simp: parse_int_pair_def Let_def split: list.splits prod.splits if_splits)

lemma read_lenience_ordered: "pred_state (\<lambda>(l, h). l \<le> h) (read_lenience sa)"
  unfolding read_lenience_def
  by (intro pred_bind_any) (auto split: option.split intro!: pred_bind_any pred_return dest: parse_int_pair_ordered)

lemma c_server_ok:
  assumes "globals_ok c" "sid \<noteq> 0"
  shows "pred_state (\<lambda>s. server_ok s \<and> sv_serverid s = sid) (c_server_new sid sa alias c)"
proof -
  have g: "cf_idletimeout c \<in> {1..int_max}" "cf_fullxover c \<in> {0..2}" "cf_maxstreaming c \<in> {0..int_max}"
    using assms(1) by (simp_all add: globals_ok_def)
  show ?thesis
    unfolding c_server_new_def
    by (rule pred_bind_any, rule pred_bind_any, rule pred_bind_any, rule pred_bind_any, rule pred_bind_any,
        rule pred_bind [OF pred_cfg_getdef [where Q = "\<lambda>x. x \<in> {1..int_max}"]], simp add: int_in_range, rule g,
        rule pred_bind [OF pred_cfg_getdef [where Q = "\<lambda>x. x \<in> {0..2}"]], simp add: int_in_range, rule g,
        rule pred_bind [OF pred_cfg_getdef [where Q = "\<lambda>x. x \<in> {0..int_max}"]], simp add: int_in_range, rule g,
        rule pred_bind [OF read_lenience_ordered], rule pred_return)
      (use assms(2) in \<open>auto simp: server_ok_def\<close>)
qed

definition same_lists :: "nget_config \<Rightarrow> nget_config \<Rightarrow> bool" where
  "same_lists c c' \<longleftrightarrow> serv c' = serv c \<and> servers c' = servers c \<and> prioritygroupings c' = prioritygroupings c \<and>
     trustsizes c' = trustsizes c \<and> groups c' = groups c \<and> ginfos c' = ginfos c"

lemma config_ok_field: "config_ok c \<Longrightarrow> same_lists c c' \<Longrightarrow> globals_ok c' \<Longrightarrow> config_ok c'"
  by (simp add: config_ok_def same_lists_def servers_ok_def groupings_ok_def grouping_ok_def groups_ok_def getpriogrouping_def)

lemma config_field:
  "config_ok c \<Longrightarrow> config_ok (curservmult_update (\<lambda>_. q) c)"
  "config_ok c \<Longrightarrow> config_ok (fatal_user_errors_update (\<lambda>_. b) c)"
  "config_ok c \<Longrightarrow> config_ok (autopar_optimistic_update (\<lambda>_. b) c)"
  "config_ok c \<Longrightarrow> config_ok (c\<lparr>cf_bindaddr := t\<rparr>)"
  "config_ok c \<Longrightarrow> - 1 \<le> i \<and> i \<le> 9 \<Longrightarrow> config_ok (usegz_update (\<lambda>_. i) c)"
  "config_ok c \<Longrightarrow> 0 \<le> i \<and> i \<le> 2 \<Longrightarrow> config_ok (cf_fullxover_update (\<lambda>_. i) c)"
  "config_ok c \<Longrightarrow> 0 \<le> i \<and> i \<le> 1 \<Longrightarrow> config_ok (unequal_line_error_update (\<lambda>_. i) c)"
  "config_ok c \<Longrightarrow> 0 \<le> i \<and> i \<le> int_max \<Longrightarrow> config_ok (cf_maxstreaming_update (\<lambda>_. i) c)"
  "config_ok c \<Longrightarrow> - 1 \<le> i \<and> i \<le> int_max \<Longrightarrow> config_ok (maxconnections_update (\<lambda>_. i) c)"
  "config_ok c \<Longrightarrow> 1 \<le> i \<and> i \<le> int_max \<Longrightarrow> config_ok (cf_idletimeout_update (\<lambda>_. i) c)"
  "config_ok c \<Longrightarrow> - 1 \<le> i \<and> i \<le> int_max \<Longrightarrow> config_ok (penaltystrikes_update (\<lambda>_. i) c)"
  "config_ok c \<Longrightarrow> 1 \<le> i \<and> i \<le> int_max \<Longrightarrow> config_ok (initialpenalty_update (\<lambda>_. i) c)"
  "config_ok c \<Longrightarrow> 1 \<le> q \<Longrightarrow> config_ok (penaltymultiplier_update (\<lambda>_. q) c)"
  "config_ok c \<Longrightarrow> - 1 \<le> i \<and> i \<le> int_max \<Longrightarrow> config_ok (maxheaders_update (\<lambda>_. i) c)"
  by (rule config_ok_field, assumption, simp add: same_lists_def, simp add: config_ok_def globals_ok_def)+

lemma field_step:
  assumes "\<And>v x. parse v = Inr x \<Longrightarrow> config_ok (upd (\<lambda>_. x) c)" "config_ok c"
    and "\<And>c'. config_ok c' \<Longrightarrow> pred_state config_ok (f c')"
  shows "pred_state config_ok (State_Monad.bind (cfg_field parse sa name upd c) f)"
  by (rule pred_bind [OF pred_cfg_field]) (use assms in auto)

lemma set_globals_ok: "config_ok c \<Longrightarrow> pred_state config_ok (set_globals sa c)"
  unfolding set_globals_def
  by ((rule field_step, rule config_field, assumption, assumption |
      rule field_step, rule config_field, assumption, erule int_in_range, assumption |
      rule field_step, rule config_field, assumption, erule float_range, assumption)+,
      rule pred_bind_any, rule pred_cfg_field, erule config_field, rule config_field, erule config_field, erule int_in_range)

lemma add_server_ok: "config_ok c \<Longrightarrow> pred_state config_ok (add_server path e c)"
proof (cases e)
  case (Pair key ds)
  assume c: "config_ok c"
  let ?sa = "(path @ [key], ds)"
  have srv: "config_ok (c\<lparr>serv := mmap_insert (serv c) sid (length (servers c)), servers := servers c @ [s]\<rparr>)"
    if "server_ok s" "sv_serverid s = sid" for s sid
  proof -
    let ?c = "c\<lparr>serv := mmap_insert (serv c) sid (length (servers c)), servers := servers c @ [s]\<rparr>"
    have "servers_ok ?c" using c that by (auto simp: config_ok_def servers_ok_def nth_append)
    moreover have "groupings_ok ?c" using c by (fastforce simp: config_ok_def groupings_ok_def grouping_ok_def)
    moreover have "globals_ok ?c" "groups_ok ?c" using c by (simp_all add: config_ok_def globals_ok_def groups_ok_def getpriogrouping_def)
    ultimately show ?thesis by (simp add: config_ok_def)
  qed
  have new: "pred_state config_ok (State_Monad.bind (c_server_new sid ?sa key c)
      (\<lambda>srv. State_Monad.return (c\<lparr>serv := mmap_insert (serv c) sid (length (servers c)), servers := servers c @ [srv]\<rparr>)))"
    if "sid \<noteq> 0" for sid
    using c_server_ok [of c sid ?sa key] c that srv by (auto simp: config_ok_def intro!: pred_bind [OF c_server_ok] pred_return)
  have "pred_state config_ok (State_Monad.bind (cfg_get (\<lambda>v. parsestr_ulong_range v 1 ULONG_MAX) ?sa ''id'')
      (\<lambda>r. case r of None \<Rightarrow> State_Monad.return c
         | Some sid \<Rightarrow> State_Monad.bind (c_server_new sid ?sa key c)
             (\<lambda>srv. State_Monad.return (c\<lparr>serv := mmap_insert (serv c) sid (length (servers c)), servers := servers c @ [srv]\<rparr>))))"
    by (rule pred_bind [OF pred_cfg_get [where Q = "\<lambda>x. x \<noteq> 0"]], erule ulong_range) (auto split: option.split intro: pred_return c new)
  then show ?thesis using c by (auto simp: add_server_def Pair Let_def intro!: pred_bind_any pred_return)
qed

lemma set_smap_insert: "smap_ok m \<Longrightarrow> set (smap_insert m k v) \<subseteq> insert (k, v) (set m)"
  by (auto simp: smap_insert_def set_smap_put)

lemma getserver_bound:
  assumes "servers_ok c" "getserver c key = Some p"
  shows "p < length (servers c)"
proof -
  obtain e where e: "find (\<lambda>(sid, p). sv_alias (servers c ! p) = key \<or> sv_addr (servers c ! p) = key) (serv c) = Some e" "p = snd e"
    using assms(2) by (auto simp: getserver_def)
  obtain i where "i < length (serv c)" "e = serv c ! i" using e(1) unfolding find_Some_iff by blast
  then have "e \<in> set (serv c)" by simp
  then show ?thesis using assms(1) e(2) by (auto simp: servers_ok_def)
qed

lemma prio_item_ok:
  "servers_ok c \<Longrightarrow> grouping_ok c pg \<and> pg_alias pg = a \<Longrightarrow>
     pred_state (\<lambda>pg'. grouping_ok c pg' \<and> pg_alias pg' = a) (prio_item c path e pg)"
proof (cases e)
  case (Pair key v)
  assume c: "servers_ok c" and pg: "grouping_ok c pg \<and> pg_alias pg = a"
  have ins: "grouping_ok c (pg\<lparr>priorities := smap_insert (priorities pg) p r\<rparr>)" if "p < length (servers c)" for p r
    using pg that set_smap_insert [of "priorities pg" p r] by (fastforce simp: grouping_ok_def smap_ok_insert)
  have lev: "grouping_ok c (case r of Some x \<Rightarrow> pg\<lparr>deflevel := x\<rparr> | None \<Rightarrow> pg)" "grouping_ok c (case r of Some x \<Rightarrow> pg\<lparr>defglevel := x\<rparr> | None \<Rightarrow> pg)"
    "pg_alias (case r of Some x \<Rightarrow> pg\<lparr>deflevel := x\<rparr> | None \<Rightarrow> pg) = a" "pg_alias (case r of Some x \<Rightarrow> pg\<lparr>defglevel := x\<rparr> | None \<Rightarrow> pg) = a" for r
    using pg by (cases r; simp add: grouping_ok_def)+
  have srv: "pred_state (\<lambda>pg'. grouping_ok c pg' \<and> pg_alias pg' = a)
      (case getserver c key of None \<Rightarrow> State_Monad.bind user_error (\<lambda>_. State_Monad.return pg)
       | Some p \<Rightarrow> State_Monad.bind (item_gets (path @ [key]) v)
           (\<lambda>w. State_Monad.return (pg\<lparr>priorities := smap_insert (priorities pg) p (atof w)\<rparr>)))"
  proof (cases "getserver c key")
    case (Some p)
    then show ?thesis using ins [OF getserver_bound [OF c Some]] pg by (simp add: pred_bind_any pred_return)
  qed (simp add: pred_bind_any pred_return pg)
  show ?thesis
    unfolding prio_item_def Pair prod.case by (simp add: pred_bind_any pred_return lev srv)
qed

text \<open>More groupings change nothing for the groups.\<close>

lemma more_groupings:
  assumes "config_ok c" "grouping_ok c pg" "pg_alias pg = k" "k \<noteq> ''trustsizes''"
  shows "config_ok (c\<lparr>prioritygroupings := smap_insert (prioritygroupings c) k pg\<rparr>)"
proof -
  let ?c = "c\<lparr>prioritygroupings := smap_insert (prioritygroupings c) k pg\<rparr>"
  have s: "smap_ok (prioritygroupings c)" using assms(1) by (simp add: config_ok_def groupings_ok_def)
  have "groupings_ok ?c" using assms set_smap_insert [OF s, of k pg]
    by (fastforce simp: config_ok_def groupings_ok_def grouping_ok_def smap_ok_insert)
  moreover have "groups_ok ?c" using assms(1) s
    by (fastforce simp: config_ok_def groups_ok_def getpriogrouping_def map_of_smap_insert split: option.split)
  ultimately show ?thesis using assms(1) by (simp add: config_ok_def globals_ok_def servers_ok_def)
qed

lemma trust_ok:
  "config_ok c \<Longrightarrow> grouping_ok c pg \<Longrightarrow> pg_alias pg = ''trustsizes'' \<Longrightarrow> config_ok (c\<lparr>trustsizes := Some pg\<rparr>)"
  by (simp add: config_ok_def globals_ok_def servers_ok_def groupings_ok_def grouping_ok_def groups_ok_def getpriogrouping_def)

lemma grouping_new_ok [simp]: "grouping_ok c (prio_grouping_new k)" "pg_alias (prio_grouping_new k) = k"
  by (simp_all add: grouping_ok_def prio_grouping_new_def)

lemma add_priority_ok: "config_ok c \<Longrightarrow> pred_state config_ok (add_priority path e c)"
proof (cases e)
  case (Pair key ds)
  assume c: "config_ok c"
  have f: "pred_state (\<lambda>pg'. grouping_ok c pg' \<and> pg_alias pg' = key)
      (cfg_fold (prio_item c (path @ [key])) (cs_items ds) (prio_grouping_new key))"
    by (rule pred_fold) (use c in \<open>auto simp: config_ok_def intro: prio_item_ok\<close>)
  show ?thesis
    unfolding add_priority_def Pair prod.case
    by (rule pred_bind_any, rule pred_bind [OF f], rule pred_return) (use c in \<open>auto intro: trust_ok more_groupings\<close>)
qed

lemma if_ok: "P y \<Longrightarrow> P x \<Longrightarrow> P (if b then x else y)"
  by simp

lemma default_priorities_ok:
  assumes "config_ok c"
  shows "config_ok (default_priorities c)" "getpriogrouping (default_priorities c) ''default'' \<noteq> None"
    "trustsizes (default_priorities c) \<noteq> None"
proof -
  let ?c1 = "if getpriogrouping c ''default'' = None
    then c\<lparr>prioritygroupings := smap_insert (prioritygroupings c) ''default'' (prio_grouping_new ''default'')\<rparr> else c"
  have c1: "config_ok ?c1" using assms more_groupings [of c "prio_grouping_new ''default''" "''default''"] by simp
  have s: "smap_ok (prioritygroupings c)" using assms by (simp add: config_ok_def groupings_ok_def)
  have c2: "getpriogrouping ?c1 ''default'' \<noteq> None"
    by (auto simp: getpriogrouping_def map_of_smap_insert [OF s] split: option.split)
  have d: "default_priorities c = (if trustsizes ?c1 = None then ?c1\<lparr>trustsizes := Some (prio_grouping_new ''trustsizes'')\<rparr> else ?c1)"
    by (simp add: default_priorities_def Let_def)
  show "config_ok (default_priorities c)" unfolding d using c1 by (rule if_ok) (rule trust_ok [OF c1 grouping_new_ok])
  show "getpriogrouping (default_priorities c) ''default'' \<noteq> None" unfolding d using c2 by (simp add: getpriogrouping_def)
  show "trustsizes (default_priorities c) \<noteq> None" unfolding d by simp
qed

text \<open>What is fixed once the groups are entered.\<close>

definition ready :: "nget_config \<Rightarrow> bool" where
  "ready c \<longleftrightarrow> config_ok c \<and> getpriogrouping c ''default'' \<noteq> None \<and> trustsizes c \<noteq> None"

lemma addgroup_ready:
  assumes "ready c"
  shows "ready (snd (addgroup c alias name prio gz))"
proof (cases "getpriogrouping c (if prio = [] then ''default'' else prio)")
  case None
  then show ?thesis using assms by (simp add: addgroup_def Let_def)
next
  case (Some pg)
  let ?p = "if prio = [] then ''default'' else prio"
  let ?g = "length (ginfos c)"
  let ?gs = "if alias \<noteq> [] then smap_insert (groups c) alias ?g else groups c"
  let ?c = "c\<lparr>ginfos := ginfos c @ [\<lparr>gi_alias = alias, gi_group = name, gi_prio = ?p, gi_usegz = gz\<rparr>],
              groups := smap_insert ?gs name ?g\<rparr>"
  have r: "snd (addgroup c alias name prio gz) = ?c" using Some by (simp add: addgroup_def Let_def)
  have g: "groups_ok c" using assms by (simp add: ready_def config_ok_def)
  have below: "\<forall>e \<in> set (groups c). snd e \<le> ?g" using g by (auto simp: groups_ok_def)
  have s: "smap_ok ?gs" using g by (auto simp: groups_ok_def)
  have "\<forall>e \<in> set ?gs. snd e \<le> ?g"
    using set_smap_insert [of "groups c" "alias" ?g] below g by (auto simp only: groups_ok_def split: if_splits) fastforce+
  then have "\<forall>e \<in> set (smap_insert ?gs name ?g). snd e \<le> ?g" using set_smap_insert [OF s, of name ?g] by fastforce
  then have "groups_ok ?c" using g s Some
    by (fastforce simp: groups_ok_def getpriogrouping_def smap_ok_insert less_Suc_eq_le)
  moreover have "globals_ok ?c" "servers_ok ?c" "groupings_ok ?c"
    using assms by (simp_all add: ready_def config_ok_def globals_ok_def servers_ok_def groupings_ok_def grouping_ok_def)
  moreover have "getpriogrouping ?c ''default'' \<noteq> None" "trustsizes ?c \<noteq> None" using assms by (simp_all add: ready_def getpriogrouping_def)
  ultimately show ?thesis unfolding r ready_def config_ok_def by blast
qed

lemma addgroup_or_metagroup_ready: "ready c \<Longrightarrow> ready (addgroup_or_metagroup c alias name)"
proof (cases "CHR '','' \<in> set name")
  case True
  assume "ready c"
  then show ?thesis using True
    by (simp add: addgroup_or_metagroup_def addmetagroup_def ready_def config_ok_def globals_ok_def servers_ok_def
        groupings_ok_def grouping_ok_def groups_ok_def getpriogrouping_def)
qed (simp add: addgroup_or_metagroup_def addgroup_ready)

lemma add_group_section_ready: "ready c \<Longrightarrow> pred_state ready (add_group_section path e c)"
proof (cases e)
  case (Pair key ds)
  assume c: "ready c"
  have a: "ready c'" if "addgroup c key name prio gz = (g, c')" for name prio gz g c'
    using addgroup_ready [OF c, of key name prio gz] that by simp
  show ?thesis
    unfolding add_group_section_def Pair prod.case Let_def
    by (intro pred_bind_any) (auto split: prod.split option.split intro!: pred_bind_any pred_return dest: a)
qed

lemma add_group_item_ready: "ready c \<Longrightarrow> pred_state ready (add_group_item path e c)"
  by (cases e) (auto simp: add_group_item_def intro!: pred_bind_any pred_return addgroup_or_metagroup_ready)

lemma setlist_ready: "config_ok c \<Longrightarrow> pred_state ready (setlist sa hinfo pinfo ginfo c)"
proof -
  assume c: "config_ok c"
  have p: "pred_state config_ok (case pinfo of None \<Rightarrow> State_Monad.return c2
      | Some p \<Rightarrow> State_Monad.bind (mark_used (Used_section (fst p))) (\<lambda>_. cfg_fold (add_priority (fst p)) (cs_sections (snd p)) c2))"
    if "config_ok c2" for c2
    using that by (cases pinfo) (auto intro!: pred_return pred_bind_any pred_fold add_priority_ok)
  have g: "pred_state ready (case ginfo of None \<Rightarrow> State_Monad.return (default_priorities c3)
      | Some g \<Rightarrow> State_Monad.bind (mark_used (Used_section (fst g))) (\<lambda>_.
          State_Monad.bind (cfg_fold (add_group_item (fst g)) (cs_items (snd g)) (default_priorities c3)) (\<lambda>c4.
            cfg_fold (add_group_section (fst g)) (cs_sections (snd g)) c4)))"
    if "config_ok c3" for c3
  proof -
    have r: "ready (default_priorities c3)" using default_priorities_ok [OF that] by (simp add: ready_def)
    show ?thesis
    proof (cases ginfo)
      case (Some g)
      show ?thesis unfolding Some option.case
        by (rule pred_bind_any, rule pred_bind [where Q = ready], rule pred_fold [OF r add_group_item_ready], assumption,
            rule pred_fold, assumption, rule add_group_section_ready)
    qed (simp add: pred_return r)
  qed
  show ?thesis unfolding setlist_def
    by (rule pred_bind [OF set_globals_ok [OF c]], rule pred_bind_any, rule pred_bind [where Q = config_ok],
        rule pred_fold, assumption, rule add_server_ok, assumption, rule pred_bind [OF p], assumption, rule g)
qed

lemma config_new_ok: "config_ok nget_config_new"
  by (simp add: config_ok_def globals_ok_def servers_ok_def groupings_ok_def groups_ok_def nget_config_new_def int_max_def mmap_ok_def)

section \<open>What is read\<close>

text \<open>A reader marks only settings it knows, and all it does to the counters is to count user errors.\<close>

definition reads :: "(cfg_mark \<Rightarrow> bool) \<Rightarrow> 'a cfg \<Rightarrow> bool" where
  "reads K m \<longleftrightarrow> (\<forall>s. (\<forall>k \<in> set (cfg_marks (snd (run_state m s))). k \<in> set (cfg_marks s) \<or> K k) \<and>
     (\<exists>n. cfg_status (snd (run_state m s)) = set_error_status ST_user (int n) (cfg_status s)))"

named_theorems reads_intros

lemma count_none [simp]: "set_error_status t 0 st = st"
  by (simp add: set_error_status_def)

lemma count_twice [simp]:
  "set_error_status t (int n) (set_error_status t (int m) st) = set_error_status t (int (m + n)) st"
  by (auto simp: set_error_status_def add.assoc or.assoc)

lemma reads_return [reads_intros]: "reads K (State_Monad.return x)"
  unfolding reads_def by (auto intro: exI [of _ 0])

lemma reads_bind [reads_intros]: "reads K m \<Longrightarrow> (\<And>x. reads K (f x)) \<Longrightarrow> reads K (State_Monad.bind m f)"
  unfolding reads_def by (auto split: prod.splits) (metis snd_conv, metis count_twice snd_conv)

lemma reads_mark [reads_intros]: "K m \<Longrightarrow> reads K (mark_used m)"
  unfolding reads_def by (auto simp: mark_used_def intro: exI [of _ 0])

lemma reads_error [reads_intros]: "reads K user_error"
  unfolding reads_def by (auto simp: user_error_def intro: exI [of _ 1])

lemma reads_getitem [reads_intros]: "K (Used_section (fst sa)) \<Longrightarrow> reads K (getitem sa name)"
  unfolding getitem_def by (intro reads_intros)

lemma reads_getsection [reads_intros]: "K (Used_section (fst sa)) \<Longrightarrow> reads K (getsection sa name)"
  unfolding getsection_def by (intro reads_intros)

lemma reads_item_gets [reads_intros]: "K (Used_item path) \<Longrightarrow> reads K (item_gets path v)"
  unfolding item_gets_def by (intro reads_intros)

lemma reads_item_get [reads_intros]: "K (Used_item path) \<Longrightarrow> reads K (item_get parse path v)"
  unfolding item_get_def by (cases "parse v") (simp_all add: reads_intros)

lemma reads_cfg_gets [reads_intros]:
  "K (Used_section (fst sa)) \<Longrightarrow> K (Used_item (fst sa @ [name])) \<Longrightarrow> reads K (cfg_gets sa name d)"
  unfolding cfg_gets_def by (auto intro!: reads_intros split: option.split)

lemma reads_cfg_get [reads_intros]:
  "K (Used_section (fst sa)) \<Longrightarrow> K (Used_item (fst sa @ [name])) \<Longrightarrow> reads K (cfg_get parse sa name)"
  unfolding cfg_get_def by (auto intro!: reads_intros split: option.split)

lemma reads_cfg_getdef [reads_intros]:
  "K (Used_section (fst sa)) \<Longrightarrow> K (Used_item (fst sa @ [name])) \<Longrightarrow> reads K (cfg_getdef parse sa name d)"
  unfolding cfg_getdef_def by (intro reads_intros)

lemma reads_cfg_field [reads_intros]:
  "K (Used_section (fst sa)) \<Longrightarrow> K (Used_item (fst sa @ [name])) \<Longrightarrow> reads K (cfg_field parse sa name upd c)"
  unfolding cfg_field_def by (intro reads_intros)

lemma reads_fold [reads_intros]: "(\<And>x c. x \<in> set xs \<Longrightarrow> reads K (f x c)) \<Longrightarrow> reads K (cfg_fold f xs c)"
  by (induction xs arbitrary: c) (auto intro!: reads_intros)

text \<open>The settings that the program knows: those of the file itself, of the servers, the priorities of any
  servers, and the groups.\<close>

definition global_keys :: "string list" where
  "global_keys = [''curservmult'', ''usegz'', ''fullxover'', ''fatal_user_errors'', ''autopar_optimistic'', ''unequal_line_error'',
     ''maxstreaming'', ''maxconnections'', ''idletimeout'', ''penaltystrikes'', ''initialpenalty'', ''penaltymultiplier'',
     ''bindaddr'', ''maxheaders'']"

definition server_keys :: "string list" where
  "server_keys = [''addr'', ''id'', ''user'', ''pass'', ''bindaddr'', ''shortname'', ''idletimeout'', ''fullxover'',
     ''maxstreaming'', ''linelenience'']"

definition group_keys :: "string list" where
  "group_keys = [''usegz'', ''group'', ''prio'']"

definition known_item :: "string list \<Rightarrow> string list \<Rightarrow> bool" where
  "known_item extra p \<longleftrightarrow>
     (case p of
        [k] \<Rightarrow> k \<in> set (global_keys @ extra)
      | [s, k] \<Rightarrow> s = ''galias''
      | [s, g, k] \<Rightarrow> s = ''halias'' \<and> k \<in> set server_keys \<or> s = ''hpriority'' \<or> s = ''galias'' \<and> k \<in> set group_keys
      | _ \<Rightarrow> False)"

definition known_mark :: "string list \<Rightarrow> cfg_mark \<Rightarrow> bool" where
  "known_mark extra m \<longleftrightarrow> (case m of Used_item p \<Rightarrow> known_item extra p | Used_section p \<Rightarrow> True)"

lemma known_section [simp]: "known_mark extra (Used_section p)"
  by (simp add: known_mark_def)

lemma known_top [simp]: "known_mark extra (Used_item [k]) \<longleftrightarrow> k \<in> set (global_keys @ extra)"
  by (simp add: known_mark_def known_item_def)

lemma known_server [simp]: "known_mark extra (Used_item [''halias'', g, k]) \<longleftrightarrow> k \<in> set server_keys"
  by (simp add: known_mark_def known_item_def)

lemma known_priority [simp]: "known_mark extra (Used_item [''hpriority'', g, k])"
  by (simp add: known_mark_def known_item_def)

lemma known_group [simp]:
  "known_mark extra (Used_item [''galias'', k])" "known_mark extra (Used_item [''galias'', g, k]) \<longleftrightarrow> k \<in> set group_keys"
  by (simp_all add: known_mark_def known_item_def)

lemma reads_globals: "reads (known_mark extra) (set_globals ([], sec) c)"
  unfolding set_globals_def by (intro reads_intros) (simp_all add: global_keys_def)

lemma reads_server: "reads (known_mark extra) (add_server [''halias''] e c)"
  unfolding add_server_def c_server_new_def read_lenience_def
  by (auto simp: server_keys_def Let_def intro!: reads_intros split: prod.split option.split)

lemma reads_priority: "reads (known_mark extra) (add_priority [''hpriority''] e c)"
  unfolding add_priority_def prio_item_def
  by (auto intro!: reads_intros split: prod.split option.split)

lemma reads_group: "reads (known_mark extra) (add_group_item [''galias''] e c)" "reads (known_mark extra) (add_group_section [''galias''] f c)"
  unfolding add_group_item_def add_group_section_def
  by (auto simp: group_keys_def Let_def intro!: reads_intros split: prod.split option.split)

lemma reads_setlist:
  assumes "\<And>p. pinfo = Some p \<Longrightarrow> fst p = [''hpriority'']" "\<And>g. ginfo = Some g \<Longrightarrow> fst g = [''galias'']"
  shows "reads (known_mark extra) (setlist ([], sec) ([''halias''], hs) pinfo ginfo c)"
  unfolding setlist_def
  using assms
  by (intro reads_bind reads_globals reads_mark reads_fold)
    (auto intro!: reads_intros reads_globals reads_server reads_priority reads_group split: option.split)

text \<open>The items of the tree, and what \<open>check_unused\<close> finds.\<close>

fun item_at :: "cfg_section \<Rightarrow> string list \<Rightarrow> bool" where
  "item_at sec [] \<longleftrightarrow> False"
| "item_at sec [k] \<longleftrightarrow> map_of (cs_items sec) k \<noteq> None"
| "item_at sec (s # p) \<longleftrightarrow> (case map_of (cs_sections sec) s of Some sec' \<Rightarrow> item_at sec' p | None \<Rightarrow> False)"

lemma check_sections_zero:
  "check_sections ms path ss = 0 \<Longrightarrow> (k, s) \<in> set ss \<Longrightarrow>
     Used_section (path @ [k]) \<in> set ms \<and> check_unused ms (path @ [k]) s = 0"
  by (induction ss) (auto split: if_splits)

lemma check_unused_zero: "check_unused ms path sec = 0 \<Longrightarrow> item_at sec p \<Longrightarrow> Used_item (path @ p) \<in> set ms"
proof (induction sec p arbitrary: path rule: item_at.induct)
  case (2 sec k)
  then show ?case by (cases sec) (auto simp: filter_empty_conv dest: map_of_SomeD)
next
  case (3 sec s t p)
  then obtain sec' where s: "map_of (cs_sections sec) s = Some sec'" "item_at sec' (t # p)" by (auto split: option.splits)
  have z: "check_unused ms (path @ [s]) sec' = 0"
    using check_sections_zero [of ms path "cs_sections sec" s sec'] 3(2) map_of_SomeD [OF s(1)] by (cases sec) auto
  show ?case using 3(1) [OF s(1) z s(2)] by simp
qed simp

section \<open>Properties\<close>

text \<open>Property C35. A configuration file is read back as it was written: the lines of a tree of sections, printed with
  its items and nested sections, are loaded to the same tree, with no error, all braces balanced and nothing
  of the file left.\<close>

theorem config_roundtrip:
  assumes "cfg_ok s"
  shows "cfg_load (show_cfg s) cs_new 0 = (s, [], 0, 0)"
  using assms by (rule load_file)


theorem config_roundtrip_witness:
  "cfg_load (show_cfg (Cfg_section [(''case'', ''1'')] [(''halias'', Cfg_section [] [(''h'', Cfg_section [(''addr'', ''news''), (''id'', ''1'')] [])])]))
     cs_new 0 =
   (Cfg_section [(''case'', ''1'')] [(''halias'', Cfg_section [] [(''h'', Cfg_section [(''addr'', ''news''), (''id'', ''1'')] [])])], [], 0, 0)"
  by (rule config_roundtrip) (simp add: smap_ok_def item_name_ok_def)

end
