(* ===== verification/Options.thy ===== *)
theory Options
  imports Config Retrieve Etree
begin

text \<open>
  The options of the program (\<open>nget_options\<close> in \<open>nget.h\<close> and \<open>nget.cc\<close>): the flags, what the settings of
  single options accept, and the change into a directory that may have to be made first
  (\<open>maybe_mkdir_chdir\<close>). What the system says of directories is an argument; it depends on the directories
  made so far. That the current directory can be read and be entered again is taken for granted. The
  lemmas: which directories are made, and that never more are made than allowed.
\<close>

section \<open>Flags and options\<close>

definition GETFILES_CASESENSITIVE :: "32 word" where "GETFILES_CASESENSITIVE = 1"
definition GETFILES_GETINCOMPLETE :: "32 word" where "GETFILES_GETINCOMPLETE = 2"
definition GETFILES_NODUPEIDCHECK :: "32 word" where "GETFILES_NODUPEIDCHECK = 4"
definition GETFILES_NODUPEFILECHECK :: "32 word" where "GETFILES_NODUPEFILECHECK = 128"
definition GETFILES_DUPEFILEMARK :: "32 word" where "GETFILES_DUPEFILEMARK = 256"
definition GETFILES_NOAUTOPAR :: "32 word" where "GETFILES_NOAUTOPAR = 4096"
definition GETFILES_NODECODE :: "32 word" where "GETFILES_NODECODE = 8"
definition GETFILES_KEEPTEMP :: "32 word" where "GETFILES_KEEPTEMP = 16"
definition GETFILES_TEMPSHORTNAMES :: "32 word" where "GETFILES_TEMPSHORTNAMES = 32"
definition GETFILES_NOCONNECT :: "32 word" where "GETFILES_NOCONNECT = 64"
definition GETFILES_TESTMODE :: "32 word" where "GETFILES_TESTMODE = 512"
definition GETFILES_MARK :: "32 word" where "GETFILES_MARK = 1024"
definition GETFILES_UNMARK :: "32 word" where "GETFILES_UNMARK = 2048"

named_theorems flag_defs

lemmas [flag_defs] = GETFILES_CASESENSITIVE_def GETFILES_GETINCOMPLETE_def GETFILES_NODUPEIDCHECK_def
  GETFILES_NODUPEFILECHECK_def GETFILES_DUPEFILEMARK_def GETFILES_NOAUTOPAR_def GETFILES_NODECODE_def
  GETFILES_KEEPTEMP_def GETFILES_TEMPSHORTNAMES_def GETFILES_NOCONNECT_def GETFILES_TESTMODE_def
  GETFILES_MARK_def GETFILES_UNMARK_def

definition has_flag :: "32 word \<Rightarrow> 32 word \<Rightarrow> bool" where
  "has_flag fl f \<longleftrightarrow> and fl f \<noteq> 0"

definition set_flag :: "32 word \<Rightarrow> 32 word \<Rightarrow> 32 word" where
  "set_flag f fl = or fl f"

definition clear_flag :: "32 word \<Rightarrow> 32 word \<Rightarrow> 32 word" where
  "clear_flag f fl = and fl (not f)"

datatype cmd_mode = RETRIEVE_MODE | GROUPLIST_MODE | NOCACHE_RETRIEVE_MODE | NOCACHE_GROUPLIST_MODE

record nget_options =
  og_maxretry :: int
  og_retrydelay :: int
  og_linelimit :: ulong
  og_maxlinelimit :: ulong
  og_gflags :: "32 word"
  og_bad_host :: bool
  og_bad_path :: bool
  og_bad_temppath :: bool
  og_test_multi :: show_multiserver
  og_retr_show_multi :: show_multiserver
  og_makedirs :: int
  og_cmdmode :: cmd_mode
  og_groups :: "group_ptr option list"
  og_host :: "server_ptr option"
  og_bindaddr :: string
  og_path :: string
  og_startpath :: string
  og_temppath :: string
  og_dupepaths :: "string list"
  og_writelite :: string
  og_texthandling :: text_handling
  og_save_text_for_binaries :: bool
  og_mboxfname :: string
  og_fullxover :: int

definition on_flags :: "(32 word \<Rightarrow> 32 word) \<Rightarrow> nget_options \<Rightarrow> nget_options" where
  "on_flags f opts = opts\<lparr>og_gflags := f (og_gflags opts)\<rparr>"

definition badskip :: "nget_options \<Rightarrow> bool" where
  "badskip opts \<longleftrightarrow> og_bad_host opts \<or> og_bad_path opts \<or> og_bad_temppath opts"

text \<open>\<open>get_path\<close> and \<open>get_temppath\<close> with the current directory.\<close>

definition get_path :: "string \<Rightarrow> nget_options \<Rightarrow> nget_options" where
  "get_path cwd opts = opts\<lparr>og_path := cwd\<rparr>"

definition get_temppath :: "string \<Rightarrow> nget_options \<Rightarrow> nget_options" where
  "get_temppath cwd opts = opts\<lparr>og_temppath := path_append cwd []\<rparr>"

definition nget_options_new :: "string \<Rightarrow> nget_options" where
  "nget_options_new cwd =
     \<lparr>og_maxretry = 20, og_retrydelay = 1, og_linelimit = 0, og_maxlinelimit = ULONG_MAX, og_gflags = 0,
      og_bad_host = False, og_bad_path = False, og_bad_temppath = False,
      og_test_multi = NO_SHOW_MULTI, og_retr_show_multi = SHOW_MULTI_LONG, og_makedirs = 0, og_cmdmode = RETRIEVE_MODE,
      og_groups = [], og_host = None, og_bindaddr = [], og_path = cwd, og_startpath = cwd,
      og_temppath = path_append cwd [], og_dupepaths = [], og_writelite = [], og_texthandling = TEXT_FILES,
      og_save_text_for_binaries = False, og_mboxfname = ''nget.mbox'', og_fullxover = - 1\<rparr>"

section \<open>Settings\<close>

text \<open>The flags after the letters, the number of user errors, and whether the first of them ended the program.\<close>

fun parse_dupe_flags :: "bool \<Rightarrow> string \<Rightarrow> 32 word \<Rightarrow> 32 word \<times> nat \<times> bool" where
  "parse_dupe_flags fatal [] fl = (fl, 0, False)"
| "parse_dupe_flags fatal (c # cs) fl =
     (if c = CHR ''i'' then parse_dupe_flags fatal cs (clear_flag GETFILES_NODUPEIDCHECK fl)
      else if c = CHR ''I'' then parse_dupe_flags fatal cs (set_flag GETFILES_NODUPEIDCHECK fl)
      else if c = CHR ''f'' then parse_dupe_flags fatal cs (clear_flag GETFILES_NODUPEFILECHECK fl)
      else if c = CHR ''F'' then parse_dupe_flags fatal cs (set_flag GETFILES_NODUPEFILECHECK fl)
      else if c = CHR ''m'' then parse_dupe_flags fatal cs (set_flag GETFILES_DUPEFILEMARK fl)
      else if c = CHR ''M'' then parse_dupe_flags fatal cs (clear_flag GETFILES_DUPEFILEMARK fl)
      else if fatal then (fl, 1, True)
      else (case parse_dupe_flags fatal cs fl of (fl', n, t) \<Rightarrow> (fl', Suc n, t)))"

text \<open>The other settings give the new options, or \<open>None\<close> for a user error; without a string nothing happens.\<close>

definition set_save_text_for_binaries :: "string option \<Rightarrow> nget_options \<Rightarrow> nget_options option" where
  "set_save_text_for_binaries arg opts =
     (case arg of
        None \<Rightarrow> Some opts
      | Some s \<Rightarrow>
          if strcaseeq s ''yes'' then Some (opts\<lparr>og_save_text_for_binaries := True\<rparr>)
          else if strcaseeq s ''no'' then Some (opts\<lparr>og_save_text_for_binaries := False\<rparr>)
          else None)"

definition set_text_handling :: "string option \<Rightarrow> nget_options \<Rightarrow> nget_options option" where
  "set_text_handling arg opts =
     (case arg of
        None \<Rightarrow> Some opts
      | Some s \<Rightarrow>
          if strcaseeq s ''files'' then Some (opts\<lparr>og_texthandling := TEXT_FILES\<rparr>)
          else if strcaseeq s ''mbox'' then Some (opts\<lparr>og_texthandling := TEXT_MBOX\<rparr>)
          else if strcaseeq (take 5 s) ''mbox:'' then Some (opts\<lparr>og_texthandling := TEXT_MBOX, og_mboxfname := drop 5 s\<rparr>)
          else if strcaseeq s ''ignore'' then Some (opts\<lparr>og_texthandling := TEXT_IGNORE\<rparr>)
          else None)"

definition set_test_multi :: "string option \<Rightarrow> nget_options \<Rightarrow> nget_options option" where
  "set_test_multi arg opts =
     (case arg of
        None \<Rightarrow> Some opts
      | Some s \<Rightarrow>
          if strcaseeq s ''short'' then Some (opts\<lparr>og_test_multi := SHOW_MULTI_SHORT\<rparr>)
          else if strcaseeq s ''long'' then Some (opts\<lparr>og_test_multi := SHOW_MULTI_LONG\<rparr>)
          else if strcaseeq s ''no'' then Some (opts\<lparr>og_test_multi := NO_SHOW_MULTI\<rparr>)
          else None)"

definition MAKEDIRS_YES :: int where "MAKEDIRS_YES = - 1"
definition MAKEDIRS_ASK :: int where "MAKEDIRS_ASK = - 2"

definition set_makedirs :: "string option \<Rightarrow> nget_options \<Rightarrow> nget_options option" where
  "set_makedirs arg opts =
     (case arg of
        None \<Rightarrow> Some opts
      | Some s \<Rightarrow>
          if strcaseeq s ''yes'' then Some (opts\<lparr>og_makedirs := MAKEDIRS_YES\<rparr>)
          else if strcaseeq s ''ask'' then Some (opts\<lparr>og_makedirs := MAKEDIRS_ASK\<rparr>)
          else if strcaseeq s ''no'' then Some (opts\<lparr>og_makedirs := 0\<rparr>)
          else
            (case strtol10 s of (n, erp) \<Rightarrow>
               if s = [] \<or> erp \<noteq> [] \<or> int32 n < 0 then None else Some (opts\<lparr>og_makedirs := int32 n\<rparr>)))"

section \<open>Making directories\<close>

text \<open>What the system answers, from the directories made so far, each with the current directory it was made
  in, and the current directory: where a change of the directory leads, and whether one can be made.\<close>

datatype chdir_end = Changed string | No_entry | Refused

record dir_system =
  sy_chdir :: "(string \<times> string) list \<Rightarrow> string \<Rightarrow> string \<Rightarrow> chdir_end"
  sy_mkdir :: "(string \<times> string) list \<Rightarrow> string \<Rightarrow> string \<Rightarrow> bool"

record dirs =
  dr_made :: "(string \<times> string) list"
  dr_cwd :: string

definition sys_chdir :: "dir_system \<Rightarrow> dirs \<Rightarrow> string \<Rightarrow> chdir_end" where
  "sys_chdir sy d p = sy_chdir sy (dr_made d) (dr_cwd d) p"

definition direxists :: "dir_system \<Rightarrow> dirs \<Rightarrow> string \<Rightarrow> bool" where
  "direxists sy d p = (case sys_chdir sy d p of Changed _ \<Rightarrow> True | _ \<Rightarrow> False)"

lemma path_split_loop_shorter: "length (fst (path_split_loop r t)) \<le> length r"
  by (induction r t rule: path_split_loop.induct) (auto simp: Let_def split: if_splits)

lemma path_split_shorter: "p \<noteq> [] \<Longrightarrow> length (fst (path_split p)) < length p"
proof -
  assume "p \<noteq> []"
  then obtain c r where r: "rev p = c # r" by (cases "rev p") auto
  have "length (fst (path_split_loop (c # r) [])) \<le> length r"
    using path_split_loop_shorter [of r] by (auto simp: Let_def)
  moreover have "length p = Suc (length r)" using arg_cong [OF r, of length] by simp
  ultimately show ?thesis using r by (simp add: path_split_def)
qed

function missing_parts :: "dir_system \<Rightarrow> dirs \<Rightarrow> string \<Rightarrow> string list \<Rightarrow> string \<times> string list" where
  "missing_parts sy d head tails =
     (if head \<noteq> [] \<and> \<not> direxists sy d head
      then missing_parts sy d (fst (path_split head)) (snd (path_split head) # tails)
      else (head, tails))"
  by pat_completeness auto
termination
  by (relation "measure (\<lambda>(sy, d, head, tails). length head)") (auto simp: path_split_shorter)

declare missing_parts.simps [simp del]

fun make_parts :: "dir_system \<Rightarrow> string \<Rightarrow> string list \<Rightarrow> dirs \<Rightarrow> bool \<times> dirs" where
  "make_parts sy head [] d = (True, d)"
| "make_parts sy head (p # ps) d =
     (let head' = path_append head p
      in if sy_mkdir sy (dr_made d) (dr_cwd d) head'
         then make_parts sy head' ps (d\<lparr>dr_made := dr_made d @ [(dr_cwd d, head')]\<rparr>)
         else (False, d))"

definition makedirs :: "dir_system \<Rightarrow> string \<Rightarrow> dirs \<Rightarrow> bool \<times> dirs" where
  "makedirs sy dir d = (case missing_parts sy d dir [] of (head, tails) \<Rightarrow> make_parts sy head tails d)"

function missing_path_tail_count :: "dir_system \<Rightarrow> dirs \<Rightarrow> string \<Rightarrow> nat" where
  "missing_path_tail_count sy d head =
     (if head \<noteq> [] \<and> \<not> direxists sy d head then Suc (missing_path_tail_count sy d (fst (path_split head))) else 0)"
  by pat_completeness auto
termination
  by (relation "measure (\<lambda>(sy, d, head). length head)") (auto simp: path_split_shorter)

declare missing_path_tail_count.simps [simp del]

text \<open>The answers of the user, at most 38 characters each; \<open>None\<close> at the end of the input.\<close>

fun fgets_line :: "nat \<Rightarrow> string \<Rightarrow> string \<times> string" where
  "fgets_line 0 input = ([], input)"
| "fgets_line (Suc n) [] = ([], [])"
| "fgets_line (Suc n) (c # input) =
     (if c = CHR 0x0A then ([c], input) else (case fgets_line n input of (l, rest) \<Rightarrow> (c # l, rest)))"

definition fgets :: "string \<Rightarrow> (string \<times> string) option" where
  "fgets input = (if input = [] then None else Some (fgets_line 38 input))"

lemma fgets_line_shorter: "length (snd (fgets_line n input)) \<le> length input"
  by (induction n input rule: fgets_line.induct) (auto split: prod.split)

lemma fgets_shorter: "fgets input = Some (l, rest) \<Longrightarrow> length rest < length input"
  using fgets_line_shorter [of 37 "tl input"]
  by (cases input) (auto simp: fgets_def numeral_eq_Suc [of "num.Bit0 num.One"] eval_nat_numeral split: if_splits prod.splits)

function ask_loop :: "int \<Rightarrow> string \<Rightarrow> bool \<times> string" where
  "ask_loop missing input =
     (case fgets input of
        None \<Rightarrow> (False, [])
      | Some (l, rest) \<Rightarrow>
          (let buf = takeWhile (\<lambda>c. c \<noteq> CHR 0x0D \<and> c \<noteq> CHR 0x0A) (cstr l)
           in if strcaseeq buf ''yes'' \<or> strcaseeq buf ''y'' then (True, rest)
              else if strcaseeq buf ''no'' \<or> strcaseeq buf ''n'' then (False, rest)
              else
                (case strtol10 buf of (n, erp) \<Rightarrow>
                   if buf \<noteq> [] \<and> erp = [] then (int32 n \<ge> missing, rest) else ask_loop missing rest)))"
  by pat_completeness auto
termination
  by (relation "measure (\<lambda>(missing, input). length input)") (auto dest: fgets_shorter)

declare ask_loop.simps [simp del]

text \<open>The change is made, or not; the assertion that something is missing may fail.\<close>

datatype mkdir_end = Dir_changed | Dir_failed | Dir_assertion

definition maybe_mkdir_chdir :: "dir_system \<Rightarrow> string \<Rightarrow> int \<Rightarrow> dirs \<times> string \<Rightarrow> mkdir_end \<times> dirs \<times> string" where
  "maybe_mkdir_chdir sy dir makedir = (\<lambda>(d, input).
     (case sys_chdir sy d dir of
        Changed c \<Rightarrow> (Dir_changed, d\<lparr>dr_cwd := c\<rparr>, input)
      | Refused \<Rightarrow> (Dir_failed, d, input)
      | No_entry \<Rightarrow>
          if makedir = 0 then (Dir_failed, d, input)
          else
            (let missing = missing_path_tail_count sy d dir
             in if missing = 0 then (Dir_assertion, d, input)
                else
                  (case (if makedir = MAKEDIRS_ASK then ask_loop (int missing) input
                         else (makedir = MAKEDIRS_YES \<or> makedir \<ge> int missing, input)) of
                     (False, input') \<Rightarrow> (Dir_failed, d, input')
                   | (True, input') \<Rightarrow>
                       (case makedirs sy dir d of
                          (False, d') \<Rightarrow> (Dir_failed, d', input')
                        | (True, d') \<Rightarrow>
                            (case sys_chdir sy d' dir of
                               Changed c \<Rightarrow> (Dir_changed, d'\<lparr>dr_cwd := c\<rparr>, input')
                             | _ \<Rightarrow> (Dir_failed, d', input')))))))"


section \<open>Which directories are made\<close>

lemma missing_parts_count: "length (snd (missing_parts sy d head tails)) = missing_path_tail_count sy d head + length tails"
proof (induction sy d head tails rule: missing_parts.induct)
  case (1 sy d head tails)
  show ?case
  proof (cases "head \<noteq> [] \<and> \<not> direxists sy d head")
    case True
    then show ?thesis using 1 by (simp add: missing_parts.simps [of sy d head] missing_path_tail_count.simps [of sy d head])
  next
    case False
    then show ?thesis by (subst missing_parts.simps, subst missing_path_tail_count.simps) auto
  qed
qed

lemma make_parts_made:
  "make_parts sy head ps d = (b, d') \<Longrightarrow>
     \<exists>new. dr_made d' = dr_made d @ new \<and> length new \<le> length ps \<and> (b \<longrightarrow> length new = length ps) \<and>
       (\<forall>e \<in> set new. fst e = dr_cwd d) \<and> dr_cwd d' = dr_cwd d"
proof (induction sy head ps d rule: make_parts.induct)
  case (2 sy head p ps d)
  let ?h = "path_append head p" let ?d = "d\<lparr>dr_made := dr_made d @ [(dr_cwd d, path_append head p)]\<rparr>"
  show ?case
  proof (cases "sy_mkdir sy (dr_made d) (dr_cwd d) ?h")
    case True
    then have "make_parts sy ?h ps ?d = (b, d')" using 2(2) by (simp add: Let_def)
    from 2(1) [OF refl True this] obtain new where n: "dr_made d' = dr_made ?d @ new" "length new \<le> length ps"
      "b \<longrightarrow> length new = length ps" "\<forall>e \<in> set new. fst e = dr_cwd ?d" "dr_cwd d' = dr_cwd ?d" by blast
    show ?thesis by (rule exI [of _ "(dr_cwd d, ?h) # new"]) (use n in auto)
  qed (use 2(2) in \<open>auto simp: Let_def\<close>)
qed auto

lemma makedirs_made:
  assumes "makedirs sy dir d = (b, d')"
  shows "\<exists>new. dr_made d' = dr_made d @ new \<and> length new \<le> missing_path_tail_count sy d dir \<and>
    (\<forall>e \<in> set new. fst e = dr_cwd d) \<and> dr_cwd d' = dr_cwd d"
proof -
  obtain head tails where m: "missing_parts sy d dir [] = (head, tails)" by (cases "missing_parts sy d dir []")
  have "length tails = missing_path_tail_count sy d dir" using missing_parts_count [of sy d dir "[]"] m by simp
  then show ?thesis using make_parts_made [of sy head tails d b d'] assms m by (auto simp: makedirs_def)
qed

lemma no_entry_missing: "sys_chdir sy d dir = No_entry \<Longrightarrow> missing_path_tail_count sy d dir = 0 \<longleftrightarrow> dir = []"
  by (subst missing_path_tail_count.simps) (simp add: direxists_def)


text \<open>A system in which the directory \<open>/h\<close> is there, and every directory that was made.\<close>

definition example_system :: dir_system where
  "example_system =
     \<lparr>sy_chdir = (\<lambda>made cwd p. if p = ''/h'' \<or> (cwd, p) \<in> set made then Changed (''/h/'' @ p) else No_entry),
      sy_mkdir = (\<lambda>made cwd p. True)\<rparr>"

lemma example_chdir: "fst (maybe_mkdir_chdir example_system ''a/b'' 2 (\<lparr>dr_made = [], dr_cwd = ''/h''\<rparr>, [])) = Dir_changed"
  by (simp add: maybe_mkdir_chdir_def sys_chdir_def example_system_def missing_path_tail_count.simps missing_parts.simps
      direxists_def path_split_def is_pathsep_def MAKEDIRS_ASK_def MAKEDIRS_YES_def makedirs_def path_append_def PATHSEP_def Let_def)


end
