(* ===== verification/Nget.thy ===== *)
theory Nget
  imports Options Fetch
begin

text \<open>
  The program as a whole (\<open>nget.cc\<close>): the configuration is read, then the options are worked off one after
  the other. Requests for files and for groups are gathered and made when an option comes that is a command;
  a list of options may be in a file, and is worked off with the options as they are. The library that takes
  the command line apart is an argument, as are the environment, the directories, and what the components
  take from elsewhere. The lemmas: which settings are reported, what holds of the gathered requests, how a
  run ends and what its exit status tells.
\<close>

section \<open>The state\<close>

text \<open>What the command line library makes of the words.\<close>

datatype nget_opt =
  Opt_quiet | Opt_host string | Opt_bindaddr string | Opt_available | Opt_quickavailable | Opt_xavailable
| Opt_group string | Opt_quickgroup string | Opt_xgroup string | Opt_flushserver string
| Opt_expretrieve string | Opt_retrieve string | Opt_list string | Opt_path string | Opt_temppath string
| Opt_dupepath string | Opt_makedirs string | Opt_testmode | Opt_test_multi string | Opt_fullxover string
| Opt_text string | Opt_save_binary_info string | Opt_tries string | Opt_delay string | Opt_timeout string
| Opt_limit string | Opt_maxlines string | Opt_incomplete | Opt_complete | Opt_decode | Opt_keep | Opt_no_decode
| Opt_case | Opt_nocase | Opt_dupecheck string | Opt_nodupecheck | Opt_autopar | Opt_no_autopar | Opt_mark | Opt_unmark
| Opt_writelite string | Opt_noconnect | Opt_help | Opt_error | Opt_arg string

record 'u nget_env =
  ne_retr :: "'u retr_env"
  ne_rx :: regex_subs
  ne_rxcomp :: "bool \<Rightarrow> string \<Rightarrow> bool"
  ne_clock :: clock
  ne_date :: string
  ne_sys :: dir_system
  ne_opendir :: "(string \<Rightarrow> string option) \<Rightarrow> string \<Rightarrow> string list option"
  ne_popt :: "bool \<Rightarrow> string list \<Rightarrow> nget_opt list"
  ne_getenv :: "string \<Rightarrow> string option"

text \<open>How a run is left: user errors are fatal, another exception, a call of \<open>exit\<close>, or the end of the process.\<close>

datatype run_ex = User_fatal | Raised | Exits | Dead

definition ex_of_comm :: "comm_ex \<Rightarrow> run_ex" where
  "ex_of_comm e = (if e = Crash then Dead else Raised)"

definition ex_of_retr :: "retr_ex \<Rightarrow> run_ex" where
  "ex_of_retr e = (case e of Fatal c \<Rightarrow> ex_of_comm c | FatalExit \<Rightarrow> Exits | Endless \<Rightarrow> Dead | _ \<Rightarrow> Raised)"

text \<open>The requests that are gathered wait for the configuration.\<close>

record args_state =
  ag_options :: nget_options
  ag_getinfos :: "(nget_config \<Rightarrow> getinfo) list"
  ag_pats :: "(string \<times> string) list"
  ag_gpreds :: "group_cmp pred list"
  ag_nntp :: nntp
  ag_dirs :: dirs
  ag_input :: string
  ag_quiet :: int
  ag_timeout :: int
  ag_rands :: nat
  ag_out :: string
  ag_home :: string
  ag_cachehome :: string

type_synonym 'a args = "args_state \<Rightarrow> (run_ex + 'a) \<times> args_state"

definition args_return :: "'a \<Rightarrow> 'a args" where
  "args_return x s = (Inr x, s)"

definition args_throw :: "run_ex \<Rightarrow> 'a args" where
  "args_throw e s = (Inl e, s)"

definition args_bind :: "'a args \<Rightarrow> ('a \<Rightarrow> 'b args) \<Rightarrow> 'b args" where
  "args_bind m f s = (case m s of (Inl e, s') \<Rightarrow> (Inl e, s') | (Inr x, s') \<Rightarrow> f x s')"

definition args_modify :: "(args_state \<Rightarrow> args_state) \<Rightarrow> unit args" where
  "args_modify f s = (Inr (), f s)"

definition args_cfg :: "args_state \<Rightarrow> nget_config" where
  "args_cfg s = po_config (nn_pool (ag_nntp s))"

definition on_options :: "(nget_options \<Rightarrow> nget_options) \<Rightarrow> unit args" where
  "on_options f = args_modify (\<lambda>s. s\<lparr>ag_options := f (ag_options s)\<rparr>)"

definition put_status :: "status \<Rightarrow> args_state \<Rightarrow> args_state" where
  "put_status st s = s\<lparr>ag_nntp := (ag_nntp s)\<lparr>nn_status := st\<rparr>\<rparr>"

definition args_user_error :: "unit args" where
  "args_user_error s =
     (case set_user_error_status_and_do_fatal_user_error (args_cfg s) 1 (nn_status (ag_nntp s)) of
        (thrown, st) \<Rightarrow> (if thrown then Inl User_fatal else Inr (), put_status st s))"

definition args_path_error :: "unit args" where
  "args_path_error s =
     (case set_path_error_status_and_do_fatal_user_error (args_cfg s) 1 (nn_status (ag_nntp s)) of
        (thrown, st) \<Rightarrow> (if thrown then Inl User_fatal else Inr (), put_status st s))"

definition args_comm :: "(nntp, 'a) comm \<Rightarrow> 'a args" where
  "args_comm m s =
     (case m (ag_nntp s) of
        (Inl e, n) \<Rightarrow> (Inl (ex_of_comm e), s\<lparr>ag_nntp := n\<rparr>)
      | (Inr x, n) \<Rightarrow> (Inr x, s\<lparr>ag_nntp := n\<rparr>))"

section \<open>What the components see of the options\<close>

definition nntp_opts :: "args_state \<Rightarrow> nntp_options" where
  "nntp_opts s = \<lparr>no_maxretry = og_maxretry (ag_options s), no_bindaddr = og_bindaddr (ag_options s),
     no_fullxover = og_fullxover (ag_options s), no_cachehome = ag_cachehome s\<rparr>"

definition opts_flag :: "args_state \<Rightarrow> 32 word \<Rightarrow> bool" where
  "opts_flag s f \<longleftrightarrow> has_flag (og_gflags (ag_options s)) f"

definition decode_opts :: "args_state \<Rightarrow> decode_options" where
  "decode_opts s = \<lparr>do_keeptemp = opts_flag s GETFILES_KEEPTEMP, do_nodupefilecheck = opts_flag s GETFILES_NODUPEFILECHECK,
     do_texthandling = og_texthandling (ag_options s), do_save_text_for_binaries = og_save_text_for_binaries (ag_options s),
     do_mboxfname = og_mboxfname (ag_options s)\<rparr>"

definition retr_opts :: "args_state \<Rightarrow> retr_options" where
  "retr_opts s = \<lparr>ro_nntp = nntp_opts s, ro_decode = decode_opts s,
     ro_getincomplete = opts_flag s GETFILES_GETINCOMPLETE, ro_noautopar = opts_flag s GETFILES_NOAUTOPAR,
     ro_nodecode = opts_flag s GETFILES_NODECODE, ro_tempshortnames = opts_flag s GETFILES_TEMPSHORTNAMES,
     ro_noconnect = opts_flag s GETFILES_NOCONNECT, ro_testmode = opts_flag s GETFILES_TESTMODE,
     ro_mark = opts_flag s GETFILES_MARK, ro_unmark = opts_flag s GETFILES_UNMARK,
     ro_writelite = og_writelite (ag_options s), ro_test_multi = og_test_multi (ag_options s),
     ro_retr_show_multi = og_retr_show_multi (ag_options s)\<rparr>"

text \<open>A request for files is made with the flags, the paths and the files on disk of its time. A directory that
  cannot be listed ends the program.\<close>

definition the_trust :: "nget_config \<Rightarrow> prio_grouping" where
  "the_trust cfg = (case trustsizes cfg of Some pg \<Rightarrow> pg | None \<Rightarrow> prio_grouping_new ''trustsizes'')"

definition new_getinfo :: "'u nget_env \<Rightarrow> file_cmp pred \<Rightarrow> unit args" where
  "new_getinfo env p s =
     (let opts = ag_options s; fs = nn_files (ag_nntp s); paths = og_dupepaths opts @ [og_path opts];
          nocheck = opts_flag s GETFILES_NODUPEFILECHECK;
          info = (\<lambda>cfg. getinfo_flist (en_wbeg (re_par (ne_retr env))) (en_wend (re_par (ne_retr env)))
            (\<lambda>fn. map_option (\<lambda>c. of_nat (length c)) (fs fn)) (\<lambda>d. the (ne_opendir env fs d)) (og_dupepaths opts)
            \<lparr>gi_path = og_path opts, gi_temppath = og_temppath opts,
             gi_pred = eval_pred (file_cmp_holds (ne_rx env) cfg (the_trust cfg)) p,
             gi_getincomplete = opts_flag s GETFILES_GETINCOMPLETE, gi_nodupeidcheck = opts_flag s GETFILES_NODUPEIDCHECK,
             gi_nodupefilecheck = nocheck, gi_dupefilemark = opts_flag s GETFILES_DUPEFILEMARK,
             gi_noautopar = opts_flag s GETFILES_NOAUTOPAR, gi_testmode = opts_flag s GETFILES_TESTMODE,
             gi_mark = opts_flag s GETFILES_MARK, gi_unmark = opts_flag s GETFILES_UNMARK,
             gi_nodecode = opts_flag s GETFILES_NODECODE, gi_flist = []\<rparr>)
      in if \<not> nocheck \<and> (\<exists>d \<in> set paths. ne_opendir env fs d = None) then (Inl Raised, s)
         else (Inr (), s\<lparr>ag_getinfos := ag_getinfos s @ [info]\<rparr>))"

section \<open>Requests\<close>

definition retrieve_words :: "nget_options \<Rightarrow> string \<Rightarrow> string list" where
  "retrieve_words opts arg =
     (let w0 = [''subject'', arg, ''=~''];
          w1 = (if og_linelimit opts > 0
                then [''lines'', show_ulong (og_linelimit opts), ''>=''] @ w0 @ [''&&''] else w0)
      in if og_maxlinelimit opts < ULONG_MAX
         then [''lines'', show_ulong (og_maxlinelimit opts), ''<=''] @ w1 @ [''&&''] else w1)"

definition group_words :: "string \<Rightarrow> string list" where
  "group_words arg = [''group'', arg, ''=~'', ''desc'', arg, ''=~'', ''||'']"

text \<open>An error in the regular expression is the user's; any other is not caught here.\<close>

definition regex_error :: "etree_error \<Rightarrow> unit args" where
  "regex_error e = (case e of Regex_error _ \<Rightarrow> args_user_error | _ \<Rightarrow> args_throw Raised)"

definition case_flag :: "args_state \<Rightarrow> bool" where
  "case_flag s = opts_flag s GETFILES_CASESENSITIVE"

definition add_gpred :: "group_cmp pred \<Rightarrow> unit args" where
  "add_gpred p = args_modify (\<lambda>s. s\<lparr>ag_gpreds := ag_gpreds s @ [p]\<rparr>)"

definition add_pat :: "string \<Rightarrow> string \<Rightarrow> unit args" where
  "add_pat field wildmat = args_modify (\<lambda>s. s\<lparr>ag_pats := ag_pats s @ [(field, wildmat)]\<rparr>)"

text \<open>The pattern for the server is noted first, then the request is made: an error in between leaves the pattern.\<close>

definition pattern_then :: "bool \<Rightarrow> string \<Rightarrow> string \<Rightarrow> unit args \<Rightarrow> unit args" where
  "pattern_then nocache field arg m s =
     (if nocache
      then (case regex2wildmat arg (\<not> case_flag s) of
              Inl e \<Rightarrow> args_user_error s
            | Inr w \<Rightarrow> args_bind (add_pat field w) (\<lambda>_. m) s)
      else m s)"

definition retrieve_groups :: "'u nget_env \<Rightarrow> string \<Rightarrow> unit args" where
  "retrieve_groups env arg s =
     pattern_then (og_cmdmode (ag_options s) = NOCACHE_GROUPLIST_MODE) [] arg
       (\<lambda>s. case make_grouplist_pred (ne_rxcomp env) (group_words arg) (case_flag s) of
              Inl e \<Rightarrow> regex_error e s
            | Inr p \<Rightarrow> add_gpred p s) s"

definition retrieve_files :: "'u nget_env \<Rightarrow> string \<Rightarrow> unit args" where
  "retrieve_files env arg s =
     pattern_then (og_cmdmode (ag_options s) = NOCACHE_RETRIEVE_MODE) ''Subject'' arg
       (\<lambda>s. case make_nntpfile_pred (ne_rxcomp env) (ne_rx env) (ne_clock env) (retrieve_words (ag_options s) arg) (case_flag s) of
              Inl e \<Rightarrow> regex_error e s
            | Inr p \<Rightarrow> new_getinfo env p s) s"

definition opt_retrieve :: "'u nget_env \<Rightarrow> string \<Rightarrow> unit args" where
  "opt_retrieve env arg s =
     (if og_cmdmode (ag_options s) = GROUPLIST_MODE \<or> og_cmdmode (ag_options s) = NOCACHE_GROUPLIST_MODE
      then retrieve_groups env arg s
      else if badskip (ag_options s) then (Inr (), s)
      else if og_groups (ag_options s) = [] then args_user_error s
      else retrieve_files env arg s)"

definition opt_expretrieve :: "'u nget_env \<Rightarrow> string \<Rightarrow> unit args" where
  "opt_expretrieve env arg s =
     (if og_cmdmode (ag_options s) = NOCACHE_GROUPLIST_MODE then args_user_error s
      else if og_cmdmode (ag_options s) = GROUPLIST_MODE
      then (case make_grouplist_pred_str (ne_rxcomp env) arg (case_flag s) of
              Inl e \<Rightarrow> args_user_error s
            | Inr p \<Rightarrow> add_gpred p s)
      else if badskip (ag_options s) then (Inr (), s)
      else if og_cmdmode (ag_options s) = NOCACHE_RETRIEVE_MODE \<or> og_groups (ag_options s) = [] then args_user_error s
      else (case make_nntpfile_pred_str (ne_rxcomp env) (ne_rx env) (ne_clock env) arg (case_flag s) of
              Inl e \<Rightarrow> args_user_error s
            | Inr p \<Rightarrow> new_getinfo env p s))"

section \<open>Settings\<close>

definition args_checked :: "(nget_options \<Rightarrow> nget_options option) \<Rightarrow> unit args" where
  "args_checked f s =
     (case f (ag_options s) of None \<Rightarrow> args_user_error s | Some opts \<Rightarrow> (Inr (), s\<lparr>ag_options := opts\<rparr>))"

definition args_parsed :: "parsestr_error + 'a \<Rightarrow> ('a \<Rightarrow> args_state \<Rightarrow> args_state) \<Rightarrow> unit args" where
  "args_parsed r upd s = (case r of Inl e \<Rightarrow> args_user_error s | Inr x \<Rightarrow> (Inr (), upd x s))"

definition args_dupe_flags :: "string \<Rightarrow> unit args" where
  "args_dupe_flags arg s =
     (case parse_dupe_flags (fatal_user_errors (args_cfg s)) arg (og_gflags (ag_options s)) of
        (fl, n, thrown) \<Rightarrow>
          (if thrown then Inl User_fatal else Inr (),
           put_status (set_error_status ST_user (int n) (nn_status (ag_nntp s))) (s\<lparr>ag_options := (ag_options s)\<lparr>og_gflags := fl\<rparr>\<rparr>)))"

definition back_to_start :: "'u nget_env \<Rightarrow> unit args" where
  "back_to_start env s =
     (case sys_chdir (ne_sys env) (ag_dirs s) (og_startpath (ag_options s)) of
        Changed c \<Rightarrow> (Inr (), s\<lparr>ag_dirs := (ag_dirs s)\<lparr>dr_cwd := c\<rparr>\<rparr>)
      | _ \<Rightarrow> (Inl Raised, put_status (set_error_status ST_path 1 (nn_status (ag_nntp s))) s))"

text \<open>A change of a path: \<open>ok\<close> is done in the new directory.\<close>

definition change_path ::
  "'u nget_env \<Rightarrow> string \<Rightarrow> (string \<Rightarrow> nget_options \<Rightarrow> nget_options) \<Rightarrow> (nget_options \<Rightarrow> nget_options) \<Rightarrow> unit args" where
  "change_path env dir ok bad s =
     (case maybe_mkdir_chdir (ne_sys env) dir (og_makedirs (ag_options s)) (ag_dirs s, ag_input s) of
        (r, d, input) \<Rightarrow>
          (let s1 = s\<lparr>ag_dirs := d, ag_input := input\<rparr>
           in case r of
                Dir_changed \<Rightarrow> args_bind (on_options (ok (dr_cwd d))) (\<lambda>_. back_to_start env) s1
              | Dir_failed \<Rightarrow>
                  (case args_path_error s1 of
                     (Inl e, s2) \<Rightarrow> (Inl e, s2)
                   | (Inr _, s2) \<Rightarrow> on_options bad s2)
              | Dir_assertion \<Rightarrow> (Inl Dead, s1)))"

definition opt_dupepath :: "'u nget_env \<Rightarrow> string \<Rightarrow> unit args" where
  "opt_dupepath env dir s =
     (if direxists (ne_sys env) (ag_dirs s) dir
      then on_options (\<lambda>opts. opts\<lparr>og_dupepaths := og_dupepaths opts @ [dir]\<rparr>) s else args_path_error s)"

definition set_flags :: "(32 word \<Rightarrow> 32 word) \<Rightarrow> unit args" where
  "set_flags f = on_options (on_flags f)"

definition opt_tries :: "string \<Rightarrow> unit args" where
  "opt_tries arg =
     args_parsed (int_in (- 1) int_max arg)
       (\<lambda>n s. s\<lparr>ag_options := (ag_options s)\<lparr>og_maxretry := (if n \<le> 0 then int_max - 1 else n)\<rparr>\<rparr>)"

definition opt_maxlines :: "string \<Rightarrow> unit args" where
  "opt_maxlines arg =
     (if arg = ''-1'' then on_options (\<lambda>opts. opts\<lparr>og_maxlinelimit := ULONG_MAX\<rparr>)
      else args_parsed (parsestr_ulong arg) (\<lambda>n s. s\<lparr>ag_options := (ag_options s)\<lparr>og_maxlinelimit := n\<rparr>\<rparr>))"

text \<open>The options that are no commands; \<open>Opt_help\<close>, words that are no options, and the commands are looked at
  before.\<close>

fun setting :: "'u nget_env \<Rightarrow> nget_opt \<Rightarrow> unit args" where
  "setting env Opt_testmode = set_flags (set_flag GETFILES_TESTMODE)"
| "setting env (Opt_test_multi a) = args_checked (set_test_multi (Some a))"
| "setting env (Opt_text a) = args_checked (set_text_handling (Some a))"
| "setting env (Opt_save_binary_info a) = args_checked (set_save_text_for_binaries (Some a))"
| "setting env Opt_mark = set_flags (clear_flag GETFILES_UNMARK \<circ> set_flag GETFILES_MARK)"
| "setting env Opt_unmark =
     args_bind (set_flags (clear_flag GETFILES_MARK \<circ> set_flag GETFILES_UNMARK)) (\<lambda>_. args_dupe_flags ''I'')"
| "setting env (Opt_expretrieve a) = opt_expretrieve env a"
| "setting env (Opt_retrieve a) = opt_retrieve env a"
| "setting env Opt_autopar = set_flags (clear_flag GETFILES_NOAUTOPAR)"
| "setting env Opt_no_autopar = set_flags (set_flag GETFILES_NOAUTOPAR)"
| "setting env Opt_incomplete = set_flags (set_flag GETFILES_GETINCOMPLETE)"
| "setting env Opt_complete = set_flags (clear_flag GETFILES_GETINCOMPLETE)"
| "setting env Opt_keep = set_flags (set_flag GETFILES_KEEPTEMP)"
| "setting env Opt_no_decode = set_flags (set_flag GETFILES_NODECODE)"
| "setting env Opt_decode = set_flags (clear_flag (or GETFILES_NODECODE GETFILES_KEEPTEMP))"
| "setting env Opt_case = set_flags (set_flag GETFILES_CASESENSITIVE)"
| "setting env Opt_nocase = set_flags (clear_flag GETFILES_CASESENSITIVE)"
| "setting env (Opt_dupecheck a) = args_dupe_flags a"
| "setting env Opt_nodupecheck = args_dupe_flags ''FIM''"
| "setting env Opt_noconnect = set_flags (set_flag GETFILES_NOCONNECT)"
| "setting env Opt_quiet = args_modify (\<lambda>s. s\<lparr>ag_quiet := ag_quiet s + 1\<rparr>)"
| "setting env (Opt_delay a) =
     args_parsed (int_in 0 int_max a) (\<lambda>n s. s\<lparr>ag_options := (ag_options s)\<lparr>og_retrydelay := n\<rparr>\<rparr>)"
| "setting env (Opt_timeout a) = args_parsed (int_in 1 int_max a) (\<lambda>n s. s\<lparr>ag_timeout := n\<rparr>)"
| "setting env (Opt_tries a) = opt_tries a"
| "setting env (Opt_maxlines a) = opt_maxlines a"
| "setting env (Opt_limit a) =
     args_parsed (parsestr_ulong a) (\<lambda>n s. s\<lparr>ag_options := (ag_options s)\<lparr>og_linelimit := n\<rparr>\<rparr>)"
| "setting env (Opt_writelite a) = on_options (\<lambda>opts. opts\<lparr>og_writelite := a\<rparr>)"
| "setting env (Opt_makedirs a) = args_checked (set_makedirs (Some a))"
| "setting env (Opt_temppath a) =
     change_path env a (\<lambda>cwd opts. (get_temppath cwd opts)\<lparr>og_bad_temppath := False\<rparr>) (\<lambda>opts. opts\<lparr>og_bad_temppath := True\<rparr>)"
| "setting env (Opt_path a) =
     change_path env a
       (\<lambda>cwd opts. (get_temppath cwd (get_path cwd (opts\<lparr>og_dupepaths := []\<rparr>)))\<lparr>og_bad_temppath := False, og_bad_path := False\<rparr>)
       (\<lambda>opts. opts\<lparr>og_bad_temppath := True, og_bad_path := True\<rparr>)"
| "setting env (Opt_dupepath a) = opt_dupepath env a"
| "setting env (Opt_fullxover a) =
     args_parsed (int_in (- 1) 2 a) (\<lambda>n s. s\<lparr>ag_options := (ag_options s)\<lparr>og_fullxover := n\<rparr>\<rparr>)"
| "setting env Opt_error = args_user_error"
| "setting env _ = args_return ()"


section \<open>Commands\<close>

fun group_list :: "group_ptr option list \<Rightarrow> group_ptr list option" where
  "group_list [] = Some []"
| "group_list (None # gs) = None"
| "group_list (Some g # gs) = map_option (\<lambda>l. g # l) (group_list gs)"

definition run_env :: "'u nget_env \<Rightarrow> args_state \<Rightarrow> 'u retr_env" where
  "run_env env s = (ne_retr env)\<lparr>re_par := (re_par (ne_retr env))\<lparr>en_trust := the_trust (args_cfg s)\<rparr>\<rparr>"

definition the_world :: "'u nget_env \<Rightarrow> world" where
  "the_world env = re_world (ne_retr env)"

definition after_retrieve ::
  "args_state \<Rightarrow> ((retr_ex + unit) \<times> retrieving) option \<Rightarrow> ((run_ex + unit) \<times> args_state) option" where
  "after_retrieve s q =
     (case q of
        None \<Rightarrow> None
      | Some (r, rt) \<Rightarrow>
          Some (case r of Inl e \<Rightarrow> Inl (ex_of_retr e) | Inr u \<Rightarrow> Inr (),
                s\<lparr>ag_nntp := rt_nntp rt, ag_rands := rt_rands rt, ag_out := ag_out s @ rt_out rt\<rparr>))"

definition retrieve_pending :: "'u nget_env \<Rightarrow> args_state \<Rightarrow> ((run_ex + unit) \<times> args_state) option" where
  "retrieve_pending env s =
     (if ag_pats s = [] \<and> ag_getinfos s = [] then Some (Inr (), s)
      else
        (case group_list (og_groups (ag_options s)) of
           None \<Rightarrow> Some (Inl Dead, s)
         | Some gs \<Rightarrow>
             (let infos = List.map (\<lambda>i. i (args_cfg s)) (ag_getinfos s)
              in after_retrieve (s\<lparr>ag_getinfos := [], ag_pats := []\<rparr>)
                   (if ag_pats s \<noteq> []
                    then nntp_xretrieve (run_env env s) (ne_rx env) (ne_clock env) (retr_opts s) gs infos (ag_pats s) (ag_rands s) (ag_nntp s)
                    else nntp_retrieve (run_env env s) (retr_opts s) gs infos (ag_rands s) (ag_nntp s)))))"

definition search_pending :: "'u nget_env \<Rightarrow> unit args" where
  "search_pending env s =
     (if ag_gpreds s = [] then (Inr (), s)
      else
        (let preds = List.map (eval_pred (group_cmp_holds (ne_rx env))) (ag_gpreds s)
         in args_bind
              (if \<not> opts_flag s GETFILES_TESTMODE then args_user_error
               else if ag_pats s \<noteq> []
               then args_bind (args_comm (nntp_grouplist_xsearch (the_world env) (nntp_opts s) preds (List.map snd (ag_pats s))))
                      (\<lambda>out. args_modify (\<lambda>s. s\<lparr>ag_out := ag_out s @ out\<rparr>))
               else args_modify (\<lambda>s. (case nntp_grouplist_search (nntp_opts s) preds (ag_nntp s) of
                      (out, n) \<Rightarrow> s\<lparr>ag_nntp := n, ag_out := ag_out s @ out\<rparr>)))
              (\<lambda>_. args_modify (\<lambda>s. s\<lparr>ag_gpreds := [], ag_pats := []\<rparr>)) s))"

text \<open>Before a command the requests that were gathered are made: those for groups, then those for files.\<close>

definition flush_pending :: "'u nget_env \<Rightarrow> args_state \<Rightarrow> ((run_ex + unit) \<times> args_state) option" where
  "flush_pending env s =
     (case search_pending env s of
        (Inl e, s') \<Rightarrow> Some (Inl e, s')
      | (Inr _, s') \<Rightarrow> retrieve_pending env s')"

fun update_groups :: "'u nget_env \<Rightarrow> bool \<Rightarrow> group_ptr option list \<Rightarrow> (group_ptr \<Rightarrow> unit args) \<Rightarrow> unit args" where
  "update_groups env getheaders [] body = args_return ()"
| "update_groups env getheaders (None # gs) body = args_throw Dead"
| "update_groups env getheaders (Some g # gs) body =
     args_bind (\<lambda>s. args_comm (nntp_group (the_world env) (ne_rx env) (ne_clock env) (nntp_opts s) g getheaders) s) (\<lambda>_.
     args_bind (body g) (\<lambda>_. update_groups env getheaders gs body))"

text \<open>The groups of a list of names; metagroups may refer to themselves.\<close>

definition put_config :: "nget_config \<Rightarrow> args_state \<Rightarrow> args_state" where
  "put_config cfg s = s\<lparr>ag_nntp := (ag_nntp s)\<lparr>nn_pool := (nn_pool (ag_nntp s))\<lparr>po_config := cfg\<rparr>\<rparr>\<rparr>"

definition use_groups :: "'u nget_env \<Rightarrow> string \<Rightarrow> args_state \<Rightarrow> ((run_ex + unit) \<times> args_state) option" where
  "use_groups env names s =
     (case getgroups (case ne_opendir env (nn_files (ag_nntp s)) (ag_cachehome s) of Some ds \<Rightarrow> ds | None \<Rightarrow> []) names (args_cfg s) of
        None \<Rightarrow> None
      | Some (gs, cfg) \<Rightarrow>
          Some (Inr (), put_config cfg (s\<lparr>ag_options := (ag_options s)\<lparr>og_groups := gs\<rparr>\<rparr>)))"

definition set_cmdmode :: "cmd_mode \<Rightarrow> args_state \<Rightarrow> args_state" where
  "set_cmdmode m s = s\<lparr>ag_options := (ag_options s)\<lparr>og_cmdmode := m\<rparr>\<rparr>"

definition open_host :: "server_ptr option \<Rightarrow> args_state \<Rightarrow> args_state" where
  "open_host h s = s\<lparr>ag_nntp := (ag_nntp s)\<lparr>nn_force_host := h\<rparr>\<rparr>"

definition opt_host :: "string \<Rightarrow> unit args" where
  "opt_host arg s =
     (let h = (if arg = [] then None else getserver (args_cfg s) arg);
          bad = (arg \<noteq> [] \<and> h = None);
          s1 = s\<lparr>ag_options := (ag_options s)\<lparr>og_host := h, og_bad_host := bad\<rparr>\<rparr>
      in args_bind (if bad then args_user_error else args_return ()) (\<lambda>_. args_modify (open_host h)) s1)"

text \<open>The articles of a server are taken out of a group's cache.\<close>

definition flush_group_articles :: "int \<Rightarrow> ulong \<Rightarrow> nntp \<Rightarrow> nntp" where
  "flush_group_articles now sid n =
     (case (nn_cache n, nn_midinfo n) of
        (Some c, Some mm) \<Rightarrow>
          (case getserverinfo sid c of
             (si, c1) \<Rightarrow>
               (case flushlow now si ULONG_MAX mm c1 of
                  (r, mm', c2) \<Rightarrow>
                    n\<lparr>nn_cache := Some (put_server_info (server_info_reset si) c2), nn_midinfo := Some mm'\<rparr>))
      | _ \<Rightarrow> n)"

definition opt_flushserver :: "'u nget_env \<Rightarrow> string \<Rightarrow> unit args" where
  "opt_flushserver env arg s =
     (case getserver (args_cfg s) arg of
        None \<Rightarrow> args_user_error s
      | Some p \<Rightarrow>
          (let sid = sv_serverid (servers (args_cfg s) ! p); mode = og_cmdmode (ag_options s)
           in if mode = NOCACHE_RETRIEVE_MODE \<or> mode = NOCACHE_GROUPLIST_MODE then args_user_error s
              else if mode = GROUPLIST_MODE
              then args_bind (args_comm (nntp_grouplist (the_world env) (ne_date env) (nntp_opts s) False))
                     (\<lambda>_. args_modify (\<lambda>s. s\<lparr>ag_nntp := (ag_nntp s)\<lparr>nn_glist := map_option (gl_flushserver sid) (nn_glist (ag_nntp s))\<rparr>\<rparr>)) s
              else if og_groups (ag_options s) = [] then args_user_error s
              else update_groups env False (og_groups (ag_options s))
                     (\<lambda>g. args_modify (\<lambda>s. s\<lparr>ag_nntp := flush_group_articles (ck_now (ne_clock env)) sid (ag_nntp s)\<rparr>)) s))"

text \<open>\<open>None\<close> for an option that is no command.\<close>

fun command :: "'u nget_env \<Rightarrow> nget_opt \<Rightarrow> (args_state \<Rightarrow> ((run_ex + unit) \<times> args_state) option) option" where
  "command env Opt_available =
     Some (\<lambda>s. Some ((if og_bad_host (ag_options s) then args_return ()
                      else args_comm (nntp_grouplist (the_world env) (ne_date env) (nntp_opts s) True)) (set_cmdmode GROUPLIST_MODE s)))"
| "command env Opt_quickavailable = Some (\<lambda>s. Some (Inr (), set_cmdmode GROUPLIST_MODE s))"
| "command env Opt_xavailable = Some (\<lambda>s. Some (Inr (), set_cmdmode NOCACHE_GROUPLIST_MODE s))"
| "command env (Opt_group a) =
     Some (\<lambda>s. case use_groups env a (set_cmdmode RETRIEVE_MODE s) of
                 Some (Inr _, s') \<Rightarrow>
                   Some ((if og_bad_host (ag_options s) then args_return ()
                          else update_groups env True (og_groups (ag_options s')) (\<lambda>g. args_return ())) s')
               | q \<Rightarrow> q)"
| "command env (Opt_quickgroup a) = Some (\<lambda>s. use_groups env a (set_cmdmode RETRIEVE_MODE s))"
| "command env (Opt_xgroup a) = Some (\<lambda>s. use_groups env a (set_cmdmode NOCACHE_RETRIEVE_MODE s))"
| "command env (Opt_host a) = Some (\<lambda>s. Some (opt_host a s))"
| "command env (Opt_bindaddr a) = Some (\<lambda>s. Some (on_options (\<lambda>opts. opts\<lparr>og_bindaddr := a\<rparr>) s))"
| "command env _ = None"

section \<open>Lists of options\<close>

function read_args :: "string \<Rightarrow> string list \<Rightarrow> string list \<times> bool" where
  "read_args content args =
     (case s_gets content of
        (n, l, rest) \<Rightarrow>
          if n = 0 then (args, True)
          else (case parseargs args (cstr l) True of
                  (args', None) \<Rightarrow> read_args rest args'
                | (args', Some e) \<Rightarrow> (args', False)))"
  by pat_completeness auto
termination
  by (relation "measure (\<lambda>(content, args). length content)") (auto dest: s_gets_less [OF sym])

declare read_args.simps [simp del]

definition list_file :: "args_state \<Rightarrow> string \<Rightarrow> string" where
  "list_file s arg = fcheckpath (file_exists (nn_files (ag_nntp s))) arg (path_join (ag_home s) ''lists'')"

definition read_list :: "string \<Rightarrow> string list args" where
  "read_list arg s =
     (case nn_files (ag_nntp s) (list_file s arg) of
        None \<Rightarrow> args_bind args_user_error (\<lambda>_. args_return []) s
      | Some content \<Rightarrow>
          (case read_args content [] of
             (args, ok) \<Rightarrow> args_bind (if ok then args_return () else args_user_error) (\<lambda>_. args_return args) s))"

text \<open>A list starts without requests; what it does to the options is undone.\<close>

definition list_start :: "args_state \<Rightarrow> args_state" where
  "list_start s = s\<lparr>ag_getinfos := [], ag_pats := [], ag_gpreds := []\<rparr>"

definition list_end :: "'u nget_env \<Rightarrow> args_state \<Rightarrow> unit args" where
  "list_end env s =
     (\<lambda>s1. let s2 = s1\<lparr>ag_options := ag_options s, ag_getinfos := ag_getinfos s, ag_pats := ag_pats s, ag_gpreds := ag_gpreds s\<rparr>;
               s3 = (case og_host (ag_options s) of Some h \<Rightarrow> open_host (Some h) s2 | None \<Rightarrow> s2)
           in back_to_start env s3)"

text \<open>A command, after the requests before it were made, or a setting.\<close>

definition command_step :: "'u nget_env \<Rightarrow> nget_opt \<Rightarrow> args_state \<Rightarrow> ((run_ex + int option) \<times> args_state) option" where
  "command_step env opt s =
     (case command env opt of
        None \<Rightarrow> Some (args_bind (setting env opt) (\<lambda>_. args_return None) s)
      | Some cmd \<Rightarrow>
          (case flush_pending env s of
             None \<Rightarrow> None
           | Some (Inl e, s') \<Rightarrow> Some (Inl e, s')
           | Some (Inr _, s') \<Rightarrow>
               (case cmd s' of
                  None \<Rightarrow> None
                | Some (Inl e, s'') \<Rightarrow> Some (Inl e, s'')
                | Some (Inr _, s'') \<Rightarrow> Some (Inr None, s''))))"

text \<open>One option other than a list: whether the arguments are given up, with which result.\<close>

definition option_step :: "'u nget_env \<Rightarrow> nget_opt \<Rightarrow> args_state \<Rightarrow> ((run_ex + int option) \<times> args_state) option" where
  "option_step env opt s =
     (case opt of
        Opt_help \<Rightarrow> Some (Inr (Some 1), s)
      | Opt_arg w \<Rightarrow> Some (args_bind args_user_error (\<lambda>_. args_return (Some 1)) s)
      | Opt_flushserver a \<Rightarrow> Some (args_bind (opt_flushserver env a) (\<lambda>_. args_return None) s)
      | _ \<Rightarrow> command_step env opt s)"

fun list_arg :: "nget_opt \<Rightarrow> string option" where
  "list_arg (Opt_list a) = Some a"
| "list_arg _ = None"

text \<open>A list that names itself is never left: \<open>None\<close>.\<close>

partial_function (option) do_args :: "'u nget_env \<Rightarrow> nget_opt list \<Rightarrow> args_state \<Rightarrow> ((run_ex + int) \<times> args_state) option" where
  "do_args env os s =
     (case os of
        [] \<Rightarrow>
          (case flush_pending env s of
             None \<Rightarrow> None
           | Some (r, s') \<Rightarrow> Some (case r of Inl e \<Rightarrow> Inl e | Inr _ \<Rightarrow> Inr 0, s'))
      | opt # os' \<Rightarrow>
          (case list_arg opt of
             Some arg \<Rightarrow>
               (case flush_pending env s of
                  None \<Rightarrow> None
                | Some (r, s1) \<Rightarrow>
                    (case r of
                       Inl e \<Rightarrow> Some (Inl e, s1)
                     | Inr u \<Rightarrow>
                         (case read_list arg s1 of
                            (r2, s2) \<Rightarrow>
                              (case r2 of
                                 Inl e \<Rightarrow> Some (Inl e, s2)
                               | Inr args \<Rightarrow>
                                   if args = [] then do_args env os' s2
                                   else
                                     Option.bind (do_args env (ne_popt env True args) (list_start s2))
                                       (\<lambda>q. case fst q of
                                          Inl e \<Rightarrow> Some (Inl e, snd q)
                                        | Inr v \<Rightarrow>
                                            (case list_end env s2 (snd q) of
                                               (r4, s4) \<Rightarrow>
                                                 (case r4 of Inl e \<Rightarrow> Some (Inl e, s4) | Inr u \<Rightarrow> do_args env os' s4)))))))
           | None \<Rightarrow>
               (case option_step env opt s of
                  None \<Rightarrow> None
                | Some (r, s') \<Rightarrow>
                    (case r of
                       Inl e \<Rightarrow> Some (Inl e, s')
                     | Inr v \<Rightarrow> (case v of None \<Rightarrow> do_args env os' s' | Some k \<Rightarrow> Some (Inr k, s'))))))"

section \<open>The configuration\<close>

record rc_settings =
  rs_options :: nget_options
  rs_quiet :: int
  rs_timeout :: int
  rs_cachehome :: string

text \<open>A setting that is 0 or 1 sets a flag at one of the values.\<close>

definition flag_setting :: "section_at \<Rightarrow> string \<Rightarrow> int \<Rightarrow> 32 word \<Rightarrow> nget_options \<Rightarrow> nget_options cfg" where
  "flag_setting sa name v f opts = do {
     r \<leftarrow> cfg_get (int_in 0 1) sa name;
     State_Monad.return (if r = Some v then on_flags (set_flag f) opts else opts) }"

text \<open>A setting with a word; an invalid one is fatal when user errors are.\<close>

definition geta :: "section_at \<Rightarrow> string \<Rightarrow> string option cfg" where
  "geta sa name = do {
     i \<leftarrow> getitem sa name;
     (case i of
        None \<Rightarrow> State_Monad.return None
      | Some v \<Rightarrow> do { mark_used (Used_item (fst sa @ [name])); State_Monad.return (Some (cstr v)) }) }"

definition word_setting ::
  "section_at \<Rightarrow> string \<Rightarrow> (string option \<Rightarrow> nget_options \<Rightarrow> nget_options option) \<Rightarrow> bool \<Rightarrow> unit + nget_options \<Rightarrow>
   (unit + nget_options) cfg"
where
  "word_setting sa name f fatal r =
     (case r of
        Inl u \<Rightarrow> State_Monad.return (Inl u)
      | Inr opts \<Rightarrow> do {
          a \<leftarrow> geta sa name;
          (case f a opts of
             Some opts' \<Rightarrow> State_Monad.return (Inr opts')
           | None \<Rightarrow> do { user_error; State_Monad.return (if fatal then Inl () else Inr opts) }) })"

definition read_settings :: "section_at \<Rightarrow> bool \<Rightarrow> string \<Rightarrow> nget_options \<Rightarrow> (unit + rc_settings) cfg" where
  "read_settings sa fatal home o0 = do {
     timeout \<leftarrow> cfg_getdef (int_in 1 int_max) sa ''timeout'' 180;
     debug \<leftarrow> cfg_getdef (int_in 0 3) sa ''debug'' 0;
     quiet \<leftarrow> cfg_getdef (int_in 0 2) sa ''quiet'' 0;
     o1 \<leftarrow> cfg_field (\<lambda>v. parsestr_ulong_range v 0 ULONG_MAX) sa ''limit'' og_linelimit_update o0;
     o2 \<leftarrow> cfg_field (int_in 1 int_max) sa ''tries'' og_maxretry_update o1;
     o3 \<leftarrow> cfg_field (int_in 0 int_max) sa ''delay'' og_retrydelay_update o2;
     o4 \<leftarrow> flag_setting sa ''case'' 1 GETFILES_CASESENSITIVE o3;
     o5 \<leftarrow> flag_setting sa ''complete'' 0 GETFILES_GETINCOMPLETE o4;
     o6 \<leftarrow> flag_setting sa ''dupeidcheck'' 0 GETFILES_NODUPEIDCHECK o5;
     o7 \<leftarrow> flag_setting sa ''dupefilecheck'' 0 GETFILES_NODUPEFILECHECK o6;
     o8 \<leftarrow> flag_setting sa ''dupefilemark'' 1 GETFILES_DUPEFILEMARK o7;
     o9 \<leftarrow> flag_setting sa ''tempshortnames'' 1 GETFILES_TEMPSHORTNAMES o8;
     b \<leftarrow> cfg_get (int_in 0 1) sa ''save_binary_info'';
     o10 \<leftarrow> flag_setting sa ''autopar'' 0 GETFILES_NOAUTOPAR
              (if b = Some 1 then o9\<lparr>og_save_text_for_binaries := True\<rparr> else o9);
     r1 \<leftarrow> word_setting sa ''test_multiserver'' set_test_multi fatal (Inr o10);
     r2 \<leftarrow> word_setting sa ''text'' set_text_handling fatal r1;
     r3 \<leftarrow> word_setting sa ''makedirs'' set_makedirs fatal r2;
     (case r3 of
        Inl u \<Rightarrow> State_Monad.return (Inl u)
      | Inr o11 \<Rightarrow> do {
          cache \<leftarrow> cfg_gets sa ''cachedir'' home;
          State_Monad.return
            (Inr \<lparr>rs_options = o11, rs_quiet = quiet, rs_timeout = timeout, rs_cachehome = cache\<rparr>) }) }"

definition read_rc ::
  "cfg_section \<Rightarrow> string \<Rightarrow> nget_config \<Rightarrow> nget_options \<Rightarrow> (run_ex + nget_config \<times> rc_settings) cfg" where
  "read_rc sec home c0 opts = do {
     halias \<leftarrow> getsection ([], sec) ''halias'';
     hpriority \<leftarrow> getsection ([], sec) ''hpriority'';
     galias \<leftarrow> getsection ([], sec) ''galias'';
     (case halias of
        None \<Rightarrow> State_Monad.return (Inl Raised)
      | Some h \<Rightarrow> do {
          c \<leftarrow> setlist ([], sec) h hpriority galias c0;
          r \<leftarrow> read_settings ([], sec) (fatal_user_errors c) home opts;
          State_Monad.return (case r of Inl u \<Rightarrow> Inl User_fatal | Inr rs \<Rightarrow> Inr (c, rs)) }) }"

text \<open>The whole file: its errors are counted, and what was not read; \<open>cachehome\<close> is the directory of the cache
  when it exists.\<close>

definition read_config ::
  "string \<Rightarrow> string \<Rightarrow> (string \<Rightarrow> string option) \<Rightarrow> nget_config \<Rightarrow> nget_options \<Rightarrow> status \<Rightarrow>
   (run_ex + nget_config \<times> rc_settings) \<times> status"
where
  "read_config content home cachehome c0 opts st =
     (case cfg_load content cs_new 0 of
        (sec, rest, level, e) \<Rightarrow>
          (case run_state (read_rc sec home c0 opts)
                  \<lparr>cfg_marks = [], cfg_status = set_error_status ST_user (int (if level \<noteq> 0 then Suc e else e)) st\<rparr> of
             (Inl x, cs) \<Rightarrow> (Inl x, cfg_status cs)
           | (Inr (c, rs), cs) \<Rightarrow>
               (case cachehome (rs_cachehome rs) of
                  None \<Rightarrow> (Inl Raised, cfg_status cs)
                | Some dir \<Rightarrow>
                    (Inr (c, rs\<lparr>rs_cachehome := dir\<rparr>),
                     set_error_status ST_user (int (check_unused (cfg_marks cs) [] sec)) (cfg_status cs)))))"

section \<open>The program\<close>

text \<open>A variable of the environment that is not empty.\<close>

definition getenv :: "'u nget_env \<Rightarrow> string \<Rightarrow> string option" where
  "getenv env name = (case ne_getenv env name of Some v \<Rightarrow> if v = [] then None else Some v | None \<Rightarrow> None)"

definition find_home :: "'u nget_env \<Rightarrow> dirs \<Rightarrow> string option" where
  "find_home env d =
     (case getenv env ''NGETHOME'' of
        Some home \<Rightarrow> Some (path_join home [])
      | None \<Rightarrow>
          (case getenv env ''HOME'' of
             None \<Rightarrow> None
           | Some home \<Rightarrow>
               if direxists (ne_sys env) d (path_join3 home ''.nget5'' []) then Some (path_join3 home ''.nget5'' [])
               else if direxists (ne_sys env) d (path_join3 home ''_nget5'' []) then Some (path_join3 home ''_nget5'' [])
               else None))"

definition find_rc :: "'u nget_env \<Rightarrow> (string \<Rightarrow> string option) \<Rightarrow> string \<Rightarrow> string option" where
  "find_rc env fs home =
     (case getenv env ''NGETRC'' of
        Some fn \<Rightarrow> if file_exists fs fn then Some fn else None
      | None \<Rightarrow>
          if file_exists fs (home @ ''.ngetrc'') then Some (home @ ''.ngetrc'')
          else if file_exists fs (home @ ''_ngetrc'') then Some (home @ ''_ngetrc'')
          else None)"

definition find_cache :: "'u nget_env \<Rightarrow> dirs \<Rightarrow> string \<Rightarrow> string option" where
  "find_cache env d dir =
     (let dir' = path_join (case getenv env ''NGETCACHE'' of Some c \<Rightarrow> c | None \<Rightarrow> dir) []
      in if direxists (ne_sys env) d dir' then Some dir' else None)"

text \<open>Up to the options: whether there are any to be worked off.\<close>

definition startup :: "'u nget_env \<Rightarrow> string list \<Rightarrow> bool args" where
  "startup env argv s =
     (case find_home env (ag_dirs s) of
        None \<Rightarrow> (Inl Raised, s)
      | Some home \<Rightarrow>
          if length argv < 2 then (Inr False, s\<lparr>ag_home := home, ag_cachehome := home\<rparr>)
          else
            (case find_rc env (nn_files (ag_nntp s)) home of
               None \<Rightarrow> (Inl Raised, s)
             | Some fn \<Rightarrow>
                 (case nn_files (ag_nntp s) fn of
                    None \<Rightarrow> (Inl Raised, s)
                  | Some content \<Rightarrow>
                      (case read_config content home (find_cache env (ag_dirs s)) (args_cfg s) (ag_options s) (nn_status (ag_nntp s)) of
                         (Inl e, st) \<Rightarrow> (Inl e, put_status st s)
                       | (Inr (c, rs), st) \<Rightarrow>
                           (if get_user_error_status st \<noteq> 0 \<and> fatal_user_errors c then Inl User_fatal else Inr True,
                            put_status st (put_config c (s\<lparr>ag_home := home, ag_cachehome := rs_cachehome rs, ag_options := rs_options rs,
                              ag_quiet := rs_quiet rs, ag_timeout := rs_timeout rs\<rparr>)))))))"

definition nget_run :: "'u nget_env \<Rightarrow> string list \<Rightarrow> args_state \<Rightarrow> ((run_ex + int) \<times> args_state) option" where
  "nget_run env argv s =
     (case startup env argv s of
        (Inl e, s1) \<Rightarrow> Some (Inl e, s1)
      | (Inr False, s1) \<Rightarrow> Some (Inr 0, s1)
      | (Inr True, s1) \<Rightarrow> do_args env (ne_popt env False argv) s1)"

datatype run_end = Exit "32 word" | Gone

text \<open>What is caught is counted as fatal, unless it came from a user error, which was counted before. Then the cache
  and the connections are closed; \<open>exit\<close> goes past that, but not past the destructor of the handler.\<close>

definition catch_status :: "run_ex + int \<Rightarrow> status \<Rightarrow> status" where
  "catch_status r st =
     (case r of
        Inl Raised \<Rightarrow> set_error_status ST_fatal 1 st
      | Inl Exits \<Rightarrow> set_error_status ST_fatal 1 st
      | _ \<Rightarrow> st)"

definition nget_cleanup :: "int \<Rightarrow> nntp \<Rightarrow> nntp" where
  "nget_cleanup now n =
     (let n1 = cleanupcache n in n1\<lparr>nn_pool := snd (expire_connections now True (nn_pool n1))\<rparr>)"

definition main_end :: "'u nget_env \<Rightarrow> (run_ex + int) \<times> args_state \<Rightarrow> run_end \<times> args_state" where
  "main_end env q =
     (case q of
        (r, s) \<Rightarrow>
          (let s1 = put_status (catch_status r (nn_status (ag_nntp s))) s
           in case r of
                Inl Dead \<Rightarrow> (Gone, s)
              | Inl Exits \<Rightarrow>
                  (Exit (get_exit_status (nn_status (ag_nntp s1))), s1\<lparr>ag_nntp := drop_list (cleanupcache (ag_nntp s1))\<rparr>)
              | _ \<Rightarrow>
                  (let n = nget_cleanup (ck_now (ne_clock env)) (ag_nntp s1)
                   in (Exit (get_exit_status (nn_status n)), s1\<lparr>ag_nntp := drop_list n\<rparr>))))"

definition nget_main :: "'u nget_env \<Rightarrow> string list \<Rightarrow> args_state \<Rightarrow> (run_end \<times> args_state) option" where
  "nget_main env argv s = map_option (main_end env) (nget_run env argv s)"

section \<open>What is read from the configuration file\<close>

text \<open>The settings of the file itself that \<open>main\<close> reads, besides those of the servers and groups.\<close>

definition rc_keys :: "string list" where
  "rc_keys = [''timeout'', ''debug'', ''quiet'', ''limit'', ''tries'', ''delay'', ''case'', ''complete'', ''dupeidcheck'',
     ''dupefilecheck'', ''dupefilemark'', ''tempshortnames'', ''save_binary_info'', ''autopar'', ''test_multiserver'',
     ''text'', ''makedirs'', ''cachedir'']"

lemma reads_flag_setting [reads_intros]:
  "K (Used_section (fst sa)) \<Longrightarrow> K (Used_item (fst sa @ [name])) \<Longrightarrow> reads K (flag_setting sa name v f opts)"
  unfolding flag_setting_def by (intro reads_intros)

lemma reads_word_setting [reads_intros]:
  "K (Used_section (fst sa)) \<Longrightarrow> K (Used_item (fst sa @ [name])) \<Longrightarrow> reads K (word_setting sa name f fatal r)"
  unfolding word_setting_def geta_def by (auto intro!: reads_intros split: sum.split option.split)

lemma reads_settings: "reads (known_mark rc_keys) (read_settings ([], sec) fatal home opts)"
  unfolding read_settings_def
  by (intro reads_intros) (auto simp: rc_keys_def intro!: reads_intros split: sum.split)

lemma getsection_path:
  "fst (run_state (getsection sa name) s) = Some p \<Longrightarrow> fst p = fst sa @ [name]"
  by (auto simp: getsection_def mark_used_def State_Monad.bind_def split: prod.splits)

lemma reads_bind_section:
  assumes "K (Used_section (fst sa))" "\<And>x. (\<And>p. x = Some p \<Longrightarrow> fst p = fst sa @ [name]) \<Longrightarrow> reads K (f x)"
  shows "reads K (State_Monad.bind (getsection sa name) f)"
proof -
  have "reads K (f (map_option (\<lambda>s. (fst sa @ [name], s)) (map_of (cs_sections (snd sa)) name)))"
    by (rule assms(2)) auto
  then show ?thesis using assms(1) unfolding getsection_def by (simp add: reads_intros)
qed

lemma reads_rc: "reads (known_mark rc_keys) (read_rc sec home c0 opts)"
proof -
  have h: "reads (known_mark rc_keys) (case halias of None \<Rightarrow> State_Monad.return (Inl Raised)
      | Some h \<Rightarrow> State_Monad.bind (setlist ([], sec) h hpriority galias c0) (\<lambda>c.
          State_Monad.bind (read_settings ([], sec) (fatal_user_errors c) home opts) (\<lambda>r.
            State_Monad.return (case r of Inl u \<Rightarrow> Inl User_fatal | Inr rs \<Rightarrow> Inr (c, rs)))))"
    if "\<And>p. halias = Some p \<Longrightarrow> fst p = [''halias'']" "\<And>p. hpriority = Some p \<Longrightarrow> fst p = [''hpriority'']"
      "\<And>p. galias = Some p \<Longrightarrow> fst p = [''galias'']" for halias hpriority galias
  proof (cases halias)
    case (Some h)
    have "h = ([''halias''], snd h)" using that(1) [OF Some] by (cases h) simp
    moreover have "reads (known_mark rc_keys) (setlist ([], sec) ([''halias''], snd h) hpriority galias c0)"
      by (rule reads_setlist [OF that(2,3)])
    ultimately show ?thesis using Some by (metis (no_types, lifting) option.case reads_bind reads_settings reads_return)
  qed (simp add: reads_return)
  show ?thesis unfolding read_rc_def
    by (intro reads_bind_section h) auto
qed

text \<open>A setting that ends the program was counted.\<close>

definition fails_counted :: "(unit + 'a) cfg \<Rightarrow> bool" where
  "fails_counted m \<longleftrightarrow> (\<forall>s u. fst (run_state m s) = Inl u \<longrightarrow>
     (\<exists>n. 0 < n \<and> cfg_status (snd (run_state m s)) = set_error_status ST_user (int n) (cfg_status s)))"

lemma run_bind: "run_state (State_Monad.bind m f) s = run_state (f (fst (run_state m s))) (snd (run_state m s))"
  by (simp add: State_Monad.bind_def split: prod.split)

lemma readsD: "reads K m \<Longrightarrow> \<exists>n. cfg_status (snd (run_state m s)) = set_error_status ST_user (int n) (cfg_status s)"
  by (simp add: reads_def)

lemma fails_after:
  assumes "reads K m" "\<And>x. fails_counted (f x)"
  shows "fails_counted (State_Monad.bind m f)"
  unfolding fails_counted_def run_bind
proof (intro allI impI)
  fix s u assume e: "fst (run_state (f (fst (run_state m s))) (snd (run_state m s))) = Inl u"
  obtain n where n: "cfg_status (snd (run_state m s)) = set_error_status ST_user (int n) (cfg_status s)"
    using readsD [OF assms(1)] by blast
  obtain k where "0 < k" "cfg_status (snd (run_state (f (fst (run_state m s))) (snd (run_state m s)))) =
      set_error_status ST_user (int k) (cfg_status (snd (run_state m s)))"
    using assms(2) e unfolding fails_counted_def by blast
  then show "\<exists>n>0. cfg_status (snd (run_state (f (fst (run_state m s))) (snd (run_state m s)))) =
      set_error_status ST_user (int n) (cfg_status s)"
    using n by (intro exI [of _ "n + k"]) simp
qed

lemma fails_bind:
  assumes "fails_counted m" "\<And>x. fails_counted (f (Inr x))" "reads K m" "\<And>y. reads K (f y)"
  shows "fails_counted (State_Monad.bind m f)"
  unfolding fails_counted_def run_bind
proof (intro allI impI)
  fix s u assume e: "fst (run_state (f (fst (run_state m s))) (snd (run_state m s))) = Inl u"
  obtain n where n: "cfg_status (snd (run_state m s)) = set_error_status ST_user (int n) (cfg_status s)"
      "(\<exists>v. fst (run_state m s) = Inl v) \<Longrightarrow> 0 < n"
    using readsD [OF assms(3), of s] assms(1) unfolding fails_counted_def by blast
  obtain k where k: "cfg_status (snd (run_state (f (fst (run_state m s))) (snd (run_state m s)))) =
      set_error_status ST_user (int k) (cfg_status (snd (run_state m s)))"
      "(\<exists>x. fst (run_state m s) = Inr x) \<Longrightarrow> 0 < k"
    using readsD [OF assms(4)] assms(2) e unfolding fails_counted_def by metis
  have "0 < n + k" using n(2) k(2) by (cases "fst (run_state m s)") auto
  then show "\<exists>n>0. cfg_status (snd (run_state (f (fst (run_state m s))) (snd (run_state m s)))) =
      set_error_status ST_user (int n) (cfg_status s)"
    using n(1) k(1) by (intro exI [of _ "n + k"]) simp
qed

lemma fails_word: "fails_counted (word_setting sa name f fatal (Inr opts))"
  unfolding fails_counted_def word_setting_def geta_def getitem_def mark_used_def user_error_def
  by (auto simp: run_bind intro!: exI [of _ 1] split: option.splits if_splits)

lemma fails_inr: "fails_counted (State_Monad.bind m (\<lambda>x. State_Monad.return (Inr (g x))))"
  unfolding fails_counted_def run_bind by simp

lemma fails_settings: "fails_counted (read_settings ([], sec) fatal home opts)"
  unfolding read_settings_def
  by ((rule fails_bind [where K = "\<lambda>_. True", OF fails_word] | rule fails_after [where K = "\<lambda>_. True", rotated])+,
      simp add: fails_inr) (auto intro!: reads_intros split: sum.split)

lemma run_getsection: "cfg_status (snd (run_state (getsection sa name) s)) = cfg_status s"
  by (simp add: getsection_def mark_used_def State_Monad.bind_def)

lemma rc_fatal:
  assumes "fst (run_state (read_rc sec home c0 opts) s) = Inl User_fatal"
  shows "\<exists>n>0. cfg_status (snd (run_state (read_rc sec home c0 opts) s)) = set_error_status ST_user (int n) (cfg_status s)"
proof -
  define s1 where "s1 = snd (run_state (getsection ([], sec) ''halias'') s)"
  define s2 where "s2 = snd (run_state (getsection ([], sec) ''hpriority'') s1)"
  define s3 where "s3 = snd (run_state (getsection ([], sec) ''galias'') s2)"
  have st: "cfg_status s3 = cfg_status s" by (simp add: s1_def s2_def s3_def run_getsection)
  define halias where "halias = fst (run_state (getsection ([], sec) ''halias'') s)"
  define hpriority where "hpriority = fst (run_state (getsection ([], sec) ''hpriority'') s1)"
  define galias where "galias = fst (run_state (getsection ([], sec) ''galias'') s2)"
  have ps: "halias = Some h \<Longrightarrow> fst h = [''halias'']" "hpriority = Some h \<Longrightarrow> fst h = [''hpriority'']"
    "galias = Some h \<Longrightarrow> fst h = [''galias'']" for h
    by (auto simp: halias_def hpriority_def galias_def dest: getsection_path)
  have rc: "run_state (read_rc sec home c0 opts) s =
      run_state (case halias of None \<Rightarrow> State_Monad.return (Inl Raised)
      | Some h \<Rightarrow> State_Monad.bind (setlist ([], sec) h hpriority galias c0) (\<lambda>c.
          State_Monad.bind (read_settings ([], sec) (fatal_user_errors c) home opts) (\<lambda>r.
            State_Monad.return (case r of Inl u \<Rightarrow> Inl User_fatal | Inr rs \<Rightarrow> Inr (c, rs))))) s3"
    unfolding read_rc_def run_bind s1_def s2_def s3_def halias_def hpriority_def galias_def by (rule refl)
  obtain h where h: "halias = Some h" using assms rc by (cases halias) simp_all
  have hp: "h = ([''halias''], snd h)" using ps(1) [OF h] by (cases h) simp
  define s4 where "s4 = snd (run_state (setlist ([], sec) h hpriority galias c0) s3)"
  define c where "c = fst (run_state (setlist ([], sec) h hpriority galias c0) s3)"
  have "reads (known_mark rc_keys) (setlist ([], sec) ([''halias''], snd h) hpriority galias c0)"
    by (rule reads_setlist [OF ps(2,3)])
  then obtain n where n: "cfg_status s4 = set_error_status ST_user (int n) (cfg_status s)"
    using readsD hp st unfolding s4_def by metis
  let ?r = "run_state (read_settings ([], sec) (fatal_user_errors c) home opts) s4"
  have e: "run_state (read_rc sec home c0 opts) s =
      ((case fst ?r of Inl u \<Rightarrow> Inl User_fatal | Inr rs \<Rightarrow> Inr (c, rs)), snd ?r)"
    unfolding rc h option.case run_bind c_def [symmetric] s4_def [symmetric] by simp
  obtain u where "fst ?r = Inl u" using assms e by (cases "fst ?r") simp_all
  then obtain k where "0 < k" "cfg_status (snd ?r) = set_error_status ST_user (int k) (cfg_status s4)"
    using fails_settings unfolding fails_counted_def by blast
  then show ?thesis using e n by (intro exI [of _ "n + k"]) simp
qed

lemma read_config_counts:
  assumes load: "cfg_load content cs_new 0 = (sec, rest, level, e)"
    and r: "read_config content home cachehome c0 opts st = (r, st')"
  shows "\<exists>n. st' = set_error_status ST_user (int n) st \<and> (r = Inl User_fatal \<longrightarrow> 0 < n) \<and>
    (\<forall>x. r = Inr x \<longrightarrow> n = 0 \<longrightarrow> e = 0 \<and> level = 0 \<and> (\<forall>p. item_at sec p \<longrightarrow> known_item rc_keys p))"
proof -
  let ?e = "if level \<noteq> 0 then Suc e else e"
  let ?s = "\<lparr>cfg_marks = [], cfg_status = set_error_status ST_user (int ?e) st\<rparr>"
  obtain q cs where q: "run_state (read_rc sec home c0 opts) ?s = (q, cs)" by (cases "run_state (read_rc sec home c0 opts) ?s")
  obtain k where k: "cfg_status cs = set_error_status ST_user (int k) (cfg_status ?s)"
    using readsD [OF reads_rc, of sec home c0 opts ?s] q by auto
  have marks: "\<forall>m \<in> set (cfg_marks cs). known_mark rc_keys m"
    using reads_rc [of sec home c0 opts, unfolded reads_def, THEN spec [of _ ?s]] q by simp
  have st: "cfg_status cs = set_error_status ST_user (int (?e + k)) st" using k by simp
  show ?thesis
  proof (cases q)
    case (Inl x)
    have eq: "r = Inl x" "st' = cfg_status cs" using r load q Inl by (simp_all add: read_config_def del: count_twice)
    have fatal: "\<exists>n>0. cfg_status cs = set_error_status ST_user (int n) (cfg_status ?s)" if "x = User_fatal"
      using rc_fatal [of sec home c0 opts ?s] q Inl that by simp
    then have "\<exists>n. st' = set_error_status ST_user (int n) st \<and> (x = User_fatal \<longrightarrow> 0 < n)"
    proof (cases "x = User_fatal")
      case True
      then obtain n where "0 < n" "cfg_status cs = set_error_status ST_user (int n) (cfg_status ?s)" using fatal by blast
      then show ?thesis using eq(2) by (intro exI [of _ "?e + n"]) simp
    qed (use eq(2) st in blast)
    then show ?thesis using eq(1) by auto
  next
    case (Inr y)
    obtain c rs where y: "y = (c, rs)" by (cases y)
    show ?thesis
    proof (cases "cachehome (rs_cachehome rs)")
      case None
      have "r = Inl Raised" "st' = cfg_status cs" using r load q Inr y None by (simp_all add: read_config_def del: count_twice)
      then show ?thesis using st by blast
    next
      case (Some dir)
      let ?u = "check_unused (cfg_marks cs) [] sec"
      have eq: "r = Inr (c, rs\<lparr>rs_cachehome := dir\<rparr>)" "st' = set_error_status ST_user (int ?u) (cfg_status cs)"
        using r load q Inr y Some by (simp_all add: read_config_def del: count_twice)
      have known: "known_item rc_keys p" if "?u = 0" "item_at sec p" for p
        using check_unused_zero [OF that] marks by (auto simp: known_mark_def)
      have "st' = set_error_status ST_user (int (?e + k + ?u)) st" unfolding eq(2) st count_twice ..
      then show ?thesis using known eq(1) by (intro exI [of _ "?e + k + ?u"]) (auto split: if_splits)
    qed
  qed
qed

section \<open>What ends the program\<close>

definition user_bit :: "args_state \<Rightarrow> bool" where
  "user_bit s \<longleftrightarrow> bit (errorflags (nn_status (ag_nntp s))) 2"

text \<open>When a user error is fatal its bit is set.\<close>

definition blames :: "'a args \<Rightarrow> bool" where
  "blames m \<longleftrightarrow> (\<forall>s s'. m s = (Inl User_fatal, s') \<longrightarrow> user_bit s')"

lemma blamesD: "blames m \<Longrightarrow> m s = (Inl User_fatal, s') \<Longrightarrow> user_bit s'"
  by (auto simp: blames_def)

lemma user_bit_path: "set_path_error_status_and_do_fatal_user_error cfg 1 st = (True, st') \<Longrightarrow> user_bit (put_status st' s)"
  by (auto simp: set_path_error_status_and_do_fatal_user_error_def user_bit_def put_status_def set_error_status_def
      status_bit_def error_bits_def bit_or_iff)

lemma counted_bit: "0 < n \<Longrightarrow> bit (errorflags (set_error_status ST_user (int n) st)) 2"
  by (simp add: set_error_status_def status_bit_def error_bits_def bit_or_iff)

lemma user_bit_put [simp]: "user_bit (put_status st s) \<longleftrightarrow> bit (errorflags st) 2"
  by (simp add: user_bit_def put_status_def)

named_theorems blames_intros

lemma blames_user [blames_intros]: "blames args_user_error"
  by (auto simp: blames_def args_user_error_def set_user_error_status_and_do_fatal_user_error_def set_error_status_def
      status_bit_def error_bits_def bit_or_iff split: if_splits)

lemma blames_path [blames_intros]: "blames args_path_error"
  by (auto simp: blames_def args_path_error_def set_path_error_status_and_do_fatal_user_error_def set_error_status_def
      status_bit_def error_bits_def bit_or_iff split: if_splits)

lemma blames_return [blames_intros]: "blames (args_return x)"
  by (simp add: blames_def args_return_def)

lemma blames_throw [blames_intros]: "e \<noteq> User_fatal \<Longrightarrow> blames (args_throw e)"
  by (simp add: blames_def args_throw_def)

lemma blames_modify [blames_intros]: "blames (args_modify f)" "blames (on_options g)"
  by (simp_all add: blames_def args_modify_def on_options_def)

lemma blames_bind [blames_intros]: "blames m \<Longrightarrow> (\<And>x. blames (f x)) \<Longrightarrow> blames (args_bind m f)"
  by (fastforce simp: blames_def args_bind_def split: prod.splits sum.splits)

lemma blames_comm [blames_intros]: "blames (args_comm m)"
  by (auto simp: blames_def args_comm_def ex_of_comm_def split: prod.splits sum.splits if_splits)

lemma blames_checked [blames_intros]: "blames (args_checked f)" "blames (args_parsed r upd)"
  using blames_user by (auto simp: blames_def args_checked_def args_parsed_def split: option.splits sum.splits)

lemma dupe_flags_thrown: "parse_dupe_flags fatal a fl = (fl', n, True) \<Longrightarrow> fatal \<and> n = 1"
  by (induction fatal a fl arbitrary: fl' n rule: parse_dupe_flags.induct) (auto split: if_splits prod.splits)

lemma blames_dupe_flags [blames_intros]: "blames (args_dupe_flags a)"
proof -
  have "bit (errorflags (set_error_status ST_user (int n) st)) 2"
    if "parse_dupe_flags fatal a fl = (fl', n, True)" for n fl fl' fatal st
    using counted_bit [of n] dupe_flags_thrown [OF that] by simp
  then show ?thesis
    by (auto simp: blames_def args_dupe_flags_def put_status_def user_bit_def split: prod.splits if_splits)
qed

lemma blames_start [blames_intros]: "blames (back_to_start env)"
  by (auto simp: blames_def back_to_start_def split: chdir_end.splits)

lemma blames_change [blames_intros]: "blames (change_path env dir ok bad)"
proof -
  have ok: "blames (args_bind (on_options f) (\<lambda>_. back_to_start env))" for f by (intro blames_intros)
  show ?thesis
    unfolding blames_def change_path_def
    by (auto simp: Let_def dest: blamesD [OF ok] blamesD [OF blames_path] blamesD [OF blames_modify(2)]
        split: prod.splits sum.splits mkdir_end.splits)
qed

lemma blames_info [blames_intros]: "blames (new_getinfo env p)"
  by (simp add: blames_def new_getinfo_def Let_def)

lemma blames_at: "(\<And>s. blames (m s)) \<Longrightarrow> blames (\<lambda>s. m s s)"
  by (auto simp: blames_def)

lemma blames_if [blames_intros]: "blames a \<Longrightarrow> blames b \<Longrightarrow> blames (\<lambda>s. if c s then a s else b s)"
  by (auto simp: blames_def)

lemma blames_setting: "blames (setting env opt)"
proof (cases opt)
  case (Opt_retrieve a)
  have r: "blames (regex_error e)" for e by (auto simp: regex_error_def intro: blames_intros split: etree_error.split)
  have p: "blames (pattern_then nocache field a m)" if "blames m" for nocache field m
    using that blames_user blames_bind [OF blames_modify(1), of "\<lambda>_. m"]
    by (auto simp: blames_def pattern_then_def add_pat_def split: if_splits sum.splits)
  have i: "blames (new_getinfo env q)" for q by (rule blames_info)
  have g: "blames (retrieve_groups env a)"
    unfolding retrieve_groups_def blames_def
    by (intro allI impI, erule blamesD [OF p, rotated])
      (use r in \<open>auto simp: blames_def add_gpred_def args_modify_def split: sum.splits\<close>)
  have f: "blames (retrieve_files env a)"
    unfolding retrieve_files_def blames_def
    by (intro allI impI, erule blamesD [OF p, rotated])
      (use r i in \<open>auto simp: blames_def split: sum.splits\<close>)
  show ?thesis using g f blames_user Opt_retrieve by (auto simp: blames_def opt_retrieve_def split: if_splits)
next
  case (Opt_expretrieve a)
  then show ?thesis using blames_user blames_info [of env]
    by (auto simp: blames_def opt_expretrieve_def add_gpred_def args_modify_def split: if_splits sum.splits)
next
  case (Opt_dupepath a)
  then show ?thesis using blames_path by (auto simp: blames_def opt_dupepath_def on_options_def args_modify_def split: if_splits)
qed (auto simp: set_flags_def opt_tries_def opt_maxlines_def intro: blames_intros)

text \<open>The same of what may not return.\<close>

definition blames_opt :: "(args_state \<Rightarrow> ((run_ex + 'a) \<times> args_state) option) \<Rightarrow> bool" where
  "blames_opt m \<longleftrightarrow> (\<forall>s s'. m s = Some (Inl User_fatal, s') \<longrightarrow> user_bit s')"

lemma blames_search: "blames (search_pending env)"
proof -
  have u: "blames (args_bind args_user_error (\<lambda>_. args_modify h))" for h by (intro blames_intros)
  have c: "blames (args_bind (args_bind (args_comm m) (\<lambda>out. args_modify (f out))) (\<lambda>_. args_modify h))"
    for f h and m :: "(nntp, string) comm" by (intro blames_intros)
  have g: "blames (args_bind (args_modify g) (\<lambda>_. args_modify h))" for g h by (intro blames_intros)
  show ?thesis unfolding blames_def search_pending_def Let_def
    by (auto dest: blamesD [OF u] blamesD [OF c] blamesD [OF g] split: if_splits)
qed

lemma ex_of_retr_not_user [simp]: "ex_of_retr e \<noteq> User_fatal"
  by (auto simp: ex_of_retr_def ex_of_comm_def split: retr_ex.splits)

lemma after_retrieve_not_user: "after_retrieve s q \<noteq> Some (Inl User_fatal, s')"
  by (auto simp: after_retrieve_def split: option.splits sum.splits)

lemma blames_retrieve: "blames_opt (retrieve_pending env)"
  by (auto simp: blames_opt_def retrieve_pending_def after_retrieve_not_user Let_def split: option.splits if_splits)

lemma blames_flush: "blames_opt (flush_pending env)"
  using blames_search [of env] blames_retrieve [of env]
  by (auto simp: blames_opt_def blames_def flush_pending_def split: prod.splits sum.splits)

lemma blames_update: "(\<And>g. blames (body g)) \<Longrightarrow> blames (update_groups env getheaders gs body)"
proof (induction env getheaders gs body rule: update_groups.induct)
  case (3 env getheaders g gs body)
  have "blames (\<lambda>s. args_comm (nntp_group (the_world env) (ne_rx env) (ne_clock env) (nntp_opts s) g getheaders) s)"
    by (rule blames_at, rule blames_comm)
  then show ?case using 3 by (auto intro!: blames_bind)
qed (auto intro: blames_intros)

lemma blames_use: "blames_opt (use_groups env names)"
  by (auto simp: blames_opt_def use_groups_def split: option.splits)

lemma blames_host: "blames (opt_host a)"
  unfolding opt_host_def Let_def
  by (simp only: blames_def) (auto dest!: blamesD [rotated] intro!: blames_intros split: if_splits)

lemma blames_command: "command env opt = Some cmd \<Longrightarrow> blames_opt cmd"
proof (cases opt)
  case Opt_available
  have b: "blames (if c then args_return () else args_comm m)" for c m by (cases c) (auto intro: blames_intros)
  assume "command env opt = Some cmd"
  then show ?thesis using Opt_available by (auto simp: blames_opt_def dest: blamesD [OF b])
next
  case (Opt_group a)
  have b: "blames (if c then args_return () else update_groups env True gs (\<lambda>g. args_return ()))" for c gs
    by (cases c) (auto intro!: blames_intros blames_update)
  assume "command env opt = Some cmd"
  then show ?thesis using Opt_group blames_use [of env a]
    by (auto simp: blames_opt_def dest: blamesD [OF b] split: option.splits prod.splits sum.splits)
next
  case (Opt_host a)
  assume "command env opt = Some cmd"
  then show ?thesis using Opt_host blames_host [of a] by (auto simp: blames_opt_def blames_def)
next
  case (Opt_bindaddr a)
  assume "command env opt = Some cmd"
  then show ?thesis using Opt_bindaddr by (auto simp: blames_opt_def on_options_def args_modify_def)
qed (use blames_use [of env] in \<open>auto simp: blames_opt_def\<close>)

lemma blames_flushserver: "blames (opt_flushserver env a)"
proof -
  have g: "blames (args_bind (args_comm m) (\<lambda>_. args_modify f))" for m :: "(nntp, unit) comm" and f by (intro blames_intros)
  have u: "blames (update_groups env False gs (\<lambda>g. args_modify f))" for gs f by (intro blames_update blames_intros)
  show ?thesis
    unfolding blames_def opt_flushserver_def Let_def
    by (auto dest: blamesD [OF g] blamesD [OF u] blamesD [OF blames_user] split: option.splits if_splits)
qed

lemma blames_bindD:
  "args_bind m f s = (Inl User_fatal, s') \<Longrightarrow> blames m \<Longrightarrow> (\<And>x. blames (f x)) \<Longrightarrow> user_bit s'"
  by (rule blamesD [OF blames_bind])

lemma blames_step: "blames_opt (option_step env opt)"
proof -
  have a: "blames (args_bind args_user_error (\<lambda>_. args_return k))" for k :: "int option" by (intro blames_intros)
  have f: "blames (args_bind (opt_flushserver env x) (\<lambda>_. args_return k))" for x and k :: "int option"
    by (intro blames_intros blames_flushserver)
  have s: "blames (args_bind (setting env o1) (\<lambda>_. args_return k))" for o1 and k :: "int option"
    by (intro blames_intros blames_setting)
  have c: "user_bit t'" if "command_step env o1 t = Some (Inl User_fatal, t')" for o1 t t'
    using that blames_flush [of env] blames_command [of env o1]
    by (auto simp: blames_opt_def command_step_def dest: blamesD [OF s] split: option.splits prod.splits sum.splits)
  show ?thesis unfolding blames_opt_def option_step_def
    by (cases opt) (auto dest: blamesD [OF a] blamesD [OF f] dest!: c)
qed

lemma blames_list: "blames (read_list a)" "blames (list_end env s)"
proof -
  have l: "blames (args_bind args_user_error (\<lambda>_. args_return args))" "blames (args_bind (args_return ()) (\<lambda>_. args_return args))"
    for args :: "string list" by (intro blames_intros)+
  show "blames (read_list a)"
    by (auto simp: read_list_def blames_def dest: blamesD [OF l(1)] blamesD [OF l(2)] split: option.splits prod.splits if_splits)
  show "blames (list_end env s)"
    by (auto simp: list_end_def blames_def Let_def dest: blamesD [OF blames_start])
qed

section \<open>Working off the options\<close>

lemma command_step_result: "command_step env opt s = Some (Inr v, s') \<Longrightarrow> v = None"
  by (auto simp: command_step_def args_bind_def args_return_def split: option.splits prod.splits sum.splits)

lemma option_step_result: "option_step env opt s = Some (Inr (Some k), s') \<Longrightarrow> k = 1"
  by (cases opt) (auto simp: option_step_def args_bind_def args_return_def dest: command_step_result split: prod.splits sum.splits)

text \<open>What holds of the state when the options are worked off: \<open>P\<close> between them, \<open>F\<close> also after the
  requests were made, \<open>E\<close> when the program is given up.\<close>

lemma do_args_rule:
  assumes step: "\<And>opt s r s'. P s \<Longrightarrow> list_arg opt = None \<Longrightarrow> option_step env opt s = Some (r, s') \<Longrightarrow> (case r of Inl e \<Rightarrow> E e s' | Inr v \<Rightarrow> P s')"
    and flush: "\<And>s r s'. P s \<Longrightarrow> flush_pending env s = Some (r, s') \<Longrightarrow> (case r of Inl e \<Rightarrow> E e s' | Inr u \<Rightarrow> P s' \<and> F s')"
    and rd: "\<And>a s r s'. P s \<Longrightarrow> F s \<Longrightarrow> read_list a s = (r, s') \<Longrightarrow> (case r of Inl e \<Rightarrow> E e s' | Inr v \<Rightarrow> P s' \<and> F s')"
    and start: "\<And>s. P s \<Longrightarrow> P (list_start s)"
    and stop: "\<And>s q r s'. P s \<Longrightarrow> F s \<Longrightarrow> P q \<Longrightarrow> list_end env s q = (r, s') \<Longrightarrow> (case r of Inl e \<Rightarrow> E e s' | Inr v \<Rightarrow> P s')"
    and "P s" "do_args env os s = Some (r, s')"
  shows "case r of Inl e \<Rightarrow> E e s' | Inr k \<Rightarrow> P s' \<and> (k = 0 \<longrightarrow> F s')"
proof -
  have "env' = env \<longrightarrow> P s \<longrightarrow> (case fst q of Inl e \<Rightarrow> E e (snd q) | Inr k \<Rightarrow> P (snd q) \<and> (k = 0 \<longrightarrow> F (snd q)))"
    if "do_args env' os s = Some q" for env' os s q
  proof (rule do_args.raw_induct [OF _ that, where P = "\<lambda>env' os s q. env' = env \<longrightarrow> P s \<longrightarrow>
      (case fst q of Inl e \<Rightarrow> E e (snd q) | Inr k \<Rightarrow> P (snd q) \<and> (k = 0 \<longrightarrow> F (snd q)))"], intro impI)
    fix rec env' os s q
    assume IH: "\<And>env' os s q. rec env' os s = Some q \<Longrightarrow> env' = env \<longrightarrow> P s \<longrightarrow>
        (case fst q of Inl e \<Rightarrow> E e (snd q) | Inr k \<Rightarrow> P (snd q) \<and> (k = 0 \<longrightarrow> F (snd q)))"
      and [simp]: "env' = env" and p: "P s"
      and body: "(case os of
        [] \<Rightarrow>
          (case flush_pending env' s of
             None \<Rightarrow> None
           | Some (r, s') \<Rightarrow> Some (case r of Inl e \<Rightarrow> Inl e | Inr _ \<Rightarrow> Inr 0, s'))
      | opt # os' \<Rightarrow>
          (case list_arg opt of
             Some arg \<Rightarrow>
               (case flush_pending env' s of
                  None \<Rightarrow> None
                | Some (r, s1) \<Rightarrow>
                    (case r of
                       Inl e \<Rightarrow> Some (Inl e, s1)
                     | Inr u \<Rightarrow>
                         (case read_list arg s1 of
                            (r2, s2) \<Rightarrow>
                              (case r2 of
                                 Inl e \<Rightarrow> Some (Inl e, s2)
                               | Inr args \<Rightarrow>
                                   if args = [] then rec env' os' s2
                                   else
                                     Option.bind (rec env' (ne_popt env' True args) (list_start s2))
                                       (\<lambda>q. case fst q of
                                          Inl e \<Rightarrow> Some (Inl e, snd q)
                                        | Inr v \<Rightarrow>
                                            (case list_end env' s2 (snd q) of
                                               (r4, s4) \<Rightarrow>
                                                 (case r4 of Inl e \<Rightarrow> Some (Inl e, s4) | Inr u \<Rightarrow> rec env' os' s4)))))))
           | None \<Rightarrow>
               (case option_step env' opt s of
                  None \<Rightarrow> None
                | Some (r, s') \<Rightarrow>
                    (case r of
                       Inl e \<Rightarrow> Some (Inl e, s')
                     | Inr v \<Rightarrow> (case v of None \<Rightarrow> rec env' os' s' | Some k \<Rightarrow> Some (Inr k, s')))))) = Some q"
    note IH = IH [THEN mp, OF _ refl, THEN mp]
    show "case fst q of Inl e \<Rightarrow> E e (snd q) | Inr k \<Rightarrow> P (snd q) \<and> (k = 0 \<longrightarrow> F (snd q))"
    proof (cases os)
      case Nil
      then show ?thesis using body flush [OF p] by (auto split: option.splits sum.splits)
    next
      case (Cons opt os')
      show ?thesis
      proof (cases "list_arg opt")
        case None
        obtain r s' where o: "option_step env opt s = Some (r, s')" using body Cons None by (auto split: option.splits)
        note st = step [OF p None o]
        show ?thesis
        proof (cases r)
          case (Inr v)
          then show ?thesis using body Cons None o st IH option_step_result [of env opt s _ s'] by (cases v) auto
        qed (use body Cons None o st in auto)
      next
        case (Some arg)
        obtain r s1 where f: "flush_pending env s = Some (r, s1)" using body Cons Some by (auto split: option.splits)
        note fl = flush [OF p f]
        show ?thesis
        proof (cases r)
          case (Inr u)
          obtain r2 s2 where l: "read_list arg s1 = (r2, s2)" by (cases "read_list arg s1")
          have rl: "case r2 of Inl e \<Rightarrow> E e s2 | Inr v \<Rightarrow> P s2 \<and> F s2" using rd [OF _ _ l] fl Inr by simp
          show ?thesis
          proof (cases r2)
            case (Inr args)
            show ?thesis
            proof (cases "args = []")
              case True
              then have "rec env os' s2 = Some q" using body Cons Some f l Inr \<open>r = Inr u\<close> by simp
              then show ?thesis using IH rl Inr by simp
            next
              case False
              obtain q1 where q1: "rec env (ne_popt env True args) (list_start s2) = Some q1"
                using body Cons Some f l Inr \<open>r = Inr u\<close> False by (auto split: bind_splits)
              have i1: "case fst q1 of Inl e \<Rightarrow> E e (snd q1) | Inr k \<Rightarrow> P (snd q1) \<and> (k = 0 \<longrightarrow> F (snd q1))"
                using IH [OF q1] start rl Inr by simp
              show ?thesis
              proof (cases "fst q1")
                case (Inr v)
                obtain r4 s4 where e: "list_end env s2 (snd q1) = (r4, s4)" by (cases "list_end env s2 (snd q1)")
                have i2: "case r4 of Inl e \<Rightarrow> E e s4 | Inr v \<Rightarrow> P s4"
                  using stop [OF _ _ _ e] rl i1 Inr \<open>r2 = Inr args\<close> by simp
                show ?thesis
                proof (cases r4)
                  case (Inr u4)
                  then have "rec env os' s4 = Some q"
                    using body Cons Some f l \<open>r = Inr u\<close> \<open>r2 = Inr args\<close> False q1 \<open>fst q1 = Inr v\<close> e by simp
                  then show ?thesis using IH i2 Inr by simp
                qed (use body Cons Some f l \<open>r = Inr u\<close> \<open>r2 = Inr args\<close> False q1 \<open>fst q1 = Inr v\<close> e i2 in auto)
              qed (use body Cons Some f l \<open>r = Inr u\<close> Inr False q1 i1 in auto)
            qed
          qed (use body Cons Some f l Inr rl in auto)
        qed (use body Cons Some f fl in auto)
      qed
    qed
  qed
  from this [OF assms(7)] show ?thesis using assms(6) unfolding fst_conv snd_conv by blast
qed

lemma do_args_blames: "do_args env os s = Some (Inl User_fatal, s') \<Longrightarrow> user_bit s'"
proof -
  assume d: "do_args env os s = Some (Inl User_fatal, s')"
  note intro = blames_step [of env] blames_flush [of env] blames_list(1) blames_list(2) [of env]
  have "case Inl User_fatal of Inl e \<Rightarrow> e = User_fatal \<longrightarrow> user_bit s' | Inr (k :: int) \<Rightarrow> True \<and> (k = 0 \<longrightarrow> True)"
    by (rule do_args_rule [OF _ _ _ _ _ _ d, where P = "\<lambda>_. True" and F = "\<lambda>_. True"])
      (use intro in \<open>auto simp: blames_opt_def blames_def split: sum.split\<close>)
  then show ?thesis by simp
qed

section \<open>The requests that wait\<close>

text \<open>Requests for groups are gathered only in a mode for groups, requests for files only in a mode for files
  and with groups chosen, patterns for the server only in a mode without the cache.\<close>

definition requests_ok :: "args_state \<Rightarrow> bool" where
  "requests_ok s \<longleftrightarrow>
     (ag_gpreds s \<noteq> [] \<longrightarrow> og_cmdmode (ag_options s) \<in> {GROUPLIST_MODE, NOCACHE_GROUPLIST_MODE}) \<and>
     (ag_getinfos s \<noteq> [] \<longrightarrow> og_cmdmode (ag_options s) \<in> {RETRIEVE_MODE, NOCACHE_RETRIEVE_MODE} \<and> og_groups (ag_options s) \<noteq> []) \<and>
     (ag_pats s \<noteq> [] \<longrightarrow> og_cmdmode (ag_options s) \<in> {NOCACHE_RETRIEVE_MODE, NOCACHE_GROUPLIST_MODE})"

definition no_requests :: "args_state \<Rightarrow> bool" where
  "no_requests s \<longleftrightarrow> ag_gpreds s = [] \<and> ag_getinfos s = [] \<and> ag_pats s = []"

lemma no_requests_ok: "no_requests s \<Longrightarrow> requests_ok s"
  by (simp add: no_requests_def requests_ok_def)

definition reqs where
  "reqs s = (ag_getinfos s, ag_pats s, ag_gpreds s, og_cmdmode (ag_options s), og_groups (ag_options s))"

definition frame :: "'a args \<Rightarrow> bool" where
  "frame m \<longleftrightarrow> (\<forall>s. reqs (snd (m s)) = reqs s)"

lemma reqs_ok: "reqs s' = reqs s \<Longrightarrow> requests_ok s' = requests_ok s \<and> no_requests s' = no_requests s"
  by (simp add: reqs_def requests_ok_def no_requests_def)

lemma frameD: "frame m \<Longrightarrow> m s = (r, s') \<Longrightarrow> reqs s' = reqs s"
  by (metis frame_def snd_conv)

named_theorems frame_intros

lemma reqs_put [simp]: "reqs (put_status st s) = reqs s" "reqs (s\<lparr>ag_nntp := n\<rparr>) = reqs s" "reqs (s\<lparr>ag_dirs := d, ag_input := i\<rparr>) = reqs s"
  "reqs (s\<lparr>ag_dirs := d\<rparr>) = reqs s"
  by (simp_all add: reqs_def put_status_def)

lemma frame_user [frame_intros]: "frame args_user_error" "frame args_path_error"
  by (simp_all add: frame_def args_user_error_def args_path_error_def split: prod.split)

lemma frame_return [frame_intros]: "frame (args_return x)" "frame (args_throw e)"
  by (simp_all add: frame_def args_return_def args_throw_def)

lemma frame_bind [frame_intros]: "frame m \<Longrightarrow> (\<And>x. frame (f x)) \<Longrightarrow> frame (args_bind m f)"
  unfolding frame_def args_bind_def by (auto split: prod.split sum.split) (metis snd_conv)+

lemma frame_comm [frame_intros]: "frame (args_comm m)"
  by (simp add: frame_def args_comm_def split: prod.split sum.split)

lemma frame_modify [frame_intros]: "(\<And>s. reqs (f s) = reqs s) \<Longrightarrow> frame (args_modify f)"
  by (simp add: frame_def args_modify_def)

lemma frame_options [frame_intros]:
  "(\<And>opts. og_cmdmode (f opts) = og_cmdmode opts \<and> og_groups (f opts) = og_groups opts) \<Longrightarrow> frame (on_options f)"
  by (simp add: frame_def on_options_def args_modify_def reqs_def)

lemma frame_flags [frame_intros]: "frame (set_flags f)"
  unfolding set_flags_def on_flags_def by (intro frame_intros) simp

lemma frame_checked [frame_intros]:
  "(\<And>opts opts'. f opts = Some opts' \<Longrightarrow> og_cmdmode opts' = og_cmdmode opts \<and> og_groups opts' = og_groups opts) \<Longrightarrow>
     frame (args_checked f)"
  using frame_user(1) by (auto simp: frame_def args_checked_def reqs_def split: option.split)

lemma frame_parsed [frame_intros]: "(\<And>x s. reqs (upd x s) = reqs s) \<Longrightarrow> frame (args_parsed r upd)"
  using frame_user(1) by (simp add: frame_def args_parsed_def split: sum.split)

lemma frame_dupe_flags [frame_intros]: "frame (args_dupe_flags a)"
  by (simp add: frame_def args_dupe_flags_def reqs_def put_status_def split: prod.split)

lemma frame_start [frame_intros]: "frame (back_to_start env)"
  by (simp add: frame_def back_to_start_def split: chdir_end.split)

lemma frame_change [frame_intros]:
  assumes "\<And>c opts. og_cmdmode (ok c opts) = og_cmdmode opts \<and> og_groups (ok c opts) = og_groups opts"
    "\<And>opts. og_cmdmode (bad opts) = og_cmdmode opts \<and> og_groups (bad opts) = og_groups opts"
  shows "frame (change_path env dir ok bad)"
proof -
  have 1: "frame (args_bind (on_options (ok c)) (\<lambda>_. back_to_start env))" for c using assms(1) by (intro frame_intros)
  have 2: "frame (on_options bad)" using assms(2) by (intro frame_intros)
  show ?thesis
    unfolding frame_def change_path_def
    by (auto simp: Let_def dest: frameD [OF frame_user(2)] frameD [OF 2] simp: 1 [unfolded frame_def]
        split: prod.split mkdir_end.split sum.split) (metis 2 frame_def frame_user(2) reqs_put(3) snd_conv)+
qed

lemma frame_setting:
  assumes "\<And>a. opt \<noteq> Opt_retrieve a" "\<And>a. opt \<noteq> Opt_expretrieve a"
  shows "frame (setting env opt)"
proof (cases opt)
  case (Opt_dupepath a)
  then show ?thesis using frame_user(2)
    by (auto simp: frame_def opt_dupepath_def on_options_def args_modify_def reqs_def)
next
  case (Opt_maxlines a)
  show ?thesis unfolding Opt_maxlines setting.simps opt_maxlines_def
    by (auto intro!: frame_intros) (simp_all add: reqs_def)
qed (use assms in \<open>auto simp: opt_tries_def reqs_def get_path_def get_temppath_def set_test_multi_def set_text_handling_def
      set_save_text_for_binaries_def set_makedirs_def Let_def intro!: frame_intros split: option.splits if_splits prod.splits\<close>)

lemma user_ok: "args_user_error s = (r, s') \<Longrightarrow> requests_ok s' = requests_ok s"
  using reqs_ok [OF frameD [OF frame_user(1)]] by blast

lemma regex_error_ok: "regex_error e s = (r, s') \<Longrightarrow> requests_ok s' = requests_ok s"
  by (auto simp: regex_error_def args_throw_def dest: user_ok split: etree_error.splits)

lemma new_getinfo_state: "\<exists>is. snd (new_getinfo env p s) = s\<lparr>ag_getinfos := is\<rparr>"
  by (auto simp: new_getinfo_def Let_def intro: exI [of _ "ag_getinfos s"])

lemma new_getinfo_ok:
  assumes "requests_ok s" "og_cmdmode (ag_options s) \<in> {RETRIEVE_MODE, NOCACHE_RETRIEVE_MODE}" "og_groups (ag_options s) \<noteq> []"
  shows "requests_ok (snd (new_getinfo env p s))"
  using assms new_getinfo_state [of env p s] by (auto simp: requests_ok_def)

text \<open>The pattern alone may stay.\<close>

lemma pattern_then_ok:
  assumes "requests_ok s" "nocache \<Longrightarrow> og_cmdmode (ag_options s) \<in> {NOCACHE_RETRIEVE_MODE, NOCACHE_GROUPLIST_MODE}"
    "\<And>t. requests_ok t \<Longrightarrow> ag_options t = ag_options s \<Longrightarrow> requests_ok (snd (m t))"
  shows "requests_ok (snd (pattern_then nocache field a m s))"
proof (cases "nocache")
  case True
  have "requests_ok (snd (m (s\<lparr>ag_pats := ag_pats s @ [(field, w)]\<rparr>)))" for w
    using assms(1) assms(2) [OF True] by (intro assms(3)) (auto simp: requests_ok_def)
  then show ?thesis using True assms(1) user_ok [of s]
    by (auto simp: pattern_then_def add_pat_def args_bind_def args_modify_def split: sum.split) (metis prod.collapse)
qed (use assms in \<open>simp add: pattern_then_def\<close>)

lemma add_gpred_ok:
  "requests_ok s \<Longrightarrow> og_cmdmode (ag_options s) \<in> {GROUPLIST_MODE, NOCACHE_GROUPLIST_MODE} \<Longrightarrow> requests_ok (snd (add_gpred p s))"
  by (auto simp: requests_ok_def add_gpred_def args_modify_def)

lemma snd_user_ok [simp]: "requests_ok (snd (args_user_error s)) = requests_ok s" "requests_ok (snd (regex_error e s)) = requests_ok s"
  using user_ok [of s] regex_error_ok [of e s] by (metis prod.collapse)+

lemma mode_cases: "m \<noteq> GROUPLIST_MODE \<Longrightarrow> m \<noteq> NOCACHE_GROUPLIST_MODE \<Longrightarrow> m \<in> {RETRIEVE_MODE, NOCACHE_RETRIEVE_MODE}"
  by (cases m) auto

lemma retrieve_ok:
  assumes "requests_ok s"
  shows "requests_ok (snd (opt_retrieve env a s))"
proof -
  have g: "requests_ok (snd (retrieve_groups env a s))"
    if "og_cmdmode (ag_options s) \<in> {GROUPLIST_MODE, NOCACHE_GROUPLIST_MODE}"
    unfolding retrieve_groups_def
    by (rule pattern_then_ok) (use that assms in \<open>auto intro: add_gpred_ok split: sum.split\<close>)
  have f: "requests_ok (snd (retrieve_files env a s))"
    if "og_cmdmode (ag_options s) \<in> {RETRIEVE_MODE, NOCACHE_RETRIEVE_MODE}" "og_groups (ag_options s) \<noteq> []"
    unfolding retrieve_files_def
    by (rule pattern_then_ok) (use that assms in \<open>auto intro!: new_getinfo_ok split: sum.split\<close>)
  show ?thesis using assms g f mode_cases by (auto simp: opt_retrieve_def)
qed

lemma expretrieve_ok:
  assumes "requests_ok s"
  shows "requests_ok (snd (opt_expretrieve env a s))"
  using assms mode_cases by (auto simp: opt_expretrieve_def intro!: add_gpred_ok new_getinfo_ok split: sum.split)

lemma setting_ok: "requests_ok s \<Longrightarrow> requests_ok (snd (setting env opt s))"
proof (cases "(\<exists>a. opt = Opt_retrieve a) \<or> (\<exists>a. opt = Opt_expretrieve a)")
  case False
  assume "requests_ok s"
  then show ?thesis using reqs_ok [of "snd (setting env opt s)" s] frame_setting [of opt env] False unfolding frame_def by blast
qed (auto simp: retrieve_ok expretrieve_ok)

text \<open>After the requests were made there are none.\<close>

lemma after_retrieve_requests:
  "after_retrieve s q = Some (r, s') \<Longrightarrow> reqs s' = reqs s"
  by (auto simp: after_retrieve_def reqs_def split: option.splits)

lemma search_requests:
  assumes "search_pending env s = (r, s')"
  shows "(if r = Inr () then ag_gpreds s' = [] \<and> ag_getinfos s' = ag_getinfos s \<and> (ag_pats s' = ag_pats s \<or> ag_pats s' = []) else reqs s' = reqs s) \<and>
    og_cmdmode (ag_options s') = og_cmdmode (ag_options s) \<and> og_groups (ag_options s') = og_groups (ag_options s)"
proof (cases "ag_gpreds s = []")
  case False
  define m where "m = (if \<not> opts_flag s GETFILES_TESTMODE then args_user_error
               else if ag_pats s \<noteq> []
               then args_bind (args_comm (nntp_grouplist_xsearch (the_world env) (nntp_opts s)
                        (List.map (eval_pred (group_cmp_holds (ne_rx env))) (ag_gpreds s)) (List.map snd (ag_pats s))))
                      (\<lambda>out. args_modify (\<lambda>s. s\<lparr>ag_out := ag_out s @ out\<rparr>))
               else args_modify (\<lambda>t. (case nntp_grouplist_search (nntp_opts t)
                        (List.map (eval_pred (group_cmp_holds (ne_rx env))) (ag_gpreds s)) (ag_nntp t) of
                      (out, n) \<Rightarrow> t\<lparr>ag_nntp := n, ag_out := ag_out t @ out\<rparr>)))"
  have fr: "frame m" unfolding m_def
    by (cases "opts_flag s GETFILES_TESTMODE"; cases "ag_pats s = []")
      (auto intro!: frame_intros simp: reqs_def split: prod.split)
  have e: "search_pending env s = args_bind m (\<lambda>_. args_modify (\<lambda>s. s\<lparr>ag_gpreds := [], ag_pats := []\<rparr>)) s"
    using False by (simp add: search_pending_def m_def Let_def)
  obtain r1 s1 where m: "m s = (r1, s1)" by (cases "m s")
  have "reqs s1 = reqs s" using frameD [OF fr m] .
  then show ?thesis using assms e m by (cases r1) (auto simp: args_bind_def args_modify_def reqs_def)
qed (use assms in \<open>simp add: search_pending_def\<close>)

lemma flush_requests:
  assumes "flush_pending env s = Some (r, s')"
  shows "(requests_ok s \<longrightarrow> requests_ok s') \<and> (r = Inr () \<longrightarrow> no_requests s') \<and>
    og_cmdmode (ag_options s') = og_cmdmode (ag_options s) \<and> og_groups (ag_options s') = og_groups (ag_options s)"
proof -
  obtain r1 s1 where p: "search_pending env s = (r1, s1)" by (cases "search_pending env s")
  note sr = search_requests [OF p]
  show ?thesis
  proof (cases r1)
    case (Inl e)
    then show ?thesis using assms p sr by (auto simp: flush_pending_def requests_ok_def reqs_def)
  next
    case (Inr u)
    then have r: "retrieve_pending env s1 = Some (r, s')" using assms p by (simp add: flush_pending_def)
    show ?thesis
    proof (cases "ag_pats s1 = [] \<and> ag_getinfos s1 = []")
      case True
      then have "r = Inr ()" "s' = s1" using r by (simp_all add: retrieve_pending_def)
      then show ?thesis using sr Inr True by (auto simp: no_requests_def requests_ok_def)
    next
      case False
      show ?thesis
      proof (cases "group_list (og_groups (ag_options s1))")
        case None
        then have "r = Inl Dead" "s' = s1" using r False by (auto simp: retrieve_pending_def)
        then show ?thesis using sr Inr by (auto simp: requests_ok_def)
      next
        case (Some gs)
        then obtain q where "after_retrieve (s1\<lparr>ag_getinfos := [], ag_pats := []\<rparr>) q = Some (r, s')"
          using r False by (auto simp: retrieve_pending_def Let_def split: if_splits)
        from after_retrieve_requests [OF this] show ?thesis using sr Inr by (auto simp: reqs_def no_requests_def requests_ok_def)
      qed
    qed
  qed
qed

text \<open>A command starts without requests and makes none.\<close>

lemma frame_update: "(\<And>g. frame (body g)) \<Longrightarrow> frame (update_groups env getheaders gs body)"
proof (induction env getheaders gs body rule: update_groups.induct)
  case (3 env getheaders g gs body)
  have "frame (\<lambda>s. args_comm (nntp_group (the_world env) (ne_rx env) (ne_clock env) (nntp_opts s) g getheaders) s)"
    using frame_comm by (auto simp: frame_def)
  then show ?case using 3 by (auto intro!: frame_bind)
qed (auto intro: frame_intros)

lemma no_requests_fields [simp]:
  "no_requests (set_cmdmode m s) = no_requests s" "no_requests (put_config c s) = no_requests s"
  "no_requests (s\<lparr>ag_options := opts\<rparr>) = no_requests s" "no_requests (open_host h s) = no_requests s"
  "no_requests (s\<lparr>ag_nntp := n\<rparr>) = no_requests s"
  by (simp_all add: no_requests_def set_cmdmode_def put_config_def open_host_def)

lemma frame_none: "frame m \<Longrightarrow> m s = (r, s') \<Longrightarrow> no_requests s' = no_requests s"
  using reqs_ok frameD by blast

lemma use_groups_none: "use_groups env names s = Some (r, s') \<Longrightarrow> no_requests s' = no_requests s"
  by (auto simp: use_groups_def split: option.splits)

lemma command_none:
  assumes "command env opt = Some cmd" "cmd s = Some (r, s')"
  shows "no_requests s' = no_requests s"
proof (cases opt)
  case Opt_available
  have f: "frame (if c then args_return () else args_comm m)" for c m by (cases c) (auto intro: frame_intros)
  show ?thesis using assms Opt_available frame_none [OF f] by auto
next
  case (Opt_group a)
  have f: "frame (if c then args_return () else update_groups env True gs (\<lambda>g. args_return ()))" for c gs
    by (cases c) (auto intro!: frame_intros frame_update)
  show ?thesis using assms Opt_group frame_none [OF f]
    by (auto split: option.splits sum.splits dest: use_groups_none) (metis no_requests_fields(1) use_groups_none)+
next
  case (Opt_host a)
  have f: "frame (args_bind (if b then args_user_error else args_return ()) (\<lambda>_. args_modify (open_host h)))" for b h
    by (cases b) (auto intro!: frame_intros simp: reqs_def open_host_def)
  show ?thesis using assms Opt_host frame_none [OF f] by (auto simp: opt_host_def Let_def)
qed (use assms in \<open>auto simp: on_options_def args_modify_def dest: use_groups_none\<close>)

lemma flushserver_frame: "opt_flushserver env a s = (r, s') \<Longrightarrow> reqs s' = reqs s"
proof -
  have g: "frame (args_bind (args_comm m) (\<lambda>_. args_modify (\<lambda>s. s\<lparr>ag_nntp := f s\<rparr>)))" for m :: "(nntp, unit) comm" and f
    by (intro frame_intros) simp
  have u: "frame (update_groups env False gs (\<lambda>g. args_modify (\<lambda>s. s\<lparr>ag_nntp := f s\<rparr>)))" for gs f
    by (intro frame_update frame_intros) simp
  assume "opt_flushserver env a s = (r, s')"
  then show ?thesis
    by (auto simp: opt_flushserver_def Let_def dest: frameD [OF frame_user(1)] frameD [OF g] frameD [OF u] split: option.splits if_splits)
qed

lemma bind_return: "args_bind m (\<lambda>_. args_return k) s = (r, s') \<Longrightarrow> s' = snd (m s)"
  by (auto simp: args_bind_def args_return_def split: prod.splits sum.splits)

lemma command_step_ok:
  assumes "requests_ok s" "command_step env opt s = Some (r, s')"
  shows "requests_ok s'"
proof (cases "command env opt")
  case None
  then have "s' = snd (setting env opt s)" using assms(2) by (auto simp: command_step_def dest: bind_return)
  then show ?thesis using setting_ok assms(1) by simp
next
  case (Some cmd)
  obtain r1 s1 where f: "flush_pending env s = Some (r1, s1)" using assms(2) Some by (auto simp: command_step_def split: option.splits)
  note fr = flush_requests [OF f]
  show ?thesis
  proof (cases r1)
    case (Inl e)
    then show ?thesis using assms Some f fr by (simp add: command_step_def)
  next
    case (Inr u)
    then obtain r2 where "cmd s1 = Some (r2, s')" using assms(2) Some f by (auto simp: command_step_def split: option.splits sum.splits)
    then show ?thesis using command_none [OF Some] fr Inr no_requests_ok by auto
  qed
qed

lemma step_ok: "requests_ok s \<Longrightarrow> option_step env opt s = Some (r, s') \<Longrightarrow> requests_ok s'"
proof (cases opt)
  case (Opt_arg a)
  assume "requests_ok s" "option_step env opt s = Some (r, s')"
  then show ?thesis using Opt_arg by (auto simp: option_step_def dest: bind_return)
next
  case (Opt_flushserver a)
  assume s: "requests_ok s" "option_step env opt s = Some (r, s')"
  obtain r1 s1 where f: "opt_flushserver env a s = (r1, s1)" by (cases "opt_flushserver env a s")
  have "s' = s1" using s(2) Opt_flushserver f by (auto simp: option_step_def dest: bind_return)
  then show ?thesis using reqs_ok [OF flushserver_frame [OF f]] s(1) by simp
qed (auto simp: option_step_def dest: command_step_ok)

lemma read_list_reqs: "read_list a s = (r, s') \<Longrightarrow> reqs s' = reqs s"
proof -
  have f: "frame (args_bind args_user_error (\<lambda>_. args_return args))" "frame (args_bind (args_return ()) (\<lambda>_. args_return args))"
    for args :: "string list" by (intro frame_intros)+
  assume "read_list a s = (r, s')"
  then show ?thesis
    by (auto simp: read_list_def dest: frameD [OF f(1)] frameD [OF f(2)] split: option.splits prod.splits if_splits)
qed

lemma list_end_reqs: "list_end env s q = (r, s') \<Longrightarrow> reqs s' = reqs s"
  by (auto simp: list_end_def Let_def open_host_def reqs_def dest!: frameD [OF frame_start] split: option.splits)

lemma do_args_requests:
  assumes "requests_ok s" "do_args env os s = Some (Inr k, s')"
  shows "requests_ok s' \<and> (k = 0 \<longrightarrow> no_requests s')"
proof -
  have "case Inr k of Inl (e :: run_ex) \<Rightarrow> True | Inr (k :: int) \<Rightarrow> requests_ok s' \<and> (k = 0 \<longrightarrow> no_requests s')"
  proof (rule do_args_rule [where P = requests_ok and F = no_requests and E = "\<lambda>_ _. True", OF _ _ _ _ _ assms], goal_cases)
    case (1 opt s r s')
    then show ?case using step_ok [of s env opt r s'] by (simp split: sum.split)
  next
    case (2 s r s')
    then show ?case using flush_requests [OF 2(2)] by (auto split: sum.split)
  next
    case (3 a s r s')
    then show ?case using reqs_ok [OF read_list_reqs [OF 3(3)]] by (simp split: sum.split)
  next
    case (4 s)
    show ?case by (simp add: requests_ok_def list_start_def)
  next
    case (5 s q r s')
    then show ?case using reqs_ok [OF list_end_reqs [OF 5(4)]] by (simp split: sum.split)
  qed
  then show ?thesis by simp
qed

section \<open>The end of the program\<close>

lemma cleanup_flags [simp]: "errorflags (nn_status (cleanupcache n)) = errorflags (nn_status n)"
  by (simp add: cleanupcache_def cache_warnings_def set_warn_status_def Let_def split: prod.split)

lemma nget_cleanup_flags [simp]: "errorflags (nn_status (nget_cleanup now n)) = errorflags (nn_status n)"
  by (simp add: nget_cleanup_def Let_def)

lemma fatal_bit: "bit (errorflags (set_error_status ST_fatal 1 st)) 7"
  by (simp add: set_error_status_def status_bit_def error_bits_def bit_or_iff)

lemma error_status_mono: "bit (errorflags st) k \<Longrightarrow> bit (errorflags (set_error_status t n st)) k"
  by (simp add: set_error_status_def bit_or_iff)

lemma startup_blames:
  assumes "error_count (nn_status (ag_nntp s)) ST_user = 0" "startup env argv s = (Inl User_fatal, s')"
  shows "user_bit s'"
proof -
  obtain home where h: "find_home env (ag_dirs s) = Some home" using assms(2) by (auto simp: startup_def split: option.splits)
  have l: "\<not> length argv < 2" using assms(2) h by (auto simp: startup_def)
  obtain fn content where c: "find_rc env (nn_files (ag_nntp s)) home = Some fn" "nn_files (ag_nntp s) fn = Some content"
    using assms(2) h l by (auto simp: startup_def split: option.splits)
  obtain r st where rc: "read_config content home (find_cache env (ag_dirs s)) (args_cfg s) (ag_options s) (nn_status (ag_nntp s)) = (r, st)"
    by (metis prod.collapse)
  obtain sec rest level e where ld: "cfg_load content cs_new 0 = (sec, rest, level, e)" by (cases "cfg_load content cs_new 0")
  obtain n where n: "st = set_error_status ST_user (int n) (nn_status (ag_nntp s))" "r = Inl User_fatal \<longrightarrow> 0 < n"
    using read_config_counts [OF ld rc] by blast
  have "0 < n \<and> errorflags (nn_status (ag_nntp s')) = errorflags st"
  proof (cases r)
    case (Inl x)
    then have "x = User_fatal" "s' = put_status st s" using assms(2) h l c rc by (simp_all add: startup_def)
    then show ?thesis using n Inl by (simp add: put_status_def)
  next
    case (Inr y)
    then show ?thesis using assms h l c rc n(1)
      by (cases y) (auto simp: startup_def get_user_error_status_def set_error_status_def put_status_def split: if_splits)
  qed
  then show ?thesis using counted_bit n(1) unfolding user_bit_def by simp
qed

lemma run_blames:
  assumes "error_count (nn_status (ag_nntp s)) ST_user = 0" "nget_run env argv s = Some (Inl User_fatal, s')"
  shows "user_bit s'"
proof -
  obtain r s1 where st: "startup env argv s = (r, s1)" by (cases "startup env argv s")
  show ?thesis
  proof (cases r)
    case (Inl e)
    then show ?thesis using assms startup_blames [OF assms(1)] st by (simp add: nget_run_def)
  next
    case (Inr b)
    then show ?thesis using assms(2) st do_args_blames by (cases b) (auto simp: nget_run_def)
  qed
qed

text \<open>What waits after \<open>-X -r\<close> with a bad expression.\<close>

lemma flush_pattern:
  assumes "ag_gpreds s = []" "ag_pats s \<noteq> []" "group_list (og_groups (ag_options s)) = Some gs"
  shows "flush_pending env s =
    after_retrieve (s\<lparr>ag_getinfos := [], ag_pats := []\<rparr>)
      (nntp_xretrieve (run_env env s) (ne_rx env) (ne_clock env) (retr_opts s) gs (List.map (\<lambda>i. i (args_cfg s)) (ag_getinfos s))
         (ag_pats s) (ag_rands s) (ag_nntp s))"
  using assms by (simp add: flush_pending_def search_pending_def retrieve_pending_def Let_def)

section \<open>A list in itself\<close>

lemma list_loop:
  assumes words: "read_args content [] = (words, True)" "words \<noteq> []" "ne_popt env True words = [Opt_list a]"
    and found: "nn_files (ag_nntp s) (list_file s a) = Some content" and none: "no_requests s"
  shows "do_args env (Opt_list a # os) s = None"
proof (rule ccontr)
  let ?P = "\<lambda>env' opts t q. \<not> (env' = env \<and> (\<exists>os. opts = Opt_list a # os) \<and> no_requests t \<and>
     nn_files (ag_nntp t) (list_file t a) = Some content)"
  assume "do_args env (Opt_list a # os) s \<noteq> None"
  then obtain q where q: "do_args env (Opt_list a # os) s = Some q" by auto
  have "?P env (Opt_list a # os) s q"
  proof (rule do_args.raw_induct [OF _ q, where P = ?P], intro notI, elim conjE exE)
    fix rec env' opts t q os'
    assume IH: "\<And>env' opts t q. rec env' opts t = Some q \<Longrightarrow> ?P env' opts t q"
      and t: "env' = env" "opts = Opt_list a # os'" "no_requests t" "nn_files (ag_nntp t) (list_file t a) = Some content"
      and body: "(case opts of
        [] \<Rightarrow>
          (case flush_pending env' t of
             None \<Rightarrow> None
           | Some (r, s') \<Rightarrow> Some (case r of Inl e \<Rightarrow> Inl e | Inr _ \<Rightarrow> Inr 0, s'))
      | opt # os' \<Rightarrow>
          (case list_arg opt of
             Some arg \<Rightarrow>
               (case flush_pending env' t of
                  None \<Rightarrow> None
                | Some (r, s1) \<Rightarrow>
                    (case r of
                       Inl e \<Rightarrow> Some (Inl e, s1)
                     | Inr u \<Rightarrow>
                         (case read_list arg s1 of
                            (r2, s2) \<Rightarrow>
                              (case r2 of
                                 Inl e \<Rightarrow> Some (Inl e, s2)
                               | Inr args \<Rightarrow>
                                   if args = [] then rec env' os' s2
                                   else
                                     Option.bind (rec env' (ne_popt env' True args) (list_start s2))
                                       (\<lambda>q. case fst q of
                                          Inl e \<Rightarrow> Some (Inl e, snd q)
                                        | Inr v \<Rightarrow>
                                            (case list_end env' s2 (snd q) of
                                               (r4, s4) \<Rightarrow>
                                                 (case r4 of Inl e \<Rightarrow> Some (Inl e, s4) | Inr u \<Rightarrow> rec env' os' s4)))))))
           | None \<Rightarrow>
               (case option_step env' opt t of
                  None \<Rightarrow> None
                | Some (r, s') \<Rightarrow>
                    (case r of
                       Inl e \<Rightarrow> Some (Inl e, s')
                     | Inr v \<Rightarrow> (case v of None \<Rightarrow> rec env' os' s' | Some k \<Rightarrow> Some (Inr k, s')))))) = Some q"
    have f: "flush_pending env t = Some (Inr (), t)"
      using t(3) by (simp add: no_requests_def flush_pending_def search_pending_def retrieve_pending_def)
    have l: "read_list a t = (Inr words, t)" using t(4) words(1) by (simp add: read_list_def args_bind_def args_return_def)
    obtain q' where "rec env (ne_popt env True words) (list_start t) = Some q'"
      using body t(1,2) f l words(2) by (auto split: bind_splits)
    from IH [OF this] show False
      using t(4) words(3) by (simp add: no_requests_def list_start_def list_file_def)
  qed
  then show False using found none by simp
qed

section \<open>Properties\<close>

text \<open>Property C37. When the configuration file was read without a user error, every setting in it is one that the
  program knows, all its lines were valid and all its braces are balanced: what is misspelled is reported.\<close>

theorem settings_reported:
  assumes "cfg_load content cs_new 0 = (sec, rest, level, e)"
    and "read_config content home cachehome c0 opts st = (Inr x, st')"
    and "error_count st' ST_user = error_count st ST_user"
  shows "e = 0 \<and> level = 0 \<and> (\<forall>p. item_at sec p \<longrightarrow> known_item rc_keys p)"
proof -
  obtain n where n: "st' = set_error_status ST_user (int n) st"
    "n = 0 \<Longrightarrow> e = 0 \<and> level = 0 \<and> (\<forall>p. item_at sec p \<longrightarrow> known_item rc_keys p)"
    using read_config_counts [OF assms(1,2)] by blast
  then have "n = 0" using assms(3) by (simp add: set_error_status_def)
  then show ?thesis by (rule n(2))
qed

text \<open>Property C38. The exit status tells how the program ended: when it is given up, by a fatal user error or
  another exception, the status is not 0, with the bit for user errors and paths or the bit for fatal
  errors, and the bit of every error reported before is in it, however the cache is saved at the end.\<close>

theorem exit_status_tells:
  assumes "error_count (nn_status (ag_nntp s)) ST_user = 0"
    and "nget_run env argv s = Some (r, s1)" "nget_main env argv s = Some (Exit code, s2)"
  shows "(\<forall>k. bit (errorflags (nn_status (ag_nntp s1))) k \<longrightarrow> bit code k) \<and>
    (r = Inl User_fatal \<longrightarrow> bit code 2) \<and> (r = Inl Raised \<or> r = Inl Exits \<longrightarrow> bit code 7) \<and> ((\<exists>e. r = Inl e) \<longrightarrow> code \<noteq> 0) \<and>
    ((\<exists>k. r = Inr k) \<longrightarrow> code = errorflags (nn_status (ag_nntp s1)))"
proof -
  have m: "main_end env (r, s1) = (Exit code, s2)" using assms(2,3) by (simp add: nget_main_def)
  have code: "code = errorflags (catch_status r (nn_status (ag_nntp s1)))" and "r \<noteq> Inl Dead"
    using m by (auto simp: main_end_def Let_def get_exit_status_def put_status_def split: sum.splits run_ex.splits)
  moreover have "user_bit s1" if "r = Inl User_fatal" using run_blames [OF assms(1)] assms(2) that by simp
  moreover have "bit code 7" if "r = Inl Raised \<or> r = Inl Exits" using that code fatal_bit by (auto simp: catch_status_def)
  moreover have "bit (errorflags (nn_status (ag_nntp s1))) k \<longrightarrow> bit code k" for k
    using code by (auto simp: catch_status_def error_status_mono split: sum.split run_ex.split)
  ultimately have bits: "r = Inl User_fatal \<Longrightarrow> bit code 2" "r = Inl Raised \<or> r = Inl Exits \<Longrightarrow> bit code 7"
    "\<forall>k. bit (errorflags (nn_status (ag_nntp s1))) k \<longrightarrow> bit code k"
    by (auto simp: user_bit_def)
  have "code \<noteq> 0" if "r = Inl e" for e
    using bits(1,2) that \<open>r \<noteq> Inl Dead\<close> by (cases e) auto
  moreover have "code = errorflags (nn_status (ag_nntp s1))" if "r = Inr k" for k using code that by (simp add: catch_status_def)
  ultimately show ?thesis using bits by blast
qed


text \<open>A list of options that names itself, and nothing else, is never left.\<close>

theorem list_in_itself:
  assumes "read_args content [] = (words, True)" "words \<noteq> []" "ne_popt env True words = [Opt_list a]"
    and "nn_files (ag_nntp s) (list_file s a) = Some content" "no_requests s"
  shows "do_args env (Opt_list a # os) s = None"
  using assms by (rule list_loop)

text \<open>Property C40. A regular expression that is not valid leaves its pattern behind when groups are searched
  without the cache: the error is counted and no request for groups is made, but the next command asks the
  servers for the files of the groups chosen before that match the pattern.\<close>

theorem pattern_stays:
  assumes "og_cmdmode (ag_options s) = NOCACHE_GROUPLIST_MODE" "\<not> fatal_user_errors (args_cfg s)"
    and "regex2wildmat a (\<not> case_flag s) = Inr w"
    and "make_grouplist_pred (ne_rxcomp env) (group_words a) (case_flag s) = Inl (Regex_error x)"
  shows "\<exists>s'. setting env (Opt_retrieve a) s = (Inr (), s') \<and>
    nn_status (ag_nntp s') = set_error_status ST_user 1 (nn_status (ag_nntp s)) \<and>
    ag_gpreds s' = ag_gpreds s \<and> ag_pats s' = ag_pats s @ [([], w)] \<and>
    (\<forall>gs. no_requests s \<and> group_list (og_groups (ag_options s)) = Some gs \<longrightarrow>
       flush_pending env s' =
         after_retrieve (s'\<lparr>ag_getinfos := [], ag_pats := []\<rparr>)
           (nntp_xretrieve (run_env env s') (ne_rx env) (ne_clock env) (retr_opts s') gs [] [([], w)] (ag_rands s') (ag_nntp s')))"
proof -
  let ?s = "put_status (set_error_status ST_user 1 (nn_status (ag_nntp s))) (s\<lparr>ag_pats := ag_pats s @ [([], w)]\<rparr>)"
  have set: "setting env (Opt_retrieve a) s = (Inr (), ?s)"
    using assms
    by (simp add: opt_retrieve_def retrieve_groups_def pattern_then_def add_pat_def args_bind_def args_modify_def regex_error_def
        args_user_error_def args_cfg_def case_flag_def opts_flag_def set_user_error_status_and_do_fatal_user_error_def put_status_def)
  have fl: "flush_pending env ?s =
      after_retrieve (?s\<lparr>ag_getinfos := [], ag_pats := []\<rparr>)
        (nntp_xretrieve (run_env env ?s) (ne_rx env) (ne_clock env) (retr_opts ?s) gs [] [([], w)] (ag_rands ?s) (ag_nntp ?s))"
    if "no_requests s" "group_list (og_groups (ag_options s)) = Some gs" for gs
    using flush_pattern [of ?s gs env] that by (simp add: no_requests_def put_status_def)
  show ?thesis by (rule exI [of _ ?s]) (use set fl in \<open>simp add: put_status_def\<close>)
qed

section \<open>Examples\<close>

text \<open>A program whose command line library knows only lists, in a system without directories.\<close>

definition example_nget_env :: "string nget_env" where
  "example_nget_env =
     \<lparr>ne_retr = example_retr_env, ne_rx = (\<lambda>_ _ _. None), ne_rxcomp = (\<lambda>_ _. False), ne_clock = example_clock, ne_date = [],
      ne_sys = example_system, ne_opendir = (\<lambda>_ _. None), ne_popt = (\<lambda>_ ws. List.map Opt_list (filter (\<lambda>w. w \<noteq> ''-@'') ws)),
      ne_getenv = (\<lambda>_. None)\<rparr>"

definition example_args :: args_state where
  "example_args =
     \<lparr>ag_options = nget_options_new ''/h'', ag_getinfos = [], ag_pats = [], ag_gpreds = [], ag_nntp = example_nntp,
      ag_dirs = \<lparr>dr_made = [], dr_cwd = ''/h''\<rparr>, ag_input = [], ag_quiet = 0, ag_timeout = 180, ag_rands = 0, ag_out = [],
      ag_home = ''/h/'', ag_cachehome = ''/h/''\<rparr>"

lemma example_requests: "no_requests example_args" "requests_ok example_args"
  by (simp_all add: no_requests_def requests_ok_def example_args_def)



lemma example_read_args: "read_args (''-@ /l'' @ [CHR 0x0A]) [] = ([''-@'', ''/l''], True)"
  by code_simp

theorem list_in_itself_witness:
  "do_args example_nget_env [Opt_list ''/l'']
     (example_args\<lparr>ag_nntp := example_nntp\<lparr>nn_files := [''/l'' \<mapsto> ''-@ /l'' @ [CHR 0x0A]]\<rparr>\<rparr>) = None"
  by (rule list_in_itself [OF example_read_args])
    (simp_all add: example_nget_env_def example_args_def no_requests_def list_file_def fcheckpath_def file_exists_def)

lemma example_wildmat: "regex2wildmat ''a'' True = Inr ''*[aA]*''"
  by code_simp

lemma example_bad_regex: "make_grouplist_pred (\<lambda>_ _. False) (group_words ''a'') False = Inl (Regex_error ''a'')"
  by code_simp

theorem pattern_stays_witness:
  "\<exists>s'. setting example_nget_env (Opt_retrieve ''a'')
       (set_cmdmode NOCACHE_GROUPLIST_MODE example_args) = (Inr (), s') \<and> ag_pats s' = [([], ''*[aA]*'')] \<and> ag_gpreds s' = []"
proof -
  let ?s = "set_cmdmode NOCACHE_GROUPLIST_MODE example_args"
  have c: "\<not> case_flag ?s" "og_cmdmode (ag_options ?s) = NOCACHE_GROUPLIST_MODE" "ag_pats ?s = []" "ag_gpreds ?s = []"
    by (simp_all add: set_cmdmode_def example_args_def case_flag_def opts_flag_def has_flag_def nget_options_new_def)
  have f: "\<not> fatal_user_errors (args_cfg ?s)"
    by (simp add: set_cmdmode_def example_args_def args_cfg_def example_nntp_def nget_config_new_def)
  show ?thesis
    using pattern_stays [of ?s "''a''" "''*[aA]*''" example_nget_env "''a''"] c f example_wildmat example_bad_regex
    by (auto simp: example_nget_env_def)
qed

theorem exit_status_tells_witness:
  "\<exists>code s2. nget_main example_nget_env [''nget'', ''-T''] example_args = Some (Exit code, s2) \<and> bit code 7"
proof -
  have r: "nget_run example_nget_env [''nget'', ''-T''] example_args = Some (Inl Raised, example_args)"
    by (simp add: nget_run_def startup_def find_home_def getenv_def example_nget_env_def)
  obtain q s2 where m: "main_end example_nget_env (Inl Raised, example_args) = (q, s2)" by fastforce
  then obtain code where "q = Exit code" by (auto simp: main_end_def Let_def)
  then have n: "nget_main example_nget_env [''nget'', ''-T''] example_args = Some (Exit code, s2)"
    using m r by (simp add: nget_main_def)
  have "error_count (nn_status (ag_nntp example_args)) ST_user = 0"
    by (simp add: example_args_def example_nntp_def status_new_def)
  from exit_status_tells [OF this r n] show ?thesis using n by auto
qed


text \<open>A file with a section for the servers and a setting.\<close>

definition example_rc :: string where
  "example_rc = ''cachedir=c'' @ [CHR 0x0A] @ ''{halias'' @ [CHR 0x0A] @ ''}'' @ [CHR 0x0A]"

definition example_section :: cfg_section where
  "example_section = Cfg_section [(''cachedir'', ''c'')] [(''halias'', cs_new)]"

lemma example_rc_load: "cfg_load example_rc cs_new 0 = (example_section, [], 0, 0)"
  by code_simp

text \<open>What is run without an error: its value and some of what it marks.\<close>

definition clean :: "'a cfg \<Rightarrow> 'a \<Rightarrow> cfg_mark set \<Rightarrow> bool" where
  "clean m x M \<longleftrightarrow> (\<forall>s. fst (run_state m s) = x \<and> cfg_status (snd (run_state m s)) = cfg_status s \<and>
     set (cfg_marks s) \<union> M \<subseteq> set (cfg_marks (snd (run_state m s))))"

lemma clean_bind: "clean m x M \<Longrightarrow> clean (f x) y N \<Longrightarrow> clean (State_Monad.bind m f) y (M \<union> N)"
  unfolding clean_def run_bind by (auto 0 4)

lemma clean_return: "clean (State_Monad.return x) x {}"
  by (simp add: clean_def)

lemma clean_mark: "clean (mark_used m) () {m}"
  by (auto simp: clean_def mark_used_def)

lemma clean_section: "clean (getsection sa name) (map_option (\<lambda>s. (fst sa @ [name], s)) (map_of (cs_sections (snd sa)) name)) {}"
  by (auto simp: clean_def getsection_def mark_used_def State_Monad.bind_def)

lemma absent_get: "map_of (cs_items (snd sa)) name = None \<Longrightarrow> clean (cfg_get parse sa name) None {}"
  by (auto simp: clean_def cfg_get_def getitem_def mark_used_def State_Monad.bind_def)

lemma absent_getdef: "map_of (cs_items (snd sa)) name = None \<Longrightarrow> clean (cfg_getdef parse sa name d) d {}"
  using absent_get [of sa name parse] unfolding clean_def cfg_getdef_def run_bind by simp

lemma absent_field: "map_of (cs_items (snd sa)) name = None \<Longrightarrow> clean (cfg_field parse sa name upd c) c {}"
  using absent_get [of sa name parse] unfolding clean_def cfg_field_def run_bind by simp

lemma absent_gets: "map_of (cs_items (snd sa)) name = None \<Longrightarrow> clean (cfg_gets sa name w) w {}"
  by (auto simp: clean_def cfg_gets_def getitem_def mark_used_def State_Monad.bind_def)

lemma present_gets: "map_of (cs_items (snd sa)) name = Some w \<Longrightarrow> clean (cfg_gets sa name d) w {Used_item (fst sa @ [name])}"
  by (auto simp: clean_def cfg_gets_def getitem_def item_gets_def mark_used_def State_Monad.bind_def)

lemma absent_flag: "map_of (cs_items (snd sa)) name = None \<Longrightarrow> clean (flag_setting sa name v f opts) opts {}"
  using absent_get [of sa name "int_in 0 1"] unfolding clean_def flag_setting_def run_bind by simp

lemma absent_word:
  "map_of (cs_items (snd sa)) name = None \<Longrightarrow> f None opts = Some opts \<Longrightarrow> clean (word_setting sa name f fatal (Inr opts)) (Inr opts) {}"
  by (auto simp: clean_def word_setting_def geta_def getitem_def mark_used_def State_Monad.bind_def)

lemma example_setlist:
  "clean (setlist ([], example_section) ([''halias''], cs_new) None None nget_config_new)
     (default_priorities (nget_config_new\<lparr>cf_bindaddr := []\<rparr>)) {Used_section [''halias'']}"
proof -
  have g: "clean (set_globals ([], example_section) nget_config_new) (nget_config_new\<lparr>cf_bindaddr := []\<rparr>) ({} \<union> ({} \<union> ({} \<union> ({} \<union> ({} \<union>
      ({} \<union> ({} \<union> ({} \<union> ({} \<union> ({} \<union> ({} \<union> ({} \<union> ({} \<union> {})))))))))))))"
    unfolding set_globals_def
    by (intro clean_bind [OF absent_field] clean_bind [OF absent_gets] absent_field) (simp_all add: example_section_def)
  have "clean (setlist ([], example_section) ([''halias''], cs_new) None None nget_config_new)
     (default_priorities (nget_config_new\<lparr>cf_bindaddr := []\<rparr>)) ({} \<union> ({Used_section [''halias'']} \<union> ({} \<union> ({} \<union> {}))))"
    unfolding setlist_def fst_conv option.case
    by (rule clean_bind [OF g [simplified]], rule clean_bind [OF clean_mark])
      (simp add: cs_new_def, intro clean_bind [OF clean_return] clean_return)
  then show ?thesis by simp
qed

lemma clean_any: "clean m x M \<Longrightarrow> x = y \<Longrightarrow> N \<subseteq> M \<Longrightarrow> clean m y N"
  by (auto simp: clean_def)

lemma example_settings:
  "clean (read_settings ([], example_section) fatal [] opts)
     (Inr \<lparr>rs_options = opts, rs_quiet = 0, rs_timeout = 180, rs_cachehome = ''c''\<rparr>) {Used_item [''cachedir'']}"
  unfolding read_settings_def
  by (rule clean_any,
      (rule clean_bind [OF absent_getdef], simp add: example_section_def)+,
      (rule clean_bind [OF absent_field], simp add: example_section_def)+,
      (rule clean_bind [OF absent_flag], simp add: example_section_def)+,
      rule clean_bind [OF absent_get], simp add: example_section_def,
      rule clean_bind [OF absent_flag], simp add: example_section_def,
      (rule clean_bind [OF absent_word], simp add: example_section_def, simp add: set_test_multi_def set_text_handling_def set_makedirs_def)+,
      simp, rule clean_bind [OF present_gets], simp add: example_section_def, rule clean_return, simp_all)

definition example_setup :: "nget_config \<times> rc_settings" where
  "example_setup =
     (default_priorities (nget_config_new\<lparr>cf_bindaddr := []\<rparr>),
      \<lparr>rs_options = nget_options_new [], rs_quiet = 0, rs_timeout = 180, rs_cachehome = ''c''\<rparr>)"

lemma example_read_rc:
  "clean (read_rc example_section [] nget_config_new (nget_options_new [])) (Inr example_setup)
     {Used_section [''halias''], Used_item [''cachedir'']}"
proof -
  have r: "clean (State_Monad.bind (setlist ([], example_section) ([''halias''], cs_new) None None nget_config_new) (\<lambda>c.
      State_Monad.bind (read_settings ([], example_section) (fatal_user_errors c) [] (nget_options_new [])) (\<lambda>r.
        State_Monad.return (case r of Inl u \<Rightarrow> Inl User_fatal | Inr rs \<Rightarrow> Inr (c, rs)))))
     (Inr example_setup) {Used_section [''halias''], Used_item [''cachedir'']}"
    by (rule clean_any, rule clean_bind [OF example_setlist], rule clean_bind [OF example_settings], rule clean_return)
      (auto simp: example_setup_def)
  have s: "map_option (\<lambda>s. ([n], s)) (map_of (cs_sections example_section) n) = (if n = ''halias'' then Some ([n], cs_new) else None)" for n
    by (simp add: example_section_def)
  show ?thesis
    unfolding read_rc_def
    by (rule clean_any, (rule clean_bind [OF clean_section])+, simp add: s, rule r) simp_all
qed

lemma example_config_read:
  "\<exists>st. read_config example_rc [] Some nget_config_new (nget_options_new []) status_new = (Inr example_setup, st) \<and>
     error_count st ST_user = error_count status_new ST_user"
proof -
  let ?s = "\<lparr>cfg_marks = [], cfg_status = set_error_status ST_user (int 0) status_new\<rparr>"
  obtain q cs where q: "run_state (read_rc example_section [] nget_config_new (nget_options_new [])) ?s = (q, cs)" by fastforce
  then have cl: "q = Inr example_setup" "cfg_status cs = status_new"
    "Used_section [''halias''] \<in> set (cfg_marks cs)" "Used_item [''cachedir''] \<in> set (cfg_marks cs)"
    using example_read_rc [unfolded clean_def, THEN spec [of _ ?s]] by auto
  then have "check_unused (cfg_marks cs) [] example_section = 0" by (simp add: example_section_def cs_new_def)
  moreover have "rs_cachehome (snd example_setup) = ''c''" by (simp add: example_setup_def)
  ultimately show ?thesis
    using q cl by (cases example_setup) (simp add: read_config_def example_rc_load)
qed

theorem settings_reported_witness:
  "item_at example_section [''cachedir''] \<and> known_item rc_keys [''cachedir'']"
proof -
  obtain st where "read_config example_rc [] Some nget_config_new (nget_options_new []) status_new = (Inr example_setup, st)"
    "error_count st ST_user = error_count status_new ST_user" using example_config_read by blast
  from settings_reported [OF example_rc_load this] have "known_item rc_keys p" if "item_at example_section p" for p
    using that by blast
  moreover have "item_at example_section [''cachedir'']" by (simp add: example_section_def)
  ultimately show ?thesis by blast
qed

end
