(* ===== verification/Spec2Isabelle.thy ===== *)
theory Spec2Isabelle
  imports Nrange CString Strings Buffy Knapsack Server Midinfo Article Dupes Cache CacheIO Grouplist ParFile Par
    Dates Etree Status Conn Nntp NntpList Pool Retry Fetch Texthandler Decode ParMoves Retrieve Config Options Nget
begin

text \<open>
  Verification library for nget, the command line fetcher of news articles (\<open>src/*.cc\<close> and \<open>src/*.h\<close>).

  \<^bold>\<open>The program.\<close> nget reads its configuration, asks news servers for the headers of groups and keeps them in
  a cache per group, chooses postings by expressions, fetches the articles of their parts from the best
  servers, has them decoded, and records what was fetched, so that it is not fetched again. The
  theories follow its parts, from the data up:

  \<^item> \<open>Prelude\<close>, \<open>CString\<close>: words, the ordered containers of C++ as lists of pairs, and the number and
    character functions of the C library that the parsers and printers use.
  \<^item> \<open>Nrange\<close> (\<open>nrange\<close>): the sets of article numbers that were seen. \<open>Strings\<close> (\<open>strtoker\<close>, \<open>path\<close>,
    \<open>argparser\<close>, \<open>misc\<close>), \<open>Dates\<close> (\<open>misc.cc\<close>), \<open>Buffy\<close> (\<open>buffy.h\<close>, \<open>file.cc\<close>) and \<open>Knapsack\<close>
    (\<open>knapsack\<close>): the utilities.
  \<^item> \<open>Server\<close> (\<open>server\<close>): servers, priorities, groups, penalties. \<open>Config\<close> (\<open>cfgfile\<close>, \<open>server.cc\<close>): the
    configuration file and what \<open>setlist\<close> makes of it. \<open>Status\<close> (\<open>status\<close>): the counters and the exit status.
  \<^item> \<open>Article\<close>, \<open>Cache\<close>, \<open>CacheIO\<close>, \<open>Midinfo\<close> (\<open>cache\<close>): parts and files, the header cache of a group, its
    file, the choice of files, and the record of what was fetched. \<open>Grouplist\<close> (\<open>grouplist\<close>): the list of
    newsgroups. \<open>Dupes\<close> (\<open>dupe_file\<close>, \<open>myregex\<close>): files that are there already. \<open>Etree\<close> (\<open>etree\<close>):
    the expressions that choose files and groups.
  \<^item> \<open>ParFile\<close>, \<open>Par\<close>, \<open>ParMoves\<close> (\<open>par\<close>): recovery files, which are fetched only as far as they are needed.
  \<^item> \<open>Conn\<close>, \<open>Pool\<close> (\<open>sockpool\<close>): connections and their pool. \<open>Nntp\<close>, \<open>NntpList\<close>, \<open>Retry\<close>, \<open>Fetch\<close>,
    \<open>Retrieve\<close> (\<open>prot_nntp\<close>): the commands on one server, the rounds over all servers, one article,
    and the retrieval of all files that were chosen. \<open>Texthandler\<close>, \<open>Decode\<close>: text messages and
    the work around the decoder.
  \<^item> \<open>Options\<close>, \<open>Nget\<close> (\<open>nget\<close>): the options, the directories they name, \<open>do_args\<close> with all its commands, and
    \<open>main\<close>.

  \<^bold>\<open>How the code is modelled.\<close> Classes are records, enumerations are datatypes, an operation is a function
  from the state before to its result and the state after; exceptions, \<open>exit\<close> and failed assertions are
  the left side of a sum. \<open>ulong\<close> and \<open>int\<close> flags are words; counters and sizes held in an \<open>int\<close> are
  integers where the code cannot overflow them in practice, and floats are rationals. Pointers to servers and groups are positions in
  the lists of the configuration, which only grow. The disk is a function from names to contents; a file that is written under a
  temporary name and renamed is one replacement of the content. Reads and writes may be short
  or fail, and a server may answer anything at any time.

  \<^bold>\<open>What is an argument.\<close> Regular expressions, MD5 and checksums, the PAR2 repairer, the decoder uulib, the
  library that parses the command line, the environment, the system's answers about directories, the clock with its
  zone, random numbers, and the servers. Nothing is assumed of them, except where a
  theorem names it as a hypothesis.

  \<^bold>\<open>Loops.\<close> Loops over a finite structure are recursive functions with a measure. Loops that may run
  forever are \<open>partial_function (option)\<close>, and \<open>None\<close> is a run without end: the expansion of metagroups
  (\<open>Server\<close>; it ends for ranked metagroups and not for one that names itself), the retrieval of files
  (\<open>Retrieve\<close>; it always ends), the search for a free file name (\<open>Texthandler\<close>), and the options
  (\<open>Nget\<close>; a list that names itself is never left).

  \<^bold>\<open>What is proved.\<close> The data structures do what their interfaces say: the ranges are a set of numbers, the parts
  a keyed store, the buffer a stream of bytes, all for the interface as a locale interpreted on the model; the knapsack
  solution is optimal. What is written is read back: caches, records of
  fetched messages, configuration files, mailboxes. Adding, merging and flushing headers keeps the cache
  well-formed, also through any exchange with any servers. The connections are bounded, the servers
  are asked in a bounded number of rounds, pipelined requests mean the same as single ones. A fetched
  file holds one whole article, nothing is recorded as fetched before the decoder is content, no other
  file on disk is touched. Recovery files are fetched as few as needed. Settings that the program does
  not know are reported, requests stay with the mode and the groups they were made for, and
  the exit status tells of every error. Where the code does not do what it
  means to, a theorem says what it does instead.

  \<^bold>\<open>Not modelled.\<close> Sockets, terminal output and progress displays, lock files, compressed files, signal
  handlers and the help text are calls into the system without state of their own. The programs
  \<open>lite.cc\<close> and \<open>litenntp.cc\<close> are separate from nget. \<open>src/par2\<close> is a vendored copy of par2cmdline, an
  argument of the model. The parser for the words of the command line is the library popt. The files under
  \<open>src/compat\<close> replace missing C functions, and \<open>src/test\<close> holds the tests.
\<close>

end
